(* ===== verification/Prelude.thy ===== *)
theory Prelude
  imports Main "HOL-Library.AList" "HOL-Library.Word"
begin

text \<open>
  Shared foundations: the program combinators the models are written in, a weakest
  precondition calculus for them that the simplifier runs, step systems with their reachable
  states, and generic lemmas on insertion-ordered dictionaries and bounded buffers.

  A method of the code is a program: a function of the state that returns either the exception
  it raises (\<open>Inl\<close>) or its result (\<open>Inr\<close>), and the new state. The state changes made
  before an exception are kept, as in Python. \<open>try_finally\<close> and \<open>try_except\<close> have
  Python's meaning: an exception of the handler or of the finalizer replaces the pending one.
\<close>

named_theorems prog_defs "definitions of the program combinators"
named_theorems wp_simps "weakest precondition equations"
named_theorems dict_simps "insertion-ordered dictionaries"

type_synonym byte = "8 word"

section \<open>Programs\<close>

type_synonym ('s, 'e, 'a) prog = "'s \<Rightarrow> ('e + 'a) \<times> 's"

definition ret :: "'a \<Rightarrow> ('s, 'e, 'a) prog" where
  [prog_defs]: "ret x s = (Inr x, s)"

definition raise_exc :: "'e \<Rightarrow> ('s, 'e, 'a) prog" where
  [prog_defs]: "raise_exc e s = (Inl e, s)"

definition bnd :: "('s, 'e, 'a) prog \<Rightarrow> ('a \<Rightarrow> ('s, 'e, 'b) prog) \<Rightarrow> ('s, 'e, 'b) prog" where
  [prog_defs]: "bnd m f s = (case m s of (Inl e, t) \<Rightarrow> (Inl e, t) | (Inr x, t) \<Rightarrow> f x t)"

definition andthen :: "('s, 'e, 'a) prog \<Rightarrow> ('s, 'e, 'b) prog \<Rightarrow> ('s, 'e, 'b) prog" where
  [prog_defs]: "andthen m n = bnd m (\<lambda>_. n)"

definition getf :: "('s \<Rightarrow> 'a) \<Rightarrow> ('s, 'e, 'a) prog" where
  [prog_defs]: "getf f s = (Inr (f s), s)"

definition modf :: "('s \<Rightarrow> 's) \<Rightarrow> ('s, 'e, unit) prog" where
  [prog_defs]: "modf f s = (Inr (), f s)"

definition whenp :: "bool \<Rightarrow> ('s, 'e, unit) prog \<Rightarrow> ('s, 'e, unit) prog" where
  [prog_defs]: "whenp b m = (if b then m else ret ())"

definition try_finally ::
  "('s, 'e, 'a) prog \<Rightarrow> ('s, 'e, unit) prog \<Rightarrow> ('s, 'e, 'a) prog" where
  [prog_defs]: "try_finally m f s =
     (case m s of (r, t) \<Rightarrow> (case f t of (Inl e, u) \<Rightarrow> (Inl e, u) | (Inr _, u) \<Rightarrow> (r, u)))"

definition try_except ::
  "('s, 'e, 'a) prog \<Rightarrow> ('e \<Rightarrow> ('s, 'e, 'a) prog) \<Rightarrow> ('s, 'e, 'a) prog" where
  [prog_defs]: "try_except m h s = (case m s of (Inl e, t) \<Rightarrow> h e t | (Inr x, t) \<Rightarrow> (Inr x, t))"

fun for_each :: "('a \<Rightarrow> ('s, 'e, unit) prog) \<Rightarrow> 'a list \<Rightarrow> ('s, 'e, unit) prog" where
  "for_each f [] = ret ()"
| "for_each f (x # xs) = andthen (f x) (for_each f xs)"

section \<open>Weakest preconditions\<close>

text \<open>
  \<open>wp m Q E s\<close>: run from \<open>s\<close>, the program ends normally in \<open>Q\<close> or with an
  exception in \<open>E\<close>.
\<close>

definition wp ::
  "('s, 'e, 'a) prog \<Rightarrow> ('a \<Rightarrow> 's \<Rightarrow> bool) \<Rightarrow> ('e \<Rightarrow> 's \<Rightarrow> bool) \<Rightarrow> 's \<Rightarrow> bool" where
  "wp m Q E s = (case m s of (Inr x, t) \<Rightarrow> Q x t | (Inl e, t) \<Rightarrow> E e t)"

lemma wp_ret [wp_simps]: "wp (ret x) Q E = Q x"
  by (simp add: wp_def ret_def fun_eq_iff)

lemma wp_raise [wp_simps]: "wp (raise_exc e) Q E = E e"
  by (simp add: wp_def raise_exc_def fun_eq_iff)

lemma wp_bnd [wp_simps]: "wp (bnd m f) Q E = wp m (\<lambda>x. wp (f x) Q E) E"
  by (simp add: wp_def bnd_def fun_eq_iff split: prod.split sum.split)

lemma wp_andthen [wp_simps]: "wp (andthen m n) Q E = wp m (\<lambda>_. wp n Q E) E"
  by (simp add: andthen_def wp_bnd)

lemma wp_getf [wp_simps]: "wp (getf f) Q E s = Q (f s) s"
  by (simp add: wp_def getf_def)

lemma wp_modf [wp_simps]: "wp (modf f) Q E s = Q () (f s)"
  by (simp add: wp_def modf_def)

lemma wp_whenp [wp_simps]: "wp (whenp b m) Q E s = ((b \<longrightarrow> wp m Q E s) \<and> (\<not> b \<longrightarrow> Q () s))"
  by (simp add: whenp_def wp_ret)

lemma wp_if [wp_simps]:
  "wp (if b then m else n) Q E s = ((b \<longrightarrow> wp m Q E s) \<and> (\<not> b \<longrightarrow> wp n Q E s))"
  by simp

lemma wp_case_option [wp_simps]:
  "wp (case x of None \<Rightarrow> m | Some y \<Rightarrow> f y) Q E s =
     ((x = None \<longrightarrow> wp m Q E s) \<and> (\<forall>y. x = Some y \<longrightarrow> wp (f y) Q E s))"
  by (cases x) simp_all

lemma wp_finally [wp_simps]:
  "wp (try_finally m f) Q E =
     wp m (\<lambda>x. wp f (\<lambda>_. Q x) E) (\<lambda>e. wp f (\<lambda>_. E e) E)"
  by (simp add: wp_def try_finally_def fun_eq_iff split: prod.split sum.split)

lemma wp_except [wp_simps]:
  "wp (try_except m h) Q E = wp m Q (\<lambda>e. wp (h e) Q E)"
  by (simp add: wp_def try_except_def fun_eq_iff split: prod.split sum.split)

lemma wp_mono:
  assumes "wp m Q E s"
    and "\<And>x t. Q x t \<Longrightarrow> Q' x t" and "\<And>e t. E e t \<Longrightarrow> E' e t"
  shows "wp m Q' E' s"
  using assms by (auto simp: wp_def split: prod.splits sum.splits)

lemma wp_for_each:
  assumes "\<And>x t. x \<in> set xs \<Longrightarrow> I t \<Longrightarrow> wp (f x) (\<lambda>_. I) (\<lambda>_. I) t" and "I s"
  shows "wp (for_each f xs) (\<lambda>_. I) (\<lambda>_. I) s"
  using assms
proof (induction xs arbitrary: s)
  case Nil
  then show ?case by (simp add: wp_ret)
next
  case (Cons x xs)
  have "wp (f x) (\<lambda>_. I) (\<lambda>_. I) s" using Cons.prems by simp
  then have "wp (f x) (\<lambda>_. wp (for_each f xs) (\<lambda>_. I) (\<lambda>_. I)) (\<lambda>_. I) s"
    by (rule wp_mono) (use Cons in auto)
  then show ?case by (simp add: wp_andthen)
qed

lemma wp_fst_snd: "wp m (\<lambda>x t. P (Inr x) t) (\<lambda>e t. P (Inl e) t) s = P (fst (m s)) (snd (m s))"
  by (simp add: wp_def split: prod.split sum.split)

lemma wp_stateI: "wp m (\<lambda>_. I) (\<lambda>_. I) s \<Longrightarrow> I (snd (m s))"
  by (auto simp: wp_def split: prod.splits sum.splits)

lemma wp_stateD: "I (snd (m s)) \<Longrightarrow> wp m (\<lambda>_. I) (\<lambda>_. I) s"
  by (auto simp: wp_def split: prod.splits sum.splits)

lemma wp_resultI:
  "wp m Q E s \<Longrightarrow> m s = (Inr x, t) \<Longrightarrow> Q x t"
  "wp m Q E s \<Longrightarrow> m s = (Inl e, t) \<Longrightarrow> E e t"
  by (auto simp: wp_def)

section \<open>Step systems\<close>

text \<open>The states reachable from an initial state by a step relation.\<close>

inductive reach :: "('s \<Rightarrow> bool) \<Rightarrow> ('s \<Rightarrow> 's \<Rightarrow> bool) \<Rightarrow> 's \<Rightarrow> bool"
  for init :: "'s \<Rightarrow> bool" and step :: "'s \<Rightarrow> 's \<Rightarrow> bool" where
  reach_init: "init s \<Longrightarrow> reach init step s"
| reach_step: "reach init step s \<Longrightarrow> step s t \<Longrightarrow> reach init step t"

lemma reach_steps: "step\<^sup>*\<^sup>* s t \<Longrightarrow> reach init step s \<Longrightarrow> reach init step t"
  by (induction rule: rtranclp_induct) (auto intro: reach_step)

text \<open>
  The contract of an inductive invariant: it holds at the start and every step keeps it. The
  client gets it for every reachable state and for every run.
\<close>

locale step_invariant =
  fixes init :: "'s \<Rightarrow> bool" and step :: "'s \<Rightarrow> 's \<Rightarrow> bool" and inv :: "'s \<Rightarrow> bool"
  assumes inv_init: "init s \<Longrightarrow> inv s"
    and inv_step: "inv s \<Longrightarrow> step s t \<Longrightarrow> inv t"
begin

lemma reach_inv: "reach init step s \<Longrightarrow> inv s"
  by (induction rule: reach.induct) (auto intro: inv_init inv_step)

lemma steps_inv: "step\<^sup>*\<^sup>* s t \<Longrightarrow> inv s \<Longrightarrow> inv t"
  by (induction rule: rtranclp_induct) (auto intro: inv_step)

end

section \<open>Insertion-ordered dictionaries\<close>

text \<open>
  A Python \<open>dict\<close> keeps its keys in insertion order: an association list with distinct
  keys. \<open>AList.update\<close> replaces in place or appends, \<open>AList.delete\<close> removes.
\<close>

definition dict_ok :: "('k \<times> 'v) list \<Rightarrow> bool" where
  "dict_ok d \<longleftrightarrow> distinct (map fst d)"

lemma dict_ok_Nil [simp]: "dict_ok []"
  by (simp add: dict_ok_def)

lemma dict_ok_update [simp]: "dict_ok d \<Longrightarrow> dict_ok (AList.update k v d)"
  by (simp add: dict_ok_def distinct_update)

lemma dict_ok_delete [simp]: "dict_ok d \<Longrightarrow> dict_ok (AList.delete k d)"
  by (simp add: dict_ok_def distinct_delete)

lemma dict_get_update [dict_simps]:
  "map_of (AList.update k v d) k' = (if k' = k then Some v else map_of d k')"
  by (simp add: update_conv')

lemma dict_get_delete [dict_simps]:
  "map_of (AList.delete k d) k' = (if k' = k then None else map_of d k')"
  by (simp add: delete_conv')

lemma dict_update_new: "map_of d k = None \<Longrightarrow> AList.update k v d = d @ [(k, v)]"
  by (induction d) (auto split: if_splits)

lemma dict_keys_update:
  "map fst (AList.update k v d) = (if k \<in> set (map fst d) then map fst d else map fst d @ [k])"
  by (induction d) auto

lemma dict_length_delete: "length (AList.delete k d) \<le> length d"
  by (simp add: AList.delete_eq)

lemma map_of_rev_distinct: "distinct (map fst xs) \<Longrightarrow> map_of (rev xs) = map_of xs"
  by (subst map_of_inject_set) (simp_all add: rev_map [symmetric])

lemma map_of_map_inj:
  "inj k \<Longrightarrow> map_of (map (\<lambda>(n, c). (k n, c)) xs) (k n) = map_of xs n"
  by (induction xs) (auto simp: inj_eq)

section \<open>Bounded buffers\<close>

text \<open>\<open>collections.deque(maxlen=n)\<close>: an append drops the oldest element when it is full.\<close>

definition deque_append :: "nat \<Rightarrow> 'a \<Rightarrow> 'a list \<Rightarrow> 'a list" where
  "deque_append n x q = (let q' = q @ [x] in drop (length q' - n) q')"

lemma deque_append_bound: "length (deque_append n x q) \<le> n"
  by (simp add: deque_append_def Let_def)

lemma deque_append_drop:
  "deque_append n x (drop (length l - n) l) = drop (length (l @ [x]) - n) (l @ [x])"
proof (cases "n \<le> length l")
  case True
  then show ?thesis
    by (cases n) (simp_all add: deque_append_def Let_def Suc_diff_Suc Suc_le_lessD)
next
  case False
  then show ?thesis by (simp add: deque_append_def Let_def)
qed

lemma deque_append_last: "0 < n \<Longrightarrow> x \<in> set (deque_append n x q)"
proof -
  assume "0 < n"
  then have "length (q @ [x]) - n \<le> length q" by simp
  then show ?thesis by (simp add: deque_append_def Let_def)
qed

end
