(* ===== verification/Errors.thy ===== *)
theory Errors
  imports Prelude
begin

text \<open>
  The exception hierarchy of \<^verbatim>\<open>pynng/exceptions.py\<close>: the exception classes, the other
  Python exceptions the package raises or meets, the map from nng error numbers to classes.
  The numbers themselves are constants of the nng headers, so \<open>exception_map\<close> takes them as
  the argument \<open>k\<close>.
\<close>

section \<open>Exception classes\<close>

text \<open>Every class derives directly from \<open>NNGException\<close>.\<close>

datatype exc_class =
    NNGException | Interrupted | NoMemory | InvalidOperation | Busy | Timeout
  | ConnectionRefused | Closed | TryAgain | NotSupported | AddressInUse | BadState | NoEntry
  | ProtocolError | DestinationUnreachable | AddressInvalid | PermissionDenied
  | MessageTooLarge | ConnectionReset | ConnectionAborted | Canceled | OutOfFiles | OutOfSpace
  | AlreadyExists | ReadOnly | WriteOnly | CryptoError | AuthenticationError | NoArgument
  | Ambiguous | BadType | Internal | Stopped

text \<open>
  An \<open>NNGErr\<close> carries the class, the message and the \<open>errno\<close> attribute. The others
  are the Python exceptions of the modelled code; \<open>KeyboardInterrupt\<close>,
  \<open>CancelledError\<close> and \<open>StopAsyncIteration\<close> matter for what a handler catches.
\<close>

datatype pyexc =
    NNGErr exc_class string int
  | MessageStateError
  | ValueError | TypeError | RuntimeError | KeyError | AttributeError | BufferError
  | AssertionError | NotImplementedError | OverflowError | OSError | UnicodeDecodeError
  | StopAsyncIteration | EndOfChannel | WouldBlock
  | CancelledError | GeneratorExit | KeyboardInterrupt

text \<open>
  \<open>except Exception\<close> does not catch \<open>KeyboardInterrupt\<close>,
  \<open>CancelledError\<close> and \<open>GeneratorExit\<close> (thrown into a coroutine that is dropped),
  which derive from \<open>BaseException\<close> only.
\<close>

definition is_Exception :: "pyexc \<Rightarrow> bool" where
  "is_Exception e \<longleftrightarrow> e \<noteq> CancelledError \<and> e \<noteq> GeneratorExit \<and> e \<noteq> KeyboardInterrupt"

text \<open>The handler clauses \<open>except C\<close> for one class and for the whole hierarchy.\<close>

definition is_nng :: "exc_class \<Rightarrow> pyexc \<Rightarrow> bool" where
  "is_nng C e = (case e of NNGErr c m n \<Rightarrow> C = NNGException \<or> c = C | _ \<Rightarrow> False)"

lemma is_nng_simps [simp]:
  "is_nng C (NNGErr c m n) \<longleftrightarrow> C = NNGException \<or> c = C"
  "\<not> is_nng C KeyboardInterrupt" "\<not> is_nng C CancelledError" "\<not> is_nng C ValueError"
  "\<not> is_nng C MessageStateError" "\<not> is_nng C TypeError" "\<not> is_nng C RuntimeError"
  by (simp_all add: is_nng_def)

definition errno_of :: "pyexc \<Rightarrow> int option" where
  "errno_of e = (case e of NNGErr c m n \<Rightarrow> Some n | _ \<Rightarrow> None)"

section \<open>Error numbers\<close>

datatype errname =
    EINTR | ENOMEM | EINVAL | EBUSY | ETIMEDOUT | ECONNREFUSED | ECLOSED | EAGAIN | ENOTSUP
  | EADDRINUSE | ESTATE | ENOENT | EPROTO | EUNREACHABLE | EADDRINVAL | EPERM | EMSGSIZE
  | ECONNRESET | ECONNABORTED | ECANCELED | ENOFILES | ENOSPC | EEXIST | EREADONLY
  | EWRITEONLY | ECRYPTO | EPEERAUTH | ENOARG | EAMBIGUOUS | EBADTYPE | EINTERNAL

text \<open>The entries of the dictionary literal, in the order of the source.\<close>

definition exception_table :: "(errname \<times> exc_class) list" where
  "exception_table =
    [(EINTR, Interrupted), (ENOMEM, NoMemory), (EINVAL, InvalidOperation), (EBUSY, Busy),
     (ETIMEDOUT, Timeout), (ECONNREFUSED, ConnectionRefused), (ECLOSED, Closed),
     (EAGAIN, TryAgain), (ENOTSUP, NotSupported), (EADDRINUSE, AddressInUse),
     (ESTATE, BadState), (ENOENT, NoEntry), (EPROTO, ProtocolError),
     (EUNREACHABLE, DestinationUnreachable), (EADDRINVAL, AddressInvalid),
     (EPERM, PermissionDenied), (EMSGSIZE, MessageTooLarge), (ECONNRESET, ConnectionReset),
     (ECONNABORTED, ConnectionAborted), (ECANCELED, Canceled), (ENOFILES, OutOfFiles),
     (ENOSPC, OutOfSpace), (EEXIST, AlreadyExists), (EREADONLY, ReadOnly),
     (EWRITEONLY, WriteOnly), (ECRYPTO, CryptoError), (EPEERAUTH, AuthenticationError),
     (ENOARG, NoArgument), (EAMBIGUOUS, Ambiguous), (EBADTYPE, BadType),
     (EINTERNAL, Internal)]"

text \<open>
  \<open>EXCEPTION_MAP\<close>: the literal, a later entry overwriting an earlier one with the same
  number, and then the entry 999 for \<open>NNG_ESTOPPED\<close>.
\<close>

definition EXCEPTION_MAP :: "(errname \<Rightarrow> int) \<Rightarrow> (int \<times> exc_class) list" where
  "EXCEPTION_MAP k =
     AList.update 999 Stopped
       (fold (\<lambda>(n, c) d. AList.update (k n) c d) exception_table [])"

definition exc_for :: "(errname \<Rightarrow> int) \<Rightarrow> int \<Rightarrow> exc_class" where
  "exc_for k e = (case map_of (EXCEPTION_MAP k) e of None \<Rightarrow> NNGException | Some c \<Rightarrow> c)"

text \<open>The numbers of the nng headers: distinct, none of them 0 or 999.\<close>

definition errnos_ok :: "(errname \<Rightarrow> int) \<Rightarrow> bool" where
  "errnos_ok k \<longleftrightarrow> inj k \<and> (\<forall>n. k n \<noteq> 0 \<and> k n \<noteq> 999)"

text \<open>The values of the generated header of nng v2, with the two names only v1 has.\<close>

fun nng_errno :: "errname \<Rightarrow> int" where
  "nng_errno EINTR = 1" | "nng_errno ENOMEM = 2" | "nng_errno EINVAL = 3"
| "nng_errno EBUSY = 4" | "nng_errno ETIMEDOUT = 5" | "nng_errno ECONNREFUSED = 6"
| "nng_errno ECLOSED = 7" | "nng_errno EAGAIN = 8" | "nng_errno ENOTSUP = 9"
| "nng_errno EADDRINUSE = 10" | "nng_errno ESTATE = 11" | "nng_errno ENOENT = 12"
| "nng_errno EPROTO = 13" | "nng_errno EUNREACHABLE = 14" | "nng_errno EADDRINVAL = 15"
| "nng_errno EPERM = 16" | "nng_errno EMSGSIZE = 17" | "nng_errno ECONNABORTED = 18"
| "nng_errno ECONNRESET = 19" | "nng_errno ECANCELED = 20" | "nng_errno ENOFILES = 21"
| "nng_errno ENOSPC = 22" | "nng_errno EEXIST = 23" | "nng_errno EREADONLY = 24"
| "nng_errno EWRITEONLY = 25" | "nng_errno ECRYPTO = 26" | "nng_errno EPEERAUTH = 27"
| "nng_errno ENOARG = 28" | "nng_errno EAMBIGUOUS = 29" | "nng_errno EBADTYPE = 30"
| "nng_errno EINTERNAL = 1000"

lemma errnos_ok_nng_errno: "errnos_ok nng_errno"
proof -
  have "inj nng_errno"
  proof (rule injI)
    fix a b assume "nng_errno a = nng_errno b"
    then show "a = b" by (cases a; cases b) simp_all
  qed
  moreover have "nng_errno n \<noteq> 0 \<and> nng_errno n \<noteq> 999" for n by (cases n) simp_all
  ultimately show ?thesis by (simp add: errnos_ok_def)
qed

section \<open>Properties of the map\<close>

lemma errno_eq_iff: "errnos_ok k \<Longrightarrow> k a = k b \<longleftrightarrow> a = b"
  by (auto simp: errnos_ok_def inj_def)

lemma fold_update_map_of:
  "map_of (fold (\<lambda>(n, c) d. AList.update (k n) c d) xs d) =
     map_of d ++ map_of (rev (map (\<lambda>(n, c). (k n, c)) xs))"
  by (induction xs arbitrary: d) (auto simp: update_conv' map_add_def split: option.splits)

lemma exception_table_distinct: "distinct (map fst exception_table)"
  by (simp add: exception_table_def)

lemma exception_table_total: "n \<in> fst ` set exception_table"
  by (cases n) (simp_all add: exception_table_def)

lemma map_of_EXCEPTION_MAP:
  assumes "errnos_ok k"
  shows "map_of (EXCEPTION_MAP k) e =
    (if e = 999 then Some Stopped
     else map_of (map (\<lambda>(n, c). (k n, c)) exception_table) e)"
proof -
  let ?t = "map (\<lambda>(n, c). (k n, c)) exception_table"
  have keys: "map fst ?t = map k (map fst exception_table)"
    by (simp add: case_prod_unfold comp_def)
  have "inj k" using assms by (simp add: errnos_ok_def)
  then have "distinct (map fst ?t)"
    unfolding keys using exception_table_distinct
    by (metis distinct_map inj_on_subset subset_UNIV)
  then have "map_of (rev ?t) = map_of ?t" by (rule map_of_rev_distinct)
  then show ?thesis
    unfolding EXCEPTION_MAP_def by (simp add: dict_simps fold_update_map_of)
qed

lemma exc_for_table:
  assumes "errnos_ok k" and "(n, c) \<in> set exception_table"
  shows "exc_for k (k n) = c"
proof -
  let ?t = "map (\<lambda>(n, c). (k n, c)) exception_table"
  have "inj k" "k n \<noteq> 999" using assms(1) by (auto simp: errnos_ok_def)
  moreover have "map_of ?t (k n) = map_of exception_table n"
    using \<open>inj k\<close> by (rule map_of_map_inj)
  moreover have "map_of exception_table n = Some c"
    using assms(2) exception_table_distinct by (rule map_of_is_SomeI[rotated])
  ultimately show ?thesis
    using assms(1) by (simp add: exc_for_def map_of_EXCEPTION_MAP)
qed

end
