(* ===== verification/Nng.thy ===== *)
theory Nng
  imports Errors
begin

text \<open>
  The boundary to the nng C library. pynng reaches nng through the attributes \<open>_lib\<close> and
  \<open>_ffi\<close> of its objects, and nng is not part of the repository, so the library is an argument
  \<open>L\<close> of every definition that calls it: any function from the calls made so far and the next
  call to a result. A result may carry an exception, which is raised as the call returns
  (\<open>KeyboardInterrupt\<close> from a signal, \<open>OverflowError\<close> from the conversion of an
  argument). Every call is recorded in the field \<open>calls\<close> of the world, so a property can speak
  about what was asked of nng and in which order.

  The second half is the reference for memory safety: \<open>ledger\<close> follows, along a call
  sequence, who owns each message by nng's documented rules, and \<open>safe\<close> says that no call uses a
  message its caller does not own (so nothing is freed twice or used after it was sent or freed).
\<close>

section \<open>Calls and results\<close>

datatype recv_fn = Nng_recv_aio | Nng_socket_recv | Nng_ctx_recv
datatype send_fn = Nng_send_aio | Nng_socket_send | Nng_ctx_send

text \<open>
  Python values as arguments: a float is \<open>m * 2 ^ e\<close>; \<open>PObj\<close> is any other object, and
  \<open>PTls\<close> a \<open>TLSConfig\<close> by its number.
\<close>

datatype pyval =
    PInt int | PBool bool | PFloat int int | PNan | PInf | PStr "nat list" | PBytes "nat list"
  | PNone | PCData int | PTls nat | PObj

datatype carg = CInt int | CStr "nat list" | CPy pyval | COut

text \<open>
  One constructor per nng function, with its handle and value arguments, grouped by message,
  aio, socket and endpoint creation (\<open>Ep_create True\<close> is the dialer's function, \<open>False\<close>
  the listener's); pointers and handles
  are \<open>int\<close>, \<open>NULL\<close> is 0. \<open>Await_shield\<close> is not a C call: it is
  \<open>await asyncio.shield(fut)\<close> for the future of an aio, the point where a coroutine waits for
  nng and where a cancellation is raised. \<open>Fn\<close> is every function that the code looks up by a
  computed name or that has no state of its own in the model: its name and arguments.
\<close>

datatype msg_call =
    Msg_alloc nat | Msg_append int "byte list" | Msg_free int | Msg_dup int
  | Msg_len int | Msg_body int | Msg_header_len int | Msg_header int
  | Msg_header_append int "byte list" | Msg_header_trim int int | Msg_header_chop int int
  | Msg_header_clear int | Msg_set_pipe int int | Msg_get_pipe int
  | Recvmsg int int | Ctx_recvmsg int int | Sendmsg int int int | Send int "byte list" nat int

datatype aio_call =
    Aio_alloc int | Aio_free int | Aio_set_timeout int int | Aio_set_msg int int
  | Aio_get_msg int | Aio_wait int | Aio_cancel int | Aio_abort int int | Aio_result int
  | Aio_recv recv_fn int int | Aio_send send_fn int int | Device_aio int int int
  | Await_shield int
  | Sync_recv_alloc | Sync_recv_aio int | Sync_recv_wait int int | Sync_recv_free int

datatype sock_call =
    Open string | Socket_id int | Pipe_notify int int | Socket_close int
  | Dial int string int | Listen int string int | Dialer_id int | Listener_id int
  | Dialer_close int | Listener_close int | Pipe_close int | Pipe_id int
  | Pipe_dialer int | Pipe_listener int | Ctx_open int | Ctx_id int | Ctx_close int
  | Fini

datatype tls_call =
    Ep_create bool int string | Ep_set_tls bool int int | Ep_start bool int int

datatype ncall =
    M msg_call | A aio_call | S sock_call | T tls_call
  | Fn string "carg list" | Strerror int

text \<open>
  A result: the return value, the out parameter (pointer or number), bytes and text it yields,
  and the exception raised as the call returns, if any.
\<close>

record nres =
  r_val :: int
  r_out :: int
  r_bytes :: "byte list"
  r_text :: string
  r_exn :: "pyexc option"

type_synonym trace = "(ncall \<times> nres) list"

text \<open>
  The library: its functions, the names it has, its constants, its error numbers and
  \<open>NNG_FLAG_NONBLOCK\<close>.
\<close>

record nng_lib =
  fn :: "trace \<Rightarrow> ncall \<Rightarrow> nres"
  has_attr :: "string \<Rightarrow> bool"
  const :: "string \<Rightarrow> int"
  err :: "errname \<Rightarrow> int"
  flag_nonblock :: int

section \<open>The world\<close>

text \<open>
  What all components share: the calls made, and the module globals of \<^verbatim>\<open>_base.py\<close>,
  \<^verbatim>\<open>nng.py\<close> and \<^verbatim>\<open>v2/__init__.py\<close> (the process id of initialisation, the fork
  mark, the two \<open>_finalized\<close> flags, \<open>None\<close> while the module is not in
  \<open>sys.modules\<close>) with the value of \<open>os.getpid()\<close>. Components extend the record
  with the objects they keep.
\<close>

record world =
  calls :: trace
  init_pid :: "int option"
  is_forked_child :: bool
  getpid :: int
  fin_v1 :: "bool option"
  fin_v2 :: "bool option"

definition ccall :: "nng_lib \<Rightarrow> ncall \<Rightarrow> ('a world_scheme, pyexc, nres) prog" where
  "ccall L c s =
     (let r = fn L (calls s) c; t = s\<lparr>calls := calls s @ [(c, r)]\<rparr>
      in case r_exn r of Some e \<Rightarrow> (Inl e, t) | None \<Rightarrow> (Inr r, t))"

lemma wp_ccall [wp_simps]:
  "wp (ccall L c) Q E s =
     ((\<forall>e. r_exn (fn L (calls s) c) = Some e \<longrightarrow>
        E e (s\<lparr>calls := calls s @ [(c, fn L (calls s) c)]\<rparr>)) \<and>
      (r_exn (fn L (calls s) c) = None \<longrightarrow>
        Q (fn L (calls s) c) (s\<lparr>calls := calls s @ [(c, fn L (calls s) c)]\<rparr>)))"
  by (simp add: wp_def ccall_def Let_def split: option.split)

text \<open>
  \<open>check_err\<close>: nothing for 0, otherwise the exception of the number's class with the text
  of \<open>nng_strerror\<close>.
\<close>

definition check_err :: "nng_lib \<Rightarrow> int \<Rightarrow> ('a world_scheme, pyexc, unit) prog" where
  "check_err L e =
     (if e = 0 then ret ()
      else bnd (ccall L (Strerror e)) (\<lambda>r. raise_exc (NNGErr (exc_for (err L) e) (r_text r) e)))"

lemma wp_check_err [wp_simps]:
  "wp (check_err L e) Q E s =
     ((e = 0 \<longrightarrow> Q () s) \<and>
      (e \<noteq> 0 \<longrightarrow> wp (ccall L (Strerror e))
         (\<lambda>r. E (NNGErr (exc_for (err L) e) (r_text r) e)) E s))"
  by (simp add: check_err_def wp_simps Let_def)

section \<open>Who owns a message\<close>

text \<open>
  A message pointer is nobody's, the caller's, held by a running send, nng's, or freed. An aio
  is idle, has a receive running, has a message attached, has a send of that message running, or
  has finished that send.
\<close>

datatype own = Nobody | Mine | InFlight | Theirs | Freed
datatype aiost = AIdle | ARecv | AHold int | ASend int | ASent int

record ledger =
  own :: "int \<Rightarrow> own"
  pend :: "int \<Rightarrow> aiost"

definition ledger0 :: ledger where
  "ledger0 = \<lparr>own = (\<lambda>_. Nobody), pend = (\<lambda>_. AIdle)\<rparr>"

definition give :: "ledger \<Rightarrow> int \<Rightarrow> own \<Rightarrow> ledger" where
  "give g p x = g\<lparr>own := (own g)(p := x)\<rparr>"

definition park :: "ledger \<Rightarrow> int \<Rightarrow> aiost \<Rightarrow> ledger" where
  "park g a x = g\<lparr>pend := (pend g)(a := x)\<rparr>"

text \<open>
  nng's rules. A call that returns a new message gives it to the caller; \<open>nng_sendmsg\<close> takes
  the message when it returns 0; an asynchronous send holds it until the aio has finished, and then
  \<open>nng_aio_get_msg\<close> tells whether nng consumed it (NULL) or the caller has it back; a receive
  that finished hands over the message that \<open>nng_aio_get_msg\<close> returns, once.
\<close>

definition after_wait :: "ledger \<Rightarrow> int \<Rightarrow> ledger" where
  "after_wait g a = (case pend g a of ASend p \<Rightarrow> park g a (ASent p) | _ \<Rightarrow> g)"

definition led_msg :: "ledger \<Rightarrow> msg_call \<Rightarrow> nres \<Rightarrow> ledger" where
  "led_msg g c r = (case c of
     Msg_alloc n \<Rightarrow> (if r_val r = 0 then give g (r_out r) Mine else g)
   | Msg_dup p \<Rightarrow> (if r_val r = 0 then give g (r_out r) Mine else g)
   | Recvmsg s f \<Rightarrow> (if r_val r = 0 then give g (r_out r) Mine else g)
   | Ctx_recvmsg s f \<Rightarrow> (if r_val r = 0 then give g (r_out r) Mine else g)
   | Msg_free p \<Rightarrow> give g p Freed
   | Sendmsg s p f \<Rightarrow> (if r_val r = 0 then give g p Theirs else g)
   | _ \<Rightarrow> g)"

definition led_aio :: "ledger \<Rightarrow> aio_call \<Rightarrow> nres \<Rightarrow> ledger" where
  "led_aio g c r = (case c of
     Aio_alloc k \<Rightarrow> (if r_val r = 0 then park g (r_out r) AIdle else g)
   | Aio_set_msg a p \<Rightarrow> park g a (if p = 0 then AIdle else AHold p)
   | Aio_recv f t a \<Rightarrow> park g a ARecv
   | Aio_send f t a \<Rightarrow>
       (case pend g a of AHold p \<Rightarrow> park (give g p InFlight) a (ASend p) | _ \<Rightarrow> g)
   | Aio_wait a \<Rightarrow> after_wait g a
   | Await_shield a \<Rightarrow> (if r_exn r = None then after_wait g a else g)
   | Aio_get_msg a \<Rightarrow>
       (case pend g a of
          ARecv \<Rightarrow> (if r_out r = 0 then g else park (give g (r_out r) Mine) a AIdle)
        | ASent p \<Rightarrow> park (give g p (if r_out r = 0 then Theirs else Mine)) a AIdle
        | _ \<Rightarrow> g)
   | _ \<Rightarrow> g)"

fun led_step :: "ledger \<Rightarrow> ncall \<times> nres \<Rightarrow> ledger" where
  "led_step g (M c, r) = led_msg g c r"
| "led_step g (A c, r) = led_aio g c r"
| "led_step g (S c, r) = g"
| "led_step g (T c, r) = g"
| "led_step g (Fn f xs, r) = g"
| "led_step g (Strerror e, r) = g"

definition led :: "trace \<Rightarrow> ledger" where
  "led tr = foldl led_step ledger0 tr"

lemma led_Nil [simp]: "led [] = ledger0"
  by (simp add: led_def)

lemma led_snoc [simp]: "led (tr @ [x]) = led_step (led tr) x"
  by (simp add: led_def)

text \<open>The message a call works on, which its caller must own.\<close>

definition uses_msg :: "msg_call \<Rightarrow> int option" where
  "uses_msg c = (case c of
     Msg_append p b \<Rightarrow> Some p | Msg_free p \<Rightarrow> Some p | Msg_dup p \<Rightarrow> Some p
   | Msg_len p \<Rightarrow> Some p | Msg_body p \<Rightarrow> Some p | Msg_header_len p \<Rightarrow> Some p
   | Msg_header p \<Rightarrow> Some p | Msg_header_append p b \<Rightarrow> Some p
   | Msg_header_trim p n \<Rightarrow> Some p | Msg_header_chop p n \<Rightarrow> Some p
   | Msg_header_clear p \<Rightarrow> Some p | Msg_set_pipe p q \<Rightarrow> Some p | Msg_get_pipe p \<Rightarrow> Some p
   | Sendmsg s p f \<Rightarrow> Some p
   | _ \<Rightarrow> None)"

fun uses :: "ncall \<Rightarrow> int option" where
  "uses (M c) = uses_msg c"
| "uses (A c) = (case c of Aio_set_msg a p \<Rightarrow> (if p = 0 then None else Some p) | _ \<Rightarrow> None)"
| "uses (S c) = None"
| "uses (T c) = None"
| "uses (Fn f xs) = None"
| "uses (Strerror e) = None"

definition safe_call :: "ledger \<Rightarrow> ncall \<Rightarrow> bool" where
  "safe_call g c = (case uses c of None \<Rightarrow> True | Some p \<Rightarrow> own g p = Mine)"

fun safe_from :: "ledger \<Rightarrow> trace \<Rightarrow> bool" where
  "safe_from g [] = True"
| "safe_from g (x # xs) = (safe_call g (fst x) \<and> safe_from (led_step g x) xs)"

definition safe :: "trace \<Rightarrow> bool" where
  "safe tr = safe_from ledger0 tr"

lemma safe_from_append:
  "safe_from g (xs @ ys) = (safe_from g xs \<and> safe_from (foldl led_step g xs) ys)"
  by (induction xs arbitrary: g) auto

lemma safe_Nil [simp]: "safe []"
  by (simp add: safe_def)

lemma safe_snoc [simp]: "safe (tr @ [x]) = (safe tr \<and> safe_call (led tr) (fst x))"
  by (simp add: safe_def safe_from_append led_def)

text \<open>nng never hands out a message that the caller still owns: an allocation is fresh.\<close>

definition hands_out :: "ledger \<Rightarrow> ncall \<Rightarrow> nres \<Rightarrow> bool" where
  "hands_out g c r = (case c of
     M m \<Rightarrow> (case m of
        Msg_alloc n \<Rightarrow> r_val r = 0 | Msg_dup p \<Rightarrow> r_val r = 0
      | Recvmsg s f \<Rightarrow> r_val r = 0 | Ctx_recvmsg s f \<Rightarrow> r_val r = 0 | _ \<Rightarrow> False)
   | A m \<Rightarrow> (case m of Aio_get_msg a \<Rightarrow> pend g a = ARecv \<and> r_out r \<noteq> 0 | _ \<Rightarrow> False)
   | _ \<Rightarrow> False)"

definition fresh_lib :: "nng_lib \<Rightarrow> bool" where
  "fresh_lib L \<longleftrightarrow> (\<forall>tr c. hands_out (led tr) c (fn L tr c) \<longrightarrow>
     r_out (fn L tr c) \<noteq> 0 \<and>
     own (led tr) (r_out (fn L tr c)) \<noteq> Mine \<and> own (led tr) (r_out (fn L tr c)) \<noteq> InFlight)"

lemma own_give [simp]: "own (give g p x) q = (if q = p then x else own g q)"
  by (simp add: give_def)

lemma pend_give [simp]: "pend (give g p x) = pend g"
  by (simp add: give_def)

lemma own_park [simp]: "own (park g a x) = own g"
  by (simp add: park_def)

lemma pend_park [simp]: "pend (park g a x) b = (if b = a then x else pend g b)"
  by (simp add: park_def)

lemma own_after_wait [simp]: "own (after_wait g a) = own g"
  by (simp add: after_wait_def split: aiost.split)

section \<open>A library for examples\<close>

text \<open>
  A library that meets \<open>fresh_lib\<close>: its out parameter is a number above every pointer in the
  calls so far; what it returns and raises, and the bytes it yields, are free.
\<close>

definition ptrs_of :: "ncall \<times> nres \<Rightarrow> int" where
  "ptrs_of cr = max (r_out (snd cr))
     (case fst cr of A c \<Rightarrow> (case c of Aio_set_msg a p \<Rightarrow> p | _ \<Rightarrow> 0) | _ \<Rightarrow> 0)"

definition top_ptr :: "trace \<Rightarrow> int" where
  "top_ptr tr = foldl (\<lambda>m x. max m (ptrs_of x)) 0 tr"

definition nng_const :: "string \<Rightarrow> int" where
  "nng_const n =
     (case map_of
        [(''NNG_TLS_MODE_CLIENT'', 0), (''NNG_TLS_MODE_SERVER'', 1), (''NNG_TLS_AUTH_MODE_NONE'', 0),
         (''NNG_TLS_AUTH_MODE_OPTIONAL'', 1), (''NNG_TLS_AUTH_MODE_REQUIRED'', 2),
         (''NNG_PIPE_EV_ADD_PRE'', 1), (''NNG_PIPE_EV_ADD_POST'', 2), (''NNG_PIPE_EV_REM_POST'', 3)] n
      of None \<Rightarrow> 0 | Some v \<Rightarrow> v)"

definition demo_lib ::
  "(trace \<Rightarrow> ncall \<Rightarrow> int) \<Rightarrow> (trace \<Rightarrow> ncall \<Rightarrow> pyexc option) \<Rightarrow> (trace \<Rightarrow> ncall \<Rightarrow> byte list)
     \<Rightarrow> nng_lib" where
  "demo_lib v x b =
     \<lparr>fn = (\<lambda>tr c. \<lparr>r_val = v tr c, r_out = top_ptr tr + 1, r_bytes = b tr c, r_text = [],
                     r_exn = x tr c\<rparr>),
      has_attr = (\<lambda>_. True), const = nng_const,
      err = nng_errno, flag_nonblock = 2\<rparr>"

definition ptr_bounded :: "int \<Rightarrow> ledger \<Rightarrow> bool" where
  "ptr_bounded n g \<longleftrightarrow>
     (\<forall>p. own g p = Mine \<or> own g p = InFlight \<longrightarrow> p \<le> n) \<and>
     (\<forall>a p. pend g a = AHold p \<or> pend g a = ASend p \<or> pend g a = ASent p \<longrightarrow> p \<le> n)"

lemma ptr_bounded_step:
  assumes "ptr_bounded n g"
  shows "ptr_bounded (max n (ptrs_of x)) (led_step g x)"
proof (cases x)
  case (Pair c r)
  have mono: "ptr_bounded (max n (ptrs_of x)) g"
    using assms unfolding ptr_bounded_def by (meson le_max_iff_disj)
  show ?thesis
  proof (cases c)
    case (M m)
    show ?thesis
      using assms unfolding Pair M
      by (cases m) (auto simp: ptr_bounded_def led_msg_def ptrs_of_def le_max_iff_disj)
  next
    case (A m)
    show ?thesis
      using assms unfolding Pair A
      by (cases m) (auto simp: ptr_bounded_def led_aio_def ptrs_of_def le_max_iff_disj
          after_wait_def split: aiost.split if_splits)
  qed (use mono Pair in auto)
qed

lemma ptr_bounded_led: "ptr_bounded (top_ptr tr) (led tr)"
proof (induction tr rule: rev_induct)
  case Nil
  show ?case by (simp add: ptr_bounded_def top_ptr_def ledger0_def)
next
  case (snoc x tr)
  then show ?case using ptr_bounded_step [OF snoc, of x] by (simp add: top_ptr_def)
qed

lemma top_ptr_nonneg: "0 \<le> top_ptr tr"
  by (induction tr rule: rev_induct) (simp_all add: top_ptr_def le_max_iff_disj)

lemma fresh_demo_lib: "fresh_lib (demo_lib v x b)"
  unfolding fresh_lib_def
proof (intro allI impI conjI)
  fix tr c
  have o: "r_out (fn (demo_lib v x b) tr c) = top_ptr tr + 1" by (simp add: demo_lib_def)
  show "r_out (fn (demo_lib v x b) tr c) \<noteq> 0"
    using top_ptr_nonneg [of tr] by (simp add: o)
  have "\<not> (own (led tr) (top_ptr tr + 1) = Mine \<or> own (led tr) (top_ptr tr + 1) = InFlight)"
    using ptr_bounded_led [of tr] unfolding ptr_bounded_def by force
  then show "own (led tr) (r_out (fn (demo_lib v x b) tr c)) \<noteq> Mine"
    and "own (led tr) (r_out (fn (demo_lib v x b) tr c)) \<noteq> InFlight"
    by (simp_all add: o)
qed

end
