(* ===== verification/Runtime.thy ===== *)
theory Runtime
  imports Nng
begin

text \<open>
  The process-level state of the package: the fork guard of \<^verbatim>\<open>pynng/_base.py\<close>, the
  finalisation flags of \<^verbatim>\<open>pynng/nng.py\<close>, \<^verbatim>\<open>pynng/v2/__init__.py\<close> and
  \<^verbatim>\<open>pynng/_finalized.py\<close>, and the buffer that keeps closed objects alive.
\<close>

section \<open>The fork guard\<close>

definition after_fork_in_child :: "'a world_scheme \<Rightarrow> 'a world_scheme" where
  "after_fork_in_child w =
     (if init_pid w \<noteq> None then w\<lparr>is_forked_child := True\<rparr> else w)"

definition mark_nng_initialized :: "('a world_scheme, pyexc, unit) prog" where
  "mark_nng_initialized =
     modf (\<lambda>w. if init_pid w = None then w\<lparr>init_pid := Some (getpid w)\<rparr> else w)"

definition fork_detected :: "'a world_scheme \<Rightarrow> bool" where
  "fork_detected w \<longleftrightarrow>
     is_forked_child w \<or> (init_pid w \<noteq> None \<and> Some (getpid w) \<noteq> init_pid w)"

definition check_fork :: "('a world_scheme, pyexc, unit) prog" where
  "check_fork = bnd (getf fork_detected) (\<lambda>b. if b then raise_exc RuntimeError else ret ())"

lemma wp_check_fork [wp_simps]:
  "wp check_fork Q E s =
     ((fork_detected s \<longrightarrow> E RuntimeError s) \<and> (\<not> fork_detected s \<longrightarrow> Q () s))"
  by (simp add: check_fork_def wp_simps)

text \<open>
  What can happen to one process image: it initialises nng, or it forks and the run goes on in
  the child, which has some other process id and runs the hook that
  \<open>os.register_at_fork\<close> installed.
\<close>

datatype proc_op = MarkInit | ForkChild int

definition fork_child :: "int \<Rightarrow> 'a world_scheme \<Rightarrow> 'a world_scheme" where
  "fork_child pid w = after_fork_in_child (w\<lparr>getpid := pid\<rparr>)"

fun proc_run :: "proc_op list \<Rightarrow> 'a world_scheme \<Rightarrow> 'a world_scheme" where
  "proc_run [] w = w"
| "proc_run (MarkInit # ops) w = proc_run ops (snd (mark_nng_initialized w))"
| "proc_run (ForkChild pid # ops) w = proc_run ops (fork_child pid w)"

text \<open>The reference: some fork comes after the first initialisation.\<close>

fun forked_after_init :: "bool \<Rightarrow> proc_op list \<Rightarrow> bool" where
  "forked_after_init inited [] = False"
| "forked_after_init inited (MarkInit # ops) = forked_after_init True ops"
| "forked_after_init inited (ForkChild pid # ops) = (inited \<or> forked_after_init inited ops)"

lemma proc_run_forked: "is_forked_child w \<Longrightarrow> is_forked_child (proc_run ops w)"
  by (induction ops w rule: proc_run.induct)
    (auto simp: mark_nng_initialized_def modf_def fork_child_def after_fork_in_child_def)

lemma fork_detected_proc_run:
  "\<not> is_forked_child w \<Longrightarrow> init_pid w = None \<or> init_pid w = Some (getpid w) \<Longrightarrow>
   fork_detected (proc_run ops w) = forked_after_init (init_pid w \<noteq> None) ops"
proof (induction ops w rule: proc_run.induct)
  case (1 w)
  then show ?case by (auto simp: fork_detected_def)
next
  case (2 ops w)
  then show ?case by (cases "init_pid w") (auto simp: mark_nng_initialized_def modf_def)
next
  case (3 pid ops w)
  show ?case
  proof (cases "init_pid w")
    case None
    with 3 show ?thesis by (simp add: fork_child_def after_fork_in_child_def)
  next
    case (Some p)
    then have "is_forked_child (proc_run ops (fork_child pid w))"
      by (intro proc_run_forked) (simp add: fork_child_def after_fork_in_child_def)
    with Some show ?thesis by (simp add: fork_detected_def)
  qed
qed

text \<open>The fork guard is exact. In a process image that started without nng, \<open>_check_fork\<close>
  raises \<open>RuntimeError\<close> if and only if some fork happened after nng was initialised, whatever
  the process ids are: the hook's mark is kept by every later fork, so a recycled process id does not
  hide the fork, and a child forked before initialisation may use nng itself.\<close>

theorem check_fork_exact:
  assumes "init_pid w = None" and "\<not> is_forked_child w"
  shows "check_fork (proc_run ops w) =
    (if forked_after_init False ops then Inl RuntimeError else Inr (), proc_run ops w)"
  using fork_detected_proc_run [of w ops] assms
  by (auto simp: check_fork_def bnd_def getf_def raise_exc_def ret_def)

definition world0 :: world where
  "world0 = \<lparr>calls = [], init_pid = None, is_forked_child = False, getpid = 100,
             fin_v1 = Some False, fin_v2 = None\<rparr>"

text \<open>A grandchild whose process id is the one that initialised nng is still refused.\<close>

theorem check_fork_exact_witness:
  "fst (check_fork (proc_run [MarkInit, ForkChild 200, ForkChild 100] world0))
     = Inl RuntimeError"
  using check_fork_exact [of world0 "[MarkInit, ForkChild 200, ForkChild 100]"]
  by (simp add: world0_def)

section \<open>Finalisation\<close>

definition is_nng_finalized :: "'a world_scheme \<Rightarrow> bool" where
  "is_nng_finalized w \<longleftrightarrow> fin_v1 w = Some True \<or> fin_v2 w = Some True"

text \<open>\<open>nng_fini\<close> of the v1 and of the v2 module.\<close>

definition nng_fini :: "nng_lib \<Rightarrow> ('a world_scheme, pyexc, unit) prog" where
  "nng_fini L = bnd (getf fin_v1) (\<lambda>f.
     whenp (f \<noteq> Some True)
       (andthen (modf (fin_v1_update (\<lambda>_. Some True)))
         (bnd (ccall L (S Fini)) (\<lambda>_. ret ()))))"

definition nng_fini_v2 :: "nng_lib \<Rightarrow> ('a world_scheme, pyexc, unit) prog" where
  "nng_fini_v2 L = bnd (getf fin_v2) (\<lambda>f.
     whenp (f \<noteq> Some True)
       (andthen (modf (fin_v2_update (\<lambda>_. Some True)))
         (bnd (ccall L (S Fini)) (\<lambda>_. ret ()))))"

definition pynng_atexit :: "nng_lib \<Rightarrow> bool \<Rightarrow> ('a world_scheme, pyexc, unit) prog" where
  "pynng_atexit L fini_at_exit = whenp fini_at_exit (nng_fini L)"

definition pynng_v2_atexit :: "nng_lib \<Rightarrow> bool \<Rightarrow> ('a world_scheme, pyexc, unit) prog" where
  "pynng_v2_atexit L fini_at_exit = whenp fini_at_exit (nng_fini_v2 L)"

lemma wp_nng_fini [wp_simps]:
  "wp (nng_fini L) Q E s =
     ((fin_v1 s = Some True \<longrightarrow> Q () s) \<and>
      (fin_v1 s \<noteq> Some True \<longrightarrow>
         wp (ccall L (S Fini)) (\<lambda>_. Q ()) E (s\<lparr>fin_v1 := Some True\<rparr>)))"
  by (auto simp: nng_fini_def wp_simps)

section \<open>Retained objects\<close>

text \<open>
  \<open>retain_closed\<close> appends to a deque of at most 64 objects; \<open>None\<close> is not kept.
\<close>

definition RETAIN_CLOSED_MAX :: nat where "RETAIN_CLOSED_MAX = 64"

definition retain_closed :: "'o option \<Rightarrow> 'o list \<Rightarrow> 'o list" where
  "retain_closed ob q =
     (case ob of None \<Rightarrow> q | Some x \<Rightarrow> deque_append RETAIN_CLOSED_MAX x q)"

lemma retain_closed_bound:
  "length q \<le> RETAIN_CLOSED_MAX \<Longrightarrow> length (retain_closed ob q) \<le> RETAIN_CLOSED_MAX"
  by (auto simp: retain_closed_def deque_append_bound split: option.split)

lemma retain_closed_window:
  "fold retain_closed (map Some xs) (drop (length q - RETAIN_CLOSED_MAX) q)
     = drop (length (q @ xs) - RETAIN_CLOSED_MAX) (q @ xs)"
proof (induction xs arbitrary: q)
  case (Cons x xs)
  show ?case
    using Cons.IH [of "q @ [x]"] by (simp add: retain_closed_def deque_append_drop)
qed simp

text \<open>The last 64 retained objects stay referenced.\<close>

lemma retain_closed_keeps_last:
  assumes "length ys < RETAIN_CLOSED_MAX"
  shows "x \<in> set (fold retain_closed (map Some (x # ys)) (drop (length q - RETAIN_CLOSED_MAX) q))"
proof -
  have "length (q @ x # ys) - RETAIN_CLOSED_MAX \<le> length q" using assms by simp
  then show ?thesis by (simp only: retain_closed_window) simp
qed

end
