(* ===== verification/Message.thy ===== *)
theory Message
  imports Runtime
begin

text \<open>
  The \<open>Message\<close> class of \<^verbatim>\<open>pynng/_base.py\<close>: a Python object that owns an
  \<open>nng_msg\<close> until it is sent. Objects live in the world's field \<open>msgs\<close>, numbered in the
  order of their creation; \<open>mem_freed\<close> is the flag \<open>_mem_freed\<close>. The methods run under the
  object's lock \<open>_mem_freed_lock\<close>, so each is one step. \<open>gone\<close> marks an object whose
  finalizer has run: Python runs \<open>__del__\<close> once and no method after it.

  The lemmas show that every method keeps \<open>msgs_inv\<close>: each unsent message object owns its
  pointer in the ledger, no two objects share one, and every call made so far was safe.
\<close>

section \<open>State\<close>

record message =
  nng_msg :: "int option"
  mem_freed :: bool
  mpipe :: "int option"
  gone :: bool

record mworld = world +
  msgs :: "nat \<Rightarrow> message"
  next_msg :: nat

definition fresh_message :: message where
  "fresh_message = \<lparr>nng_msg = None, mem_freed = False, mpipe = None, gone = False\<rparr>"

definition upd_msg ::
  "nat \<Rightarrow> (message \<Rightarrow> message) \<Rightarrow> ('a mworld_scheme, pyexc, unit) prog" where
  "upd_msg i f = modf (\<lambda>w. w\<lparr>msgs := (msgs w)(i := f (msgs w i))\<rparr>)"

text \<open>
  Buffer-protocol objects: the size of an item and the memory. \<open>len(memoryview(data))\<close> counts
  items, the copies into nng count bytes.
\<close>

record buffer =
  itemsize :: nat
  raw :: "byte list"

definition buf_len :: "buffer \<Rightarrow> nat" where
  "buf_len b = length (raw b) div itemsize b"

definition bytes_buf :: "byte list \<Rightarrow> buffer" where
  "bytes_buf bs = \<lparr>itemsize = 1, raw = bs\<rparr>"

lemma buf_len_bytes [simp]: "buf_len (bytes_buf bs) = length bs"
  by (simp add: buf_len_def bytes_buf_def)

lemma raw_bytes_buf [simp]: "raw (bytes_buf bs) = bs"
  by (simp add: bytes_buf_def)

datatype py_data = DBuf buffer | DStr string | DOther

datatype msg_data = FromPtr int | FromData py_data

datatype pipe_arg = NoPipe | APipe int | NotAPipe

text \<open>The C memory of a buffer that nng copies: the first \<open>len\<close> bytes.\<close>

definition copied :: "buffer \<Rightarrow> byte list" where
  "copied b = take (buf_len b) (raw b)"

section \<open>Methods\<close>

definition ensure_can_send_data :: "py_data \<Rightarrow> ('a world_scheme, pyexc, unit) prog" where
  "ensure_can_send_data d =
     andthen check_fork (case d of DStr x \<Rightarrow> raise_exc ValueError | _ \<Rightarrow> ret ())"

definition as_memoryview :: "py_data \<Rightarrow> ('s, pyexc, buffer) prog" where
  "as_memoryview d = (case d of DBuf b \<Rightarrow> ret b | _ \<Rightarrow> raise_exc TypeError)"

text \<open>\<open>self._nng_msg\<close> as a C argument: cffi refuses \<open>None\<close> with a \<open>TypeError\<close>.\<close>

definition msg_ptr :: "nat \<Rightarrow> ('a mworld_scheme, pyexc, int) prog" where
  "msg_ptr i = bnd (getf (\<lambda>w. nng_msg (msgs w i)))
     (\<lambda>m. case m of None \<Rightarrow> raise_exc TypeError | Some p \<Rightarrow> ret p)"

definition msg_set_pipe :: "nng_lib \<Rightarrow> nat \<Rightarrow> pipe_arg \<Rightarrow> ('a mworld_scheme, pyexc, unit) prog" where
  "msg_set_pipe L i p = (case p of
     APipe q \<Rightarrow>
       bnd (msg_ptr i) (\<lambda>m.
       bnd (ccall L (M (Msg_set_pipe m q))) (\<lambda>r.
       andthen (check_err L (r_val r)) (upd_msg i (mpipe_update (\<lambda>_. Some q)))))
   | _ \<Rightarrow> raise_exc ValueError)"

text \<open>
  The constructor. The object exists, with \<open>_nng_msg = None\<close>, before anything can fail, so its
  finalizer runs also when \<open>__init__\<close> raises; \<open>new_message\<close> is the allocation.
\<close>

definition new_message :: "('a mworld_scheme, pyexc, nat) prog" where
  "new_message = bnd (getf next_msg) (\<lambda>i.
     andthen (modf (\<lambda>w. w\<lparr>msgs := (msgs w)(i := fresh_message), next_msg := Suc i\<rparr>)) (ret i))"

definition alloc_msg :: "nng_lib \<Rightarrow> py_data \<Rightarrow> ('a world_scheme, pyexc, int) prog" where
  "alloc_msg L d =
     andthen (ensure_can_send_data d) (
     bnd (as_memoryview d) (\<lambda>m.
     bnd (ccall L (M (Msg_alloc 0))) (\<lambda>r.
     andthen (check_err L (r_val r)) (
     andthen
       (try_except
         (bnd (ccall L (M (Msg_append (r_out r) (copied m)))) (\<lambda>a. check_err L (r_val a)))
         (\<lambda>e. if is_Exception e
              then bnd (ccall L (M (Msg_free (r_out r)))) (\<lambda>_. raise_exc e)
              else raise_exc e))
       (ret (r_out r))))))"

definition message_init ::
  "nng_lib \<Rightarrow> nat \<Rightarrow> msg_data \<Rightarrow> pipe_arg \<Rightarrow> ('a mworld_scheme, pyexc, unit) prog" where
  "message_init L i d p =
     andthen
       (case d of
          FromPtr q \<Rightarrow> upd_msg i (nng_msg_update (\<lambda>_. Some q))
        | FromData x \<Rightarrow>
            bnd (alloc_msg L x) (\<lambda>q. upd_msg i (nng_msg_update (\<lambda>_. Some q))))
       (if p = NoPipe then upd_msg i (mpipe_update (\<lambda>_. None)) else msg_set_pipe L i p)"

definition mk_message :: "nng_lib \<Rightarrow> msg_data \<Rightarrow> pipe_arg \<Rightarrow> ('a mworld_scheme, pyexc, nat) prog" where
  "mk_message L d p = bnd new_message (\<lambda>i. andthen (message_init L i d p) (ret i))"

definition check_not_sent :: "nat \<Rightarrow> ('a mworld_scheme, pyexc, unit) prog" where
  "check_not_sent i = bnd (getf (\<lambda>w. mem_freed (msgs w i)))
     (\<lambda>f. if f then raise_exc MessageStateError else ret ())"

definition msg_bytes :: "nng_lib \<Rightarrow> nat \<Rightarrow> ('a mworld_scheme, pyexc, byte list) prog" where
  "msg_bytes L i =
     andthen (check_not_sent i) (
     bnd (msg_ptr i) (\<lambda>p.
     bnd (ccall L (M (Msg_len p))) (\<lambda>n.
     bnd (ccall L (M (Msg_body p))) (\<lambda>b. ret (take (nat (r_val n)) (r_bytes b))))))"

definition msg_header :: "nng_lib \<Rightarrow> nat \<Rightarrow> ('a mworld_scheme, pyexc, byte list) prog" where
  "msg_header L i =
     andthen (check_not_sent i) (
     bnd (msg_ptr i) (\<lambda>p.
     bnd (ccall L (M (Msg_header_len p))) (\<lambda>n.
     if r_val n = 0 then ret []
     else bnd (ccall L (M (Msg_header p))) (\<lambda>b. ret (take (nat (r_val n)) (r_bytes b))))))"

definition ensure_can_send :: "nat \<Rightarrow> ('a mworld_scheme, pyexc, unit) prog" where
  "ensure_can_send i = andthen check_fork (check_not_sent i)"

definition msg_header_append ::
  "nng_lib \<Rightarrow> nat \<Rightarrow> py_data \<Rightarrow> ('a mworld_scheme, pyexc, unit) prog" where
  "msg_header_append L i d =
     andthen (ensure_can_send i) (
     bnd (as_memoryview d) (\<lambda>m.
     bnd (msg_ptr i) (\<lambda>p.
     bnd (ccall L (M (Msg_header_append p (copied m)))) (\<lambda>r. check_err L (r_val r)))))"

definition msg_header_trim :: "nng_lib \<Rightarrow> nat \<Rightarrow> int \<Rightarrow> ('a mworld_scheme, pyexc, unit) prog" where
  "msg_header_trim L i sz =
     andthen (ensure_can_send i) (
     bnd (msg_ptr i) (\<lambda>p.
     bnd (ccall L (M (Msg_header_trim p sz))) (\<lambda>r. check_err L (r_val r))))"

definition msg_header_chop :: "nng_lib \<Rightarrow> nat \<Rightarrow> int \<Rightarrow> ('a mworld_scheme, pyexc, unit) prog" where
  "msg_header_chop L i sz =
     andthen (ensure_can_send i) (
     bnd (msg_ptr i) (\<lambda>p.
     bnd (ccall L (M (Msg_header_chop p sz))) (\<lambda>r. check_err L (r_val r))))"

definition msg_header_clear :: "nng_lib \<Rightarrow> nat \<Rightarrow> ('a mworld_scheme, pyexc, unit) prog" where
  "msg_header_clear L i =
     andthen (ensure_can_send i) (
     bnd (msg_ptr i) (\<lambda>p.
     bnd (ccall L (M (Msg_header_clear p))) (\<lambda>_. ret ())))"

definition msg_copy :: "nng_lib \<Rightarrow> nat \<Rightarrow> ('a mworld_scheme, pyexc, nat) prog" where
  "msg_copy L i =
     andthen (check_not_sent i) (
     bnd (msg_ptr i) (\<lambda>p.
     bnd (ccall L (M (Msg_dup p))) (\<lambda>r.
     andthen (check_err L (r_val r)) (
     bnd (getf (\<lambda>w. mpipe (msgs w i))) (\<lambda>q.
     mk_message L (FromPtr (r_out r)) (case q of None \<Rightarrow> NoPipe | Some x \<Rightarrow> APipe x))))))"

text \<open>
  The finalizer. After it the object is gone, whether or not it raised (Python reports and drops
  an exception of a finalizer).
\<close>

definition msg_del :: "nng_lib \<Rightarrow> nat \<Rightarrow> ('a mworld_scheme, pyexc, unit) prog" where
  "msg_del L i = try_finally
     (bnd (getf is_nng_finalized) (\<lambda>fin.
      bnd (getf (\<lambda>w. mem_freed (msgs w i))) (\<lambda>f.
      if fin \<or> f then ret ()
      else
        bnd (getf (\<lambda>w. nng_msg (msgs w i))) (\<lambda>m.
        andthen (case m of None \<Rightarrow> ret () | Some p \<Rightarrow> bnd (ccall L (M (Msg_free p))) (\<lambda>_. ret ()))
          (upd_msg i (mem_freed_update (\<lambda>_. True)))))))
     (upd_msg i (gone_update (\<lambda>_. True)))"

section \<open>Ownership\<close>

text \<open>
  A live object is one whose finalizer would still free its pointer. The invariant ties the objects
  to the ledger.
\<close>

definition live :: "'a mworld_scheme \<Rightarrow> nat \<Rightarrow> int \<Rightarrow> bool" where
  "live w i p \<longleftrightarrow>
     nng_msg (msgs w i) = Some p \<and> \<not> mem_freed (msgs w i) \<and> \<not> gone (msgs w i)"

definition msgs_inv :: "'a mworld_scheme \<Rightarrow> bool" where
  "msgs_inv w \<longleftrightarrow>
     safe (calls w) \<and>
     (\<forall>i p. live w i p \<longrightarrow> p \<noteq> 0 \<and> own (led (calls w)) p = Mine) \<and>
     (\<forall>i j p. live w i p \<longrightarrow> live w j p \<longrightarrow> i = j) \<and>
     (\<forall>i \<ge> next_msg w. nng_msg (msgs w i) = None)"

text \<open>Calls that leave the ownership of every message as it is.\<close>

definition neutral :: "ncall \<Rightarrow> bool" where
  "neutral c \<longleftrightarrow> (\<forall>g r. own (led_step g (c, r)) = own g)"

lemma neutral_simps [simp]:
  "neutral (Strerror e)" "neutral (S sc)" "neutral (T tc)" "neutral (Fn fname args)"
  "neutral (M (Msg_append p b))" "neutral (M (Msg_len p))" "neutral (M (Msg_body p))"
  "neutral (M (Msg_header_len p))" "neutral (M (Msg_header p))"
  "neutral (M (Msg_header_append p b))" "neutral (M (Msg_header_trim p n))"
  "neutral (M (Msg_header_chop p n))" "neutral (M (Msg_header_clear p))"
  "neutral (M (Msg_set_pipe p q))" "neutral (M (Msg_get_pipe p))"
  "neutral (M (Send s b len f))"
  "neutral (A (Aio_alloc k))" "neutral (A (Aio_free a))" "neutral (A (Aio_set_timeout a n))"
  "neutral (A (Aio_set_msg a p))" "neutral (A (Aio_wait a))" "neutral (A (Aio_cancel a))"
  "neutral (A (Aio_abort a n))" "neutral (A (Aio_result a))" "neutral (A (Aio_recv rf x a))"
  "neutral (A (Device_aio a x y))" "neutral (A (Await_shield a))"
  "neutral (A Sync_recv_alloc)" "neutral (A (Sync_recv_aio a))" "neutral (A (Sync_recv_wait a n))"
  "neutral (A (Sync_recv_free a))"
  by (simp_all add: neutral_def led_msg_def led_aio_def)

text \<open>
  A neutral call keeps the invariant, and everything the invariant says of the objects: what a
  client learns from it is \<open>quiet\<close>.
\<close>

definition quiet :: "'a mworld_scheme \<Rightarrow> 'a mworld_scheme \<Rightarrow> bool" where
  "quiet w t \<longleftrightarrow> msgs_inv t \<and> msgs t = msgs w \<and> next_msg t = next_msg w \<and>
     own (led (calls t)) = own (led (calls w))"

lemma live_calls [simp]: "live (w\<lparr>calls := cs\<rparr>) = live w"
  by (auto simp: live_def fun_eq_iff)

lemma msgs_inv_call:
  assumes "msgs_inv w" and "safe_call (led (calls w)) c"
    and "\<And>p. own (led (calls w)) p = Mine \<Longrightarrow> (\<exists>i. live w i p) \<Longrightarrow>
            own (led_step (led (calls w)) (c, r)) p = Mine"
  shows "msgs_inv (w\<lparr>calls := calls w @ [(c, r)]\<rparr>)"
  using assms unfolding msgs_inv_def by auto

lemma quiet_call:
  assumes "msgs_inv w" and "neutral c" and "safe_call (led (calls w)) c"
  shows "quiet w (w\<lparr>calls := calls w @ [(c, r)]\<rparr>)"
  using assms msgs_inv_call [OF assms(1,3), of r] by (auto simp: quiet_def neutral_def)

lemma wp_quiet:
  assumes "msgs_inv w" and "neutral c" and "safe_call (led (calls w)) c"
    and "\<And>r t. quiet w t \<Longrightarrow> Q r t" and "\<And>e t. quiet w t \<Longrightarrow> E e t"
  shows "wp (ccall L c) Q E w"
proof -
  have "quiet w (w\<lparr>calls := calls w @ [(c, r)]\<rparr>)" for r
    by (rule quiet_call) (use assms in auto)
  then show ?thesis using assms(4,5) by (simp add: wp_ccall)
qed

lemma safe_call_uses:
  "uses c = None \<Longrightarrow> safe_call g c"
  "uses c = Some p \<Longrightarrow> safe_call g c \<longleftrightarrow> own g p = Mine"
  by (simp_all add: safe_call_def)


lemma quiet_refl: "msgs_inv w \<Longrightarrow> quiet w w"
  by (simp add: quiet_def)

lemma quiet_inv: "quiet w t \<Longrightarrow> msgs_inv t"
  by (simp add: quiet_def)

lemma quiet_live: "quiet w t \<Longrightarrow> live t i p = live w i p"
  by (simp add: quiet_def live_def)

lemma quiet_own: "quiet w t \<Longrightarrow> own (led (calls t)) p = own (led (calls w)) p"
  by (simp add: quiet_def)

lemma live_own: "msgs_inv w \<Longrightarrow> live w i p \<Longrightarrow> own (led (calls w)) p = Mine"
  by (auto simp: msgs_inv_def)

text \<open>Changing an object's pipe reference, or marking it sent or gone, keeps the invariant.\<close>

lemma msgs_inv_upd:
  assumes "msgs_inv w"
    and "nng_msg m' = nng_msg (msgs w i)"
    and "mem_freed (msgs w i) \<longrightarrow> mem_freed m'" and "gone (msgs w i) \<longrightarrow> gone m'"
  shows "msgs_inv (w\<lparr>msgs := (msgs w)(i := m')\<rparr>)"
proof -
  have l: "live (w\<lparr>msgs := (msgs w)(i := m')\<rparr>) j p \<Longrightarrow> live w j p" for j p
    using assms(2-4) by (auto simp: live_def split: if_splits)
  show ?thesis
    using assms(1,2) unfolding msgs_inv_def
    by (auto dest!: l split: if_splits)
qed

lemma wp_msg_ptr [wp_simps]:
  "wp (msg_ptr i) Q E s =
     ((nng_msg (msgs s i) = None \<longrightarrow> E TypeError s) \<and>
      (\<forall>p. nng_msg (msgs s i) = Some p \<longrightarrow> Q p s))"
  by (simp add: msg_ptr_def wp_simps)

lemma wp_check_not_sent [wp_simps]:
  "wp (check_not_sent i) Q E s =
     ((mem_freed (msgs s i) \<longrightarrow> E MessageStateError s) \<and>
      (\<not> mem_freed (msgs s i) \<longrightarrow> Q () s))"
  by (simp add: check_not_sent_def wp_simps)

lemma wp_upd_msg [wp_simps]:
  "wp (upd_msg i f) Q E s = Q () (s\<lparr>msgs := (msgs s)(i := f (msgs s i))\<rparr>)"
  by (simp add: upd_msg_def wp_simps)

lemma wp_ensure_can_send [wp_simps]:
  "wp (ensure_can_send i) Q E s =
     ((fork_detected s \<longrightarrow> E RuntimeError s) \<and>
      (\<not> fork_detected s \<longrightarrow> wp (check_not_sent i) Q E s))"
  by (simp add: ensure_can_send_def wp_simps)

lemma wp_as_memoryview [wp_simps]:
  "wp (as_memoryview d) Q E s =
     (case d of DBuf b \<Rightarrow> Q b s | _ \<Rightarrow> E TypeError s)"
  by (simp add: as_memoryview_def wp_simps split: py_data.split)

text \<open>Every reading or editing method of a message keeps the invariant.\<close>

lemma liveI:
  "nng_msg (msgs w i) = Some p \<Longrightarrow> \<not> mem_freed (msgs w i) \<Longrightarrow> \<not> gone (msgs w i) \<Longrightarrow> live w i p"
  by (simp add: live_def)

text \<open>A call that only uses messages of live objects.\<close>

definition covered :: "'a mworld_scheme \<Rightarrow> ncall \<Rightarrow> bool" where
  "covered w c \<longleftrightarrow> (\<forall>p. uses c = Some p \<longrightarrow> (\<exists>i. live w i p))"

lemma covered_simps [simp]:
  "covered w (M (Msg_append p b)) \<longleftrightarrow> (\<exists>i. live w i p)"
  "covered w (M (Msg_len p)) \<longleftrightarrow> (\<exists>i. live w i p)"
  "covered w (M (Msg_body p)) \<longleftrightarrow> (\<exists>i. live w i p)"
  "covered w (M (Msg_header_len p)) \<longleftrightarrow> (\<exists>i. live w i p)"
  "covered w (M (Msg_header p)) \<longleftrightarrow> (\<exists>i. live w i p)"
  "covered w (M (Msg_header_append p b)) \<longleftrightarrow> (\<exists>i. live w i p)"
  "covered w (M (Msg_header_trim p n)) \<longleftrightarrow> (\<exists>i. live w i p)"
  "covered w (M (Msg_header_chop p n)) \<longleftrightarrow> (\<exists>i. live w i p)"
  "covered w (M (Msg_header_clear p)) \<longleftrightarrow> (\<exists>i. live w i p)"
  "covered w (M (Msg_set_pipe p q)) \<longleftrightarrow> (\<exists>i. live w i p)"
  "covered w (M (Msg_get_pipe p)) \<longleftrightarrow> (\<exists>i. live w i p)"
  "covered w (M (Msg_alloc sz))" "covered w (M (Send s b len f))" "covered w (Strerror e)"
  "covered w (S sc)" "covered w (T tc)" "covered w (Fn fname args)"
  by (auto simp: covered_def uses_msg_def)

lemma live_exI:
  "nng_msg (msgs w i) = Some p \<Longrightarrow> \<not> mem_freed (msgs w i) \<Longrightarrow> \<not> gone (msgs w i) \<Longrightarrow>
   \<exists>i. live w i p"
  by (auto simp: live_def)

lemma covered_safe:
  assumes "quiet w t" and "covered w c"
  shows "safe_call (led (calls t)) c"
proof (cases "uses c")
  case None
  then show ?thesis by (simp add: safe_call_def)
next
  case (Some p)
  with assms(2) obtain i where "live w i p" by (auto simp: covered_def)
  then have "own (led (calls t)) p = Mine"
    using assms(1) live_own [of t i p] by (simp add: quiet_live quiet_inv)
  with Some show ?thesis by (simp add: safe_call_def)
qed

text \<open>The rules that run a method which only reads or edits live messages.\<close>

lemma wp_quiet_call:
  assumes "quiet w0 w" and "neutral c" and "covered w0 c"
    and "\<And>r t. quiet w0 t \<Longrightarrow> Q r t" and "\<And>e t. quiet w0 t \<Longrightarrow> E e t"
  shows "wp (ccall L c) Q E w"
proof -
  have "msgs_inv w" using assms(1) by (simp add: quiet_def)
  then show ?thesis
    by (rule wp_quiet [OF _ assms(2) covered_safe [OF assms(1,3)]])
      (use assms in \<open>auto simp: quiet_def\<close>)
qed

lemma wp_quiet_check_err:
  assumes "quiet w0 w"
    and "n = 0 \<Longrightarrow> Q () w" and "\<And>e t. n \<noteq> 0 \<Longrightarrow> quiet w0 t \<Longrightarrow> E e t"
  shows "wp (check_err L n) Q E w"
  using assms by (auto simp: wp_check_err simp del: wp_ccall intro!: wp_quiet_call)

lemmas quiet_rules = wp_quiet_call wp_quiet_check_err

lemma msg_bytes_inv:
  assumes "msgs_inv w" and "\<not> gone (msgs w i)"
  shows "wp (msg_bytes L i) (\<lambda>_. quiet w) (\<lambda>_. quiet w) w"
  unfolding msg_bytes_def using assms quiet_refl [OF assms(1)]
  by (auto simp: wp_simps simp del: wp_ccall intro!: quiet_rules live_exI)

lemma msg_header_inv:
  assumes "msgs_inv w" and "\<not> gone (msgs w i)"
  shows "wp (msg_header L i) (\<lambda>_. quiet w) (\<lambda>_. quiet w) w"
  unfolding msg_header_def using assms quiet_refl [OF assms(1)]
  by (auto simp: wp_simps simp del: wp_ccall intro!: quiet_rules live_exI)


lemma msg_header_append_inv:
  assumes "msgs_inv w" and "\<not> gone (msgs w i)"
  shows "wp (msg_header_append L i d) (\<lambda>_. quiet w) (\<lambda>_. quiet w) w"
  unfolding msg_header_append_def using assms quiet_refl [OF assms(1)]
  by (auto simp: wp_simps simp del: wp_ccall wp_check_err intro!: quiet_rules live_exI
      split: py_data.split)

lemma msg_header_trim_inv:
  assumes "msgs_inv w" and "\<not> gone (msgs w i)"
  shows "wp (msg_header_trim L i sz) (\<lambda>_. quiet w) (\<lambda>_. quiet w) w"
  unfolding msg_header_trim_def using assms quiet_refl [OF assms(1)]
  by (auto simp: wp_simps simp del: wp_ccall wp_check_err intro!: quiet_rules live_exI)

lemma msg_header_chop_inv:
  assumes "msgs_inv w" and "\<not> gone (msgs w i)"
  shows "wp (msg_header_chop L i sz) (\<lambda>_. quiet w) (\<lambda>_. quiet w) w"
  unfolding msg_header_chop_def using assms quiet_refl [OF assms(1)]
  by (auto simp: wp_simps simp del: wp_ccall wp_check_err intro!: quiet_rules live_exI)

lemma msg_header_clear_inv:
  assumes "msgs_inv w" and "\<not> gone (msgs w i)"
  shows "wp (msg_header_clear L i) (\<lambda>_. quiet w) (\<lambda>_. quiet w) w"
  unfolding msg_header_clear_def using assms quiet_refl [OF assms(1)]
  by (auto simp: wp_simps simp del: wp_ccall wp_check_err intro!: quiet_rules live_exI)

text \<open>Setting the pipe edits the object's pipe field only.\<close>

lemma quiet_upd_inv:
  assumes "msgs_inv t"
    and "\<And>m. nng_msg (f m) = nng_msg m" and "\<And>m. mem_freed m \<Longrightarrow> mem_freed (f m)"
    and "\<And>m. gone m \<Longrightarrow> gone (f m)"
  shows "msgs_inv (t\<lparr>msgs := (msgs t)(i := f (msgs t i))\<rparr>)"
  using assms by (intro msgs_inv_upd) auto

lemma msg_set_pipe_inv:
  assumes "msgs_inv w" and "\<not> gone (msgs w i)" and "\<not> mem_freed (msgs w i)"
  shows "wp (msg_set_pipe L i p) (\<lambda>_. msgs_inv) (\<lambda>_. msgs_inv) w"
  unfolding msg_set_pipe_def using assms quiet_refl [OF assms(1)]
  by (auto simp: wp_simps simp del: wp_ccall wp_check_err split: pipe_arg.split
      intro!: quiet_rules [where ?w0.0 = w] live_exI quiet_upd_inv) (erule quiet_inv)+

text \<open>A new object, and an object that takes a pointer nobody else holds.\<close>

definition claims :: "'a mworld_scheme \<Rightarrow> int \<Rightarrow> bool" where
  "claims w p \<longleftrightarrow> msgs_inv w \<and> p \<noteq> 0 \<and> own (led (calls w)) p = Mine \<and>
     (\<forall>j. \<not> live w j p)"

lemma claims_set_ptr:
  assumes "claims w p" and "i < next_msg w"
  shows "msgs_inv (w\<lparr>msgs := (msgs w)(i := (msgs w i)\<lparr>nng_msg := Some p\<rparr>)\<rparr>)"
  using assms unfolding claims_def msgs_inv_def by (auto simp: live_def split: if_splits)

lemma msgs_inv_handed_out:
  assumes "fresh_lib L" and "msgs_inv w" and "hands_out (led (calls w)) c (fn L (calls w) c)"
    and "safe_call (led (calls w)) c"
    and "\<And>p. own (led_step (led (calls w)) (c, fn L (calls w) c)) p =
        (if p = r_out (fn L (calls w) c) then Mine else own (led (calls w)) p)"
  shows "claims (w\<lparr>calls := calls w @ [(c, fn L (calls w) c)]\<rparr>) (r_out (fn L (calls w) c))"
  unfolding claims_def
proof (intro conjI allI)
  let ?p = "r_out (fn L (calls w) c)"
  have np: "?p \<noteq> 0" "own (led (calls w)) ?p \<noteq> Mine"
    using assms(1,3) by (auto simp: fresh_lib_def)
  show "msgs_inv (w\<lparr>calls := calls w @ [(c, fn L (calls w) c)]\<rparr>)"
    by (rule msgs_inv_call [OF assms(2,4)]) (simp add: assms(5))
  show "?p \<noteq> 0" by (rule np)
  show "\<not> live (w\<lparr>calls := calls w @ [(c, fn L (calls w) c)]\<rparr>) j ?p" for j
    using np live_own [OF assms(2)] by auto
qed (use assms in simp_all)


text \<open>A pointer in hand that no object holds yet.\<close>

definition in_hand :: "'a mworld_scheme \<Rightarrow> int \<Rightarrow> 'a mworld_scheme \<Rightarrow> bool" where
  "in_hand w0 p t \<longleftrightarrow> claims t p \<and> msgs t = msgs w0 \<and> next_msg t = next_msg w0"

lemma in_hand_inv: "in_hand w0 p t \<Longrightarrow> msgs_inv t"
  by (simp add: in_hand_def claims_def)

lemma wp_in_hand_call:
  assumes "in_hand w0 p w" and "neutral c" and "uses c = None \<or> uses c = Some p"
    and "\<And>r t. in_hand w0 p t \<Longrightarrow> Q r t" and "\<And>e t. in_hand w0 p t \<Longrightarrow> E e t"
  shows "wp (ccall L c) Q E w"
proof -
  have c: "claims w p" using assms(1) by (simp add: in_hand_def)
  then have s: "safe_call (led (calls w)) c"
    using assms(3) by (auto simp: safe_call_def claims_def)
  have "in_hand w0 p (w\<lparr>calls := calls w @ [(c, r)]\<rparr>)" for r
    using assms(1) c quiet_call [OF _ assms(2) s, of r]
    by (simp add: in_hand_def claims_def quiet_def)
  then show ?thesis using assms(4,5) by (simp add: wp_ccall)
qed

lemma wp_in_hand_check_err:
  assumes "in_hand w0 p w"
    and "n = 0 \<Longrightarrow> Q () w" and "\<And>e t. n \<noteq> 0 \<Longrightarrow> in_hand w0 p t \<Longrightarrow> E e t"
  shows "wp (check_err L n) Q E w"
  using assms
  by (auto simp: wp_check_err simp del: wp_ccall intro!: wp_in_hand_call [where ?w0.0 = w0])

lemma wp_in_hand_free:
  assumes "in_hand w0 p w" and "\<And>r t. msgs_inv t \<Longrightarrow> Q r t" and "\<And>e t. msgs_inv t \<Longrightarrow> E e t"
  shows "wp (ccall L (M (Msg_free p))) Q E w"
proof -
  have c: "claims w p" using assms(1) by (simp add: in_hand_def)
  have "msgs_inv (w\<lparr>calls := calls w @ [(M (Msg_free p), r)]\<rparr>)" for r
    using c by (intro msgs_inv_call)
      (auto simp: claims_def safe_call_def uses_msg_def led_msg_def)
  then show ?thesis using assms(2,3) by (simp add: wp_ccall)
qed

text \<open>The objects are as before and the invariant holds; the calls made are anything.\<close>

definition calm :: "'a mworld_scheme \<Rightarrow> 'a mworld_scheme \<Rightarrow> bool" where
  "calm w t \<longleftrightarrow> msgs_inv t \<and> msgs t = msgs w \<and> next_msg t = next_msg w"

lemma calm_refl: "msgs_inv w \<Longrightarrow> calm w w"
  by (simp add: calm_def)

lemma calm_inv: "calm w t \<Longrightarrow> msgs_inv t"
  by (simp add: calm_def)

lemma in_hand_calm: "in_hand w p t \<Longrightarrow> calm w t"
  by (simp add: in_hand_def claims_def calm_def)

lemma quiet_calm: "calm w t \<Longrightarrow> quiet t u \<Longrightarrow> calm w u"
  by (simp add: calm_def quiet_def)

text \<open>A call that yields a message on success puts it into the caller's hand.\<close>

lemma wp_hand_out:
  assumes "fresh_lib L" and "msgs_inv w"
    and "c = M (Msg_alloc n) \<or> c = M (Recvmsg sk f) \<or> c = M (Ctx_recvmsg sk f) \<or>
         (c = M (Msg_dup q) \<and> live w j q)"
    and "\<And>r t. r_val r = 0 \<Longrightarrow> in_hand w (r_out r) t \<Longrightarrow> Q r t"
    and "\<And>r t. r_val r \<noteq> 0 \<Longrightarrow> quiet w t \<Longrightarrow> Q r t"
    and "\<And>e t. calm w t \<Longrightarrow> E e t"
  shows "wp (ccall L c) Q E w"
proof -
  let ?r = "fn L (calls w) c" and ?t = "w\<lparr>calls := calls w @ [(c, fn L (calls w) c)]\<rparr>"
  have s: "safe_call (led (calls w)) c"
    using assms(2,3) live_own by (auto simp: safe_call_def uses_msg_def)
  have "in_hand w (r_out ?r) ?t" if "r_val ?r = 0"
  proof -
    have "claims ?t (r_out ?r)"
      by (rule msgs_inv_handed_out [OF assms(1,2) _ s])
        (use assms(3) that in \<open>auto simp: hands_out_def led_msg_def\<close>)
    then show ?thesis by (simp add: in_hand_def)
  qed
  moreover have "quiet w ?t" if "r_val ?r \<noteq> 0"
  proof -
    have "own (led_step (led (calls w)) (c, ?r)) = own (led (calls w))"
      using assms(3) that by (auto simp: led_msg_def)
    then show ?thesis using msgs_inv_call [OF assms(2) s, of ?r] by (auto simp: quiet_def)
  qed
  ultimately show ?thesis
    using assms(4-6) in_hand_calm [of w _ ?t] quiet_calm [of w w ?t] calm_refl [OF assms(2)]
    by (cases "r_val ?r = 0") (auto simp: wp_ccall)
qed

lemma wp_check_err_0 [simp]: "wp (check_err L 0) Q E s = Q () s"
  by (simp add: wp_check_err)

lemmas hand_rules = wp_in_hand_call wp_in_hand_check_err wp_in_hand_free

lemma alloc_msg_inv:
  assumes "fresh_lib L" and "msgs_inv w"
  shows "wp (alloc_msg L d) (\<lambda>p. in_hand w p) (\<lambda>_. msgs_inv) w"
proof -
  have app: "wp (try_except
         (bnd (ccall L (M (Msg_append p b))) (\<lambda>a. check_err L (r_val a)))
         (\<lambda>e. if is_Exception e
              then bnd (ccall L (M (Msg_free p))) (\<lambda>_. raise_exc e)
              else raise_exc e)) (\<lambda>_. in_hand w p) (\<lambda>_. msgs_inv) t"
    if "in_hand w p t" for p b t
    using that
    by (auto simp: wp_simps uses_msg_def simp del: wp_ccall wp_check_err
        intro!: hand_rules [where ?w0.0 = w and p = p] intro: in_hand_inv)
  have alloc: "wp (ccall L (M (Msg_alloc 0)))
      (\<lambda>r. wp (check_err L (r_val r)) (\<lambda>_. in_hand w (r_out r)) (\<lambda>_. msgs_inv)) (\<lambda>_. msgs_inv) w"
    by (rule wp_hand_out [OF assms, where n = 0])
      (auto intro!: wp_quiet_check_err [where ?w0.0 = w] intro: quiet_inv calm_inv)
  show ?thesis
  proof (cases d)
    case (DBuf m)
    have "wp (bnd (ccall L (M (Msg_alloc 0))) (\<lambda>r. andthen (check_err L (r_val r)) (rest r)))
        (in_hand w) (\<lambda>_. msgs_inv) w"
      if "\<And>r t. in_hand w (r_out r) t \<Longrightarrow> wp (rest r) (in_hand w) (\<lambda>_. msgs_inv) t" for rest
      unfolding wp_bnd wp_andthen
      by (rule wp_mono [OF alloc]) (auto elim!: wp_mono intro: that)
    note run = this
    show ?thesis
      unfolding alloc_msg_def ensure_can_send_data_def DBuf
      using assms(2)
      by (auto simp: wp_andthen wp_check_fork wp_ret as_memoryview_def wp_bnd [where m = "ret m"]
          intro!: run wp_mono [OF app])
  qed (use assms in \<open>auto simp: alloc_msg_def ensure_can_send_data_def wp_simps simp del: wp_ccall\<close>)
qed

text \<open>The constructor, for bytes or for a pointer in hand, and the methods that create objects.\<close>

lemma msgs_inv_in_hand_set:
  assumes "in_hand w p t" and "msgs w i = fresh_message" and "i < next_msg w"
  shows "msgs_inv (t\<lparr>msgs := (msgs w)(i := fresh_message\<lparr>nng_msg := Some p, mpipe := q\<rparr>)\<rparr>)"
proof -
  have "claims t p" "msgs t = msgs w" "next_msg t = next_msg w" using assms(1) by (auto simp: in_hand_def)
  then show ?thesis
    using assms(2,3) unfolding claims_def msgs_inv_def
    by (auto simp: live_def fresh_message_def split: if_splits)
qed

lemma message_init_inv:
  assumes "fresh_lib L" and "msgs_inv w" and "i < next_msg w"
    and "msgs w i = fresh_message" and "\<And>q. d = FromPtr q \<Longrightarrow> in_hand w q w"
  shows "wp (message_init L i d p) (\<lambda>_. msgs_inv) (\<lambda>_. msgs_inv) w"
proof -
  have set: "wp (if p = NoPipe then upd_msg i (mpipe_update (\<lambda>_. None)) else msg_set_pipe L i p)
      (\<lambda>_. msgs_inv) (\<lambda>_. msgs_inv) (t\<lparr>msgs := (msgs t)(i := (msgs t i)\<lparr>nng_msg := Some q\<rparr>)\<rparr>)"
    if h: "in_hand w q t" for q t
  proof -
    let ?t = "t\<lparr>msgs := (msgs t)(i := (msgs t i)\<lparr>nng_msg := Some q\<rparr>)\<rparr>"
    have mi: "msgs t i = fresh_message" "msgs t = msgs w"
      using h assms(4) by (simp_all add: in_hand_def)
    have n: "msgs_inv (?t\<lparr>msgs := (msgs ?t)(i := (msgs ?t i)\<lparr>mpipe := x\<rparr>)\<rparr>)" for x
      using msgs_inv_in_hand_set [OF h assms(4,3), of x] mi by simp
    have "msgs_inv ?t"
      using msgs_inv_in_hand_set [OF h assms(4,3), of None] mi by (simp add: fresh_message_def)
    then have "wp (msg_set_pipe L i p) (\<lambda>_. msgs_inv) (\<lambda>_. msgs_inv) ?t"
      by (rule msg_set_pipe_inv) (use mi in \<open>simp_all add: fresh_message_def\<close>)
    then show ?thesis using n [of None] by (simp add: wp_upd_msg)
  qed
  show ?thesis
  proof (cases d)
    case (FromPtr q)
    then show ?thesis
      using set [OF assms(5)] by (simp add: message_init_def wp_andthen wp_upd_msg)
  next
    case (FromData x)
    have "wp (alloc_msg L x) (in_hand w) (\<lambda>_. msgs_inv) w"
      using assms(1,2) by (rule alloc_msg_inv)
    then show ?thesis
      unfolding message_init_def FromData msg_data.case wp_andthen wp_bnd
      by (rule wp_mono) (use set in \<open>auto simp: wp_upd_msg\<close>)
  qed
qed

lemma msgs_inv_new:
  assumes "msgs_inv w"
  shows "msgs_inv (w\<lparr>msgs := (msgs w)(next_msg w := fresh_message), next_msg := Suc (next_msg w)\<rparr>)"
  using assms unfolding msgs_inv_def by (auto simp: live_def fresh_message_def split: if_splits)

lemma mk_message_inv:
  assumes "fresh_lib L" and "msgs_inv w" and "\<And>q. d = FromPtr q \<Longrightarrow> in_hand w q w"
  shows "wp (mk_message L d p) (\<lambda>_. msgs_inv) (\<lambda>_. msgs_inv) w"
proof -
  let ?w = "w\<lparr>msgs := (msgs w)(next_msg w := fresh_message), next_msg := Suc (next_msg w)\<rparr>"
  have lv: "live ?w j q \<Longrightarrow> live w j q" for j q
    by (auto simp: live_def fresh_message_def split: if_splits)
  have inv: "msgs_inv ?w" using assms(2) by (rule msgs_inv_new)
  have hand: "in_hand ?w q ?w" if "d = FromPtr q" for q
    using assms(3) [OF that] inv lv by (auto simp: in_hand_def claims_def)
  have "wp (message_init L (next_msg w) d p) (\<lambda>_. msgs_inv) (\<lambda>_. msgs_inv) ?w"
    by (rule message_init_inv [OF assms(1) inv _ _ hand]) simp_all
  then show ?thesis
    by (simp add: mk_message_def new_message_def wp_bnd wp_andthen wp_getf wp_modf wp_ret)
qed

lemma msg_copy_inv:
  assumes "fresh_lib L" and "msgs_inv w" and "\<not> gone (msgs w i)"
  shows "wp (msg_copy L i) (\<lambda>_. msgs_inv) (\<lambda>_. msgs_inv) w"
proof (cases "\<not> mem_freed (msgs w i) \<and> nng_msg (msgs w i) \<noteq> None")
  case True
  then obtain p where p: "nng_msg (msgs w i) = Some p" and lv: "live w i p"
    using assms(3) by (auto simp: live_def)
  have mk: "wp (mk_message L (FromPtr q) x) (\<lambda>_. msgs_inv) (\<lambda>_. msgs_inv) t"
    if "in_hand w q t" for q x t
    by (rule mk_message_inv [OF assms(1) in_hand_inv [OF that]])
      (use that in \<open>auto simp: in_hand_def\<close>)
  have "wp (ccall L (M (Msg_dup p))) (\<lambda>r. wp (andthen (check_err L (r_val r))
     (bnd (getf (\<lambda>w. mpipe (msgs w i))) (\<lambda>q.
     mk_message L (FromPtr (r_out r)) (case q of None \<Rightarrow> NoPipe | Some x \<Rightarrow> APipe x))))
     (\<lambda>_. msgs_inv) (\<lambda>_. msgs_inv)) (\<lambda>_. msgs_inv) w"
    by (rule wp_hand_out [OF assms(1,2), where q = p and j = i])
      (use lv mk in \<open>auto simp: wp_andthen wp_bnd wp_getf
        intro!: wp_quiet_check_err [where ?w0.0 = w] intro: quiet_inv calm_inv\<close>)
  with True p show ?thesis
    by (simp add: msg_copy_def wp_simps del: wp_ccall wp_check_err)
next
  case False
  with assms(2) show ?thesis by (auto simp: msg_copy_def wp_simps simp del: wp_ccall)
qed

text \<open>The finalizer frees the message of a live object, and the object is gone.\<close>

lemma msgs_inv_gone:
  assumes "safe (calls w)" and "\<And>j p. live w j p \<Longrightarrow> j \<noteq> i \<Longrightarrow> p \<noteq> 0 \<and> own (led (calls w)) p = Mine"
    and "\<And>j k p. live w j p \<Longrightarrow> live w k p \<Longrightarrow> j \<noteq> i \<Longrightarrow> k \<noteq> i \<Longrightarrow> j = k"
    and "\<forall>j \<ge> next_msg w. nng_msg (msgs w j) = None"
    and "nng_msg m' = nng_msg (msgs w i)" and "gone m'"
  shows "msgs_inv (w\<lparr>msgs := (msgs w)(i := m')\<rparr>)"
  using assms unfolding msgs_inv_def by (auto simp: live_def split: if_splits)

lemma msgs_inv_free_gone:
  assumes "msgs_inv w" and "live w i p" and "nng_msg m' = Some p" and "gone m'"
  shows "msgs_inv (w\<lparr>calls := calls w @ [(M (Msg_free p), r)], msgs := (msgs w)(i := m')\<rparr>)"
proof -
  let ?t = "w\<lparr>calls := calls w @ [(M (Msg_free p), r)]\<rparr>"
  have "msgs_inv (?t\<lparr>msgs := (msgs ?t)(i := m')\<rparr>)"
  proof (rule msgs_inv_gone)
    show "safe (calls ?t)"
      using assms live_own [OF assms(1,2)]
      by (simp add: safe_call_def uses_msg_def) (simp add: msgs_inv_def)
    show "q \<noteq> 0 \<and> own (led (calls ?t)) q = Mine" if "live ?t j q" "j \<noteq> i" for j q
      using assms(1,2) that unfolding msgs_inv_def by (auto simp: led_msg_def)
    show "j = k" if "live ?t j q" "live ?t k q" "j \<noteq> i" "k \<noteq> i" for j k q
      using assms(1) that unfolding msgs_inv_def by auto
  qed (use assms in \<open>auto simp: msgs_inv_def live_def\<close>)
  then show ?thesis by simp
qed

lemma msg_del_inv:
  assumes "msgs_inv w" and "\<not> gone (msgs w i)"
  shows "wp (msg_del L i) (\<lambda>_. msgs_inv) (\<lambda>_. msgs_inv) w"
proof (cases "\<not> is_nng_finalized w \<and> \<not> mem_freed (msgs w i) \<and> nng_msg (msgs w i) \<noteq> None
    \<and> \<not> gone (msgs w i)")
  case True
  then obtain p where "nng_msg (msgs w i) = Some p" and "live w i p"
    by (auto simp: live_def)
  with True assms show ?thesis
    by (auto simp: msg_del_def wp_simps intro!: msgs_inv_free_gone)
next
  case False
  with assms show ?thesis
    by (auto simp: msg_del_def wp_simps intro!: msgs_inv_upd)
qed

section \<open>What a message holds\<close>

text \<open>
  The body of each message, as nng's documentation has it: empty when allocated, extended by a
  successful append, copied by a duplication.
\<close>

definition body_step :: "(int \<Rightarrow> byte list) \<Rightarrow> ncall \<times> nres \<Rightarrow> (int \<Rightarrow> byte list)" where
  "body_step m cr = (case fst cr of
     M c \<Rightarrow> (case c of
        Msg_alloc n \<Rightarrow> if r_val (snd cr) = 0 then m(r_out (snd cr) := replicate n 0) else m
      | Msg_append p b \<Rightarrow> if r_val (snd cr) = 0 then m(p := m p @ b) else m
      | Msg_dup p \<Rightarrow> if r_val (snd cr) = 0 then m(r_out (snd cr) := m p) else m
      | _ \<Rightarrow> m)
   | _ \<Rightarrow> m)"

definition body_of :: "trace \<Rightarrow> int \<Rightarrow> byte list" where
  "body_of tr = foldl body_step (\<lambda>_. []) tr"

lemma body_of_append [simp]: "body_of (tr @ xs) = foldl body_step (body_of tr) xs"
  by (simp add: body_of_def)

definition faithful_bodies :: "nng_lib \<Rightarrow> bool" where
  "faithful_bodies L \<longleftrightarrow> (\<forall>tr p.
     r_val (fn L tr (M (Msg_len p))) = int (length (body_of tr p)) \<and>
     r_bytes (fn L tr (M (Msg_body p))) = body_of tr p)"

lemma copied_raw_iff:
  assumes "itemsize b > 0" and "itemsize b dvd length (raw b)"
  shows "copied b = raw b \<longleftrightarrow> itemsize b = 1 \<or> raw b = []"
proof
  assume "copied b = raw b"
  then have "length (raw b) \<le> length (raw b) div itemsize b"
    by (metis buf_len_def copied_def length_take min.cobounded2)
  moreover have "length (raw b) div itemsize b < length (raw b)"
    if "1 < itemsize b" "0 < length (raw b)"
    using that by simp
  ultimately show "itemsize b = 1 \<or> raw b = []"
    using assms(1) by (metis One_nat_def Suc_lessI length_greater_0_conv not_le)
qed (auto simp: copied_def buf_len_def)

lemma mk_message_body:
  "wp (mk_message L (FromData (DBuf b)) p)
     (\<lambda>i t. \<exists>q. nng_msg (msgs t i) = Some q \<and> \<not> mem_freed (msgs t i) \<and>
        body_of (calls t) q = copied b) (\<lambda>_ _. True) w"
  unfolding mk_message_def new_message_def message_init_def alloc_msg_def
    ensure_can_send_data_def as_memoryview_def msg_set_pipe_def
  by (auto simp: wp_simps body_step_def fresh_message_def split: pipe_arg.split)

lemma msg_bytes_body:
  assumes "faithful_bodies L" and "nng_msg (msgs w i) = Some q"
  shows "wp (msg_bytes L i) (\<lambda>bs _. bs = body_of (calls w) q) (\<lambda>_ _. True) w"
  using assms by (auto simp: msg_bytes_def wp_simps faithful_bodies_def body_step_def)

text \<open>C36. Reading back a message gives what was put in, for every byte buffer. \<open>Message(data)\<close>
  followed by \<open>msg.bytes\<close> returns the first \<open>len(memoryview(data))\<close> bytes of the buffer's
  memory, for any library that stores and returns message bodies as documented; that is the whole
  buffer exactly when its items are single bytes (or it is empty). A buffer with larger items, such as
  \<open>array('i', ...)\<close>, is cut short, because \<open>len\<close> counts items and nng is told to copy that
  many bytes.\<close>

theorem message_roundtrip:
  assumes "faithful_bodies L" and "itemsize b > 0" and "itemsize b dvd length (raw b)"
    and "mk_message L (FromData (DBuf b)) p w = (Inr i, t)" and "msg_bytes L i t = (Inr bs, u)"
  shows "bs = take (length (raw b) div itemsize b) (raw b) \<and>
    (bs = raw b \<longleftrightarrow> itemsize b = 1 \<or> raw b = [])"
proof

  obtain q where q: "nng_msg (msgs t i) = Some q" "body_of (calls t) q = copied b"
    using wp_resultI(1) [OF mk_message_body assms(4)] by blast
  have bs: "bs = copied b"
    using wp_resultI(1) [OF msg_bytes_body [OF assms(1) q(1)] assms(5)] q(2) by simp
  then show "bs = take (length (raw b) div itemsize b) (raw b)"
    by (simp add: copied_def buf_len_def)
  show "bs = raw b \<longleftrightarrow> itemsize b = 1 \<or> raw b = []"
    unfolding bs using assms(2,3) by (rule copied_raw_iff)
qed

text \<open>Once a message was sent or freed, every method refuses it and nng is not called.\<close>

lemma sent_message_refused:
  assumes "mem_freed (msgs w i)"
  shows "msg_bytes L i w = (Inl MessageStateError, w)"
    and "msg_header L i w = (Inl MessageStateError, w)"
    and "msg_copy L i w = (Inl MessageStateError, w)"
    and "fst (msg_header_append L i d w) \<in> {Inl MessageStateError, Inl RuntimeError}"
    and "snd (msg_header_append L i d w) = w"
  using assms
  by (auto simp: msg_bytes_def msg_header_def msg_copy_def msg_header_append_def
      ensure_can_send_def check_not_sent_def check_fork_def prog_defs)


text \<open>A library with message bodies as documented, and the empty world of objects.\<close>

definition ideal_lib :: nng_lib where
  "ideal_lib = demo_lib
     (\<lambda>tr c. case c of M m \<Rightarrow> (case m of Msg_len p \<Rightarrow> int (length (body_of tr p)) | _ \<Rightarrow> 0) | _ \<Rightarrow> 0)
     (\<lambda>tr c. None)
     (\<lambda>tr c. case c of M m \<Rightarrow> (case m of Msg_body p \<Rightarrow> body_of tr p | _ \<Rightarrow> []) | _ \<Rightarrow> [])"

definition mworld0 :: mworld where
  "mworld0 = world.extend world0 \<lparr>msgs = (\<lambda>_. fresh_message), next_msg = 0\<rparr>"

lemma mworld0_simps [simp]:
  "calls mworld0 = []" "init_pid mworld0 = None" "is_forked_child mworld0 = False"
  "msgs mworld0 = (\<lambda>_. fresh_message)" "next_msg mworld0 = 0"
  "fin_v1 mworld0 = Some False" "fin_v2 mworld0 = None"
  by (simp_all add: mworld0_def world.defs world0_def)

lemma faithful_ideal_lib: "faithful_bodies ideal_lib"
  by (simp add: faithful_bodies_def ideal_lib_def demo_lib_def)

lemma msgs_inv_mworld0: "msgs_inv mworld0"
  by (simp add: msgs_inv_def live_def fresh_message_def)

theorem message_roundtrip_witness:
  "fst (msg_bytes ideal_lib 0
      (snd (mk_message ideal_lib (FromData (DBuf \<lparr>itemsize = 2, raw = [1, 2, 3, 4]\<rparr>)) NoPipe mworld0)))
     = Inr [1, 2]"
proof -
  let ?b = "\<lparr>itemsize = 2, raw = [1, 2, 3, 4]\<rparr>"
  let ?w = "snd (mk_message ideal_lib (FromData (DBuf ?b)) NoPipe mworld0)"
  have mk: "mk_message ideal_lib (FromData (DBuf ?b)) NoPipe mworld0 = (Inr 0, ?w)"
    by (simp add: mk_message_def new_message_def message_init_def alloc_msg_def ccall_def
        ensure_can_send_data_def as_memoryview_def prog_defs Let_def check_fork_def fork_detected_def
        check_err_def upd_msg_def ideal_lib_def demo_lib_def top_ptr_def)
  have "\<exists>bs u. msg_bytes ideal_lib 0 ?w = (Inr bs, u)"
    by (simp add: mk_message_def new_message_def message_init_def alloc_msg_def ccall_def
        ensure_can_send_data_def as_memoryview_def prog_defs Let_def check_fork_def fork_detected_def
        check_err_def upd_msg_def ideal_lib_def demo_lib_def top_ptr_def msg_bytes_def
        check_not_sent_def msg_ptr_def fresh_message_def)
  then obtain bs u where b: "msg_bytes ideal_lib 0 ?w = (Inr bs, u)" by blast
  have "bs = take (length (raw ?b) div itemsize ?b) (raw ?b)"
    using message_roundtrip [OF faithful_ideal_lib _ _ mk b] by simp
  then show ?thesis using b by simp
qed

end
