(* ===== verification/Text.thy ===== *)
theory Text
  imports Errors
begin

text \<open>
  What the package uses of Python's text functions: \<open>str.encode\<close> and \<open>bytes.decode\<close> with
  strict UTF-8, decoding with \<open>errors='replace'\<close>, \<open>urllib.parse.quote\<close> and
  \<open>unquote\<close>, and decimal numerals. A \<open>str\<close> is a list of code points, here \<open>nat list\<close>;
  bytes are numbers below 256. The round trips are proved once for any chunk codec.
\<close>

type_synonym pystr = "nat list"

section \<open>Chunk codecs\<close>

text \<open>Repeat a decoder of one chunk until the input is used up.\<close>

function decode_with :: "('b list \<Rightarrow> ('a \<times> 'b list) option) \<Rightarrow> 'b list \<Rightarrow> 'a list option" where
  "decode_with d bs =
     (if bs = [] then Some []
      else case d bs of
        None \<Rightarrow> None
      | Some (c, r) \<Rightarrow>
          if length r < length bs then map_option (Cons c) (decode_with d r) else None)"
  by pat_completeness auto
termination
  by (relation "measure (\<lambda>(d, bs). length bs)") auto

declare decode_with.simps [simp del]

lemma decode_with_Nil [simp]: "decode_with d [] = Some []"
  by (simp add: decode_with.simps)

locale chunk_codec =
  fixes ok :: "'a \<Rightarrow> bool" and enc :: "'a \<Rightarrow> 'b list"
    and dec :: "'b list \<Rightarrow> ('a \<times> 'b list) option"
  assumes enc_nonempty: "ok c \<Longrightarrow> enc c \<noteq> []"
    and dec_enc: "ok c \<Longrightarrow> dec (enc c @ r) = Some (c, r)"
begin

lemma decode_encode: "list_all ok cs \<Longrightarrow> decode_with dec (concat (map enc cs)) = Some cs"
proof (induction cs)
  case (Cons c cs)
  let ?bs = "enc c @ concat (map enc cs)"
  from Cons.prems have ne: "enc c \<noteq> []" and d: "dec ?bs = Some (c, concat (map enc cs))"
    by (auto simp: enc_nonempty dec_enc)
  have "decode_with dec ?bs = map_option (Cons c) (decode_with dec (concat (map enc cs)))"
    using ne by (simp add: decode_with.simps [of dec ?bs] d)
  with Cons show ?case by simp
qed simp

lemma encode_inj:
  assumes "list_all ok cs" and "list_all ok ds" and "concat (map enc cs) = concat (map enc ds)"
  shows "cs = ds"
  by (metis decode_encode assms option.inject)

end

text \<open>A strict codec accepts nothing but what its encoder writes.\<close>

locale strict_codec = chunk_codec +
  assumes dec_inv: "dec bs = Some (c, r) \<Longrightarrow> ok c \<and> bs = enc c @ r"
begin

lemma encode_decode:
  "decode_with dec bs = Some cs \<Longrightarrow> list_all ok cs \<and> concat (map enc cs) = bs"
proof (induction bs arbitrary: cs rule: length_induct)
  case (1 bs)
  show ?case
  proof (cases "bs = []")
    case True
    with 1 show ?thesis by simp
  next
    case False
    with "1.prems" obtain c r cs' where d: "dec bs = Some (c, r)" "length r < length bs"
      and r: "decode_with dec r = Some cs'" "cs = c # cs'"
      by (subst (asm) decode_with.simps) (auto split: option.splits if_splits)
    from "1.IH" d(2) r(1) have "list_all ok cs' \<and> concat (map enc cs') = r" by blast
    with dec_inv [OF d(1)] r(2) show ?thesis by simp
  qed
qed

end

section \<open>UTF-8\<close>

definition scalar :: "nat \<Rightarrow> bool" where
  "scalar c \<longleftrightarrow> c < 0xD800 \<or> (0xE000 \<le> c \<and> c < 0x110000)"

definition utf8_enc1 :: "nat \<Rightarrow> nat list" where
  "utf8_enc1 c =
     (if c < 0x80 then [c]
      else if c < 0x800 then [0xC0 + c div 64, 0x80 + c mod 64]
      else if c < 0x10000 then [0xE0 + c div 4096, 0x80 + c div 64 mod 64, 0x80 + c mod 64]
      else [0xF0 + c div 262144, 0x80 + c div 4096 mod 64, 0x80 + c div 64 mod 64,
            0x80 + c mod 64])"

definition cont :: "nat \<Rightarrow> bool" where
  "cont b \<longleftrightarrow> 0x80 \<le> b \<and> b < 0xC0"

text \<open>One strict step: shortest form, no surrogates, nothing above U+10FFFF.\<close>

definition utf8_dec1 :: "nat list \<Rightarrow> (nat \<times> nat list) option" where
  "utf8_dec1 bs = (case bs of
     [] \<Rightarrow> None
   | a # r1 \<Rightarrow>
     if a < 0x80 then Some (a, r1)
     else if 0xC2 \<le> a \<and> a < 0xE0 then
       (case r1 of b # r2 \<Rightarrow>
          if cont b then Some ((a - 0xC0) * 64 + (b - 0x80), r2) else None
        | _ \<Rightarrow> None)
     else if 0xE0 \<le> a \<and> a < 0xF0 then
       (case r1 of b # c # r3 \<Rightarrow>
          (let v = (a - 0xE0) * 4096 + (b - 0x80) * 64 + (c - 0x80)
           in if cont b \<and> cont c \<and> 0x800 \<le> v \<and> scalar v then Some (v, r3) else None)
        | _ \<Rightarrow> None)
     else if 0xF0 \<le> a \<and> a < 0xF5 then
       (case r1 of b # c # d # r4 \<Rightarrow>
          (let v = (a - 0xF0) * 262144 + (b - 0x80) * 4096 + (c - 0x80) * 64 + (d - 0x80)
           in if cont b \<and> cont c \<and> cont d \<and> 0x10000 \<le> v \<and> scalar v
              then Some (v, r4) else None)
        | _ \<Rightarrow> None)
     else None)"

definition utf8_encode :: "pystr \<Rightarrow> (pyexc + nat list)" where
  "utf8_encode s =
     (if list_all scalar s then Inr (concat (map utf8_enc1 s)) else Inl ValueError)"

definition utf8_decode :: "nat list \<Rightarrow> (pyexc + pystr)" where
  "utf8_decode bs =
     (case decode_with utf8_dec1 bs of None \<Rightarrow> Inl UnicodeDecodeError | Some s \<Rightarrow> Inr s)"

lemma utf8_enc1_nonempty: "utf8_enc1 c \<noteq> []"
  by (simp add: utf8_enc1_def)

lemma div_mod_64: "(c div 4096) * 4096 + (c div 64 mod 64) * 64 + c mod 64 = (c::nat)"
proof -
  have "c div 4096 = c div 64 div 64" by (simp add: div_mult2_eq [symmetric])
  moreover have "c div 64 div 64 * 64 + c div 64 mod 64 = c div 64" by (rule div_mult_mod_eq)
  moreover have "c div 64 * 64 + c mod 64 = c" by (rule div_mult_mod_eq)
  ultimately show ?thesis by linarith
qed

lemma div_mod_64_4:
  "(c div 262144) * 262144 + (c div 4096 mod 64) * 4096 + (c div 64 mod 64) * 64 + c mod 64
     = (c::nat)"
proof -
  have "c div 262144 = c div 4096 div 64" by (simp add: div_mult2_eq [symmetric])
  moreover have "c div 4096 div 64 * 64 + c div 4096 mod 64 = c div 4096" by (rule div_mult_mod_eq)
  ultimately show ?thesis using div_mod_64 [of c] by linarith
qed

lemma utf8_dec1_enc1:
  assumes "scalar c"
  shows "utf8_dec1 (utf8_enc1 c @ r) = Some (c, r)"
proof -
  have "c < 0x110000" using assms by (auto simp: scalar_def)
  then consider "c < 0x80" | "0x80 \<le> c" "c < 0x800" | "0x800 \<le> c" "c < 0x10000"
    | "0x10000 \<le> c" "c < 0x110000"
    by linarith
  then show ?thesis
  proof cases
    case 1
    then show ?thesis by (simp add: utf8_enc1_def utf8_dec1_def)
  next
    case 2
    then have "2 \<le> c div 64" "c div 64 < 32" by (simp_all add: less_mult_imp_div_less)
    with 2 show ?thesis by (simp add: utf8_enc1_def utf8_dec1_def cont_def)
  next
    case 3
    then have "c div 4096 < 16" by (simp add: less_mult_imp_div_less)
    with 3 assms show ?thesis
      by (simp add: utf8_enc1_def utf8_dec1_def cont_def Let_def div_mod_64)
  next
    case 4
    then have "c div 262144 < 5" by (simp add: less_mult_imp_div_less)
    with 4 assms show ?thesis
      by (simp add: utf8_enc1_def utf8_dec1_def cont_def Let_def div_mod_64_4)
  qed
qed


lemma cont_iff: "cont b \<longleftrightarrow> (\<exists>x<64. b = 0x80 + x)"
  unfolding cont_def by (rule iffI, rule exI [of _ "b - 0x80"]) auto

lemma split_64: "y < 64 \<Longrightarrow> z < 64 \<Longrightarrow>
    (x * 4096 + y * 64 + z) div 4096 = (x::nat) \<and>
    (x * 4096 + y * 64 + z) div 64 mod 64 = y \<and> (x * 4096 + y * 64 + z) mod 64 = z"
proof -
  assume a: "y < 64" "z < 64"
  have 1: "(x * 4096 + y * 64 + z) div 64 = x * 64 + y"
    using a div_mult_self1 [of 64 z "x * 64 + y"] by (simp add: algebra_simps)
  have "(x * 4096 + y * 64 + z) div 4096 = (x * 4096 + y * 64 + z) div 64 div 64"
    by (simp add: div_mult2_eq [symmetric])
  also have "\<dots> = x" using a unfolding 1 by simp
  finally have 2: "(x * 4096 + y * 64 + z) div 4096 = x" .
  have "(x * 4096 + y * 64 + z) div 64 * 64 + (x * 4096 + y * 64 + z) mod 64
      = x * 4096 + y * 64 + z" by (rule div_mult_mod_eq)
  then have "(x * 4096 + y * 64 + z) mod 64 = z" unfolding 1 by (simp add: algebra_simps)
  then show ?thesis using a 1 2 by simp
qed

lemma split_64_4: "u < 64 \<Longrightarrow> y < 64 \<Longrightarrow> z < 64 \<Longrightarrow>
    (x * 262144 + u * 4096 + y * 64 + z) div 262144 = (x::nat) \<and>
    (x * 262144 + u * 4096 + y * 64 + z) div 4096 mod 64 = u \<and>
    (x * 262144 + u * 4096 + y * 64 + z) div 64 mod 64 = y \<and>
    (x * 262144 + u * 4096 + y * 64 + z) mod 64 = z"
proof -
  assume a: "u < 64" "y < 64" "z < 64"
  let ?v = "(x * 64 + u) * 4096 + y * 64 + z"
  have v: "x * 262144 + u * 4096 + y * 64 + z = ?v" by (simp add: algebra_simps)
  have "?v div 4096 = x * 64 + u" using split_64 [OF a(2,3), of "x * 64 + u"] by blast
  moreover have "?v div 262144 = ?v div 4096 div 64" by (simp add: div_mult2_eq [symmetric])
  moreover have "(x * 64 + u) div 64 = x" "(x * 64 + u) mod 64 = u" using a by simp_all
  ultimately have "?v div 262144 = x" "?v div 4096 mod 64 = u" by simp_all
  then show ?thesis unfolding v using split_64 [OF a(2,3), of "x * 64 + u"] by blast
qed

lemma utf8_dec1_inv:
  assumes "utf8_dec1 bs = Some (c, r)"
  shows "scalar c \<and> bs = utf8_enc1 c @ r"
proof -
  obtain a r1 where bs: "bs = a # r1" using assms by (cases bs) (auto simp: utf8_dec1_def)
  consider (one) "a < 0x80" | (two) "0xC2 \<le> a" "a < 0xE0" | (three) "0xE0 \<le> a" "a < 0xF0"
    | (four) "0xF0 \<le> a" "a < 0xF5" | (bad) "\<not> a < 0x80" "\<not> (0xC2 \<le> a \<and> a < 0xF5)"
    by linarith
  then show ?thesis
  proof cases
    case one
    with assms show ?thesis by (auto simp: bs utf8_dec1_def utf8_enc1_def scalar_def)
  next
    case two
    define x where "x = a - 0xC0"
    have a: "a = 0xC0 + x" "2 \<le> x" "x < 32" using two by (auto simp: x_def)
    from two assms obtain b where r1: "r1 = b # r" "cont b" and c: "c = x * 64 + (b - 0x80)"
      by (auto simp: bs utf8_dec1_def x_def split: list.splits if_splits)
    obtain y where y: "y < 64" "b = 0x80 + y" using r1(2) by (auto simp: cont_iff)
    have "c div 64 = x" "c mod 64 = y" using y c by simp_all
    moreover have "0x80 \<le> c" "c < 0x800" using a y c by simp_all
    ultimately show ?thesis using a y by (simp add: bs r1 utf8_enc1_def scalar_def)
  next
    case three
    define x where "x = a - 0xE0"
    have a: "a = 0xE0 + x" "x < 16" using three by (auto simp: x_def)
    from three assms obtain b d where r1: "r1 = b # d # r" "cont b" "cont d"
      and c: "c = x * 4096 + (b - 0x80) * 64 + (d - 0x80)" "0x800 \<le> c" "scalar c"
      by (auto simp: bs utf8_dec1_def x_def Let_def split: list.splits if_splits)
    obtain y where y: "y < 64" "b = 0x80 + y" using r1(2) by (auto simp: cont_iff)
    obtain z where z: "z < 64" "d = 0x80 + z" using r1(3) by (auto simp: cont_iff)
    have v: "c = x * 4096 + y * 64 + z" using c y z by simp
    have "c < 0x10000" using a y z v by linarith
    have d: "c div 4096 = x" "c div 64 mod 64 = y" "c mod 64 = z"
      using split_64 [OF y(1) z(1), of x] by (simp_all only: v)
    show ?thesis using \<open>0x800 \<le> c\<close> \<open>c < 0x10000\<close> \<open>scalar c\<close>
      by (simp add: bs r1 utf8_enc1_def d a(1) y(2) z(2))
  next
    case four
    define x where "x = a - 0xF0"
    have a: "a = 0xF0 + x" "x < 5" using four by (auto simp: x_def)
    from four assms obtain b d e where r1: "r1 = b # d # e # r" "cont b" "cont d" "cont e"
      and c: "c = x * 262144 + (b - 0x80) * 4096 + (d - 0x80) * 64 + (e - 0x80)"
        "0x10000 \<le> c" "scalar c"
      by (auto simp: bs utf8_dec1_def x_def Let_def split: list.splits if_splits)
    obtain u where u: "u < 64" "b = 0x80 + u" using r1(2) by (auto simp: cont_iff)
    obtain y where y: "y < 64" "d = 0x80 + y" using r1(3) by (auto simp: cont_iff)
    obtain z where z: "z < 64" "e = 0x80 + z" using r1(4) by (auto simp: cont_iff)
    have v: "c = x * 262144 + u * 4096 + y * 64 + z" using c u y z by simp
    have d: "c div 262144 = x" "c div 4096 mod 64 = u" "c div 64 mod 64 = y" "c mod 64 = z"
      using split_64_4 [OF u(1) y(1) z(1), of x] by (simp_all only: v)
    show ?thesis using \<open>0x10000 \<le> c\<close> \<open>scalar c\<close>
      by (simp add: bs r1 utf8_enc1_def d a(1) u(2) y(2) z(2))
  next
    case bad
    with assms show ?thesis by (auto simp: bs utf8_dec1_def split: if_splits)
  qed
qed

interpretation utf8: strict_codec scalar utf8_enc1 utf8_dec1
  by unfold_locales (simp_all add: utf8_enc1_nonempty utf8_dec1_enc1 utf8_dec1_inv)

text \<open>The two directions of the codec.\<close>

lemma utf8_decode_encode: "utf8_encode s = Inr bs \<Longrightarrow> utf8_decode bs = Inr s"
  by (auto simp: utf8_encode_def utf8_decode_def utf8.decode_encode split: if_splits)

lemma utf8_encode_decode: "utf8_decode bs = Inr s \<Longrightarrow> utf8_encode s = Inr bs"
  using utf8.encode_decode [of bs s]
  by (auto simp: utf8_encode_def utf8_decode_def split: option.splits)

lemma utf8_enc1_byte: "scalar c \<Longrightarrow> b \<in> set (utf8_enc1 c) \<Longrightarrow> b < 256"
proof -
  assume a: "scalar c" "b \<in> set (utf8_enc1 c)"
  have m: "x mod 64 < 64" for x :: nat by simp
  have "c < 0x800 \<Longrightarrow> c div 64 < 32" "c < 0x10000 \<Longrightarrow> c div 4096 < 16"
    "c < 0x110000 \<Longrightarrow> c div 262144 < 5" by (simp_all add: less_mult_imp_div_less)
  then show ?thesis
    using a m [of c] m [of "c div 64"] m [of "c div 4096"]
    by (auto simp: utf8_enc1_def scalar_def split: if_splits)
qed

section \<open>Decoding with replacement\<close>

text \<open>
  \<open>errors='replace'\<close>: a malformed sequence becomes one U+FFFD, and \<open>bad_len\<close> bytes of it
  are skipped, the longest start of a well-formed character.
\<close>

definition second_ok :: "nat \<Rightarrow> nat \<Rightarrow> bool" where
  "second_ok a b \<longleftrightarrow> cont b \<and> (a = 0xE0 \<longrightarrow> 0xA0 \<le> b) \<and> (a = 0xED \<longrightarrow> b < 0xA0) \<and>
     (a = 0xF0 \<longrightarrow> 0x90 \<le> b) \<and> (a = 0xF4 \<longrightarrow> b < 0x90)"

definition bad_len :: "nat list \<Rightarrow> nat" where
  "bad_len bs = (case bs of
     a # b # r \<Rightarrow>
       if 0xE0 \<le> a \<and> a < 0xF5 \<and> second_ok a b then
         (case r of c # r' \<Rightarrow> if 0xF0 \<le> a \<and> cont c then 3 else 2 | [] \<Rightarrow> 2)
       else 1
   | _ \<Rightarrow> 1)"

lemma bad_len_pos: "0 < bad_len bs"
  by (auto simp: bad_len_def split: list.split)

lemma utf8_dec1_shorter: "utf8_dec1 bs = Some (c, r) \<Longrightarrow> length r < length bs"
  using utf8_dec1_inv [of bs c r] utf8_enc1_nonempty [of c] by auto

function utf8_decode_replace :: "nat list \<Rightarrow> pystr" where
  "utf8_decode_replace bs =
     (if bs = [] then []
      else case utf8_dec1 bs of
        Some (c, r) \<Rightarrow> c # utf8_decode_replace r
      | None \<Rightarrow> 0xFFFD # utf8_decode_replace (drop (bad_len bs) bs))"
  by pat_completeness auto
termination
  by (relation "measure length") (auto simp: bad_len_pos utf8_dec1_shorter)

declare utf8_decode_replace.simps [simp del]

lemma utf8_decode_replace_strict:
  "decode_with utf8_dec1 bs = Some cs \<Longrightarrow> utf8_decode_replace bs = cs"
proof (induction bs arbitrary: cs rule: utf8_decode_replace.induct)
  case (1 bs)
  show ?case
  proof (cases "bs = []")
    case True
    with 1 show ?thesis by (simp add: utf8_decode_replace.simps)
  next
    case False
    with "1.prems" obtain c r cs' where d: "utf8_dec1 bs = Some (c, r)"
      and r: "decode_with utf8_dec1 r = Some cs'" "cs = c # cs'"
      by (subst (asm) decode_with.simps) (auto split: option.splits if_splits)
    have "utf8_decode_replace r = cs'" using "1.IH"(2) [OF False d refl r(1)] by simp
    then show ?thesis using False d r(2) by (simp add: utf8_decode_replace.simps [of bs])
  qed
qed

lemma utf8_decode_replace_encode:
  "list_all scalar s \<Longrightarrow> utf8_decode_replace (concat (map utf8_enc1 s)) = s"
  by (rule utf8_decode_replace_strict, rule utf8.decode_encode)

section \<open>Percent encoding\<close>

definition codes :: "string \<Rightarrow> pystr" where
  "codes = map of_char"

definition is_safe :: "nat \<Rightarrow> bool" where
  "is_safe b \<longleftrightarrow> (65 \<le> b \<and> b \<le> 90) \<or> (97 \<le> b \<and> b \<le> 122) \<or> (48 \<le> b \<and> b \<le> 57) \<or>
     b \<in> {45, 46, 47, 95, 126}"

definition hexdig :: "nat \<Rightarrow> nat" where
  "hexdig n = (if n < 10 then 48 + n else 55 + n)"

definition unhexdig :: "nat \<Rightarrow> nat option" where
  "unhexdig c =
     (if 48 \<le> c \<and> c \<le> 57 then Some (c - 48)
      else if 65 \<le> c \<and> c \<le> 70 then Some (c - 55)
      else if 97 \<le> c \<and> c \<le> 102 then Some (c - 87) else None)"

lemma unhexdig_hexdig: "n < 16 \<Longrightarrow> unhexdig (hexdig n) = Some n"
  by (auto simp: unhexdig_def hexdig_def)

definition quote1 :: "nat \<Rightarrow> pystr" where
  "quote1 b = (if is_safe b then [b] else [37, hexdig (b div 16), hexdig (b mod 16)])"

text \<open>\<open>quote(s)\<close>: strict UTF-8, then every unsafe byte as \<open>%XX\<close>.\<close>

definition quote :: "pystr \<Rightarrow> (pyexc + pystr)" where
  "quote s = (case utf8_encode s of Inl e \<Rightarrow> Inl e | Inr bs \<Rightarrow> Inr (concat (map quote1 bs)))"

definition unquote1 :: "nat list \<Rightarrow> (nat \<times> nat list) option" where
  "unquote1 bs = (case bs of
     [] \<Rightarrow> None
   | a # r \<Rightarrow>
     (case r of
        h # l # r' \<Rightarrow>
          (if a = 37 then
             (case (unhexdig h, unhexdig l) of
                (Some x, Some y) \<Rightarrow> Some (x * 16 + y, r')
              | _ \<Rightarrow> Some (a, r))
           else Some (a, r))
      | _ \<Rightarrow> Some (a, r)))"

definition unquote_to_bytes :: "pystr \<Rightarrow> nat list" where
  "unquote_to_bytes s = (case decode_with unquote1 s of None \<Rightarrow> [] | Some bs \<Rightarrow> bs)"

text \<open>\<open>unquote\<close> works on each maximal run of ASCII characters and keeps the others.\<close>

function unquote_runs :: "pystr \<Rightarrow> pystr" where
  "unquote_runs s =
     (if s = [] then []
      else if hd s < 128
        then utf8_decode_replace (unquote_to_bytes (takeWhile (\<lambda>c. c < 128) s))
               @ unquote_runs (dropWhile (\<lambda>c. c < 128) s)
        else hd s # unquote_runs (tl s))"
  by pat_completeness auto
termination
  by (relation "measure length")
    (auto simp: neq_Nil_conv less_Suc_eq_le intro: length_dropWhile_le)

declare unquote_runs.simps [simp del]

definition unquote :: "pystr \<Rightarrow> pystr" where
  "unquote s = (if 37 \<notin> set s then s else unquote_runs s)"

lemma unquote1_quote1:
  assumes "b < 256"
  shows "unquote1 (quote1 b @ r) = Some (b, r)"
proof (cases "is_safe b")
  case True
  then have "b \<noteq> 37" by (auto simp: is_safe_def)
  with True show ?thesis by (auto simp: quote1_def unquote1_def split: list.split)
next
  case False
  have "b div 16 < 16" using assms by (simp add: less_mult_imp_div_less)
  with False show ?thesis by (simp add: quote1_def unquote1_def unhexdig_hexdig)
qed

interpretation percent: chunk_codec "\<lambda>b. b < 256" quote1 unquote1
  by unfold_locales (simp_all add: unquote1_quote1, simp add: quote1_def)

lemma hexdig_ascii: "n < 16 \<Longrightarrow> hexdig n < 128"
  by (simp add: hexdig_def)

lemma is_safe_ascii: "is_safe b \<Longrightarrow> b < 128 \<and> b \<noteq> 37"
  by (auto simp: is_safe_def)

lemma quote1_ascii: "b < 256 \<Longrightarrow> c \<in> set (quote1 b) \<Longrightarrow> c < 128"
proof -
  assume a: "b < 256" "c \<in> set (quote1 b)"
  then have "b div 16 < 16" by (simp add: less_mult_imp_div_less)
  then have "hexdig (b div 16) < 128" by (rule hexdig_ascii)
  moreover have "hexdig (b mod 16) < 128" by (rule hexdig_ascii) simp
  ultimately show ?thesis using a(2) is_safe_ascii [of b] unfolding quote1_def
    by (cases "is_safe b") force+
qed

lemma quote1_safe: "37 \<notin> set (quote1 b) \<Longrightarrow> quote1 b = [b] \<and> b < 128"
  using is_safe_ascii [of b] by (cases "is_safe b") (simp_all add: quote1_def)

lemma utf8_ascii: "list_all (\<lambda>b. b < 128) bs \<Longrightarrow> utf8_decode_replace bs = bs"
proof (rule utf8_decode_replace_strict)
  assume a: "list_all (\<lambda>b. b < 128) bs"
  then have "list_all scalar bs" "concat (map utf8_enc1 bs) = bs"
    by (induction bs) (auto simp: scalar_def utf8_enc1_def)
  then show "decode_with utf8_dec1 bs = Some bs" by (metis utf8.decode_encode)
qed

lemma unquote_ascii:
  assumes "list_all (\<lambda>c. c < 128) s"
  shows "unquote_runs s = utf8_decode_replace (unquote_to_bytes s)"
proof (cases s)
  case Nil
  then show ?thesis
    by (simp add: unquote_runs.simps unquote_to_bytes_def utf8_decode_replace.simps)
next
  case (Cons c cs)
  with assms have w: "takeWhile (\<lambda>c. c < 128) s = s" "dropWhile (\<lambda>c. c < 128) s = []"
    by (auto simp: list_all_iff)
  have "s \<noteq> []" "hd s < 128" using assms Cons by auto
  then have "unquote_runs s =
      utf8_decode_replace (unquote_to_bytes (takeWhile (\<lambda>c. c < 128) s))
        @ unquote_runs (dropWhile (\<lambda>c. c < 128) s)"
    by (simp add: unquote_runs.simps [of s])
  then show ?thesis unfolding w by (simp add: unquote_runs.simps)
qed

lemma no_percent_quote:
  "37 \<notin> set (concat (map quote1 bs)) \<Longrightarrow>
    concat (map quote1 bs) = bs \<and> list_all (\<lambda>b. b < 128) bs"
  by (induction bs) (auto dest: quote1_safe)

lemma unquote_quote_bytes:
  assumes "list_all (\<lambda>b. b < 256) bs"
  shows "unquote (concat (map quote1 bs)) = utf8_decode_replace bs"
proof (cases "37 \<in> set (concat (map quote1 bs))")
  case True
  have "list_all (\<lambda>c. c < 128) (concat (map quote1 bs))"
    using assms by (fastforce simp: list_all_iff dest: quote1_ascii)
  with True show ?thesis
    using percent.decode_encode [OF assms]
    by (simp add: unquote_def unquote_ascii unquote_to_bytes_def)
next
  case False
  then have "concat (map quote1 bs) = bs" "list_all (\<lambda>b. b < 128) bs"
    using no_percent_quote [of bs] by blast+
  with False show ?thesis by (simp only: unquote_def utf8_ascii if_True simp_thms)
qed

lemma unquote_quote: "quote s = Inr q \<Longrightarrow> unquote q = s"
proof -
  assume q: "quote s = Inr q"
  then have s: "list_all scalar s" and q': "q = concat (map quote1 (concat (map utf8_enc1 s)))"
    by (auto simp: quote_def utf8_encode_def split: if_splits)
  have "list_all (\<lambda>b. b < 256) (concat (map utf8_enc1 s))"
    using s by (fastforce simp: list_all_iff dest: utf8_enc1_byte)
  then show ?thesis unfolding q' by (simp only: unquote_quote_bytes utf8_decode_replace_encode [OF s])
qed

section \<open>Numerals\<close>

fun dec_str :: "nat \<Rightarrow> pystr" where
  "dec_str n = (if n < 10 then [48 + n] else dec_str (n div 10) @ [48 + n mod 10])"

declare dec_str.simps [simp del]

definition dec_val :: "pystr \<Rightarrow> nat" where
  "dec_val s = foldl (\<lambda>v c. v * 10 + (c - 48)) 0 s"

lemma dec_val_str [simp]: "dec_val (dec_str n) = n"
proof (induction n rule: dec_str.induct)
  case (1 n)
  then show ?case by (cases "n < 10") (simp_all add: dec_str.simps [of n] dec_val_def)
qed

lemma dec_str_digits: "c \<in> set (dec_str n) \<Longrightarrow> 48 \<le> c \<and> c \<le> 57"
proof (induction n rule: dec_str.induct)
  case (1 n)
  show ?case
  proof (cases "n < 10")
    case True
    with 1 show ?thesis by (simp add: dec_str.simps [of n])
  next
    case False
    have "n mod 10 < 10" by simp
    with 1 False show ?thesis by (auto simp: dec_str.simps [of n])
  qed
qed

lemma dec_str_inj [simp]: "dec_str m = dec_str n \<longleftrightarrow> m = n"
  by (metis dec_val_str)

text \<open>A numeral followed by a character that is no digit can be read back.\<close>

lemma dec_str_sep:
  assumes "\<not> (48 \<le> c \<and> c \<le> 57)" and "dec_str m @ c # r = dec_str n @ c # t"
  shows "m = n \<and> r = t"
proof -
  have "takeWhile (\<lambda>x. x \<noteq> c) (dec_str k @ c # u) = dec_str k" for k u
    using assms(1) by (subst takeWhile_append2) (auto dest: dec_str_digits)
  then have "dec_str m = dec_str n" using assms(2) by metis
  with assms(2) show ?thesis by simp
qed

end
