(* ===== verification/SockAddr.thy ===== *)
theory SockAddr
  imports Text
begin

text \<open>
  \<^verbatim>\<open>pynng/sockaddr.py\<close>: the Python views of \<open>nng_sockaddr\<close>. The address family
  numbers differ between nng v1 and v2 and are an argument \<open>k\<close>; \<open>None\<close> is an attribute the
  library lacks. The byte order of the machine is the argument \<open>little\<close>.
\<close>

unbundle bit_operations_syntax

datatype afname = AF_UNSPEC | AF_INPROC | AF_IPC | AF_INET | AF_INET6 | AF_ZT | AF_ABSTRACT

type_synonym af_consts = "afname \<Rightarrow> int option"

text \<open>
  One field per union member that the code reads; character arrays are their bytes. \<open>sa_port\<close> and
  \<open>sa_addr\<close> are stored in network order.
\<close>

record sockaddr =
  s_family :: int
  sa_name :: "nat list"
  sa_path :: "nat list"
  sa_port :: "16 word"
  sa_addr :: "32 word"
  sa_addr6 :: "nat list"
  as_nwid :: int
  as_nodeid :: int
  as_port :: int
  sa_len :: nat
  sa_abs_name :: "nat list"

datatype sa_class =
  C_SockAddr | C_InprocAddr | C_IPCAddr | C_InAddr | C_In6Addr | C_ZTAddr | C_AbstractAddr

record py_addr =
  addr_class :: sa_class
  sock_addr :: sockaddr

section \<open>Choosing the class\<close>

text \<open>
  \<open>_nng_sockaddr\<close>: the dictionary literal, the entry for ZeroTier when the library has it, and
  \<open>SockAddr\<close> for every other family. A name the library lacks is an \<open>AttributeError\<close>.
\<close>

definition lookup_literal :: "(afname \<times> sa_class) list" where
  "lookup_literal =
     [(AF_INPROC, C_InprocAddr), (AF_IPC, C_IPCAddr), (AF_INET, C_InAddr), (AF_INET6, C_In6Addr),
      (AF_ABSTRACT, C_AbstractAddr)]"

definition lookup_dict :: "af_consts \<Rightarrow> (int \<times> sa_class) list" where
  "lookup_dict k =
     (let d = fold (\<lambda>(n, c) d. AList.update (the (k n)) c d) lookup_literal []
      in case k AF_ZT of None \<Rightarrow> d | Some z \<Rightarrow> AList.update z C_ZTAddr d)"

definition nng_sockaddr :: "af_consts \<Rightarrow> sockaddr \<Rightarrow> (pyexc + py_addr)" where
  "nng_sockaddr k sa =
     (if list_all (\<lambda>(n, c). k n \<noteq> None) lookup_literal
      then Inr \<lparr>addr_class = (case map_of (lookup_dict k) (s_family sa) of
                               None \<Rightarrow> C_SockAddr | Some c \<Rightarrow> c),
                sock_addr = sa\<rparr>
      else Inl AttributeError)"

text \<open>The table \<open>type_to_str\<close> is built from the constants \<open>k1\<close> of the v1 library.\<close>

definition type_to_str :: "af_consts \<Rightarrow> (int \<times> pystr) list" where
  "type_to_str k1 =
     fold (\<lambda>(n, s) d. AList.update (the (k1 n)) (codes s) d)
       [(AF_UNSPEC, ''Unspecified''), (AF_INPROC, ''inproc''), (AF_IPC, ''ipc''),
        (AF_INET, ''inet''), (AF_INET6, ''inetv6''), (AF_ZT, ''zerotier''),
        (AF_ABSTRACT, ''abstract'')] []"

text \<open>\<open>AbstractAddr\<close> overrides the property by a class attribute.\<close>

definition family_as_str :: "af_consts \<Rightarrow> py_addr \<Rightarrow> (pyexc + pystr)" where
  "family_as_str k1 a =
     (if addr_class a = C_AbstractAddr then Inr (codes ''abstract'')
      else case map_of (type_to_str k1) (s_family (sock_addr a)) of
        None \<Rightarrow> Inl KeyError | Some s \<Rightarrow> Inr s)"

text \<open>The constants of nng v1 and of nng v2.\<close>

definition af_v1 :: af_consts where
  "af_v1 n = Some (case n of AF_UNSPEC \<Rightarrow> 0 | AF_INPROC \<Rightarrow> 1 | AF_IPC \<Rightarrow> 2 | AF_INET \<Rightarrow> 3
     | AF_INET6 \<Rightarrow> 4 | AF_ZT \<Rightarrow> 5 | AF_ABSTRACT \<Rightarrow> 6)"

definition af_v2 :: af_consts where
  "af_v2 n = (case n of AF_UNSPEC \<Rightarrow> Some 0 | AF_INPROC \<Rightarrow> Some 1 | AF_IPC \<Rightarrow> Some 2
     | AF_INET \<Rightarrow> Some 3 | AF_INET6 \<Rightarrow> Some 4 | AF_ZT \<Rightarrow> None | AF_ABSTRACT \<Rightarrow> Some 5)"

section \<open>Reading the fields\<close>

text \<open>\<open>ffi.string\<close> on a character array: up to the first NUL, or all of it.\<close>

definition c_string :: "nat list \<Rightarrow> nat list" where
  "c_string bs = takeWhile (\<lambda>b. b \<noteq> 0) bs"

definition name_bytes :: "py_addr \<Rightarrow> nat list" where
  "name_bytes a =
     (if addr_class a = C_AbstractAddr then take (sa_len (sock_addr a)) (sa_abs_name (sock_addr a))
      else c_string (sa_name (sock_addr a)))"

definition path_bytes :: "py_addr \<Rightarrow> nat list" where
  "path_bytes a = c_string (sa_path (sock_addr a))"

text \<open>\<open>repr\<close> of a \<open>bytes\<close> object and its \<open>hex()\<close>.\<close>

definition lohex :: "nat \<Rightarrow> nat" where
  "lohex n = (if n < 10 then 48 + n else 87 + n)"

definition hex_bytes :: "nat list \<Rightarrow> pystr" where
  "hex_bytes bs = concat (map (\<lambda>b. [lohex (b div 16), lohex (b mod 16)]) bs)"

definition repr_byte :: "nat \<Rightarrow> nat \<Rightarrow> pystr" where
  "repr_byte q b =
     (if b = q \<or> b = 92 then [92, b]
      else if b = 9 then [92, 116] else if b = 10 then [92, 110] else if b = 13 then [92, 114]
      else if 32 \<le> b \<and> b < 127 then [b]
      else [92, 120, lohex (b div 16), lohex (b mod 16)])"

definition repr_bytes :: "nat list \<Rightarrow> pystr" where
  "repr_bytes bs =
     (let q = (if 39 \<in> set bs \<and> 34 \<notin> set bs then 34 else 39)
      in 98 # q # concat (map (repr_byte q) bs) @ [q])"

text \<open>\<open>name\<close> of an inproc and of an abstract address, \<open>path\<close> of an IPC address.\<close>

definition addr_name :: "py_addr \<Rightarrow> (pyexc + pystr)" where
  "addr_name a =
     (if addr_class a = C_AbstractAddr then
        (case utf8_decode (name_bytes a) of
           Inr s \<Rightarrow> Inr (unquote s) | Inl _ \<Rightarrow> Inr (repr_bytes (name_bytes a)))
      else utf8_decode (name_bytes a))"

definition addr_path :: "py_addr \<Rightarrow> (pyexc + pystr)" where
  "addr_path a = utf8_decode (path_bytes a)"

section \<open>Internet addresses\<close>

text \<open>
  A word in the memory of the machine, and back: \<open>struct.pack("I", x)\<close> and \<open>ntohs\<close> use the
  machine's byte order.
\<close>

definition pack_I :: "bool \<Rightarrow> 32 word \<Rightarrow> nat list" where
  "pack_I little x =
     (let bs = [unat (x AND 0xFF), unat (drop_bit 8 x AND 0xFF), unat (drop_bit 16 x AND 0xFF),
                unat (drop_bit 24 x AND 0xFF)]
      in if little then bs else rev bs)"

definition ntohs :: "bool \<Rightarrow> 16 word \<Rightarrow> nat" where
  "ntohs little x =
     (if little then unat ((push_bit 8 x OR drop_bit 8 x) :: 16 word) else unat x)"

definition intersperse :: "nat \<Rightarrow> pystr list \<Rightarrow> pystr" where
  "intersperse c ss = (case ss of [] \<Rightarrow> [] | s # r \<Rightarrow> s @ concat (map (Cons c) r))"

definition inet_ntop4 :: "nat list \<Rightarrow> pystr" where
  "inet_ntop4 bs = intersperse 46 (map dec_str bs)"

text \<open>
  \<open>inet_ntop(AF_INET6)\<close>: eight groups in hexadecimal, the first longest run of two or more
  zero groups as \<open>::\<close>, and dotted decimal for the IPv4-compatible and IPv4-mapped addresses.
\<close>

fun hex_str :: "nat \<Rightarrow> pystr" where
  "hex_str n = (if n < 16 then [lohex n] else hex_str (n div 16) @ [lohex (n mod 16)])"

declare hex_str.simps [simp del]

fun groups :: "nat list \<Rightarrow> nat list" where
  "groups (a # b # r) = (a * 256 + b) # groups r"
| "groups _ = []"

definition zero_run :: "nat list \<Rightarrow> nat \<Rightarrow> nat" where
  "zero_run ws i = length (takeWhile (\<lambda>w. w = 0) (drop i ws))"

definition best_run :: "nat list \<Rightarrow> nat \<times> nat" where
  "best_run ws =
     foldl (\<lambda>(i, n) j. if n < zero_run ws j then (j, zero_run ws j) else (i, n)) (0, 0)
       [0..<length ws]"

definition inet_ntop6 :: "nat list \<Rightarrow> pystr" where
  "inet_ntop6 bs =
     (let ws = groups bs; (i, n) = best_run ws
      in if n < 2 then intersperse 58 (map hex_str ws)
         else if i = 0 \<and> n = 6 then [58, 58] @ inet_ntop4 (drop 12 bs)
         else if i = 0 \<and> n = 5 \<and> ws ! 5 = 0xFFFF
           then [58, 58] @ hex_str 0xFFFF @ [58] @ inet_ntop4 (drop 12 bs)
         else intersperse 58 (map hex_str (take i ws)) @ [58, 58]
                @ intersperse 58 (map hex_str (drop (i + n) ws)))"

section \<open>The string of an address\<close>

definition int_str :: "int \<Rightarrow> pystr" where
  "int_str n = (if n < 0 then 45 # dec_str (nat (- n)) else dec_str (nat n))"

definition addr_repr :: "py_addr \<Rightarrow> pystr" where
  "addr_repr a = codes ''nng_sockaddr {.family = '' @ int_str (s_family (sock_addr a)) @ codes ''}''"

definition abstract_str :: "nat list \<Rightarrow> (pyexc + pystr)" where
  "abstract_str bs =
     (case utf8_decode bs of
        Inr s \<Rightarrow> (case quote s of Inr q \<Rightarrow> Inr (codes ''abstract://'' @ q) | Inl e \<Rightarrow> Inl e)
      | Inl _ \<Rightarrow> Inr (codes ''abstract://'' @ hex_bytes bs))"

definition addr_str :: "bool \<Rightarrow> py_addr \<Rightarrow> (pyexc + pystr)" where
  "addr_str little a = (case addr_class a of
     C_InprocAddr \<Rightarrow> addr_name a
   | C_IPCAddr \<Rightarrow> addr_path a
   | C_InAddr \<Rightarrow> Inr (inet_ntop4 (pack_I little (sa_addr (sock_addr a))) @
       58 # dec_str (ntohs little (sa_port (sock_addr a))))
   | C_In6Addr \<Rightarrow> Inr (91 # inet_ntop6 (sa_addr6 (sock_addr a)) @
       93 # 58 # dec_str (ntohs little (sa_port (sock_addr a))))
   | C_AbstractAddr \<Rightarrow> abstract_str (name_bytes a)
   | _ \<Rightarrow> Inr (addr_repr a))"

section \<open>Properties\<close>

text \<open>The word the machine reads from four, or two, bytes in memory.\<close>

definition load32 :: "bool \<Rightarrow> nat list \<Rightarrow> 32 word" where
  "load32 little bs = word_of_nat (foldr (\<lambda>b v. b + 256 * v) (if little then bs else rev bs) 0)"

definition load16 :: "bool \<Rightarrow> nat list \<Rightarrow> 16 word" where
  "load16 little bs = word_of_nat (foldr (\<lambda>b v. b + 256 * v) (if little then bs else rev bs) 0)"

definition af_name :: "afname \<Rightarrow> string" where
  "af_name n = (case n of AF_UNSPEC \<Rightarrow> ''Unspecified'' | AF_INPROC \<Rightarrow> ''inproc'' | AF_IPC \<Rightarrow> ''ipc''
     | AF_INET \<Rightarrow> ''inet'' | AF_INET6 \<Rightarrow> ''inetv6'' | AF_ZT \<Rightarrow> ''zerotier''
     | AF_ABSTRACT \<Rightarrow> ''abstract'')"

definition class_of_af :: "afname \<Rightarrow> sa_class" where
  "class_of_af n = (case n of AF_UNSPEC \<Rightarrow> C_SockAddr | AF_INPROC \<Rightarrow> C_InprocAddr
     | AF_IPC \<Rightarrow> C_IPCAddr | AF_INET \<Rightarrow> C_InAddr | AF_INET6 \<Rightarrow> C_In6Addr | AF_ZT \<Rightarrow> C_ZTAddr
     | AF_ABSTRACT \<Rightarrow> C_AbstractAddr)"

lemma type_to_str_v1: "map_of (type_to_str af_v1) (the (af_v1 n)) = Some (codes (af_name n))"
  by (cases n) (simp_all add: type_to_str_def af_v1_def af_name_def)

lemma lookup_v1:
  "lookup_dict af_v1 = [(1, C_InprocAddr), (2, C_IPCAddr), (3, C_InAddr), (4, C_In6Addr),
     (6, C_AbstractAddr), (5, C_ZTAddr)]"
  by (simp add: lookup_dict_def lookup_literal_def af_v1_def)

lemma lookup_v2:
  "lookup_dict af_v2 = [(1, C_InprocAddr), (2, C_IPCAddr), (3, C_InAddr), (4, C_In6Addr),
     (5, C_AbstractAddr)]"
  by (simp add: lookup_dict_def lookup_literal_def af_v2_def)

text \<open>The family of an address decides its class and its printed family, for both libraries,
  although the numbers differ: 5 is ZeroTier in nng v1 and the abstract sockets in nng v2, and
  \<open>family_as_str\<close> always consults the v1 table.\<close>

theorem family_dispatch:
  assumes "k = af_v1 \<or> k = af_v2" and "k n = Some f"
  shows "\<exists>a. nng_sockaddr k (sa\<lparr>s_family := f\<rparr>) = Inr a \<and> addr_class a = class_of_af n \<and>
           sock_addr a = sa\<lparr>s_family := f\<rparr> \<and> family_as_str af_v1 a = Inr (codes (af_name n))"
proof -
  have v1: "map_of (type_to_str af_v1) f = Some (codes (af_name n))" if "n \<noteq> AF_ABSTRACT"
    using assms that type_to_str_v1 [of n]
    by (cases n) (auto simp: af_v1_def af_v2_def)
  have c: "k m \<noteq> None" if "m \<noteq> AF_ZT" for m
    using assms(1) that by (cases m) (auto simp: af_v1_def af_v2_def)
  have "map_of (lookup_dict k) f = (if n = AF_UNSPEC then None else Some (class_of_af n))"
    using assms(1)
  proof
    assume "k = af_v1"
    then show ?thesis using assms(2)
      by (cases n) (simp_all add: lookup_v1 class_of_af_def af_v1_def)
  next
    assume "k = af_v2"
    then show ?thesis using assms(2)
      by (cases n) (simp_all add: lookup_v2 class_of_af_def af_v2_def)
  qed
  moreover have "class_of_af AF_UNSPEC = C_SockAddr" by (simp add: class_of_af_def)
  ultimately have "nng_sockaddr k (sa\<lparr>s_family := f\<rparr>) =
      Inr \<lparr>addr_class = class_of_af n, sock_addr = sa\<lparr>s_family := f\<rparr>\<rparr>"
    using c by (simp add: nng_sockaddr_def lookup_literal_def)
  moreover have "class_of_af n = C_AbstractAddr \<longleftrightarrow> n = AF_ABSTRACT"
    by (cases n) (simp_all add: class_of_af_def)
  ultimately show ?thesis using v1 by (simp add: family_as_str_def af_name_def)
qed

definition sockaddr0 :: sockaddr where
  "sockaddr0 = \<lparr>s_family = 3, sa_name = [], sa_path = [], sa_port = load16 True [31, 144],
     sa_addr = load32 True [127, 0, 0, 1], sa_addr6 = [], as_nwid = 0, as_nodeid = 0,
     as_port = 0, sa_len = 4, sa_abs_name = [0, 37, 195, 169, 7]\<rparr>"

theorem family_dispatch_witness:
  "\<exists>a. nng_sockaddr af_v2 (sockaddr0\<lparr>s_family := 5\<rparr>) = Inr a \<and> addr_class a = C_AbstractAddr \<and>
       family_as_str af_v1 a = Inr (codes ''abstract'')"
  using family_dispatch [of af_v2 AF_ABSTRACT 5 sockaddr0]
  by (auto simp: af_v2_def class_of_af_def af_name_def)

lemma and_255: "(x :: 'a :: len word) AND 0xFF = take_bit 8 x"
  by (simp add: take_bit_eq_mask mask_eq_exp_minus_1)

lemma take_bit_unat: "take_bit LENGTH('a) (unat (x :: 'a :: len word)) = unat x"
  by (rule take_bit_nat_eq_self) (rule unsigned_less)

lemma unat_byte: "unat (drop_bit n (x :: 32 word) AND 0xFF) = unat x div 2 ^ n mod 256"
  by (simp only: and_255 unsigned_take_bit_eq unsigned_drop_bit_eq take_bit_unat)
    (simp add: take_bit_eq_mod drop_bit_eq_div)

lemma unat_small: "v < 2 ^ LENGTH('a) \<Longrightarrow> unat (word_of_nat v :: 'a :: len word) = v"
  by (simp add: unsigned_of_nat take_bit_eq_mod)

lemma byte_split: "w < 256 \<Longrightarrow> (w + 256 * r) mod 256 = (w::nat) \<and> (w + 256 * r) div 256 = r"
  by simp

lemma pack_load_little:
  assumes "a < 256" "b < 256" "c < 256" "d < 256"
  shows "pack_I True (load32 True [a, b, c, d]) = [a, b, c, d]"
proof -
  let ?v = "a + 256 * (b + 256 * (c + 256 * d))"
  have "?v < 2 ^ 32" using assms by simp
  then have u: "unat (word_of_nat ?v :: 32 word) = ?v"
    by (intro unat_small) simp
  have step: "(x + 256 * r) div 2 ^ (8 + n) = r div 2 ^ n" if "x < 256" for x r n :: nat
  proof -
    have "(x + 256 * r) div 2 ^ (8 + n) = (x + 256 * r) div 256 div 2 ^ n"
      by (simp only: power_add div_mult2_eq [symmetric]) simp
    then show ?thesis using byte_split [OF that, of r] by simp
  qed
  have d: "?v div 2 ^ 8 = b + 256 * (c + 256 * d)"
    using step [OF assms(1), of "b + 256 * (c + 256 * d)" 0] by simp
  have d2: "?v div 2 ^ 16 = c + 256 * d"
    using step [OF assms(1), of "b + 256 * (c + 256 * d)" 8] step [OF assms(2), of "c + 256 * d" 0]
    by simp
  have d3: "?v div 2 ^ 24 = d"
    using step [OF assms(1), of "b + 256 * (c + 256 * d)" 16] step [OF assms(2), of "c + 256 * d" 8]
      step [OF assms(3), of d 0] by simp
  note d = d d2 d3
  have l: "load32 True [a, b, c, d] = word_of_nat ?v" by (simp add: load32_def)
  have z: "drop_bit 0 x = x" for x :: "32 word" by simp
  have "unat (load32 True [a, b, c, d] AND 0xFF) = a"
    using unat_byte [of 0 "load32 True [a, b, c, d]"] byte_split [OF assms(1)]
    unfolding l u z by (simp only: power_0 div_by_1)
  moreover have "unat (drop_bit 8 (load32 True [a, b, c, d]) AND 0xFF) = b"
    unfolding unat_byte l u d using byte_split [OF assms(2)] by blast
  moreover have "unat (drop_bit 16 (load32 True [a, b, c, d]) AND 0xFF) = c"
    unfolding unat_byte l u d using byte_split [OF assms(3)] by blast
  moreover have "unat (drop_bit 24 (load32 True [a, b, c, d]) AND 0xFF) = d"
    unfolding unat_byte l u d using assms(4) by simp
  ultimately show ?thesis by (simp add: pack_I_def)
qed

lemma pack_load:
  assumes "a < 256" "b < 256" "c < 256" "d < 256"
  shows "pack_I little (load32 little [a, b, c, d]) = [a, b, c, d]"
proof (cases little)
  case True
  then show ?thesis using pack_load_little [OF assms] by simp
next
  case False
  have "load32 False [a, b, c, d] = load32 True [d, c, b, a]" by (simp add: load32_def)
  moreover have "pack_I False x = rev (pack_I True x)" for x by (simp add: pack_I_def)
  ultimately show ?thesis
    using False pack_load_little [OF assms(4,3,2,1)] by simp
qed

lemma ntohs_load:
  assumes "p < 256" "q < 256"
  shows "ntohs little (load16 little [p, q]) = p * 256 + q"
proof (cases little)
  case True
  let ?v = "p + 256 * q"
  let ?w = "word_of_nat ?v :: 16 word"
  have "?v < 2 ^ 16" using assms by simp
  then have u: "unat ?w = ?v" by (intro unat_small) simp
  have "unat (push_bit 8 ?w) = take_bit 16 (push_bit 8 ?v)"
    by (simp only: unsigned_push_bit_eq u) simp
  also have "\<dots> = ?v * 256 mod 65536" by (simp only: push_bit_eq_mult take_bit_eq_mod) simp
  also have "?v * 256 = p * 256 + 65536 * q" by (simp add: algebra_simps)
  also have "\<dots> mod 65536 = push_bit 8 p" using assms by (simp add: push_bit_eq_mult)
  finally have hi: "unat (push_bit 8 ?w) = push_bit 8 p" .
  have "unat (drop_bit 8 ?w) = drop_bit 8 (unat ?w)"
    by (simp only: unsigned_drop_bit_eq take_bit_unat)
  also have "\<dots> = ?v div 2 ^ 8" by (simp only: u drop_bit_eq_div)
  also have "?v div 2 ^ 8 = q" using byte_split [OF assms(1), of q] by (simp only: power_numeral) simp
  finally have lo: "unat (drop_bit 8 ?w) = q" .
  have "unat (push_bit 8 ?w OR drop_bit 8 ?w) = push_bit 8 p OR q"
    by (simp only: unsigned_or_eq hi lo)
  also have "\<dots> = push_bit 8 p + q"
  proof (rule disjunctive_add [symmetric])
    fix n
    have "take_bit 8 q = q" using assms(2) by (intro take_bit_nat_eq_self) simp
    then have "bit q n \<Longrightarrow> n < 8" by (metis bit_take_bit_iff)
    then show "\<not> bit (push_bit 8 p) n \<or> \<not> bit q n" by (auto simp: bit_push_bit_iff)
  qed
  finally show ?thesis using True by (simp add: ntohs_def load16_def push_bit_eq_mult)
next
  case False
  have "q + 256 * p < 2 ^ LENGTH(16)" using assms by simp
  then have "unat (word_of_nat (q + 256 * p) :: 16 word) = q + 256 * p" by (rule unat_small)
  with False show ?thesis by (simp add: ntohs_def load16_def del: of_nat_add of_nat_mult)
qed

text \<open>The string of an IPv4 address is the one of the bytes nng stored: for the address bytes
  \<open>a b c d\<close> and the port bytes \<open>p q\<close> in network order it is \<open>a.b.c.d:port\<close> with
  \<open>port = 256 p + q\<close>, on a little-endian and on a big-endian machine, and different addresses or
  ports never print the same.\<close>

theorem in_addr_str:
  assumes "list_all (\<lambda>x. x < 256) [a, b, c, d, p, q, a', b', c', d', p', q']"
    and "addr_class x = C_InAddr" and "addr_class y = C_InAddr"
    and "sa_addr (sock_addr x) = load32 little [a, b, c, d]"
    and "sa_port (sock_addr x) = load16 little [p, q]"
    and "sa_addr (sock_addr y) = load32 little [a', b', c', d']"
    and "sa_port (sock_addr y) = load16 little [p', q']"
  shows "addr_str little x = Inr (dec_str a @ codes ''.'' @ dec_str b @ codes ''.'' @ dec_str c @
           codes ''.'' @ dec_str d @ codes '':'' @ dec_str (p * 256 + q)) \<and>
         (addr_str little x = addr_str little y \<longleftrightarrow> [a, b, c, d, p, q] = [a', b', c', d', p', q'])"
proof -
  have str: "addr_str little z = Inr (dec_str a @ 46 # dec_str b @ 46 # dec_str c @ 46 #
      dec_str d @ 58 # dec_str (p * 256 + q))"
    if "list_all (\<lambda>x. x < 256) [a, b, c, d, p, q]" "addr_class z = C_InAddr"
      "sa_addr (sock_addr z) = load32 little [a, b, c, d]"
      "sa_port (sock_addr z) = load16 little [p, q]" for z a b c d p q
    using that by (simp add: addr_str_def pack_load ntohs_load inet_ntop4_def intersperse_def)
  have pq: "p = p' \<and> q = q'" if "p * 256 + q = p' * 256 + q'" "q < 256" "q' < 256" for p q p' q' :: nat
    using that by (metis add.commute add_right_imp_eq byte_split mult.commute)
  show ?thesis
    using assms str [of a b c d p q x] str [of a' b' c' d' p' q' y]
    by (auto simp: codes_def dest!: dec_str_sep [rotated] pq)
qed

theorem in_addr_str_witness:
  "addr_str True \<lparr>addr_class = C_InAddr, sock_addr = sockaddr0\<rparr> = Inr (codes ''127.0.0.1:8080'')"
  using in_addr_str [of 127 0 0 1 31 144 127 0 0 1 31 144
      "\<lparr>addr_class = C_InAddr, sock_addr = sockaddr0\<rparr>"
      "\<lparr>addr_class = C_InAddr, sock_addr = sockaddr0\<rparr>" True]
  by (simp add: codes_def dec_str.simps sockaddr0_def)

text \<open>C37. The string of an abstract address loses nothing. For a name that is UTF-8,
  \<open>str(a)\<close> never fails and unquoting what follows \<open>abstract://\<close> and encoding it
  gives back exactly the name bytes, NUL bytes and percent signs included.\<close>

theorem abstract_str_lossless:
  assumes "addr_class a = C_AbstractAddr" and "utf8_decode (name_bytes a) = Inr s"
  shows "\<exists>u. addr_str little a = Inr u \<and> take 11 u = codes ''abstract://'' \<and>
           utf8_encode (unquote (drop 11 u)) = Inr (name_bytes a)"
proof -
  have e: "utf8_encode s = Inr (name_bytes a)" using assms(2) by (rule utf8_encode_decode)
  then obtain q where q: "quote s = Inr q" by (simp add: quote_def)
  have "length (codes ''abstract://'') = 11" by (simp add: codes_def)
  with assms q unquote_quote [OF q] e show ?thesis
    by (simp add: addr_str_def abstract_str_def)
qed

theorem abstract_str_lossless_witness:
  "\<exists>u. addr_str True \<lparr>addr_class = C_AbstractAddr, sock_addr = sockaddr0\<rparr> = Inr u \<and>
        take 11 u = codes ''abstract://'' \<and>
        utf8_encode (unquote (drop 11 u)) = Inr [0, 37, 195, 169]"
  using abstract_str_lossless [of "\<lparr>addr_class = C_AbstractAddr, sock_addr = sockaddr0\<rparr>"
      "[0, 37, 233]" True]
  by (simp add: name_bytes_def utf8_decode_def decode_with.simps utf8_dec1_def cont_def sockaddr0_def)

end
