(* ===== verification/Options.thy ===== *)
theory Options
  imports Runtime Text
begin

text \<open>
  \<^verbatim>\<open>pynng/options.py\<close> and the option descriptors of \<^verbatim>\<open>_base.py\<close>. An option of an
  object is read and written by the C function
  \<open>nng_<object>_<get|set>_<type>\<close>, found by name in the library of the object. \<open>L1\<close> is the default
  (v1) library, which objects without one of their own and every error text use.
\<close>

section \<open>Objects and values\<close>

datatype objkind = KSocket | KDialer | KListener | KPipe | KCtx | KOther

record pyobj =
  kind :: objkind
  handle :: int
  own_lib :: "nng_lib option"
  obj_id :: nat

definition resolve_lib_ffi :: "nng_lib \<Rightarrow> pyobj \<Rightarrow> nng_lib" where
  "resolve_lib_ffi L1 ob = (case own_lib ob of None \<Rightarrow> L1 | Some L \<Rightarrow> L)"

text \<open>
  \<open>to_char\<close>: C data is passed as it is, text is encoded, and \<open>ffi.new("char[]", x)\<close> copies
  bytes and, for an integer, makes that many NUL characters.
\<close>

definition to_char :: "bool \<Rightarrow> pyval \<Rightarrow> (pyexc + carg)" where
  "to_char add_null_term v =
     (let alloc = (\<lambda>bs. Inr (CStr (if add_null_term then bs @ [0] else bs)))
      in case v of
        PCData p \<Rightarrow> Inr (CInt p)
      | PStr s \<Rightarrow> (case utf8_encode s of Inl e \<Rightarrow> Inl e | Inr bs \<Rightarrow> alloc bs)
      | PBytes bs \<Rightarrow> alloc bs
      | PInt n \<Rightarrow> (if add_null_term then Inl TypeError
                    else if n < 0 then Inl ValueError else Inr (CStr (replicate (nat n) 0)))
      | PBool b \<Rightarrow> (if add_null_term then Inl TypeError
                    else Inr (CStr (replicate (if b then 1 else 0) 0)))
      | _ \<Rightarrow> Inl TypeError)"

text \<open>
  \<open>int(value) == value\<close>: the integer of a value, truncating floats; text and bytes never equal
  their integer.
\<close>

definition float_int :: "int \<Rightarrow> int \<Rightarrow> int" where
  "float_int m e = (if 0 \<le> e then m * 2 ^ nat e else sgn m * (\<bar>m\<bar> div 2 ^ nat (- e)))"

definition float_is_int :: "int \<Rightarrow> int \<Rightarrow> bool" where
  "float_is_int m e \<longleftrightarrow> 0 \<le> e \<or> m mod 2 ^ nat (- e) = 0"

definition int_value :: "pyval \<Rightarrow> (pyexc + int)" where
  "int_value v = (case v of
     PInt n \<Rightarrow> Inr n
   | PBool b \<Rightarrow> Inr (if b then 1 else 0)
   | PFloat m e \<Rightarrow> (if float_is_int m e then Inr (float_int m e) else Inl ValueError)
   | PNan \<Rightarrow> Inl ValueError
   | PInf \<Rightarrow> Inl OverflowError
   | PStr s \<Rightarrow> Inl ValueError
   | PBytes s \<Rightarrow> Inl ValueError
   | _ \<Rightarrow> Inl TypeError)"

definition lift :: "('e + 'a) \<Rightarrow> ('s, 'e, 'a) prog" where
  "lift x = (case x of Inl e \<Rightarrow> raise_exc e | Inr y \<Rightarrow> ret y)"

lemma wp_lift [wp_simps]:
  "wp (lift x) Q E s = ((\<forall>e. x = Inl e \<longrightarrow> E e s) \<and> (\<forall>y. x = Inr y \<longrightarrow> Q y s))"
  by (cases x) (simp_all add: lift_def wp_simps)

section \<open>Finding the C function\<close>

definition kind_name :: "objkind \<Rightarrow> string" where
  "kind_name k = (case k of KSocket \<Rightarrow> ''socket'' | KDialer \<Rightarrow> ''dialer'' | KListener \<Rightarrow> ''listener''
     | KPipe \<Rightarrow> ''pipe'' | KCtx \<Rightarrow> ''ctx'' | KOther \<Rightarrow> '''')"

definition function_name :: "objkind \<Rightarrow> string \<Rightarrow> string \<Rightarrow> string" where
  "function_name k get_or_set option_type =
     ''nng_'' @ kind_name k @ ''_'' @ get_or_set @
       (if option_type = '''' then '''' else ''_'' @ option_type)"

definition get_inst_and_func ::
  "nng_lib \<Rightarrow> pyobj \<Rightarrow> string \<Rightarrow> string \<Rightarrow> (pyexc + int \<times> string)" where
  "get_inst_and_func L1 ob option_type get_or_set =
     (if kind ob = KOther then Inl TypeError
      else let f = function_name (kind ob) get_or_set option_type
           in if has_attr (resolve_lib_ffi L1 ob) f then Inr (handle ob, f) else Inl AttributeError)"

section \<open>Getters and setters\<close>

text \<open>The common part: look up, call, check the result.\<close>

definition opt_call ::
  "nng_lib \<Rightarrow> pyobj \<Rightarrow> carg \<Rightarrow> string \<Rightarrow> string \<Rightarrow> carg list \<Rightarrow> ('a world_scheme, pyexc, nres) prog"
where
  "opt_call L1 ob opt ty dir extra =
     bnd (lift (get_inst_and_func L1 ob ty dir)) (\<lambda>(obj, f).
     bnd (ccall (resolve_lib_ffi L1 ob) (Fn f ([CInt obj, opt] @ extra))) (\<lambda>r.
     andthen (check_err L1 (r_val r)) (ret r)))"

definition getopt_num ::
  "string \<Rightarrow> nng_lib \<Rightarrow> pyobj \<Rightarrow> pyval \<Rightarrow> ('a world_scheme, pyexc, pyval) prog" where
  "getopt_num ty L1 ob option =
     bnd (lift (to_char False option)) (\<lambda>opt.
     bnd (opt_call L1 ob opt ty ''get'' [COut]) (\<lambda>r. ret (PInt (r_out r))))"

definition getopt_int where "getopt_int = getopt_num ''int''"
definition getopt_size where "getopt_size = getopt_num ''size''"
definition getopt_ms where "getopt_ms = getopt_num ''ms''"

text \<open>The numeric setters check the value before they look up the function.\<close>

definition setopt_num ::
  "string \<Rightarrow> nng_lib \<Rightarrow> pyobj \<Rightarrow> pyval \<Rightarrow> pyval \<Rightarrow> ('a world_scheme, pyexc, unit) prog" where
  "setopt_num ty L1 ob option value =
     bnd (lift (to_char False option)) (\<lambda>opt.
     bnd (lift (int_value value)) (\<lambda>n.
     bnd (opt_call L1 ob opt ty ''set'' [CInt n]) (\<lambda>_. ret ())))"

definition setopt_int where "setopt_int = setopt_num ''int''"
definition setopt_size where "setopt_size = setopt_num ''size''"
definition setopt_ms where "setopt_ms = setopt_num ''ms''"

text \<open>The string of a getter is copied, decoded and then freed; when decoding fails it is not.\<close>

definition getopt_string ::
  "nng_lib \<Rightarrow> pyobj \<Rightarrow> pyval \<Rightarrow> ('a world_scheme, pyexc, pyval) prog" where
  "getopt_string L1 ob option =
     bnd (lift (to_char False option)) (\<lambda>opt.
     bnd (opt_call L1 ob opt ''string'' ''get'' [COut]) (\<lambda>r.
     bnd (lift (utf8_decode (map unat (r_bytes r)))) (\<lambda>s.
     bnd (ccall (resolve_lib_ffi L1 ob) (Fn ''nng_strfree'' [CInt (r_out r)])) (\<lambda>_.
     ret (PStr s)))))"

definition setopt_string ::
  "nng_lib \<Rightarrow> pyobj \<Rightarrow> pyval \<Rightarrow> pyval \<Rightarrow> ('a world_scheme, pyexc, unit) prog" where
  "setopt_string L1 ob option value =
     bnd (lift (to_char False option)) (\<lambda>opt.
     bnd (lift (to_char False value)) (\<lambda>v.
     bnd (opt_call L1 ob opt ''string'' ''set'' [v]) (\<lambda>_. ret ())))"

text \<open>\<open>len(value)\<close> counts the characters of a \<open>str\<close> and the bytes of \<open>bytes\<close>.\<close>

definition py_len :: "pyval \<Rightarrow> (pyexc + int)" where
  "py_len v = (case v of PStr s \<Rightarrow> Inr (int (length s)) | PBytes b \<Rightarrow> Inr (int (length b))
     | _ \<Rightarrow> Inl TypeError)"

definition setopt_string_nonnull ::
  "nng_lib \<Rightarrow> pyobj \<Rightarrow> pyval \<Rightarrow> pyval \<Rightarrow> ('a world_scheme, pyexc, unit) prog" where
  "setopt_string_nonnull L1 ob option value =
     bnd (lift (to_char False option)) (\<lambda>opt.
     bnd (lift (to_char False value)) (\<lambda>v.
     bnd (lift (get_inst_and_func L1 ob '''' ''set'')) (\<lambda>_.
     bnd (lift (py_len value)) (\<lambda>n.
     bnd (opt_call L1 ob opt '''' ''set'' [v, CInt n]) (\<lambda>_. ret ())))))"

definition getopt_bool ::
  "nng_lib \<Rightarrow> pyobj \<Rightarrow> pyval \<Rightarrow> ('a world_scheme, pyexc, pyval) prog" where
  "getopt_bool L1 ob option =
     bnd (lift (to_char False option)) (\<lambda>opt.
     bnd (opt_call L1 ob opt ''bool'' ''get'' [COut]) (\<lambda>r. ret (PBool (r_out r \<noteq> 0))))"

definition setopt_bool ::
  "nng_lib \<Rightarrow> pyobj \<Rightarrow> pyval \<Rightarrow> pyval \<Rightarrow> ('a world_scheme, pyexc, unit) prog" where
  "setopt_bool L1 ob option value =
     bnd (lift (to_char False option)) (\<lambda>opt.
     bnd (opt_call L1 ob opt ''bool'' ''set'' [CPy value]) (\<lambda>_. ret ()))"

text \<open>The address a getter fills in is the parameter \<open>sa_of\<close> of the call's result.\<close>

definition getopt_sockaddr ::
  "(nres \<Rightarrow> 'sa) \<Rightarrow> ('sa \<Rightarrow> (pyexc + 'pa)) \<Rightarrow> nng_lib \<Rightarrow> pyobj \<Rightarrow> pyval
     \<Rightarrow> ('a world_scheme, pyexc, 'pa) prog" where
  "getopt_sockaddr sa_of nng_sockaddr L1 ob option =
     bnd (lift (to_char False option)) (\<lambda>opt.
     bnd (opt_call L1 ob opt ''addr'' ''get'' [COut]) (\<lambda>r. lift (nng_sockaddr (sa_of r))))"

text \<open>\<open>config_for\<close> is \<open>TLSConfig._config_for\<close> of the value, for the library of the object.\<close>

definition setopt_ptr ::
  "(nat \<Rightarrow> ('a world_scheme, pyexc, int) prog) \<Rightarrow> nng_lib \<Rightarrow> pyobj \<Rightarrow> pyval \<Rightarrow> pyval
     \<Rightarrow> ('a world_scheme, pyexc, unit) prog" where
  "setopt_ptr config_for L1 ob option value = (case value of
     PTls i \<Rightarrow>
       bnd (config_for i) (\<lambda>p.
       bnd (lift (to_char False option)) (\<lambda>opt.
       bnd (opt_call L1 ob opt ''ptr'' ''set'' [CInt p]) (\<lambda>_. ret ())))
   | _ \<Rightarrow> raise_exc ValueError)"

section \<open>Descriptors\<close>

datatype descriptor =
    IntOption | MsOption | SockAddrOption | SizeOption | StringOption | BooleanOption
  | PointerOption | NotImplementedOption

text \<open>
  \<open>__get__\<close> and \<open>__set__\<close>: a descriptor without a getter is write-only, one without a
  setter is read-only. The result of an address getter stands for itself (\<open>PObj\<close>).
  \<open>keep\<close> is what \<open>PointerOption\<close> does after the set: it keeps the value referenced.
\<close>

definition desc_get ::
  "nng_lib \<Rightarrow> descriptor \<Rightarrow> pyobj \<Rightarrow> pyval \<Rightarrow> ('a world_scheme, pyexc, pyval) prog" where
  "desc_get L1 d ob option = (case d of
     IntOption \<Rightarrow> getopt_int L1 ob option
   | MsOption \<Rightarrow> getopt_ms L1 ob option
   | SockAddrOption \<Rightarrow> getopt_sockaddr (\<lambda>_. ()) (\<lambda>_. Inr PObj) L1 ob option
   | SizeOption \<Rightarrow> getopt_size L1 ob option
   | StringOption \<Rightarrow> getopt_string L1 ob option
   | BooleanOption \<Rightarrow> getopt_bool L1 ob option
   | PointerOption \<Rightarrow> raise_exc TypeError
   | NotImplementedOption \<Rightarrow> raise_exc NotImplementedError)"

definition desc_set ::
  "(nat \<Rightarrow> ('a world_scheme, pyexc, int) prog) \<Rightarrow> (pyval \<Rightarrow> ('a world_scheme, pyexc, unit) prog)
     \<Rightarrow> nng_lib \<Rightarrow> descriptor \<Rightarrow> pyobj \<Rightarrow> pyval \<Rightarrow> pyval \<Rightarrow> ('a world_scheme, pyexc, unit) prog" where
  "desc_set config_for keep L1 d ob option value = (case d of
     IntOption \<Rightarrow> setopt_int L1 ob option value
   | MsOption \<Rightarrow> setopt_ms L1 ob option value
   | SockAddrOption \<Rightarrow> raise_exc TypeError
   | SizeOption \<Rightarrow> setopt_size L1 ob option value
   | StringOption \<Rightarrow> setopt_string L1 ob option value
   | BooleanOption \<Rightarrow> setopt_bool L1 ob option value
   | PointerOption \<Rightarrow> andthen (setopt_ptr config_for L1 ob option value) (keep value)
   | NotImplementedOption \<Rightarrow> raise_exc NotImplementedError)"

text \<open>The C type a descriptor uses, and the options each class declares.\<close>

definition desc_type :: "descriptor \<Rightarrow> string" where
  "desc_type d = (case d of IntOption \<Rightarrow> ''int'' | MsOption \<Rightarrow> ''ms'' | SockAddrOption \<Rightarrow> ''addr''
     | SizeOption \<Rightarrow> ''size'' | StringOption \<Rightarrow> ''string'' | BooleanOption \<Rightarrow> ''bool''
     | PointerOption \<Rightarrow> ''ptr'' | NotImplementedOption \<Rightarrow> [])"

definition base_socket_options :: "(string \<times> descriptor \<times> string) list" where
  "base_socket_options =
    [(''recv_buffer_size'', IntOption, ''recv-buffer''),
     (''send_buffer_size'', IntOption, ''send-buffer''),
     (''recv_timeout'', MsOption, ''recv-timeout''), (''send_timeout'', MsOption, ''send-timeout''),
     (''ttl_max'', IntOption, ''ttl-max''), (''recv_max_size'', SizeOption, ''recv-size-max''),
     (''reconnect_time_min'', MsOption, ''reconnect-time-min''),
     (''reconnect_time_max'', MsOption, ''reconnect-time-max''),
     (''tcp_nodelay'', BooleanOption, ''tcp-nodelay''),
     (''tcp_keepalive'', BooleanOption, ''tcp-keepalive'')]"

definition v1_socket_options :: "(string \<times> descriptor \<times> string) list" where
  "v1_socket_options =
    [(''name'', StringOption, ''socket-name''), (''raw'', BooleanOption, ''raw''),
     (''protocol'', IntOption, ''protocol''), (''protocol_name'', StringOption, ''protocol-name''),
     (''peer'', IntOption, ''peer''), (''peer_name'', StringOption, ''peer-name''),
     (''recv_fd'', IntOption, ''recv-fd''), (''send_fd'', IntOption, ''send-fd''),
     (''tls_config'', PointerOption, ''tls-config'')]"

definition dialer_options :: "(string \<times> descriptor \<times> string) list" where
  "dialer_options =
    [(''local_address'', SockAddrOption, ''local-address''),
     (''remote_address'', SockAddrOption, ''remote-address''),
     (''reconnect_time_min'', MsOption, ''reconnect-time-min''),
     (''reconnect_time_max'', MsOption, ''reconnect-time-max''),
     (''recv_max_size'', SizeOption, ''recv-size-max''), (''url'', StringOption, ''url''),
     (''peer'', IntOption, ''peer''), (''peer_name'', StringOption, ''peer-name''),
     (''tcp_nodelay'', BooleanOption, ''tcp-nodelay''),
     (''tcp_keepalive'', BooleanOption, ''tcp-keepalive'')]"

definition listener_options :: "(string \<times> descriptor \<times> string) list" where
  "listener_options =
    [(''local_address'', SockAddrOption, ''local-address''),
     (''remote_address'', SockAddrOption, ''remote-address''),
     (''reconnect_time_min'', MsOption, ''reconnect-time-min''),
     (''reconnect_time_max'', MsOption, ''reconnect-time-max''),
     (''recv_max_size'', SizeOption, ''recv-size-max''), (''url'', StringOption, ''url''),
     (''peer'', IntOption, ''peer''), (''peer_name'', StringOption, ''peer-name''),
     (''tcp_nodelay'', BooleanOption, ''tcp-nodelay''),
     (''tcp_keepalive'', BooleanOption, ''tcp-keepalive'')]"

definition v1_endpoint_options :: "(string \<times> descriptor \<times> string) list" where
  "v1_endpoint_options =
    [(''tls_config'', PointerOption, ''tls-config''), (''tls_ca_file'', StringOption, ''tls-ca-file''),
     (''tls_cert_key_file'', StringOption, ''tls-cert-key-file''),
     (''tls_auth_mode'', IntOption, ''tls-authmode''),
     (''tls_server_name'', StringOption, ''tls-server-name'')]"

definition pipe_options :: "(string \<times> descriptor \<times> string) list" where
  "pipe_options =
    [(''local_address'', SockAddrOption, ''local-address''),
     (''remote_address'', SockAddrOption, ''remote-address''), (''url'', StringOption, ''url''),
     (''protocol'', IntOption, ''protocol''), (''protocol_name'', StringOption, ''protocol-name''),
     (''peer'', IntOption, ''peer''), (''peer_name'', StringOption, ''peer-name''),
     (''tcp_nodelay'', BooleanOption, ''tcp-nodelay''),
     (''tcp_keepalive'', BooleanOption, ''tcp-keepalive'')]"

definition context_options :: "(string \<times> descriptor \<times> string) list" where
  "context_options =
    [(''recv_timeout'', MsOption, ''recv-timeout''), (''send_timeout'', MsOption, ''send-timeout'')]"

text \<open>
  The attributes that the v2 classes define anew, and the functions of the v2 library with the
  uniform names (the generated header cache): pipes have no setters.
\<close>

definition v2_overrides :: "objkind \<Rightarrow> string list" where
  "v2_overrides k = (case k of
     KDialer \<Rightarrow> [''url'', ''tls_config'', ''local_address'', ''remote_address'']
   | KListener \<Rightarrow> [''url'', ''tls_config'', ''local_address'', ''remote_address'']
   | KPipe \<Rightarrow> [''local_address'', ''remote_address'', ''scheme'']
   | _ \<Rightarrow> [])"

definition v2_option_types :: "objkind \<Rightarrow> string \<Rightarrow> string list" where
  "v2_option_types k dir = (case k of
     KSocket \<Rightarrow> [''bool'', ''int'', ''size'', ''ms'']
   | KDialer \<Rightarrow> [''bool'', ''int'', ''size'', ''string'', ''ms'']
   | KListener \<Rightarrow> [''bool'', ''int'', ''size'', ''string'', ''ms'']
   | KPipe \<Rightarrow> (if dir = ''get'' then [''bool'', ''int'', ''ms'', ''size'', ''string''] else [])
   | KCtx \<Rightarrow> [''bool'', ''int'', ''size'', ''ms'']
   | KOther \<Rightarrow> [])"

definition v2_functions :: "string list" where
  "v2_functions =
     concat (map (\<lambda>k. concat (map (\<lambda>d. map (function_name k d) (v2_option_types k d))
       [''get'', ''set''])) [KSocket, KDialer, KListener, KPipe, KCtx])"

definition v2_descriptors :: "(objkind \<times> string \<times> descriptor) list" where
  "v2_descriptors =
     concat (map (\<lambda>(k, ds). map (\<lambda>(a, d, n). (k, a, d))
         (filter (\<lambda>(a, d, n). a \<notin> set (v2_overrides k)) ds))
       [(KSocket, base_socket_options), (KDialer, dialer_options), (KListener, listener_options),
        (KPipe, pipe_options), (KCtx, context_options)])"

section \<open>Properties\<close>

text \<open>Every option a v2 class inherits is backed by the v2 library. For each descriptor that
  a v2 socket, dialer, listener, pipe or context has and does not override, the C function that reading it
  looks up by name exists, so reading never ends in \<open>AttributeError\<close>; so does the function
  that writing it looks up, except on pipes, where nng has no setters.\<close>

theorem v2_descriptors_backed:
  "list_all (\<lambda>(k, a, d).
      function_name k ''get'' (desc_type d) \<in> set v2_functions \<and>
      (function_name k ''set'' (desc_type d) \<in> set v2_functions \<longleftrightarrow> k \<noteq> KPipe)) v2_descriptors"
  by code_simp

text \<open>What a lookup and a call do.\<close>

lemma wp_opt_call [wp_simps]:
  "wp (opt_call L1 ob opt ty dir xs) Q E s =
     ((\<forall>e. get_inst_and_func L1 ob ty dir = Inl e \<longrightarrow> E e s) \<and>
      (\<forall>h f. get_inst_and_func L1 ob ty dir = Inr (h, f) \<longrightarrow>
         wp (ccall (resolve_lib_ffi L1 ob) (Fn f ([CInt h, opt] @ xs)))
           (\<lambda>r. wp (check_err L1 (r_val r)) (\<lambda>_. Q r) E) E s))"
  by (auto simp: opt_call_def wp_simps split: prod.split)

lemma float_int_exact:
  "float_is_int m e \<Longrightarrow> if 0 \<le> e then float_int m e = m * 2 ^ nat e
                       else float_int m e * 2 ^ nat (- e) = m"
  by (cases "m < 0")
    (auto simp: float_is_int_def float_int_def sgn_if abs_if mod_eq_0_iff_dvd dvd_div_mult_self)

text \<open>The number a Python value denotes, if it is a whole one: the reference for the check.\<close>

definition denotes :: "pyval \<Rightarrow> int \<Rightarrow> bool" where
  "denotes v n \<longleftrightarrow> v = PInt n \<or> v = PBool (n = 1) \<and> (n = 0 \<or> n = 1) \<or>
     (\<exists>m e. v = PFloat m e \<and> (if 0 \<le> e then n = m * 2 ^ nat e else n * 2 ^ nat (- e) = m))"

lemma int_value_denotes: "int_value v = Inr n \<longleftrightarrow> denotes v n"
proof (cases v)
  case (PFloat m e)
  have "float_is_int m e" if "\<not> 0 \<le> e" "n * 2 ^ nat (- e) = m"
    using that by (auto simp: float_is_int_def)
  moreover have "float_int m e = n"
    if "float_is_int m e" "if 0 \<le> e then n = m * 2 ^ nat e else n * 2 ^ nat (- e) = m"
    using that float_int_exact [of m e] by (auto split: if_splits)
  moreover have "0 \<le> e \<Longrightarrow> float_is_int m e" by (simp add: float_is_int_def)
  ultimately show ?thesis
    using float_int_exact [of m e] PFloat by (auto simp: int_value_def denotes_def split: if_splits)
qed (auto simp: int_value_def denotes_def)

text \<open>A numeric option takes exactly the values that denote a whole number. Setting an option of an
  object whose function exists calls nng once, with that number, if the value denotes \<open>n\<close>
  (an \<open>int\<close>, a \<open>bool\<close> or a float equal to \<open>n\<close>), and then returns iff
  nng reports success; any other value raises before anything is asked of nng.\<close>

theorem numeric_setter_exact:
  assumes "get_inst_and_func L1 ob ty ''set'' = Inr (h, f)"
    and "\<And>tr c. r_exn (fn (resolve_lib_ffi L1 ob) tr c) = None" and "\<And>tr c. r_exn (fn L1 tr c) = None"
  shows "wp (setopt_num ty L1 ob (PBytes opt) v)
           (\<lambda>_ t. \<exists>n r. denotes v n \<and> calls t = calls s @ [(Fn f [CInt h, CStr opt, CInt n], r)] \<and> r_val r = 0)
           (\<lambda>e t. if \<exists>n. denotes v n
                  then \<exists>n r q. denotes v n \<and> r_val r \<noteq> 0 \<and> errno_of e = Some (r_val r) \<and>
                    calls t = calls s @ [(Fn f [CInt h, CStr opt, CInt n], r), (Strerror (r_val r), q)]
                  else t = s) s"
  using assms int_value_denotes [of v]
  by (cases "int_value v")
    (auto simp: setopt_num_def to_char_def wp_simps errno_of_def intro!: exI split: if_splits)

theorem numeric_setter_exact_witness:
  "fst (setopt_num ''ms'' (demo_lib (\<lambda>_ _. 0) (\<lambda>_ _. None) (\<lambda>_ _. []))
          \<lparr>kind = KDialer, handle = 7, own_lib = None, obj_id = 0\<rparr> (PBytes [120]) (PFloat 5 1) world0)
     \<in> {Inr ()} \<union> {Inl e | e. errno_of e \<noteq> None}"
proof -
  let ?L = "demo_lib (\<lambda>_ _. 0) (\<lambda>_ _. None) (\<lambda>_ _. [])"
  let ?ob = "\<lparr>kind = KDialer, handle = 7, own_lib = None, obj_id = 0\<rparr>"
  have d: "denotes (PFloat 5 1) n \<longleftrightarrow> n = 10" for n by (simp add: denotes_def)
  have "wp (setopt_num ''ms'' ?L ?ob (PBytes [120]) (PFloat 5 1)) (\<lambda>_ t. True)
     (\<lambda>e t. errno_of e \<noteq> None) world0"
    by (rule wp_mono [OF numeric_setter_exact [of ?L ?ob "''ms''" 7 "''nng_dialer_set_ms''"]])
      (auto simp: get_inst_and_func_def function_name_def kind_name_def resolve_lib_ffi_def
        demo_lib_def d split: if_splits)
  then show ?thesis by (auto simp: wp_def split: prod.splits sum.splits)
qed

text \<open>
  What a library promises that keeps options: a successful read of a numeric option gives the
  value of the last successful write of the same option of the same object.
\<close>

fun last_set :: "trace \<Rightarrow> string \<Rightarrow> int \<Rightarrow> nat list \<Rightarrow> int option \<Rightarrow> int option" where
  "last_set [] f h opt v = v"
| "last_set ((c, r) # tr) f h opt v = last_set tr f h opt
     (case c of
        Fn g xs \<Rightarrow>
          (case xs of
             [x, y, CInt n] \<Rightarrow>
               (if g = f \<and> x = CInt h \<and> y = CStr opt \<and> r_val r = 0 \<and> r_exn r = None then Some n else v)
           | _ \<Rightarrow> v)
      | _ \<Rightarrow> v)"

lemma last_set_append: "last_set (xs @ ys) f h opt v = last_set ys f h opt (last_set xs f h opt v)"
  by (induction xs arbitrary: v) auto

definition option_store :: "nng_lib \<Rightarrow> bool" where
  "option_store L \<longleftrightarrow> (\<forall>k ty tr h opt n.
     let r = fn L tr (Fn (function_name k ''get'' ty) [CInt h, CStr opt, COut])
     in last_set tr (function_name k ''set'' ty) h opt None = Some n \<and> r_val r = 0 \<longrightarrow> r_out r = n)"

lemma function_name_inj:
  assumes "k \<noteq> KOther" "k' \<noteq> KOther" "ty \<in> {''int'', ''size'', ''ms''}" "ty' \<in> {''int'', ''size'', ''ms''}"
  shows "function_name k d ty = function_name k' d ty' \<longleftrightarrow> k = k' \<and> ty = ty'"
  using assms
  by (cases k; cases k') (auto simp: function_name_def kind_name_def)

abbreviation numeric :: "string \<Rightarrow> bool" where
  "numeric ty \<equiv> ty \<in> {''int'', ''size'', ''ms''}"

lemma setopt_num_stores:
  assumes "own_lib ob = Some L"
  shows "wp (setopt_num ty L1 ob (PBytes opt) v)
           (\<lambda>_ t. \<exists>n. denotes v n \<and>
              last_set (calls t) (function_name (kind ob) ''set'' ty) (handle ob) opt None = Some n)
           (\<lambda>_ _. True) s"
  using assms
  by (auto simp: setopt_num_def to_char_def wp_simps int_value_denotes get_inst_and_func_def
      resolve_lib_ffi_def last_set_append Let_def intro!: exI split: if_splits)

lemma setopt_num_keeps:
  fixes f :: string and h :: int and opt :: "nat list" and s :: "'a world_scheme"
  assumes "function_name (kind ob') ''set'' ty' \<noteq> f \<or> handle ob' \<noteq> h \<or> opt' \<noteq> opt"
  defines "I \<equiv> \<lambda>t :: 'a world_scheme. last_set (calls t) f h opt None = last_set (calls s) f h opt None"
  shows "wp (setopt_num ty' L1 ob' (PBytes opt') v') (\<lambda>_. I) (\<lambda>_. I) s"
  using assms(1)
  by (auto simp: I_def setopt_num_def to_char_def wp_simps get_inst_and_func_def
      last_set_append Let_def split: if_splits)

lemma getopt_num_reads:
  assumes "option_store L" and "own_lib ob = Some L"
    and "last_set (calls s) (function_name (kind ob) ''set'' ty) (handle ob) opt None = Some n"
  shows "wp (getopt_num ty L1 ob (PBytes opt)) (\<lambda>x _. x = PInt n) (\<lambda>_ _. True) s"
  using assms
  by (auto simp: getopt_num_def to_char_def wp_simps get_inst_and_func_def resolve_lib_ffi_def
      option_store_def Let_def split: if_splits)

text \<open>What is set is what is read. On a library that keeps options, after a numeric option was
  set, and after an attempt, successful or not, to set another one (another object, another type of object with
  the same handle, another option or another numeric type), reading the first option yields the number
  its value denotes.\<close>

theorem option_roundtrip:
  assumes "option_store L" and "own_lib ob = Some L"
    and "kind ob \<noteq> KOther" "kind ob' \<noteq> KOther" and "numeric ty" "numeric ty'"
    and "(kind ob, handle ob, opt, ty) \<noteq> (kind ob', handle ob', opt', ty')"
    and "setopt_num ty L1 ob (PBytes opt) v s = (Inr (), t)"
    and "getopt_num ty L1 ob (PBytes opt) (snd (setopt_num ty' L1 ob' (PBytes opt') v' t)) = (Inr x, u)"
  shows "\<exists>n. x = PInt n \<and> denotes v n"
proof -
  let ?f = "function_name (kind ob) ''set'' ty"
  obtain n where n: "denotes v n" "last_set (calls t) ?f (handle ob) opt None = Some n"
    using wp_resultI(1) [OF setopt_num_stores [OF assms(2)] assms(8)] by blast
  have "function_name (kind ob') ''set'' ty' \<noteq> ?f \<or> handle ob' \<noteq> handle ob \<or> opt' \<noteq> opt"
    using assms(3-7) function_name_inj by auto
  from wp_stateI [OF setopt_num_keeps [OF this, where s = t and ?L1.0 = L1 and v' = v']] n(2)
  have "last_set (calls (snd (setopt_num ty' L1 ob' (PBytes opt') v' t))) ?f (handle ob) opt None = Some n"
    by simp
  from wp_resultI(1) [OF getopt_num_reads [OF assms(1,2) this] assms(9)] n(1)
  show ?thesis by blast
qed

text \<open>A library that keeps options.\<close>

definition setter_of :: "string \<Rightarrow> string" where
  "setter_of g = take 4 g @ takeWhile (\<lambda>c. c \<noteq> CHR ''_'') (drop 4 g) @ ''_set'' @
     drop 4 (dropWhile (\<lambda>c. c \<noteq> CHR ''_'') (drop 4 g))"

definition store_lib :: nng_lib where
  "store_lib = (let D = demo_lib (\<lambda>_ _. 0) (\<lambda>_ _. None) (\<lambda>_ _. []) in D\<lparr>fn := \<lambda>tr c. (fn D tr c)\<lparr>r_out :=
     (case c of
        Fn g xs \<Rightarrow>
          (case xs of
             [CInt h, CStr opt, COut] \<Rightarrow>
               (case last_set tr (setter_of g) h opt None of None \<Rightarrow> 0 | Some n \<Rightarrow> n)
           | _ \<Rightarrow> 0)
      | _ \<Rightarrow> 0)\<rparr>\<rparr>)"

lemma option_store_lib: "option_store store_lib"
proof -
  have "setter_of (function_name k ''get'' ty) = function_name k ''set'' ty" for k ty
    by (cases k) (simp_all add: setter_of_def function_name_def kind_name_def)
  then show ?thesis by (simp add: option_store_def store_lib_def Let_def)
qed

theorem option_roundtrip_witness:
  "let d = \<lparr>kind = KDialer, handle = 7, own_lib = Some store_lib, obj_id = 0\<rparr>;
       t = snd (setopt_num ''ms'' store_lib d (PBytes [120]) (PFloat 5 1) world0);
       r = fst (getopt_num ''ms'' store_lib d (PBytes [120])
             (snd (setopt_num ''ms'' store_lib (d\<lparr>kind := KListener\<rparr>) (PBytes [120]) (PInt 3) t)))
   in r = Inr (PInt 10)"
proof -
  let ?d = "\<lparr>kind = KDialer, handle = 7, own_lib = Some store_lib, obj_id = 0\<rparr>"
  let ?t = "snd (setopt_num ''ms'' store_lib ?d (PBytes [120]) (PFloat 5 1) world0)"
  let ?u = "snd (setopt_num ''ms'' store_lib (?d\<lparr>kind := KListener\<rparr>) (PBytes [120]) (PInt 3) ?t)"
  note run = setopt_num_def getopt_num_def to_char_def lift_def opt_call_def get_inst_and_func_def
    resolve_lib_ffi_def int_value_def float_is_int_def float_int_def check_err_def ccall_def prog_defs
    store_lib_def demo_lib_def Let_def
  have "setopt_num ''ms'' store_lib ?d (PBytes [120]) (PFloat 5 1) world0 = (Inr (), ?t)"
    by (simp add: run)
  moreover obtain x u where "getopt_num ''ms'' store_lib ?d (PBytes [120]) ?u = (Inr x, u)"
    by (simp add: run)
  moreover have "\<exists>n. x = PInt n \<and> denotes (PFloat 5 1) n"
    by (rule option_roundtrip [OF option_store_lib _ _ _ _ _ _ calculation(1) calculation(2)]) simp_all
  ultimately show ?thesis by (auto simp: Let_def denotes_def)
qed

end
