(* ===== verification/Tls.thy ===== *)
theory Tls
  imports Options
begin

text \<open>
  \<^verbatim>\<open>pynng/tls.py\<close>: one \<open>TLSConfig\<close> keeps one \<open>nng_tls_config\<close> for each nng library the
  process has initialised, so that sockets of either version can use it. Libraries are numbered
  (0 is v1), \<open>LL\<close> gives each of them, and configurations are objects of the field \<open>tls\<close>.
\<close>

section \<open>State\<close>

datatype alt_config = AltCfg int | Unavailable pyexc "int option"

record tls_config =
  cfg_lib :: nat
  cfg_ptr :: "int option"
  alt_configs :: "(nat \<times> alt_config) list"

text \<open>
  \<open>libs\<close> is \<open>_libs\<close>, \<open>retained\<close> the deque of \<^verbatim>\<open>_finalized.py\<close> (object numbers) and
  \<open>pointer_refs\<close> the dictionaries \<open>_pointer_option_refs\<close>.
\<close>

record tworld = world +
  tls :: "nat \<Rightarrow> tls_config"
  next_tls :: nat
  libs :: "nat list"
  retained :: "nat list"
  pointer_refs :: "nat \<Rightarrow> (pyval \<times> pyval) list"

definition upd_tls :: "nat \<Rightarrow> (tls_config \<Rightarrow> tls_config) \<Rightarrow> ('a tworld_scheme, pyexc, unit) prog" where
  "upd_tls i f = modf (\<lambda>w. w\<lparr>tls := (tls w)(i := f (tls w i))\<rparr>)"

definition register_lib :: "nat \<Rightarrow> ('a tworld_scheme, pyexc, unit) prog" where
  "register_lib l = modf (\<lambda>w. if l \<in> set (libs w) then w else w\<lparr>libs := libs w @ [l]\<rparr>)"

definition retain :: "nat \<Rightarrow> ('a tworld_scheme, pyexc, unit) prog" where
  "retain i = modf (retained_update (retain_closed (Some i)))"

definition keep_pointer :: "pyobj \<Rightarrow> pyval \<Rightarrow> pyval \<Rightarrow> ('a tworld_scheme, pyexc, unit) prog" where
  "keep_pointer ob option v = (case v of
     PNone \<Rightarrow> ret ()
   | PTls i \<Rightarrow>
       andthen
         (modf (\<lambda>w. w\<lparr>pointer_refs := (pointer_refs w)(obj_id ob :=
            AList.update option v (pointer_refs w (obj_id ob)))\<rparr>))
         (retain i)
   | _ \<Rightarrow>
       modf (\<lambda>w. w\<lparr>pointer_refs := (pointer_refs w)(obj_id ob :=
            AList.update option v (pointer_refs w (obj_id ob)))\<rparr>))"

section \<open>Operations\<close>

definition MODE_NAMES :: "string list" where
  "MODE_NAMES = [''NNG_TLS_MODE_CLIENT'', ''NNG_TLS_MODE_SERVER'']"

definition AUTH_MODE_NAMES :: "string list" where
  "AUTH_MODE_NAMES =
     [''NNG_TLS_AUTH_MODE_NONE'', ''NNG_TLS_AUTH_MODE_OPTIONAL'', ''NNG_TLS_AUTH_MODE_REQUIRED'']"

fun translate_constant :: "pyval \<Rightarrow> string list \<Rightarrow> nng_lib \<Rightarrow> nng_lib \<Rightarrow> (pyexc + pyval)" where
  "translate_constant v [] src dst = Inl ValueError"
| "translate_constant v (n # ns) src dst =
     (if int_value v = Inr (const src n) then Inr (PInt (const dst n))
      else translate_constant v ns src dst)"

datatype tls_op = Op_server_name | Op_ca_chain | Op_own_cert | Op_auth_mode | Op_ca_file | Op_cert_key_file

definition op_name :: "tls_op \<Rightarrow> string" where
  "op_name opn = (case opn of Op_server_name \<Rightarrow> ''nng_tls_config_server_name''
     | Op_ca_chain \<Rightarrow> ''nng_tls_config_ca_chain'' | Op_own_cert \<Rightarrow> ''nng_tls_config_own_cert''
     | Op_auth_mode \<Rightarrow> ''nng_tls_config_auth_mode'' | Op_ca_file \<Rightarrow> ''nng_tls_config_ca_file''
     | Op_cert_key_file \<Rightarrow> ''nng_tls_config_cert_key_file'')"

definition opt_char :: "pyval \<Rightarrow> (pyexc + carg)" where
  "opt_char v = (if v = PNone then Inr (CInt 0) else to_char False v)"

text \<open>The C arguments of an operation; a wrong number of arguments does not occur.\<close>

definition op_args :: "tls_op \<Rightarrow> pyval list \<Rightarrow> (pyexc + carg list)" where
  "op_args opn args =
     (let two = (\<lambda>x y. case x of Inl e \<Rightarrow> Inl e | Inr a \<Rightarrow>
            (case y of Inl e \<Rightarrow> Inl e | Inr b \<Rightarrow> Inr [a, b]))
      in case (opn, args) of
        (Op_server_name, [n]) \<Rightarrow> (case to_char False n of Inl e \<Rightarrow> Inl e | Inr c \<Rightarrow> Inr [c])
      | (Op_ca_chain, [chain, crl]) \<Rightarrow> two (to_char False chain) (opt_char crl)
      | (Op_own_cert, [cert, key, pw]) \<Rightarrow>
          (case to_char False cert of Inl e \<Rightarrow> Inl e | Inr a \<Rightarrow>
             (case two (to_char False key) (opt_char pw) of Inl e \<Rightarrow> Inl e | Inr bs \<Rightarrow> Inr (a # bs)))
      | (Op_auth_mode, [m]) \<Rightarrow> Inr [CPy m]
      | (Op_ca_file, [p]) \<Rightarrow> (case to_char False p of Inl e \<Rightarrow> Inl e | Inr c \<Rightarrow> Inr [c])
      | (Op_cert_key_file, [p, pw]) \<Rightarrow> two (to_char False p) (opt_char pw)
      | _ \<Rightarrow> Inl ValueError)"

definition apply_op ::
  "nng_lib \<Rightarrow> int \<Rightarrow> tls_op \<Rightarrow> pyval list \<Rightarrow> ('a world_scheme, pyexc, unit) prog" where
  "apply_op L cfg opn args =
     bnd (lift (op_args opn args)) (\<lambda>cs.
     bnd (ccall L (Fn (op_name opn) (CInt cfg # cs))) (\<lambda>r. check_err L (r_val r)))"

text \<open>
  One entry of the loop of \<open>_apply_everywhere\<close>: when the operation fails after the primary
  configuration was changed, the entry is marked, so that it is never used again.
\<close>

definition apply_alt ::
  "(nat \<Rightarrow> nng_lib) \<Rightarrow> nat \<Rightarrow> tls_op \<Rightarrow> pyval list \<Rightarrow> nat \<times> alt_config
     \<Rightarrow> ('a tworld_scheme, pyexc, unit) prog" where
  "apply_alt LL i opn args le = (case le of (alt_lib, entry) \<Rightarrow> (case entry of
     Unavailable e c \<Rightarrow> ret ()
   | AltCfg alt_cfg \<Rightarrow>
       bnd (getf (\<lambda>w. cfg_lib (tls w i))) (\<lambda>home.
       bnd (lift (if opn = Op_auth_mode
                  then (case translate_constant (hd args) AUTH_MODE_NAMES (LL home) (LL alt_lib) of
                          Inl e \<Rightarrow> Inl e | Inr v \<Rightarrow> Inr [v])
                  else Inr args)) (\<lambda>alt_args.
       try_except (apply_op (LL alt_lib) alt_cfg opn alt_args)
         (\<lambda>e. andthen
            (upd_tls i (alt_configs_update (AList.update alt_lib (Unavailable RuntimeError (Some alt_cfg)))))
            (raise_exc e))))))"

text \<open>\<open>self._tls_config\<close> is \<open>None\<close> only before the allocation; the methods are called after it.\<close>

definition apply_everywhere ::
  "(nat \<Rightarrow> nng_lib) \<Rightarrow> nat \<Rightarrow> tls_op \<Rightarrow> pyval list \<Rightarrow> ('a tworld_scheme, pyexc, unit) prog" where
  "apply_everywhere LL i opn args =
     bnd (getf (\<lambda>w. tls w i)) (\<lambda>c.
     bnd (lift (case cfg_ptr c of None \<Rightarrow> Inl TypeError | Some p \<Rightarrow> Inr p)) (\<lambda>p.
     andthen (apply_op (LL (cfg_lib c)) p opn args)
       (bnd (getf (\<lambda>w. alt_configs (tls w i))) (\<lambda>alts. for_each (apply_alt LL i opn args) alts))))"

definition set_server_name where
  "set_server_name LL i n =
     (if n = PNone then raise_exc ValueError else apply_everywhere LL i Op_server_name [n])"

definition set_ca_chain where
  "set_ca_chain LL i chain crl = apply_everywhere LL i Op_ca_chain [chain, crl]"

definition set_own_cert where
  "set_own_cert LL i cert key pw = apply_everywhere LL i Op_own_cert [cert, key, pw]"

definition set_auth_mode where
  "set_auth_mode LL i mode = apply_everywhere LL i Op_auth_mode [mode]"

definition add_ca_file where
  "add_ca_file LL i path = apply_everywhere LL i Op_ca_file [path]"

definition set_cert_key_file where
  "set_cert_key_file LL i path pw = apply_everywhere LL i Op_cert_key_file [path, pw]"

definition config_for :: "nat \<Rightarrow> nat \<Rightarrow> ('a tworld_scheme, pyexc, int) prog" where
  "config_for target i =
     bnd (getf (\<lambda>w. tls w i)) (\<lambda>c.
       if target = cfg_lib c then
         lift (case cfg_ptr c of None \<Rightarrow> Inl TypeError | Some p \<Rightarrow> Inr p)
       else case map_of (alt_configs c) target of
         None \<Rightarrow> raise_exc RuntimeError
       | Some entry \<Rightarrow> (case entry of Unavailable e d \<Rightarrow> raise_exc e | AltCfg p \<Rightarrow> ret p))"

section \<open>Construction and finalization\<close>

datatype ca_files = NoFiles | OneFile pyval | Files "pyval list"

record tls_args =
  a_mode :: pyval
  a_server_name :: pyval
  a_ca_string :: pyval
  a_own_key :: pyval
  a_own_cert :: pyval
  a_auth_mode :: pyval
  a_ca_files :: ca_files
  a_cert_key_file :: pyval
  a_passwd :: pyval

definition truthy :: "pyval \<Rightarrow> bool" where
  "truthy v = (case v of PNone \<Rightarrow> False | PInt n \<Rightarrow> n \<noteq> 0 | PBool b \<Rightarrow> b | PFloat m e \<Rightarrow> m \<noteq> 0
     | PStr s \<Rightarrow> s \<noteq> [] | PBytes s \<Rightarrow> s \<noteq> [] | _ \<Rightarrow> True)"

text \<open>An empty path string in \<open>ca_files\<close> counts as none before it is made a list of one.\<close>

definition has_files :: "ca_files \<Rightarrow> bool" where
  "has_files f = (case f of NoFiles \<Rightarrow> False | OneFile v \<Rightarrow> truthy v | Files vs \<Rightarrow> vs \<noteq> [])"

definition file_list :: "ca_files \<Rightarrow> pyval list" where
  "file_list f = (case f of NoFiles \<Rightarrow> [] | OneFile v \<Rightarrow> [v] | Files vs \<Rightarrow> vs)"

definition alloc_alt ::
  "(nat \<Rightarrow> nng_lib) \<Rightarrow> nat \<Rightarrow> nat \<Rightarrow> pyval \<Rightarrow> nat \<Rightarrow> ('a tworld_scheme, pyexc, unit) prog" where
  "alloc_alt LL i home mode l =
     bnd (lift (translate_constant mode MODE_NAMES (LL home) (LL l))) (\<lambda>m.
     bnd (ccall (LL l) (Fn ''nng_tls_config_alloc'' [COut, CPy m])) (\<lambda>r.
     if r_val r = err (LL l) ENOTSUP then
       try_except (check_err (LL l) (r_val r))
         (\<lambda>e. if is_nng NotSupported e
              then upd_tls i (alt_configs_update (AList.update l (Unavailable e None)))
              else raise_exc e)
     else andthen (check_err (LL l) (r_val r))
       (upd_tls i (alt_configs_update (AList.update l (AltCfg (r_out r)))))))"

definition tls_init ::
  "(nat \<Rightarrow> nng_lib) \<Rightarrow> nat \<Rightarrow> nat \<Rightarrow> tls_args \<Rightarrow> ('a tworld_scheme, pyexc, unit) prog" where
  "tls_init LL home i a =
     andthen (upd_tls i (\<lambda>_. \<lparr>cfg_lib = home, cfg_ptr = None, alt_configs = []\<rparr>)) (
     if truthy (a_ca_string a) \<and> has_files (a_ca_files a) then raise_exc ValueError
     else if (truthy (a_own_cert a) \<or> truthy (a_own_key a)) \<and> truthy (a_cert_key_file a)
       then raise_exc ValueError
     else if truthy (a_own_cert a) \<noteq> truthy (a_own_key a) then raise_exc ValueError
     else
       bnd (ccall (LL home) (Fn ''nng_tls_config_alloc'' [COut, CPy (a_mode a)])) (\<lambda>r.
       andthen (check_err (LL home) (r_val r)) (
       andthen (upd_tls i (cfg_ptr_update (\<lambda>_. Some (r_out r)))) (
       andthen (retain i) (
       bnd (getf (\<lambda>w. filter (\<lambda>l. l \<noteq> home) (libs w))) (\<lambda>others.
       andthen (for_each (alloc_alt LL i home (a_mode a)) others) (
       andthen (whenp (a_server_name a \<noteq> PNone) (set_server_name LL i (a_server_name a))) (
       andthen (whenp (truthy (a_ca_string a)) (set_ca_chain LL i (a_ca_string a) PNone)) (
       andthen (whenp (truthy (a_own_key a) \<and> truthy (a_own_cert a))
         (set_own_cert LL i (a_own_cert a) (a_own_key a) (a_passwd a))) (
       andthen (whenp (a_auth_mode a \<noteq> PNone) (set_auth_mode LL i (a_auth_mode a))) (
       andthen (for_each (add_ca_file LL i) (file_list (a_ca_files a))) (
       whenp (truthy (a_cert_key_file a))
         (set_cert_key_file LL i (a_cert_key_file a) (a_passwd a))))))))))))))"

definition new_tls :: "(nat \<Rightarrow> nng_lib) \<Rightarrow> nat \<Rightarrow> tls_args \<Rightarrow> ('a tworld_scheme, pyexc, nat) prog" where
  "new_tls LL home a = bnd (getf next_tls) (\<lambda>i.
     andthen (modf (next_tls_update Suc)) (andthen (tls_init LL home i a) (ret i)))"

text \<open>\<open>__del__\<close>: every configuration the object still owns is freed, the diverged ones too.\<close>

definition free_alt :: "(nat \<Rightarrow> nng_lib) \<Rightarrow> nat \<times> alt_config \<Rightarrow> ('a world_scheme, pyexc, unit) prog" where
  "free_alt LL le = (case le of (l, entry) \<Rightarrow>
     (case (case entry of Unavailable e d \<Rightarrow> d | AltCfg p \<Rightarrow> Some p) of
        None \<Rightarrow> ret ()
      | Some p \<Rightarrow> whenp (p \<noteq> 0) (bnd (ccall (LL l) (Fn ''nng_tls_config_free'' [CInt p])) (\<lambda>_. ret ()))))"

definition tls_del :: "(nat \<Rightarrow> nng_lib) \<Rightarrow> nat \<Rightarrow> ('a tworld_scheme, pyexc, unit) prog" where
  "tls_del LL i =
     try_except (bnd (getf is_nng_finalized) (\<lambda>fin.
       if fin then upd_tls i (\<lambda>c. c\<lparr>cfg_ptr := None, alt_configs := []\<rparr>)
       else
         bnd (getf (\<lambda>w. tls w i)) (\<lambda>c.
         andthen
           (case cfg_ptr c of
              None \<Rightarrow> ret ()
            | Some p \<Rightarrow> whenp (p \<noteq> 0)
                (andthen (upd_tls i (cfg_ptr_update (\<lambda>_. None)))
                  (bnd (ccall (LL (cfg_lib c)) (Fn ''nng_tls_config_free'' [CInt p])) (\<lambda>_. ret ()))))
           (andthen (for_each (free_alt LL) (alt_configs c))
             (upd_tls i (alt_configs_update (\<lambda>_. [])))))))
       (\<lambda>e. if e = TypeError \<or> e = AttributeError then ret () else raise_exc e)"

section \<open>The configurations of one object stay alike\<close>

text \<open>
  The reference: the settings a configuration was given, in order, by the successful calls on its
  pointer. An authentication mode counts by its name, since each library has its own constant.
\<close>

definition mode_name :: "nng_lib \<Rightarrow> pyval \<Rightarrow> string option" where
  "mode_name L v = find (\<lambda>n. int_value v = Inr (const L n)) AUTH_MODE_NAMES"

definition setting_of :: "nng_lib \<Rightarrow> int \<Rightarrow> ncall \<times> nres \<Rightarrow> (string \<times> carg list \<times> string option) list" where
  "setting_of L p cr = (case cr of (c, r) \<Rightarrow> (case c of
     Fn f xs \<Rightarrow>
       (case xs of
          CInt q # ys \<Rightarrow>
            (if q = p \<and> r_val r = 0 \<and> f \<in> range op_name then
               (case ys of [CPy v] \<Rightarrow> [(f, [], mode_name L v)] | _ \<Rightarrow> [(f, ys, None)])
             else [])
        | _ \<Rightarrow> [])
   | _ \<Rightarrow> []))"

definition settings :: "nng_lib \<Rightarrow> int \<Rightarrow> trace \<Rightarrow> (string \<times> carg list \<times> string option) list" where
  "settings L p tr = concat (map (setting_of L p) tr)"

lemma settings_snoc [simp]: "settings L p (tr @ [x]) = settings L p tr @ setting_of L p x"
  by (simp add: settings_def)

lemma settings_snoc2 [simp]:
  "settings L p (tr @ [x, y]) = settings L p tr @ setting_of L p x @ setting_of L p y"
  by (simp add: settings_def)

lemma settings_append: "settings L p (xs @ ys) = settings L p xs @ settings L p ys"
  by (simp add: settings_def)

definition alike :: "(nat \<Rightarrow> nng_lib) \<Rightarrow> nat \<Rightarrow> 'a tworld_scheme \<Rightarrow> bool" where
  "alike LL i w \<longleftrightarrow> (\<exists>p. cfg_ptr (tls w i) = Some p \<and>
     (\<forall>l q. map_of (alt_configs (tls w i)) l = Some (AltCfg q) \<longrightarrow> q \<noteq> p \<and>
        settings (LL l) q (calls w) = settings (LL (cfg_lib (tls w i))) p (calls w)))"

text \<open>
  What the code relies on: the calls on configurations raise no Python exception, each library's
  authentication constants differ, and nng refuses a mode that is none of them.
\<close>

definition tls_lib :: "nng_lib \<Rightarrow> bool" where
  "tls_lib L \<longleftrightarrow> (\<forall>tr c. r_exn (fn L tr c) = None) \<and> distinct (map (const L) AUTH_MODE_NAMES) \<and>
     (\<forall>tr p v. mode_name L v = None \<longrightarrow>
        r_val (fn L tr (Fn (op_name Op_auth_mode) [CInt p, CPy v])) \<noteq> 0)"

lemma translate_name:
  assumes "translate_constant v ns src dst = Inr v'" and "distinct (map (const dst) ns)"
  shows "find (\<lambda>n. int_value v' = Inr (const dst n)) ns = find (\<lambda>n. int_value v = Inr (const src n)) ns"
  using assms
proof (induction ns)
  case (Cons n ns)
  show ?case
  proof (cases "int_value v = Inr (const src n)")
    case True
    with Cons.prems show ?thesis by (auto simp: int_value_def)
  next
    case False
    with Cons.prems have t: "translate_constant v ns src dst = Inr v'" by simp
    then obtain m where "m \<in> set ns" "v' = PInt (const dst m)"
      by (induction ns) (auto split: if_splits)
    with Cons.prems(2) have "int_value v' \<noteq> Inr (const dst n)"
      by (auto simp: int_value_def) (metis image_eqI)
    with False Cons t show ?thesis by simp
  qed
qed simp

lemma translate_fails:
  "translate_constant v ns src dst = Inl e \<Longrightarrow> find (\<lambda>n. int_value v = Inr (const src n)) ns = None"
  by (induction ns) (auto split: if_splits)

lemma setting_of_Strerror [simp]: "setting_of L p (Strerror e, r) = []"
  by (simp add: setting_of_def)

lemma op_args_auth: "op_args Op_auth_mode args = Inr cs \<Longrightarrow> \<exists>m. args = [m] \<and> cs = [CPy m]"
  by (auto simp: op_args_def Let_def split: list.splits)

lemma to_char_no_CPy: "to_char b v = Inr c \<Longrightarrow> c \<noteq> CPy x"
  by (auto simp: to_char_def Let_def split: pyval.splits sum.splits if_splits)

lemma op_args_no_CPy: "op_args opn args = Inr cs \<Longrightarrow> opn \<noteq> Op_auth_mode \<Longrightarrow> cs \<noteq> [CPy x]"
  by (auto simp: op_args_def opt_char_def Let_def split: tls_op.splits list.splits sum.splits if_splits
      dest: to_char_no_CPy)

text \<open>What a successful operation records, and that a failed one records nothing.\<close>

lemma setting_of_other: "q \<noteq> p \<Longrightarrow> setting_of L p (Fn f (CInt q # xs), r) = []"
  by (simp add: setting_of_def)

lemma setting_of_failed: "r_val r \<noteq> 0 \<Longrightarrow> setting_of L p (Fn f xs, r) = []"
  by (auto simp: setting_of_def split: list.splits carg.splits)

lemma setting_of_op:
  assumes "op_args opn args = Inr cs" and "r_val r = 0"
  shows "setting_of L p (Fn (op_name opn) (CInt p # cs), r) =
    (if opn = Op_auth_mode then [(op_name opn, [], mode_name L (hd args))] else [(op_name opn, cs, None)])"
  using assms op_args_auth [of args cs] op_args_no_CPy [of opn args cs]
  by (auto simp: setting_of_def split: list.splits carg.splits)

lemma apply_op_settings:
  assumes "tls_lib L"
  shows "wp (apply_op L p opn args)
     (\<lambda>_ t. \<exists>cs r. op_args opn args = Inr cs \<and> r_val r = 0 \<and> (opn = Op_auth_mode \<longrightarrow> mode_name L (hd args) \<noteq> None) \<and>
        t = s\<lparr>calls := calls s @ [(Fn (op_name opn) (CInt p # cs), r)]\<rparr>)
     (\<lambda>_ t. \<exists>tr. t = s\<lparr>calls := calls s @ tr\<rparr> \<and> (\<forall>L q. settings L q tr = [])) s"
proof (cases "op_args opn args")
  case (Inl e)
  then show ?thesis by (auto simp: apply_op_def wp_simps settings_def intro!: exI [of _ "[]"])
next
  case (Inr cs)
  have rej: "r_val (fn L tr (Fn (op_name opn) (CInt p # cs))) \<noteq> 0"
    if "opn = Op_auth_mode" "mode_name L (hd args) = None" for tr
    using that assms op_args_auth [of args cs] Inr by (auto simp: tls_lib_def)
  have "r_exn (fn L tr c) = None" for tr c using assms by (simp add: tls_lib_def)
  then show ?thesis using Inr rej
    by (auto simp: apply_op_def wp_simps setting_of_failed settings_def)
      (auto intro!: exI [of _ "[a, b]" for a b] simp: setting_of_failed)
qed

text \<open>The second configuration after the primary one was changed.\<close>

lemma apply_alt_alike:
  assumes L: "\<And>l. tls_lib (LL l)" and p: "cfg_ptr (tls w i) = Some p"
    and a: "alt_configs (tls w i) = [(l, AltCfg q)]" and q: "q \<noteq> p"
    and eq: "settings (LL l) q (calls w) = settings (LL (cfg_lib (tls w i))) p (calls w)"
    and c: "op_args opn args = Inr cs" "r_val r = 0"
    and auth: "opn = Op_auth_mode \<longrightarrow> mode_name (LL (cfg_lib (tls w i))) (hd args) \<noteq> None"
  shows "wp (apply_alt LL i opn args (l, AltCfg q)) (\<lambda>_. alike LL i) (\<lambda>_. alike LL i)
    (w\<lparr>calls := calls w @ [(Fn (op_name opn) (CInt p # cs), r)]\<rparr>)"
    (is "wp _ _ _ ?w")
proof -
  let ?H = "cfg_lib (tls w i)"
  have alt: "wp (apply_op (LL l) q opn args') (\<lambda>_. alike LL i)
      (\<lambda>e. wp (upd_tls i (alt_configs_update (AList.update l (Unavailable RuntimeError (Some q)))))
           (\<lambda>_. alike LL i) (\<lambda>_. alike LL i)) ?w"
    if args': "\<And>ds. op_args opn args' = Inr ds \<Longrightarrow> opn \<noteq> Op_auth_mode \<Longrightarrow> ds = cs"
      "opn = Op_auth_mode \<Longrightarrow> mode_name (LL l) (hd args') = mode_name (LL ?H) (hd args)"
    for args'
    by (rule wp_mono [OF apply_op_settings [OF L]])
      (use args' c q in \<open>auto simp: alike_def upd_tls_def wp_simps p a eq setting_of_op setting_of_other q [symmetric]
        split: if_splits\<close>)
  show ?thesis
  proof (cases "opn = Op_auth_mode")
    case False
    with alt [of args] c show ?thesis by (simp add: apply_alt_def wp_simps)
  next
    case True
    then have "mode_name (LL ?H) (hd args) \<noteq> None" using auth by simp
    then obtain v where v: "translate_constant (hd args) AUTH_MODE_NAMES (LL ?H) (LL l) = Inr v"
      using translate_fails [of "hd args" AUTH_MODE_NAMES "LL ?H" "LL l"]
      by (cases "translate_constant (hd args) AUTH_MODE_NAMES (LL ?H) (LL l)") (auto simp: mode_name_def)
    have "distinct (map (const (LL l)) AUTH_MODE_NAMES)" using L by (simp add: tls_lib_def)
    with translate_name [OF v] have "mode_name (LL l) v = mode_name (LL ?H) (hd args)"
      by (simp add: mode_name_def)
    with alt [of "[v]"] True v show ?thesis by (simp add: apply_alt_def wp_simps)
  qed
qed

lemma apply_alts_alike:
  assumes L: "\<And>l. tls_lib (LL l)" and w: "alike LL i w" "length (alt_configs (tls w i)) \<le> 1"
    and p: "cfg_ptr (tls w i) = Some p" and c: "op_args opn args = Inr cs" "r_val r = 0"
    and auth: "opn = Op_auth_mode \<longrightarrow> mode_name (LL (cfg_lib (tls w i))) (hd args) \<noteq> None"
  shows "wp (for_each (apply_alt LL i opn args) (alt_configs (tls w i))) (\<lambda>_. alike LL i) (\<lambda>_. alike LL i)
    (w\<lparr>calls := calls w @ [(Fn (op_name opn) (CInt p # cs), r)]\<rparr>)"
proof (cases "alt_configs (tls w i)")
  case Nil
  with p show ?thesis by (simp add: wp_simps alike_def)
next
  case (Cons le rest)
  then have a: "alt_configs (tls w i) = [le]" using w(2) by simp
  obtain l x where le: "le = (l, x)" by (cases le)
  show ?thesis
  proof (cases x)
    case (AltCfg q)
    have e: "q \<noteq> p" "settings (LL l) q (calls w) = settings (LL (cfg_lib (tls w i))) p (calls w)"
      using w(1) a le p AltCfg by (auto simp: alike_def)
    show ?thesis
      using apply_alt_alike [where LL = LL and i = i and w = w and l = l, OF L p _ e c auth] a le AltCfg
      by (simp add: wp_simps)
  next
    case (Unavailable e d)
    with p a le show ?thesis by (simp add: wp_simps apply_alt_def alike_def)
  qed
qed

text \<open>C25. A \<open>TLSConfig\<close> never hands out configurations that differ. Let every configuration of
  an object that is still usable have been given the same settings as the primary one, on at most one other
  library. Then the same holds after any of the setters, whether it succeeds, fails in the primary
  library or fails in the other one: in the last case \<open>_config_for\<close> refuses that library from then on.\<close>

theorem tls_configs_alike:
  assumes "\<And>l. tls_lib (LL l)" and "alike LL i w" and "length (alt_configs (tls w i)) \<le> 1"
  shows "alike LL i (snd (apply_everywhere LL i opn args w))"
proof -
  obtain p where p: "cfg_ptr (tls w i) = Some p" using assms(2) by (auto simp: alike_def)
  have keep: "alike LL i (w\<lparr>calls := calls w @ tr\<rparr>)" if "\<forall>L q. settings L q tr = []" for tr
    using assms(2) that by (auto simp: alike_def settings_append)
  have "wp (apply_everywhere LL i opn args) (\<lambda>_. alike LL i) (\<lambda>_. alike LL i) w"
    unfolding apply_everywhere_def
    by (simp add: wp_simps p, rule wp_mono [OF apply_op_settings [OF assms(1)]])
      (auto simp: wp_simps keep intro!: apply_alts_alike [OF assms p])
  then show ?thesis by (rule wp_stateI)
qed

text \<open>A library with TLS that refuses unknown modes, and one that also refuses the CA of the example.\<close>

definition tls_demo :: "(ncall \<Rightarrow> bool) \<Rightarrow> nng_lib" where
  "tls_demo bad = demo_lib (\<lambda>tr c. case c of
     Fn f xs \<Rightarrow> (case xs of
         [CInt p, CPy v] \<Rightarrow> (if int_value v \<in> {Inr 0, Inr 1, Inr 2} then 0 else 3)
       | _ \<Rightarrow> (if bad c then 3 else 0))
   | _ \<Rightarrow> 0) (\<lambda>_ _. None) (\<lambda>_ _. [])"

lemma tls_lib_demo: "tls_lib (tls_demo bad)"
  by (auto simp: tls_lib_def tls_demo_def demo_lib_def AUTH_MODE_NAMES_def nng_const_def mode_name_def)

definition tworld0 :: tworld where
  "tworld0 = world.extend world0
     \<lparr>tls = (\<lambda>_. \<lparr>cfg_lib = 0, cfg_ptr = Some 5, alt_configs = [(1, AltCfg 6)]\<rparr>), next_tls = 1,
      libs = [0, 1], retained = [], pointer_refs = (\<lambda>_. [])\<rparr>"

theorem tls_configs_alike_witness:
  "let LL = (\<lambda>l. tls_demo (\<lambda>c. l = 1));
       t = snd (apply_everywhere LL 0 Op_ca_file [PStr [97]] tworld0)
   in alike LL 0 t \<and> fst (config_for 1 0 t) = Inl RuntimeError \<and> fst (config_for 0 0 t) = Inr 5"
  using tls_configs_alike [of "\<lambda>l. tls_demo (\<lambda>c. l = 1)" 0 tworld0 Op_ca_file "[PStr [97]]"]
  by (simp add: tls_lib_demo) (simp add: Let_def alike_def tworld0_def world.defs settings_def world0_def
      apply_everywhere_def apply_op_def apply_alt_def config_for_def prog_defs lift_def ccall_def
      op_args_def to_char_def utf8_encode_def scalar_def utf8_enc1_def check_err_def tls_demo_def demo_lib_def
      upd_tls_def)

end
