(* ===== verification/SyncIO.thy ===== *)
theory SyncIO
  imports Message Options
begin

text \<open>
  Synchronous sending and receiving of \<^verbatim>\<open>_base.py\<close>: the sliced receive, the message
  methods of sockets and contexts and the methods built on them. The wait loop of a receive may run
  for ever, so it runs on fuel \<open>n\<close>, the number of slices; the result \<open>None\<close> is a
  program still in its loop, with nothing after the loop executed.

  The lemmas show that every method is memory safe whatever nng returns and wherever an exception
  (such as a \<open>KeyboardInterrupt\<close>) is raised as a call returns.
\<close>

section \<open>The sliced receive\<close>

text \<open>\<open>try_finally\<close> for a program that may still be running: only a finished one is finalized.\<close>

definition finally_some ::
  "('s, 'e, 'a option) prog \<Rightarrow> ('s, 'e, unit) prog \<Rightarrow> ('s, 'e, 'a option) prog" where
  [prog_defs]: "finally_some m f s =
     (case m s of (r, t) \<Rightarrow>
        if r = Inr None then (r, t)
        else (case f t of (Inl e, u) \<Rightarrow> (Inl e, u) | (Inr _, u) \<Rightarrow> (r, u)))"

lemma wp_finally_some [wp_simps]:
  "wp (finally_some m f) Q E =
     wp m (\<lambda>x. case x of None \<Rightarrow> Q None | Some y \<Rightarrow> wp f (\<lambda>_. Q x) E) (\<lambda>e. wp f (\<lambda>_. E e) E)"
  by (auto simp: wp_def finally_some_def fun_eq_iff split: prod.split sum.split option.split)

text \<open>Go on with the result of a program that may still be running.\<close>

definition bnd_some ::
  "('s, 'e, 'a option) prog \<Rightarrow> ('a \<Rightarrow> ('s, 'e, 'b option) prog) \<Rightarrow> ('s, 'e, 'b option) prog" where
  [prog_defs]: "bnd_some m f = bnd m (\<lambda>x. case x of None \<Rightarrow> ret None | Some y \<Rightarrow> f y)"

lemma wp_bnd_some [wp_simps]:
  "wp (bnd_some m f) Q E = wp m (\<lambda>x. case x of None \<Rightarrow> Q None | Some y \<Rightarrow> wp (f y) Q E) E"
proof -
  have "(\<lambda>x. wp (case x of None \<Rightarrow> ret None | Some y \<Rightarrow> f y) Q E) =
      (\<lambda>x. case x of None \<Rightarrow> Q None | Some y \<Rightarrow> wp (f y) Q E)"
    by (auto simp: fun_eq_iff wp_ret split: option.split)
  then show ?thesis by (simp add: bnd_some_def wp_bnd)
qed

text \<open>Take the result of the first program, or else run the second.\<close>

definition or_else :: "('s, 'e, 'a option) prog \<Rightarrow> ('s, 'e, 'a option) prog \<Rightarrow> ('s, 'e, 'a option) prog" where
  [prog_defs]: "or_else m f = bnd m (\<lambda>x. case x of Some y \<Rightarrow> ret (Some y) | None \<Rightarrow> f)"

lemma wp_or_else [wp_simps]:
  "wp (or_else m f) Q E = wp m (\<lambda>x. case x of Some y \<Rightarrow> Q (Some y) | None \<Rightarrow> wp f Q E) E"
proof -
  have "(\<lambda>x. wp (case x of Some y \<Rightarrow> ret (Some y) | None \<Rightarrow> f) Q E) =
      (\<lambda>x. case x of Some y \<Rightarrow> Q (Some y) | None \<Rightarrow> wp f Q E)"
    by (auto simp: fun_eq_iff wp_ret split: option.split)
  then show ?thesis by (simp add: or_else_def wp_bnd)
qed

definition RECV_SLICE_MS :: int where "RECV_SLICE_MS = 100"

fun wait_loop :: "nng_lib \<Rightarrow> int \<Rightarrow> int \<Rightarrow> nat \<Rightarrow> ('a world_scheme, pyexc, bool) prog" where
  "wait_loop L recv slice_ms 0 = ret False"
| "wait_loop L recv slice_ms (Suc n) =
     bnd (ccall L (A (Sync_recv_wait recv slice_ms)))
       (\<lambda>r. if r_val r \<noteq> 0 then ret True else wait_loop L recv slice_ms n)"

text \<open>The nonblocking receive functions, and one attempt with them.\<close>

datatype nb_fn = Nng_recvmsg | Nng_ctx_recvmsg

definition nb_call :: "nb_fn \<Rightarrow> int \<Rightarrow> int \<Rightarrow> ncall" where
  "nb_call f target flags = (case f of
     Nng_recvmsg \<Rightarrow> M (Recvmsg target flags) | Nng_ctx_recvmsg \<Rightarrow> M (Ctx_recvmsg target flags))"

definition nb_attempt :: "nng_lib \<Rightarrow> nb_fn \<Rightarrow> int \<Rightarrow> ('a world_scheme, pyexc, int option) prog" where
  "nb_attempt L f target =
     bnd (ccall L (nb_call f target (flag_nonblock L))) (\<lambda>r.
       if r_val r = 0 then ret (Some (r_out r))
       else andthen (whenp (r_val r \<noteq> err L EAGAIN) (check_err L (r_val r))) (ret None))"

text \<open>What runs when the wait is interrupted: the receive is cancelled and its message freed.\<close>

definition abandon_recv :: "nng_lib \<Rightarrow> int \<Rightarrow> ('a world_scheme, pyexc, unit) prog" where
  "abandon_recv L aio =
     bnd (ccall L (A (Aio_cancel aio))) (\<lambda>_.
     bnd (ccall L (A (Aio_wait aio))) (\<lambda>_.
     bnd (ccall L (A (Aio_result aio))) (\<lambda>r.
     whenp (r_val r = 0)
       (bnd (ccall L (A (Aio_get_msg aio))) (\<lambda>m.
        bnd (ccall L (M (Msg_free (r_out m)))) (\<lambda>_.
        bnd (ccall L (A (Aio_set_msg aio 0))) (\<lambda>_. ret ())))))))"

text \<open>The end of the wait: the result, then the message.\<close>

definition finish_recv :: "nng_lib \<Rightarrow> int \<Rightarrow> ('a world_scheme, pyexc, int option) prog" where
  "finish_recv L aio =
     bnd (ccall L (A (Aio_result aio))) (\<lambda>r.
     andthen (check_err L (r_val r)) (
     bnd (ccall L (A (Aio_get_msg aio))) (\<lambda>m.
     bnd (ccall L (A (Aio_set_msg aio 0))) (\<lambda>_. ret (Some (r_out m))))))"

definition aio_recv_slices ::
  "nng_lib \<Rightarrow> nat \<Rightarrow> recv_fn \<Rightarrow> int \<Rightarrow> int \<Rightarrow> int \<Rightarrow> int \<Rightarrow> ('a world_scheme, pyexc, int option) prog" where
  "aio_recv_slices L n rf target timeout slice_ms recv =
     bnd (ccall L (A (Sync_recv_aio recv))) (\<lambda>a. let aio = r_out a in
     bnd (ccall L (A (Aio_set_timeout aio timeout))) (\<lambda>_.
     bnd (ccall L (A (Aio_recv rf target aio))) (\<lambda>_.
     bnd (try_except (wait_loop L recv slice_ms n)
           (\<lambda>e. andthen (abandon_recv L aio) (raise_exc e))) (\<lambda>finished.
     if finished then finish_recv L aio else ret None))))"

definition aio_recv_path ::
  "nng_lib \<Rightarrow> nat \<Rightarrow> recv_fn \<Rightarrow> int \<Rightarrow> int \<Rightarrow> int \<Rightarrow> ('a world_scheme, pyexc, int option) prog" where
  "aio_recv_path L n rf target timeout slice_ms =
     bnd (ccall L (A Sync_recv_alloc)) (\<lambda>r.
     andthen (check_err L (r_val r)) (
     finally_some (aio_recv_slices L n rf target timeout slice_ms (r_out r))
       (bnd (ccall L (A (Sync_recv_free (r_out r)))) (\<lambda>_. ret ()))))"

text \<open>\<open>_sliced_aio_recv\<close>; \<open>_yield_cpu\<close> between the attempts changes no state.\<close>

definition sliced_aio_recv ::
  "nng_lib \<Rightarrow> nat \<Rightarrow> recv_fn \<Rightarrow> int \<Rightarrow> int option \<Rightarrow> int \<Rightarrow> nb_fn option
     \<Rightarrow> ('a world_scheme, pyexc, int option) prog" where
  "sliced_aio_recv L n rf target timeout_ms slice_ms nonblock_recv_fn =
     (let timeout = (case timeout_ms of None \<Rightarrow> - 1 | Some t \<Rightarrow> if t < 0 then - 1 else t)
      in case nonblock_recv_fn of
        None \<Rightarrow> aio_recv_path L n rf target timeout slice_ms
      | Some f \<Rightarrow>
          or_else (nb_attempt L f target)
            (andthen (whenp (timeout = 0) (check_err L (err L ETIMEDOUT)))
              (or_else (nb_attempt L f target) (aio_recv_path L n rf target timeout slice_ms))))"

section \<open>Safety of receiving\<close>

lemma calm_call:
  assumes "calm w t" and "neutral c" and "uses c = None"
  shows "calm w (t\<lparr>calls := calls t @ [(c, r)]\<rparr>)"
proof (rule quiet_calm [OF assms(1)])
  show "quiet t (t\<lparr>calls := calls t @ [(c, r)]\<rparr>)"
    by (rule quiet_call [OF calm_inv [OF assms(1)] assms(2)]) (simp add: safe_call_def assms(3))
qed

lemma wp_calm_call:
  assumes "calm w t" and "neutral c" and "uses c = None"
    and "\<And>r u. calm w u \<Longrightarrow> Q r u" and "\<And>e u. calm w u \<Longrightarrow> E e u"
  shows "wp (ccall L c) Q E t"
  by (rule wp_quiet [OF calm_inv [OF assms(1)] assms(2)])
    (use assms quiet_calm [OF assms(1)] in \<open>auto simp: safe_call_def\<close>)

lemma wp_calm_check_err:
  assumes "calm w t" and "n = 0 \<Longrightarrow> Q () t" and "\<And>e u. calm w u \<Longrightarrow> E e u"
  shows "wp (check_err L n) Q E t"
  using assms by (auto simp: wp_check_err simp del: wp_ccall intro!: wp_calm_call [where w = w])

text \<open>The same when only the invariant is of interest.\<close>

lemma wp_inv_call:
  assumes "msgs_inv t" and "neutral c" and "uses c = None"
    and "\<And>r u. msgs_inv u \<Longrightarrow> Q r u" and "\<And>e u. msgs_inv u \<Longrightarrow> E e u"
  shows "wp (ccall L c) Q E t"
  by (rule wp_calm_call [OF calm_refl [OF assms(1)] assms(2,3)])
    (auto intro: assms(4,5) calm_inv)

lemma wp_inv_check_err:
  assumes "msgs_inv t" and "n = 0 \<Longrightarrow> Q () t" and "\<And>e u. msgs_inv u \<Longrightarrow> E e u"
  shows "wp (check_err L n) Q E t"
  using assms by (auto simp: wp_check_err simp del: wp_ccall intro!: wp_inv_call)

text \<open>A receive is running on the aio.\<close>

definition receiving :: "'a mworld_scheme \<Rightarrow> int \<Rightarrow> 'a mworld_scheme \<Rightarrow> bool" where
  "receiving w a t \<longleftrightarrow> calm w t \<and> pend (led (calls t)) a = ARecv"

lemma receiving_calm: "receiving w a t \<Longrightarrow> calm w t"
  by (simp add: receiving_def)

definition keeps_recv :: "int \<Rightarrow> ncall \<Rightarrow> bool" where
  "keeps_recv a c \<longleftrightarrow> uses c = None \<and> neutral c \<and>
     (\<forall>g r. pend g a = ARecv \<longrightarrow> pend (led_step g (c, r)) a = ARecv)"

lemma keeps_recv_simps [simp]:
  "keeps_recv a (A (Sync_recv_wait v s))" "keeps_recv a (A (Aio_cancel b))"
  "keeps_recv a (A (Aio_wait b))" "keeps_recv a (A (Aio_result b))" "keeps_recv a (Strerror e)"
  "keeps_recv a (A (Await_shield b))" "keeps_recv a (A (Aio_set_timeout b k))"
  "keeps_recv a (Fn fname args)"
  by (auto simp: keeps_recv_def led_aio_def after_wait_def split: aiost.split)

lemma wp_receiving_call:
  assumes "receiving w a t" and "keeps_recv a c"
    and "\<And>r u. receiving w a u \<Longrightarrow> Q r u" and "\<And>e u. receiving w a u \<Longrightarrow> E e u"
  shows "wp (ccall L c) Q E t"
proof -
  have "calm w (t\<lparr>calls := calls t @ [(c, r)]\<rparr>)" for r
    using assms(1,2) by (intro calm_call) (simp_all add: receiving_def keeps_recv_def)
  then have "receiving w a (t\<lparr>calls := calls t @ [(c, r)]\<rparr>)" for r
    using assms(1,2) by (simp add: receiving_def keeps_recv_def)
  with assms(3,4) show ?thesis by (simp add: wp_ccall)
qed

lemma wp_start_recv:
  assumes "calm w t" and "\<And>r u. receiving w a u \<Longrightarrow> Q r u" and "\<And>e u. receiving w a u \<Longrightarrow> E e u"
  shows "wp (ccall L (A (Aio_recv rf target a))) Q E t"
proof -
  have "calm w (t\<lparr>calls := calls t @ [(A (Aio_recv rf target a), r)]\<rparr>)" for r
    using assms(1) by (intro calm_call) simp_all
  then have "receiving w a (t\<lparr>calls := calls t @ [(A (Aio_recv rf target a), r)]\<rparr>)" for r
    by (simp add: receiving_def led_aio_def)
  with assms(2,3) show ?thesis by (simp add: wp_ccall)
qed

lemma wp_wait_loop:
  assumes "receiving w a t"
  shows "wp (wait_loop L v s n) (\<lambda>_. receiving w a) (\<lambda>_. receiving w a) t"
  using assms
proof (induction n arbitrary: t)
  case (Suc n)
  then show ?case
    by (auto simp: wp_simps simp del: wp_ccall intro!: wp_receiving_call [where w = w and a = a])
qed (simp add: wp_simps)

text \<open>
  What nng promises of a finished receive: result 0 comes with a message.
\<close>

definition recv_lib :: "nng_lib \<Rightarrow> bool" where
  "recv_lib L \<longleftrightarrow> (\<forall>tr a r. pend (led tr) a = ARecv \<longrightarrow> r_val r = 0 \<longrightarrow>
     r_out (fn L (tr @ [(A (Aio_result a), r)]) (A (Aio_get_msg a))) \<noteq> 0)"

text \<open>The result of a finished receive, and its message when the result is 0.\<close>

definition recv_done :: "'a mworld_scheme \<Rightarrow> int \<Rightarrow> 'a mworld_scheme \<Rightarrow> bool" where
  "recv_done w a t \<longleftrightarrow> receiving w a t \<and>
     (\<exists>tr r. calls t = tr @ [(A (Aio_result a), r)] \<and> pend (led tr) a = ARecv \<and> r_val r = 0)"

lemma wp_recv_result:
  assumes "receiving w a t"
    and "\<And>r u. receiving w a u \<Longrightarrow> (r_val r = 0 \<Longrightarrow> recv_done w a u) \<Longrightarrow> Q r u"
    and "\<And>e u. receiving w a u \<Longrightarrow> E e u"
  shows "wp (ccall L (A (Aio_result a))) Q E t"
proof -
  let ?c = "A (Aio_result a)"
  have r: "receiving w a (t\<lparr>calls := calls t @ [(?c, r)]\<rparr>)" for r
    using assms(1) calm_call [of w t ?c r] by (simp add: receiving_def led_aio_def)
  have "pend (led (calls t)) a = ARecv" using assms(1) by (simp add: receiving_def)
  with r assms(2,3) show ?thesis by (auto simp: wp_ccall recv_done_def)
qed

lemma wp_recv_msg:
  assumes "fresh_lib L" and "recv_lib L" and "recv_done w a t"
    and "\<And>r u. in_hand w (r_out r) u \<Longrightarrow> Q r u" and "\<And>e u. calm w u \<Longrightarrow> E e u"
  shows "wp (ccall L (A (Aio_get_msg a))) Q E t"
proof -
  let ?r = "fn L (calls t) (A (Aio_get_msg a))"
  let ?u = "t\<lparr>calls := calls t @ [(A (Aio_get_msg a), ?r)]\<rparr>"
  have c: "calm w t" "pend (led (calls t)) a = ARecv" "r_out ?r \<noteq> 0"
    using assms(2,3) by (auto simp: recv_done_def receiving_def recv_lib_def)
  have "claims ?u (r_out ?r)"
    by (rule msgs_inv_handed_out [OF assms(1) calm_inv [OF c(1)]])
      (use c in \<open>auto simp: hands_out_def safe_call_def led_aio_def\<close>)
  then have "in_hand w (r_out ?r) ?u" using c(1) by (simp add: in_hand_def calm_def)
  then show ?thesis using assms(4) assms(5) [OF in_hand_calm] by (simp add: wp_ccall)
qed

lemmas recv_rules = wp_start_recv wp_recv_result wp_receiving_call

lemma wp_free_calm:
  assumes "in_hand w p t" and "\<And>r u. calm w u \<Longrightarrow> Q r u" and "\<And>e u. calm w u \<Longrightarrow> E e u"
  shows "wp (ccall L (M (Msg_free p))) Q E t"
proof -
  have c: "claims t p" "msgs t = msgs w" "next_msg t = next_msg w"
    using assms(1) by (simp_all add: in_hand_def)
  have "msgs_inv (t\<lparr>calls := calls t @ [(M (Msg_free p), r)]\<rparr>)" for r
    using c(1) by (intro msgs_inv_call)
      (auto simp: claims_def safe_call_def uses_msg_def led_msg_def)
  then have "calm w (t\<lparr>calls := calls t @ [(M (Msg_free p), r)]\<rparr>)" for r
    using c by (simp add: calm_def)
  with assms(2,3) show ?thesis by (simp add: wp_ccall)
qed

lemma wp_abandon_recv:
  assumes "fresh_lib L" and "recv_lib L" and "receiving w a t"
  shows "wp (abandon_recv L a) (\<lambda>_. calm w) (\<lambda>_. calm w) t"
proof -
  have tail: "wp (ccall L (M (Msg_free p)))
      (\<lambda>_. wp (ccall L (A (Aio_set_msg a 0))) (\<lambda>_. calm w) (\<lambda>_. calm w)) (\<lambda>_. calm w) u"
    if "in_hand w p u" for p u
    using that by (auto intro!: wp_free_calm [where w = w] wp_calm_call [where w = w])
  show ?thesis
    unfolding abandon_recv_def using assms(3)
    by (auto simp: wp_simps simp del: wp_ccall
        intro!: wp_receiving_call [where w = w and a = a] wp_recv_result [where w = w]
          wp_recv_msg [OF assms(1,2), where w = w] tail)
      (erule receiving_calm)+
qed

text \<open>The result of a receive: a message in hand, or none yet.\<close>

fun got :: "'a mworld_scheme \<Rightarrow> int option \<Rightarrow> 'a mworld_scheme \<Rightarrow> bool" where
  "got w None u = calm w u"
| "got w (Some p) u = in_hand w p u"

lemma wp_finish_recv:
  assumes "fresh_lib L" and "recv_lib L" and "receiving w a t"
  shows "wp (finish_recv L a) (got w) (\<lambda>_. calm w) t"
  unfolding finish_recv_def wp_bnd wp_andthen wp_ret
  by (rule wp_recv_result [OF assms(3)])
    (auto intro!: wp_calm_check_err [where w = w] wp_recv_msg [OF assms(1,2), where w = w and a = a]
      wp_in_hand_call [where ?w0.0 = w] intro: receiving_calm in_hand_calm)

lemma wp_aio_recv_slices:
  assumes "fresh_lib L" and "recv_lib L" and "calm w t"
  shows "wp (aio_recv_slices L n rf target timeout sl recv)
     (got w) (\<lambda>_. calm w) t"
proof -
  have loop: "wp (wait_loop L recv sl n)
     (\<lambda>x. wp (if x then finish_recv L a else ret None)
        (got w) (\<lambda>_. calm w))
     (\<lambda>e. wp (abandon_recv L a) (\<lambda>_. calm w) (\<lambda>_. calm w)) u" if "receiving w a u" for a u
    by (rule wp_mono [OF wp_wait_loop [OF that]])
      (auto simp: wp_ret intro: receiving_calm wp_finish_recv [OF assms(1,2)]
        wp_abandon_recv [OF assms(1,2)])
  show ?thesis
    unfolding aio_recv_slices_def Let_def wp_bnd wp_except wp_andthen wp_raise
    using assms(3) by (auto intro!: wp_calm_call [where w = w] wp_start_recv [where w = w] loop)
      (erule receiving_calm)
qed

text \<open>A sliced receive yields a message nobody else holds, and otherwise leaves the objects as they are.\<close>

lemma wp_aio_recv_path:
  assumes "fresh_lib L" and "recv_lib L" and "calm w t"
  shows "wp (aio_recv_path L n rf target timeout sl)
     (got w) (\<lambda>_. calm w) t"
proof -
  have slices: "wp (finally_some (aio_recv_slices L n rf target timeout sl recv)
       (bnd (ccall L (A (Sync_recv_free recv))) (\<lambda>_. ret ())))
     (got w) (\<lambda>_. calm w) u"
    if "calm w u" for recv u
  proof -
    have hand: "wp (ccall L (A (Sync_recv_free recv))) (\<lambda>_. in_hand w p) (\<lambda>_. calm w) v"
      if "in_hand w p v" for p v
      by (rule wp_in_hand_call [OF that]) (auto intro: in_hand_calm)
    have calm: "wp (ccall L (A (Sync_recv_free recv))) (\<lambda>_. calm w) (\<lambda>_. calm w) v"
      if "calm w v" for v by (rule wp_calm_call [OF that]) auto
    show ?thesis
      unfolding wp_finally_some
      by (rule wp_mono [OF wp_aio_recv_slices [OF assms(1,2) that]])
        (auto simp: wp_bnd wp_ret hand calm split: option.splits)
  qed
  show ?thesis
    unfolding aio_recv_path_def wp_bnd wp_andthen using assms(3)
    by (auto intro!: wp_calm_call [where w = w] wp_calm_check_err [where w = w] slices)
qed

lemma wp_nb_attempt:
  assumes "fresh_lib L" and "msgs_inv w"
  shows "wp (nb_attempt L f target)
     (got w) (\<lambda>_. calm w) w"
proof -
  have c: "nb_call f target flags = M (Recvmsg target flags) \<or>
      nb_call f target flags = M (Ctx_recvmsg target flags)" for flags
    by (cases f) (simp_all add: nb_call_def)
  show ?thesis
    unfolding nb_attempt_def wp_bnd
    by (rule wp_hand_out [OF assms, where sk = target and f = "flag_nonblock L"])
      (use c in \<open>auto simp: wp_simps simp del: wp_ccall wp_check_err
        intro!: wp_calm_check_err [where w = w] intro: quiet_calm [OF calm_refl [OF assms(2)]]\<close>)
qed

section \<open>Receiving messages\<close>

text \<open>
  What the methods read of a socket or context: its handle, its receive function, whether a
  nonblocking receive is tried first, the objects whose \<open>recv-timeout\<close> is read, and the pipe
  table, as the map from pipe ids to the handles of the pipe objects it has.
\<close>

record endpoint =
  ep_handle :: int
  ep_recv :: recv_fn
  ep_nonblock_first :: bool
  ep_obj :: pyobj
  ep_pipes :: "int \<Rightarrow> int option"

definition try_associate_msg_with_pipe ::
  "nng_lib \<Rightarrow> endpoint \<Rightarrow> nat \<Rightarrow> ('a mworld_scheme, pyexc, unit) prog" where
  "try_associate_msg_with_pipe L ep i =
     bnd (msg_ptr i) (\<lambda>p.
     bnd (ccall L (M (Msg_get_pipe p))) (\<lambda>lib_pipe.
     bnd (ccall L (S (Pipe_id (r_out lib_pipe)))) (\<lambda>pid.
     case ep_pipes ep (r_val pid) of
       Some h \<Rightarrow> msg_set_pipe L i (APipe h)
     | None \<Rightarrow> whenp (0 \<le> r_val pid) (msg_set_pipe L i (APipe (r_out lib_pipe))))))"

text \<open>The message object of a received pointer, associated with its pipe.\<close>

definition wrap_received ::
  "nng_lib \<Rightarrow> endpoint \<Rightarrow> int \<Rightarrow> ('a mworld_scheme, pyexc, nat option) prog" where
  "wrap_received L ep p =
     bnd (mk_message L (FromPtr p) NoPipe) (\<lambda>i.
     andthen (try_associate_msg_with_pipe L ep i) (ret (Some i)))"

definition recv_timeout :: "nng_lib \<Rightarrow> endpoint \<Rightarrow> ('a world_scheme, pyexc, int option) prog" where
  "recv_timeout L1 ep =
     bnd (getopt_ms L1 (ep_obj ep) (PBytes (map of_char ''recv-timeout'')))
       (\<lambda>v. ret (case v of PInt n \<Rightarrow> Some n | _ \<Rightarrow> None))"

definition socket_recv_msg ::
  "nng_lib \<Rightarrow> nng_lib \<Rightarrow> nat \<Rightarrow> endpoint \<Rightarrow> bool \<Rightarrow> ('a mworld_scheme, pyexc, nat option) prog" where
  "socket_recv_msg L1 L n ep block =
     andthen check_fork (
     bnd_some
       (if \<not> block then
          bnd (ccall L (M (Recvmsg (ep_handle ep) (flag_nonblock L)))) (\<lambda>r.
          andthen (check_err L (r_val r)) (ret (Some (r_out r))))
        else
          bnd (recv_timeout L1 ep) (\<lambda>timeout.
          sliced_aio_recv L n (ep_recv ep) (ep_handle ep) timeout RECV_SLICE_MS
            (if ep_nonblock_first ep then Some Nng_recvmsg else None)))
       (wrap_received L ep))"

definition timeout_to_try_again :: "nng_lib \<Rightarrow> bool \<Rightarrow> pyexc \<Rightarrow> ('s, pyexc, 'b) prog" where
  "timeout_to_try_again L block e =
     (if is_nng Timeout e \<and> \<not> block
      then raise_exc (NNGErr TryAgain ''No message available immediately on context'' (err L EAGAIN))
      else raise_exc e)"

definition context_recv_msg ::
  "nng_lib \<Rightarrow> nng_lib \<Rightarrow> nat \<Rightarrow> endpoint \<Rightarrow> bool \<Rightarrow> ('a mworld_scheme, pyexc, nat option) prog" where
  "context_recv_msg L1 L n ep block =
     andthen check_fork (
     bnd (if block then recv_timeout L1 ep else ret (Some 0)) (\<lambda>timeout.
     bnd_some
       (try_except
         (sliced_aio_recv L n Nng_ctx_recv (ep_handle ep) timeout RECV_SLICE_MS
            (if ep_nonblock_first ep then Some Nng_ctx_recvmsg else None))
         (timeout_to_try_again L block))
       (wrap_received L ep)))"

text \<open>\<open>recv\<close> of both: the bytes of a received message.\<close>

definition recv_with ::
  "nng_lib \<Rightarrow> ('a mworld_scheme, pyexc, nat option) prog \<Rightarrow> ('a mworld_scheme, pyexc, byte list option) prog"
where
  "recv_with L m = bnd_some m (\<lambda>i. bnd (msg_bytes L i) (\<lambda>b. ret (Some b)))"

text \<open>
  \<open>recv_into\<close> of both: the number of bytes written and the new contents of the buffer. The
  number of bytes is bounded by the number of items of the buffer.
\<close>

definition recv_into ::
  "nng_lib \<Rightarrow> ('a mworld_scheme, pyexc, nat option) prog \<Rightarrow> bool \<Rightarrow> buffer
     \<Rightarrow> ('a mworld_scheme, pyexc, (nat \<times> byte list) option) prog" where
  "recv_into L m readonly buf =
     (if readonly then raise_exc BufferError
      else bnd_some m (\<lambda>i.
        bnd (msg_ptr i) (\<lambda>p.
        bnd (ccall L (M (Msg_body p))) (\<lambda>b.
        bnd (ccall L (M (Msg_len p))) (\<lambda>l.
        let nbytes = min (buf_len buf) (nat (r_val l))
        in ret (Some (nbytes, take nbytes (r_bytes b) @ drop nbytes (raw buf))))))))"

section \<open>Sending messages\<close>

definition send_flags :: "nng_lib \<Rightarrow> bool \<Rightarrow> int" where
  "send_flags L block = (if block then 0 else flag_nonblock L)"

definition socket_send_msg ::
  "nng_lib \<Rightarrow> int \<Rightarrow> nat \<Rightarrow> bool \<Rightarrow> ('a mworld_scheme, pyexc, unit) prog" where
  "socket_send_msg L sock i block =
     andthen (ensure_can_send i) (
     andthen (upd_msg i (mem_freed_update (\<lambda>_. True))) (
     bnd (msg_ptr i) (\<lambda>p.
     bnd (ccall L (M (Sendmsg sock p (send_flags L block)))) (\<lambda>r.
     whenp (r_val r \<noteq> 0)
       (andthen (upd_msg i (mem_freed_update (\<lambda>_. False))) (check_err L (r_val r)))))))"

text \<open>The \<open>finally\<close> clause of \<open>Context.send_msg\<close>: the object takes its message back if the aio still has it.\<close>

definition ctx_cleanup :: "nng_lib \<Rightarrow> nat \<Rightarrow> int \<Rightarrow> bool \<Rightarrow> ('a mworld_scheme, pyexc, unit) prog" where
  "ctx_cleanup L i aio started =
     andthen (whenp started
       (bnd (ccall L (A (Aio_cancel aio))) (\<lambda>_. bnd (ccall L (A (Aio_wait aio))) (\<lambda>_. ret ()))))
     (bnd (ccall L (A (Aio_get_msg aio))) (\<lambda>m.
      andthen (whenp (r_out m \<noteq> 0)
        (bnd (ccall L (A (Aio_set_msg aio 0))) (\<lambda>_. upd_msg i (mem_freed_update (\<lambda>_. False)))))
      (bnd (ccall L (A (Aio_free aio))) (\<lambda>_. ret ()))))"

definition context_send_msg ::
  "nng_lib \<Rightarrow> int \<Rightarrow> nat \<Rightarrow> bool \<Rightarrow> ('a mworld_scheme, pyexc, unit) prog" where
  "context_send_msg L ctx i block =
     andthen (ensure_can_send i) (
     bnd (ccall L (A (Aio_alloc 0))) (\<lambda>al.
     andthen (check_err L (r_val al)) (
     let aio = r_out al in
     andthen (upd_msg i (mem_freed_update (\<lambda>_. True))) (
     andthen
       (try_except
         (bnd (msg_ptr i) (\<lambda>p.
          bnd (ccall L (A (Aio_set_msg aio p))) (\<lambda>_.
          whenp (\<not> block) (bnd (ccall L (A (Aio_set_timeout aio 0))) (\<lambda>_. ret ())))))
         (\<lambda>e. andthen (ctx_cleanup L i aio False) (raise_exc e)))
       (try_finally
         (bnd (ccall L (A (Aio_send Nng_ctx_send ctx aio))) (\<lambda>_.
          bnd (ccall L (A (Aio_wait aio))) (\<lambda>_.
          bnd (ccall L (A (Aio_result aio))) (\<lambda>res.
          whenp (r_val res \<noteq> 0)
            (if \<not> block \<and> r_val res = err L ETIMEDOUT
             then raise_exc (NNGErr TryAgain ''Context send buffer full'' (err L EAGAIN))
             else check_err L (r_val res))))))
         (ctx_cleanup L i aio True))))))"

definition context_send ::
  "nng_lib \<Rightarrow> int \<Rightarrow> py_data \<Rightarrow> bool \<Rightarrow> ('a mworld_scheme, pyexc, unit) prog" where
  "context_send L ctx d block =
     andthen (ensure_can_send_data d)
       (bnd (mk_message L (FromData d) NoPipe) (\<lambda>i. context_send_msg L ctx i block))"

text \<open>\<open>Socket.send\<close>: nng copies the first \<open>len(data)\<close> bytes.\<close>

definition socket_send ::
  "nng_lib \<Rightarrow> int \<Rightarrow> py_data \<Rightarrow> bool \<Rightarrow> ('a world_scheme, pyexc, unit) prog" where
  "socket_send L sock d block =
     andthen (ensure_can_send_data d) (
     bnd (as_memoryview d) (\<lambda>m.
     bnd (ccall L (M (Send sock (raw m) (buf_len m) (send_flags L block)))) (\<lambda>r.
     check_err L (r_val r))))"

text \<open>The methods of \<open>Pipe\<close>: the message is bound to the pipe and sent on its socket.\<close>

definition pipe_send ::
  "nng_lib \<Rightarrow> int \<Rightarrow> int \<Rightarrow> py_data \<Rightarrow> ('a mworld_scheme, pyexc, unit) prog" where
  "pipe_send L sock pipe d =
     andthen (ensure_can_send_data d)
       (bnd (mk_message L (FromData d) (APipe pipe)) (\<lambda>i. socket_send_msg L sock i True))"

definition pipe_send_msg ::
  "nng_lib \<Rightarrow> int \<Rightarrow> int \<Rightarrow> nat \<Rightarrow> ('a mworld_scheme, pyexc, unit) prog" where
  "pipe_send_msg L sock pipe i =
     andthen (msg_set_pipe L i (APipe pipe)) (socket_send_msg L sock i True)"

section \<open>Safety of sending\<close>

text \<open>
  A send in progress: the object \<open>i\<close> has given up its message \<open>p\<close>; \<open>st\<close> is the state of
  the aio and \<open>x\<close> who owns \<open>p\<close>.
\<close>

definition sending ::
  "'a mworld_scheme \<Rightarrow> nat \<Rightarrow> int \<Rightarrow> int \<Rightarrow> aiost \<Rightarrow> own \<Rightarrow> 'a mworld_scheme \<Rightarrow> bool" where
  "sending w i a p st x t \<longleftrightarrow> msgs_inv t \<and> next_msg t = next_msg w \<and>
     msgs t = (msgs w)(i := (msgs w i)\<lparr>mem_freed := True\<rparr>) \<and>
     pend (led (calls t)) a = st \<and> own (led (calls t)) p = x \<and> p \<noteq> 0 \<and> (\<forall>j. \<not> live t j p)"

lemma sending_inv: "sending w i a p st x t \<Longrightarrow> msgs_inv t"
  by (simp add: sending_def)

text \<open>One call: the ledger says what it does to the aio and to the message; other messages keep their owner.\<close>

lemma wp_sending_call:
  assumes "sending w i a p st x t"
    and "uses c = None \<or> uses c = Some p \<and> x = Mine"
    and "\<And>g r q. pend g a = st \<Longrightarrow> q \<noteq> p \<Longrightarrow> own (led_step g (c, r)) q = own g q"
    and "\<And>r u. sending w i a p (pend (led_step (led (calls t)) (c, r)) a)
             (own (led_step (led (calls t)) (c, r)) p) u \<Longrightarrow> Q r u"
    and "\<And>r e u. sending w i a p (pend (led_step (led (calls t)) (c, r)) a)
             (own (led_step (led (calls t)) (c, r)) p) u \<Longrightarrow> E e u"
  shows "wp (ccall L c) Q E t"
proof -
  have "msgs_inv (t\<lparr>calls := calls t @ [(c, r)]\<rparr>)" for r
  proof (rule msgs_inv_call)
    show "msgs_inv t" by (rule sending_inv [OF assms(1)])
    show "safe_call (led (calls t)) c" using assms(1,2) by (auto simp: sending_def safe_call_def)
    fix q
    assume q: "own (led (calls t)) q = Mine" "\<exists>j. live t j q"
    then have "q \<noteq> p" using assms(1) by (auto simp: sending_def)
    then show "own (led_step (led (calls t)) (c, r)) q = Mine"
      using assms(1,3) q by (simp add: sending_def)
  qed
  then have s: "sending w i a p (pend (led_step (led (calls t)) (c, r)) a)
      (own (led_step (led (calls t)) (c, r)) p) (t\<lparr>calls := calls t @ [(c, r)]\<rparr>)" for r
    using assms(1) by (simp add: sending_def)
  show ?thesis using assms(4) [OF s] assms(5) [OF s] by (simp add: wp_ccall)
qed

text \<open>The calls of a send.\<close>

definition still :: "int \<Rightarrow> ncall \<Rightarrow> bool" where
  "still a c \<longleftrightarrow> uses c = None \<and> (\<forall>g r. pend (led_step g (c, r)) a = pend g a \<and> own (led_step g (c, r)) = own g)"

lemma still_simps [simp]:
  "still a (A (Aio_cancel b))" "still a (A (Aio_result b))" "still a (A (Aio_set_timeout b k))"
  "still a (A (Aio_free b))" "still a (Strerror e)" "still a (S sc)" "still a (Fn fname args)"
  by (simp_all add: still_def led_aio_def)

lemma wp_sending_still:
  assumes "sending w i a p st x t" and "still a c"
    and "\<And>r u. sending w i a p st x u \<Longrightarrow> Q r u" and "\<And>e u. sending w i a p st x u \<Longrightarrow> E e u"
  shows "wp (ccall L c) Q E t"
  by (rule wp_sending_call [OF assms(1)])
    (use assms in \<open>auto simp: still_def sending_def\<close>)

lemma wp_sending_check_err:
  assumes "sending w i a p st x t" and "n = 0 \<Longrightarrow> Q () t" and "\<And>e u. sending w i a p st x u \<Longrightarrow> E e u"
  shows "wp (check_err L n) Q E t"
  using assms by (auto simp: wp_check_err simp del: wp_ccall intro!: wp_sending_still [where w = w])

lemma wp_sending_start:
  assumes "sending w i a p (AHold p) Mine t"
    and "\<And>r u. sending w i a p (ASend p) InFlight u \<Longrightarrow> Q r u"
    and "\<And>e u. sending w i a p (ASend p) InFlight u \<Longrightarrow> E e u"
  shows "wp (ccall L (A (Aio_send sf tgt a))) Q E t"
  by (rule wp_sending_call [OF assms(1)])
    (use assms in \<open>auto simp: sending_def led_aio_def\<close>)

lemma wp_sending_wait:
  assumes "sending w i a p (ASend p) x t"
    and "\<And>r u. sending w i a p (ASent p) x u \<Longrightarrow> Q r u"
    and "\<And>e u. sending w i a p (ASent p) x u \<Longrightarrow> E e u"
  shows "wp (ccall L (A (Aio_wait a))) Q E t"
  by (rule wp_sending_call [OF assms(1)])
    (use assms in \<open>auto simp: sending_def led_aio_def after_wait_def\<close>)

lemma wp_sending_wait':
  assumes "sending w i a p (ASent p) x t"
    and "\<And>r u. sending w i a p (ASent p) x u \<Longrightarrow> Q r u"
    and "\<And>e u. sending w i a p (ASent p) x u \<Longrightarrow> E e u"
  shows "wp (ccall L (A (Aio_wait a))) Q E t"
  by (rule wp_sending_call [OF assms(1)])
    (use assms in \<open>auto simp: sending_def led_aio_def after_wait_def\<close>)

lemma wp_sending_set:
  assumes "sending w i a p st Mine t"
    and "\<And>r u. sending w i a p (AHold p) Mine u \<Longrightarrow> Q r u"
    and "\<And>e u. sending w i a p (AHold p) Mine u \<Longrightarrow> E e u"
  shows "wp (ccall L (A (Aio_set_msg a p))) Q E t"
  by (rule wp_sending_call [OF assms(1)])
    (use assms in \<open>auto simp: sending_def led_aio_def\<close>)

lemma wp_sending_clear:
  assumes "sending w i a p st x t"
    and "\<And>r u. sending w i a p AIdle x u \<Longrightarrow> Q r u"
    and "\<And>e u. sending w i a p AIdle x u \<Longrightarrow> E e u"
  shows "wp (ccall L (A (Aio_set_msg a 0))) Q E t"
  by (rule wp_sending_call [OF assms(1)])
    (use assms in \<open>auto simp: sending_def led_aio_def\<close>)

text \<open>When the aio still has a message, that message is the sender's again.\<close>

lemma wp_sending_get:
  assumes "sending w i a p st x t" and "st = AHold p \<and> x = Mine \<or> st = ASent p"
    and "\<And>r u st'. r_out r \<noteq> 0 \<Longrightarrow> sending w i a p st' Mine u \<Longrightarrow> Q r u"
    and "\<And>r u st' x'. r_out r = 0 \<Longrightarrow> sending w i a p st' x' u \<Longrightarrow> Q r u"
    and "\<And>e u st' x'. sending w i a p st' x' u \<Longrightarrow> E e u"
  shows "wp (ccall L (A (Aio_get_msg a))) Q E t"
proof -
  let ?c = "A (Aio_get_msg a)" and ?u = "t\<lparr>calls := calls t @ [(A (Aio_get_msg a), fn L (calls t) (A (Aio_get_msg a)))]\<rparr>"
  let ?r = "fn L (calls t) ?c"
  have "wp (ccall L ?c) (\<lambda>r u. u = ?u \<and> r = ?r) (\<lambda>_ u. u = ?u) t" by (simp add: wp_ccall)
  have "msgs_inv ?u"
    using assms(1,2) by (intro msgs_inv_call) (auto simp: sending_def safe_call_def led_aio_def)
  then have s: "sending w i a p (pend (led_step (led (calls t)) (?c, ?r)) a)
      (own (led_step (led (calls t)) (?c, ?r)) p) ?u"
    using assms(1) by (simp add: sending_def)
  have m: "r_out ?r \<noteq> 0 \<Longrightarrow> own (led_step (led (calls t)) (?c, ?r)) p = Mine"
    using assms(1,2) by (auto simp: sending_def led_aio_def)
  show ?thesis
  proof (cases "r_exn ?r")
    case None
    show ?thesis
    proof (cases "r_out ?r = 0")
      case True
      with assms(4) [OF True s] None show ?thesis by (simp add: wp_ccall)
    next
      case False
      with s m have "sending w i a p (pend (led_step (led (calls t)) (?c, ?r)) a) Mine ?u" by simp
      from assms(3) [OF False this] None show ?thesis by (simp add: wp_ccall)
    qed
  next
    case (Some e)
    with assms(5) [OF s] show ?thesis by (simp add: wp_ccall)
  qed
qed

lemma live_give_up:
  assumes "msgs_inv w" and "live w i p"
  shows "msgs_inv (w\<lparr>msgs := (msgs w)(i := (msgs w i)\<lparr>mem_freed := True\<rparr>)\<rparr>)"
    and "sending w i a p (pend (led (calls w)) a) Mine
       (w\<lparr>msgs := (msgs w)(i := (msgs w i)\<lparr>mem_freed := True\<rparr>)\<rparr>)"
proof -
  let ?t = "w\<lparr>msgs := (msgs w)(i := (msgs w i)\<lparr>mem_freed := True\<rparr>)\<rparr>"
  show inv: "msgs_inv ?t" using assms by (intro msgs_inv_upd) simp_all
  have "live w j p \<Longrightarrow> j = i" for j using assms unfolding msgs_inv_def by blast
  then have "\<not> live ?t j p" for j by (auto simp: live_def split: if_splits)
  moreover have "p \<noteq> 0" "own (led (calls w)) p = Mine" using assms unfolding msgs_inv_def by auto
  ultimately show "sending w i a p (pend (led (calls w)) a) Mine ?t"
    using inv by (simp add: sending_def)
qed

lemma sending_take_back:
  assumes "sending w i a p st Mine t" and "live w i p"
  shows "msgs_inv (t\<lparr>msgs := (msgs t)(i := (msgs t i)\<lparr>mem_freed := False\<rparr>)\<rparr>)"
proof -
  let ?u = "t\<lparr>msgs := (msgs t)(i := (msgs t i)\<lparr>mem_freed := False\<rparr>)\<rparr>"
  have l: "live t j q \<or> (j = i \<and> q = p)" if "live ?u j q" for j q
    using that assms by (auto simp: live_def sending_def split: if_splits)
  have t: "msgs_inv t" "own (led (calls t)) p = Mine" "p \<noteq> 0" "\<And>j. \<not> live t j p"
    "\<And>j. next_msg t \<le> j \<Longrightarrow> nng_msg (msgs t j) = None"
    using assms(1) by (auto simp: sending_def msgs_inv_def)
  show ?thesis unfolding msgs_inv_def
  proof (intro conjI allI impI)
    show "safe (calls ?u)" using t(1) by (simp add: msgs_inv_def)
    show "q \<noteq> 0" if "live ?u j q" for j q
      using l [OF that] t(1,3) unfolding msgs_inv_def by blast
    show "own (led (calls ?u)) q = Mine" if "live ?u j q" for j q
      using l [OF that] t(1,2) unfolding msgs_inv_def by auto
    show "j = k" if "live ?u j q" "live ?u k q" for j k q
      using l [OF that(1)] l [OF that(2)] t(1,4) unfolding msgs_inv_def by blast
    show "nng_msg (msgs ?u j) = None" if "j \<ge> next_msg ?u" for j
      using that t(5) by simp
  qed
qed

lemma socket_send_msg_inv:
  assumes "msgs_inv w" and "\<not> gone (msgs w i)"
  shows "wp (socket_send_msg L sock i block) (\<lambda>_. msgs_inv) (\<lambda>_. msgs_inv) w"
proof (cases "nng_msg (msgs w i) \<noteq> None \<and> \<not> mem_freed (msgs w i)")
  case True
  then obtain p where p: "nng_msg (msgs w i) = Some p" and lv: "live w i p"
    using assms(2) by (auto simp: live_def)
  let ?t = "w\<lparr>msgs := (msgs w)(i := (msgs w i)\<lparr>mem_freed := True\<rparr>)\<rparr>"
  have s: "sending w i 0 p (pend (led (calls w)) 0) Mine ?t" by (rule live_give_up [OF assms(1) lv])
  have "wp (ccall L (M (Sendmsg sock p f)))
      (\<lambda>r t. msgs_inv t \<and> (r_val r \<noteq> 0 \<longrightarrow> sending w i 0 p (pend (led (calls w)) 0) Mine t))
      (\<lambda>_. msgs_inv) ?t" for f
    by (rule wp_sending_call [OF s])
      (use s in \<open>auto simp: uses_msg_def led_msg_def sending_def\<close>)
  note run = wp_mono [OF this]
  show ?thesis
    using True p assms(1) sending_take_back [OF _ lv]
    by (auto simp: socket_send_msg_def wp_simps simp del: wp_ccall wp_check_err
        intro!: run wp_inv_check_err)
next
  case False
  with assms show ?thesis
    by (auto simp: socket_send_msg_def wp_simps intro: msgs_inv_upd)
qed

lemma wp_upd_msg_fun:
  "wp (upd_msg i f) Q E = (\<lambda>s. Q () (s\<lparr>msgs := (msgs s)(i := f (msgs s i))\<rparr>))"
  by (simp add: fun_eq_iff wp_upd_msg)

lemma ctx_cleanup_inv:
  fixes w t :: "'a mworld_scheme"
  assumes lv: "live w i p" and s: "sending w i a p st x t"
    and st: "if started then st = ASend p \<or> st = ASent p else st = AHold p \<and> x = Mine"
  shows "wp (ctx_cleanup L i a started) (\<lambda>_. msgs_inv) (\<lambda>_. msgs_inv) t"
proof -
  have free: "wp (ccall L (A (Aio_free a))) (\<lambda>_. msgs_inv) (\<lambda>_. msgs_inv) u" if "msgs_inv u" for u
    using that by (auto intro!: wp_inv_call)
  have takeback: "wp (ccall L (A (Aio_set_msg a 0)))
      (\<lambda>_ u. wp (ccall L (A (Aio_free a))) (\<lambda>_. msgs_inv) (\<lambda>_. msgs_inv)
         (u\<lparr>msgs := (msgs u)(i := (msgs u i)\<lparr>mem_freed := False\<rparr>)\<rparr>)) (\<lambda>_. msgs_inv) u"
    if "sending w i a p st' Mine u" for st' u
    using that sending_take_back [OF _ lv]
    by (auto intro!: wp_sending_clear [where w = w and i = i] wp_inv_call dest: sending_inv)
  define post :: "'a mworld_scheme \<Rightarrow> bool" where "post = wp (bnd (ccall L (A (Aio_get_msg a))) (\<lambda>m.
      andthen (whenp (r_out m \<noteq> 0)
        (bnd (ccall L (A (Aio_set_msg a 0))) (\<lambda>_. upd_msg i (mem_freed_update (\<lambda>_. False)))))
      (bnd (ccall L (A (Aio_free a))) (\<lambda>_. ret ())))) (\<lambda>_. msgs_inv) (\<lambda>_. msgs_inv)"
  have post: "post u"
    if "sending w i a p st' x' u" "st' = AHold p \<and> x' = Mine \<or> st' = ASent p" for st' x' u
    unfolding post_def wp_bnd
    by (rule wp_sending_get [OF that])
      (auto simp: wp_simps wp_upd_msg_fun simp del: wp_ccall intro!: takeback free dest: sending_inv)
  have wait: "wp (ccall L (A (Aio_wait a))) (\<lambda>_. post) (\<lambda>_. msgs_inv) u"
    if "sending w i a p st x u" "st = ASend p \<or> st = ASent p" for u
    using that(2)
  proof
    assume "st = ASend p"
    with that(1) show ?thesis
      by (auto intro!: wp_sending_wait [where w = w and i = i and p = p and x = x] dest: sending_inv post)
  next
    assume "st = ASent p"
    with that(1) show ?thesis
      by (auto intro!: wp_sending_wait' [where w = w and i = i and p = p and x = x] dest: sending_inv post)
  qed
  have "wp (ctx_cleanup L i a started) (\<lambda>_. msgs_inv) (\<lambda>_. msgs_inv) t =
      wp (whenp started
       (bnd (ccall L (A (Aio_cancel a))) (\<lambda>_. bnd (ccall L (A (Aio_wait a))) (\<lambda>_. ret ()))))
       (\<lambda>_. post) (\<lambda>_. msgs_inv) t"
    by (simp add: ctx_cleanup_def wp_andthen post_def)
  also have \<dots>
  proof (cases started)
    case True
    then have st: "st = ASend p \<or> st = ASent p" using st by simp
    have "wp (ccall L (A (Aio_cancel a))) (\<lambda>_. wp (ccall L (A (Aio_wait a))) (\<lambda>_. post) (\<lambda>_. msgs_inv))
        (\<lambda>_. msgs_inv) t"
      by (rule wp_sending_still [OF s]) (use st in \<open>auto intro: wait dest: sending_inv\<close>)
    with True show ?thesis by (simp add: wp_whenp wp_bnd wp_ret)
  next
    case False
    with st post [OF s] show ?thesis by (simp add: wp_whenp)
  qed
  finally show ?thesis .
qed

text \<open>An aio without a message, for an object that has none.\<close>

definition idle :: "nat \<Rightarrow> int \<Rightarrow> 'a mworld_scheme \<Rightarrow> bool" where
  "idle i a t \<longleftrightarrow> msgs_inv t \<and> pend (led (calls t)) a = AIdle \<and> nng_msg (msgs t i) = None"

lemma wp_idle_call:
  assumes "idle i a t" and "uses c = None"
    and "\<And>g r. pend g a = AIdle \<Longrightarrow> own (led_step g (c, r)) = own g \<and> pend (led_step g (c, r)) a = AIdle"
    and "\<And>r u. idle i a u \<Longrightarrow> Q r u" and "\<And>e u. idle i a u \<Longrightarrow> E e u"
  shows "wp (ccall L c) Q E t"
proof -
  have "idle i a (t\<lparr>calls := calls t @ [(c, r)]\<rparr>)" for r
    using assms(1-3) msgs_inv_call [of t c r] by (simp add: idle_def safe_call_def)
  then show ?thesis using assms(4,5) by (simp add: wp_ccall)
qed

lemma msgs_inv_fewer:
  assumes "msgs_inv t" and "\<And>j p. live u j p \<Longrightarrow> live t j p" and "calls u = calls t"
    and "next_msg u = next_msg t" and "\<And>j. nng_msg (msgs u j) = nng_msg (msgs t j)"
  shows "msgs_inv u"
  unfolding msgs_inv_def
proof (intro conjI allI impI)
  show "safe (calls u)" using assms(1,3) by (simp add: msgs_inv_def)
  show "p \<noteq> 0" "own (led (calls u)) p = Mine" if "live u j p" for j p
    using assms(1) assms(2) [OF that] assms(3) unfolding msgs_inv_def by simp_all
  show "j = k" if "live u j p" "live u k p" for j k p
    using assms(1) assms(2) [OF that(1)] assms(2) [OF that(2)] unfolding msgs_inv_def by blast
  show "nng_msg (msgs u j) = None" if "next_msg u \<le> j" for j
    using assms(1,4,5) that by (simp add: msgs_inv_def)
qed

lemma idle_upd: "idle i a t \<Longrightarrow> idle i a (t\<lparr>msgs := (msgs t)(i := (msgs t i)\<lparr>mem_freed := x\<rparr>)\<rparr>)"
  unfolding idle_def
  by (auto intro!: msgs_inv_fewer [of t] simp: live_def split: if_splits)

lemma ctx_cleanup_idle:
  assumes "idle i a t"
  shows "wp (ctx_cleanup L i a False) (\<lambda>_. idle i a) (\<lambda>_. idle i a) t"
  using assms
  by (auto simp: ctx_cleanup_def wp_simps wp_upd_msg_fun led_aio_def simp del: wp_ccall
      intro!: wp_idle_call [where i = i and a = a] idle_upd)

lemma context_send_msg_inv:
  fixes w :: "'a mworld_scheme"
  assumes "msgs_inv w" and "\<not> gone (msgs w i)"
  shows "wp (context_send_msg L ctx i block) (\<lambda>_. msgs_inv) (\<lambda>_. msgs_inv) w"
proof -
  let ?up = "\<lambda>t. t\<lparr>msgs := (msgs t)(i := (msgs t i)\<lparr>mem_freed := True\<rparr>)\<rparr>"
  have main: "wp (try_finally
         (bnd (ccall L (A (Aio_send Nng_ctx_send ctx a))) (\<lambda>_.
          bnd (ccall L (A (Aio_wait a))) (\<lambda>_.
          bnd (ccall L (A (Aio_result a))) (\<lambda>res.
          whenp (r_val res \<noteq> 0)
            (if \<not> block \<and> r_val res = err L ETIMEDOUT
             then raise_exc (NNGErr TryAgain ''Context send buffer full'' (err L EAGAIN))
             else check_err L (r_val res))))))
         (ctx_cleanup L i a True)) (\<lambda>_. msgs_inv) (\<lambda>_. msgs_inv) u"
    if "live t i p" "sending t i a p (AHold p) Mine u" for t p a u
    using that
    by (auto simp: wp_simps simp del: wp_ccall wp_check_err
        intro!: wp_sending_start [where w = t and i = i] wp_sending_wait [where w = t and i = i]
          wp_sending_still [where w = t and i = i and a = a and p = p]
          wp_sending_check_err [where w = t and i = i and a = a and p = p]
          ctx_cleanup_inv [OF that(1)])
  have pre: "wp (try_except
         (bnd (msg_ptr i) (\<lambda>p.
          bnd (ccall L (A (Aio_set_msg a p))) (\<lambda>_.
          whenp (\<not> block) (bnd (ccall L (A (Aio_set_timeout a 0))) (\<lambda>_. ret ())))))
         (\<lambda>e. andthen (ctx_cleanup L i a False) (raise_exc e)))
       (\<lambda>_. wp m (\<lambda>_. msgs_inv) (\<lambda>_. msgs_inv)) (\<lambda>_. msgs_inv) (?up t)"
    if "\<And>u. sending t i a p (AHold p) Mine u \<Longrightarrow> wp m (\<lambda>_. msgs_inv) (\<lambda>_. msgs_inv) u"
      "live t i p" "msgs_inv t" for m :: "('a mworld_scheme, pyexc, unit) prog" and t p a
  proof -
    have "nng_msg (msgs t i) = Some p" using that(2) by (simp add: live_def)
    with that live_give_up(2) [OF that(3,2), of a] show ?thesis
      by (auto simp: wp_simps simp del: wp_ccall
          intro!: wp_sending_set [where w = t and i = i] ctx_cleanup_inv [OF that(2)]
            wp_sending_still [where w = t and i = i and a = a and p = p])
  qed
  show ?thesis
  proof (cases "nng_msg (msgs w i) \<noteq> None \<and> \<not> mem_freed (msgs w i)")
    case True
    then obtain p where p: "nng_msg (msgs w i) = Some p" and lv: "live w i p"
      using assms(2) by (auto simp: live_def)
    define rest :: "int \<Rightarrow> 'a mworld_scheme \<Rightarrow> bool" where "rest = (\<lambda>a. wp (andthen
       (try_except
         (bnd (msg_ptr i) (\<lambda>p.
          bnd (ccall L (A (Aio_set_msg a p))) (\<lambda>_.
          whenp (\<not> block) (bnd (ccall L (A (Aio_set_timeout a 0))) (\<lambda>_. ret ())))))
         (\<lambda>e. andthen (ctx_cleanup L i a False) (raise_exc e)))
       (try_finally
         (bnd (ccall L (A (Aio_send Nng_ctx_send ctx a))) (\<lambda>_.
          bnd (ccall L (A (Aio_wait a))) (\<lambda>_.
          bnd (ccall L (A (Aio_result a))) (\<lambda>res.
          whenp (r_val res \<noteq> 0)
            (if \<not> block \<and> r_val res = err L ETIMEDOUT
             then raise_exc (NNGErr TryAgain ''Context send buffer full'' (err L EAGAIN))
             else check_err L (r_val res))))))
         (ctx_cleanup L i a True))) (\<lambda>_. msgs_inv) (\<lambda>_. msgs_inv))"
    have rest: "rest a (?up t)" if "quiet w t" for a t
      unfolding rest_def wp_andthen
      by (rule pre [OF main]) (use that lv in \<open>auto simp: quiet_live dest: quiet_inv\<close>)
    have "wp (ccall L (A (Aio_alloc 0)))
        (\<lambda>al. wp (check_err L (r_val al)) (\<lambda>_ t. rest (r_out al) (?up t)) (\<lambda>_. msgs_inv)) (\<lambda>_. msgs_inv) w"
      by (rule wp_quiet [OF assms(1)])
        (auto simp: safe_call_def intro!: wp_inv_check_err rest dest: quiet_inv)
    then show ?thesis
      using assms(1) True
      by (auto simp: context_send_msg_def Let_def wp_ensure_can_send wp_check_not_sent
          wp_andthen [where m = "ensure_can_send i"] wp_andthen [where m = "check_err L e" for e]
          wp_andthen [where m = "upd_msg i f" for f] wp_bnd [where m = "ccall L (A (Aio_alloc 0))"]
          wp_upd_msg_fun rest_def)
  next
    case False
    have none: "wp (andthen
       (try_except
         (bnd (msg_ptr i) (\<lambda>p.
          bnd (ccall L (A (Aio_set_msg a p))) (\<lambda>_.
          whenp (\<not> block) (bnd (ccall L (A (Aio_set_timeout a 0))) (\<lambda>_. ret ())))))
         (\<lambda>e. andthen (ctx_cleanup L i a False) (raise_exc e))) m) (\<lambda>_. msgs_inv) (\<lambda>_. msgs_inv) (?up t)"
      if "idle i a t" for a t and m :: "('a mworld_scheme, pyexc, unit) prog"
    proof -
      have "wp (ctx_cleanup L i a False) (\<lambda>_. msgs_inv) (\<lambda>_. msgs_inv) (?up t)"
        by (rule wp_mono [OF ctx_cleanup_idle [OF idle_upd [OF that, of True]]]) (simp_all add: idle_def)
      then show ?thesis using that by (simp add: wp_simps idle_def)
    qed
    have "wp (ccall L (A (Aio_alloc 0)))
        (\<lambda>r t. (r_val r = 0 \<longrightarrow> idle i (r_out r) t) \<and> msgs_inv t) (\<lambda>_. msgs_inv) w"
      if "nng_msg (msgs w i) = None"
      using that assms(1) quiet_call [OF assms(1), of "A (Aio_alloc 0)"]
      by (auto simp: wp_ccall idle_def led_aio_def safe_call_def dest: quiet_inv)
    note alloc = wp_mono [OF this]
    show ?thesis
      using assms(1) False none
      by (auto simp: context_send_msg_def Let_def wp_ensure_can_send wp_check_not_sent
          wp_andthen [where m = "ensure_can_send i"] wp_andthen [where m = "check_err L e" for e]
          wp_andthen [where m = "upd_msg i f" for f] wp_bnd [where m = "ccall L (A (Aio_alloc 0))"]
          wp_upd_msg_fun intro!: alloc wp_inv_check_err)
  qed
qed

section \<open>Safety of the receiving methods\<close>

lemma wp_recv_timeout:
  assumes "calm w t"
  shows "wp (recv_timeout L1 ep) (\<lambda>_. calm w) (\<lambda>_. calm w) t"
  unfolding recv_timeout_def getopt_ms_def getopt_num_def using assms
  by (auto simp: to_char_def wp_simps simp del: wp_ccall wp_check_err
      intro!: wp_calm_call [where w = w] wp_calm_check_err [where w = w])

lemma wp_sliced_aio_recv:
  assumes "fresh_lib L" and "recv_lib L" and "calm w t"
  shows "wp (sliced_aio_recv L n rf target timeout sl nb)
     (got w) (\<lambda>_. calm w) t"
proof -
  let ?Q = "got w"
  have tr: "calm t u \<Longrightarrow> calm w u" "in_hand t p u \<Longrightarrow> in_hand w p u" for p u
    using assms(3) by (simp_all add: calm_def in_hand_def)
  have nb: "wp (nb_attempt L f target) ?Q (\<lambda>_. calm w) u" if "calm w u" for f u
  proof -
    have "calm u v \<Longrightarrow> calm w v" "in_hand u p v \<Longrightarrow> in_hand w p v" for p v
      using that by (simp_all add: calm_def in_hand_def)
    then show ?thesis
      by (intro wp_mono [OF wp_nb_attempt [OF assms(1) calm_inv [OF that]]]) (auto elim!: got.elims)
  qed
  note path = wp_aio_recv_path [OF assms(1,2)]
  have second: "wp (or_else (nb_attempt L f target) (aio_recv_path L n rf target tmo sl)) ?Q (\<lambda>_. calm w) u"
    if "calm w u" for f u tmo
    unfolding wp_or_else by (rule wp_mono [OF nb [OF that]]) (auto intro: path split: option.splits)
  have first: "wp (or_else (nb_attempt L f target)
       (andthen (whenp (tmo = 0) (check_err L (err L ETIMEDOUT)))
         (or_else (nb_attempt L f target) (aio_recv_path L n rf target tmo sl)))) ?Q (\<lambda>_. calm w) t" for f tmo
    unfolding wp_or_else [of "nb_attempt L f target" "andthen m m'" for m m']
    by (rule wp_mono [OF nb [OF assms(3)]])
      (auto simp: wp_andthen wp_whenp intro!: wp_calm_check_err [where w = w] second split: option.splits)
  show ?thesis
    unfolding sliced_aio_recv_def Let_def
    by (cases nb) (simp_all add: path [OF assms(3)] first)
qed

lemma wp_wrap_received:
  assumes "in_hand w p t"
  shows "wp (wrap_received L ep p) (\<lambda>x u. msgs_inv u \<and> x \<noteq> None) (\<lambda>_. msgs_inv) t"
proof -
  let ?i = "next_msg t"
  let ?u = "t\<lparr>next_msg := Suc ?i, msgs := (msgs t)(?i := fresh_message\<lparr>nng_msg := Some p\<rparr>)\<rparr>"
  have c: "claims t p" using assms by (simp add: in_hand_def)
  have l: "live ?u j q \<Longrightarrow> live t j q \<or> (j = ?i \<and> q = p)" for j q
    by (auto simp: live_def fresh_message_def split: if_splits)
  have inv: "msgs_inv ?u"
    unfolding msgs_inv_def
  proof (intro conjI allI impI)
    show "safe (calls ?u)" using c by (simp add: claims_def msgs_inv_def)
    show "q \<noteq> 0" "own (led (calls ?u)) q = Mine" if "live ?u j q" for j q
      using l [OF that] c unfolding claims_def msgs_inv_def by auto
    show "j = k" if "live ?u j q" "live ?u k q" for j k q
      using l [OF that(1)] l [OF that(2)] c unfolding claims_def msgs_inv_def by blast
    show "nng_msg (msgs ?u j) = None" if "next_msg ?u \<le> j" for j
      using that c by (simp add: claims_def msgs_inv_def)
  qed
  have lv: "live ?u ?i p" by (simp add: live_def fresh_message_def)
  have set: "wp (msg_set_pipe L ?i (APipe h)) (\<lambda>_. msgs_inv) (\<lambda>_. msgs_inv) v" if "quiet ?u v" for h v
    by (rule msg_set_pipe_inv) (use that in \<open>auto simp: quiet_def fresh_message_def\<close>)
  have "wp (try_associate_msg_with_pipe L ep ?i) (\<lambda>_. msgs_inv) (\<lambda>_. msgs_inv) ?u"
    unfolding try_associate_msg_with_pipe_def
    using quiet_refl [OF inv] lv
    by (auto simp: wp_simps fresh_message_def simp del: wp_ccall
        intro!: wp_quiet_call [where ?w0.0 = ?u] set dest: quiet_inv)
  then show ?thesis
    by (auto simp: wrap_received_def mk_message_def new_message_def message_init_def wp_simps
        fresh_message_def elim!: wp_mono)
qed

lemma socket_recv_msg_inv:
  assumes "fresh_lib L" and "recv_lib L" and "msgs_inv w"
  shows "wp (socket_recv_msg L1 L n ep block) (\<lambda>_. msgs_inv) (\<lambda>_. msgs_inv) w"
proof -
  have wrap: "wp (case x of None \<Rightarrow> ret None | Some y \<Rightarrow> wrap_received L ep y) (\<lambda>_. msgs_inv) (\<lambda>_. msgs_inv) u"
    if "got w x u" for x u
    using that by (cases x) (auto simp: wp_ret intro: calm_inv wp_mono [OF wp_wrap_received])
  have nonblock: "wp (bnd (ccall L (M (Recvmsg h f))) (\<lambda>r. andthen (check_err L (r_val r)) (ret (Some (r_out r)))))
     (got w) (\<lambda>_. calm w) w" for h f
    unfolding wp_bnd wp_andthen wp_ret
    by (rule wp_hand_out [OF assms(1,3)])
      (auto intro!: wp_calm_check_err [where w = w] intro: quiet_calm [OF calm_refl [OF assms(3)]] in_hand_calm)
  have blocking: "wp (bnd (recv_timeout L1 ep) (\<lambda>timeout. sliced_aio_recv L n rf h timeout sl nb))
     (got w) (\<lambda>_. calm w) w" for rf h sl nb
    unfolding wp_bnd
    by (rule wp_mono [OF wp_recv_timeout [OF calm_refl [OF assms(3)]]])
      (auto intro: wp_sliced_aio_recv [OF assms(1,2)])
  show ?thesis
    unfolding socket_recv_msg_def wp_andthen wp_check_fork bnd_some_def wp_bnd [of "if block' then a else b" for block' a b]
    using assms(3)
    by (cases block) (auto intro!: wp_mono [OF nonblock] wp_mono [OF blocking] intro: wrap calm_inv)
qed

lemma context_recv_msg_inv:
  assumes "fresh_lib L" and "recv_lib L" and "msgs_inv w"
  shows "wp (context_recv_msg L1 L n ep block) (\<lambda>_. msgs_inv) (\<lambda>_. msgs_inv) w"
proof -
  have wrap: "wp (case x of None \<Rightarrow> ret None | Some y \<Rightarrow> wrap_received L ep y) (\<lambda>_. msgs_inv) (\<lambda>_. msgs_inv) u"
    if "got w x u" for x u
    using that by (cases x) (auto simp: wp_ret intro: calm_inv wp_mono [OF wp_wrap_received])
  have recv: "wp (bnd_some (try_except (sliced_aio_recv L n rf h tmo sl nb)
       (timeout_to_try_again L b)) (wrap_received L ep)) (\<lambda>_. msgs_inv) (\<lambda>_. msgs_inv) u"
    if "calm w u" for rf h tmo sl nb b u
    unfolding bnd_some_def wp_bnd wp_except
    by (rule wp_mono [OF wp_sliced_aio_recv [OF assms(1,2) that]])
      (auto simp: wp_raise timeout_to_try_again_def intro: wrap calm_inv)
  show ?thesis
    unfolding context_recv_msg_def wp_andthen wp_check_fork wp_bnd [of "if b' then x else y" for b' x y]
    using assms(3) recv [OF calm_refl [OF assms(3)]]
    by (auto simp: wp_if wp_ret simp del: if_split intro!: wp_mono [OF wp_recv_timeout [OF calm_refl [OF assms(3)]]]
        intro: recv calm_inv)
qed

lemma wp_conj:
  "wp m Q E s \<Longrightarrow> wp m Q' E' s \<Longrightarrow> wp m (\<lambda>x t. Q x t \<and> Q' x t) (\<lambda>e t. E e t \<and> E' e t) s"
  by (simp add: wp_def split: prod.splits sum.splits)

text \<open>A method that never marks an object as gone, and its result, a new object, is not gone.\<close>

lemma mk_message_not_gone: "wp (mk_message L d p) (\<lambda>i t. \<not> gone (msgs t i)) (\<lambda>_ _. True) w"
  by (cases d; cases p) (auto simp: mk_message_def new_message_def message_init_def alloc_msg_def
      msg_set_pipe_def ensure_can_send_data_def as_memoryview_def fresh_message_def wp_simps split: py_data.split)

lemma wrap_received_not_gone:
  "wp (wrap_received L ep p) (\<lambda>x t. \<forall>i. x = Some i \<longrightarrow> \<not> gone (msgs t i)) (\<lambda>_ _. True) w"
  by (auto simp: wrap_received_def mk_message_def new_message_def message_init_def
      try_associate_msg_with_pipe_def msg_set_pipe_def fresh_message_def wp_simps)

lemma recv_with_inv:
  assumes "wp m (\<lambda>x t. msgs_inv t \<and> (\<forall>i. x = Some i \<longrightarrow> \<not> gone (msgs t i))) (\<lambda>_. msgs_inv) w"
  shows "wp (recv_with L m) (\<lambda>_. msgs_inv) (\<lambda>_. msgs_inv) w"
  unfolding recv_with_def wp_bnd_some
  by (rule wp_mono [OF assms])
    (auto simp: wp_bnd wp_ret split: option.split intro!: wp_mono [OF msg_bytes_inv] dest: quiet_inv)

lemma recv_into_inv:
  assumes "wp m (\<lambda>x t. msgs_inv t \<and> (\<forall>i p. x = Some i \<and> nng_msg (msgs t i) = Some p \<longrightarrow> live t i p))
     (\<lambda>_. msgs_inv) w" and "msgs_inv w"
  shows "wp (recv_into L m ro buf) (\<lambda>_. msgs_inv) (\<lambda>_. msgs_inv) w"
proof -
  have read: "wp (bnd (msg_ptr i) (\<lambda>p. bnd (ccall L (M (Msg_body p))) (\<lambda>b. bnd (ccall L (M (Msg_len p)))
      (\<lambda>l. ret (f b l))))) (\<lambda>_. msgs_inv) (\<lambda>_. msgs_inv) t"
    if "msgs_inv t" "\<forall>p. nng_msg (msgs t i) = Some p \<longrightarrow> live t i p" for i t and f :: "_ \<Rightarrow> _ \<Rightarrow> (nat \<times> byte list) option"
    using that quiet_refl [OF that(1)]
    by (auto simp: wp_bnd wp_msg_ptr wp_ret intro!: wp_quiet_call [where ?w0.0 = t] dest: quiet_inv)
  show ?thesis
    unfolding recv_into_def Let_def wp_if wp_bnd_some
    using assms(2) by (auto simp: wp_raise split: option.split intro!: wp_mono [OF assms(1)] read)
qed

lemma mk_message_data_inv:
  assumes "fresh_lib L" and "msgs_inv w"
  shows "wp (mk_message L (FromData d) q) (\<lambda>i t. msgs_inv t \<and> \<not> gone (msgs t i)) (\<lambda>_. msgs_inv) w"
  by (rule wp_mono [OF wp_conj [OF mk_message_inv [OF assms] mk_message_not_gone]]) auto

lemma pipe_send_inv:
  assumes "fresh_lib L" and "msgs_inv w"
  shows "wp (pipe_send L sock pipe d) (\<lambda>_. msgs_inv) (\<lambda>_. msgs_inv) w"
  using assms(2) socket_send_msg_inv
    by (auto simp: pipe_send_def ensure_can_send_data_def wp_andthen wp_check_fork wp_bnd wp_ret wp_raise
        split: py_data.split intro!: wp_mono [OF mk_message_data_inv [OF assms]])

lemma context_send_inv:
  assumes "fresh_lib L" and "msgs_inv w"
  shows "wp (context_send L ctx d block) (\<lambda>_. msgs_inv) (\<lambda>_. msgs_inv) w"
  using assms(2) context_send_msg_inv
    by (auto simp: context_send_def ensure_can_send_data_def wp_andthen wp_check_fork wp_bnd wp_ret wp_raise
        split: py_data.split intro!: wp_mono [OF mk_message_data_inv [OF assms]])

section \<open>Runs of message operations\<close>

text \<open>
  A configuration is the default library, the library of the objects and the world. One step is one
  method on any object whose finalizer has not run, with any arguments; the pipe of a message is
  only set while the message is unsent.
\<close>

type_synonym config = "nng_lib \<times> nng_lib \<times> mworld"

inductive mstep :: "config \<Rightarrow> config \<Rightarrow> bool" where
  ms_new: "mstep (L1, L, w) (L1, L, snd (mk_message L (FromData d) p w))"
| ms_recv: "mstep (L1, L, w) (L1, L, snd (socket_recv_msg L1 L n ep block w))"
| ms_ctx_recv: "mstep (L1, L, w) (L1, L, snd (context_recv_msg L1 L n ep block w))"
| ms_send: "mstep (L1, L, w) (L1, L, snd (socket_send L sock d block w))"
| ms_send_msg: "\<not> gone (msgs w i) \<Longrightarrow> mstep (L1, L, w) (L1, L, snd (socket_send_msg L sock i block w))"
| ms_ctx_send: "mstep (L1, L, w) (L1, L, snd (context_send L ctx d block w))"
| ms_ctx_send_msg: "\<not> gone (msgs w i) \<Longrightarrow> mstep (L1, L, w) (L1, L, snd (context_send_msg L ctx i block w))"
| ms_pipe_send: "mstep (L1, L, w) (L1, L, snd (pipe_send L sock pipe d w))"
| ms_set_pipe: "\<not> gone (msgs w i) \<Longrightarrow> \<not> mem_freed (msgs w i) \<Longrightarrow>
    mstep (L1, L, w) (L1, L, snd (msg_set_pipe L i p w))"
| ms_bytes: "\<not> gone (msgs w i) \<Longrightarrow> mstep (L1, L, w) (L1, L, snd (msg_bytes L i w))"
| ms_header: "\<not> gone (msgs w i) \<Longrightarrow> mstep (L1, L, w) (L1, L, snd (msg_header L i w))"
| ms_append: "\<not> gone (msgs w i) \<Longrightarrow> mstep (L1, L, w) (L1, L, snd (msg_header_append L i d w))"
| ms_trim: "\<not> gone (msgs w i) \<Longrightarrow> mstep (L1, L, w) (L1, L, snd (msg_header_trim L i sz w))"
| ms_chop: "\<not> gone (msgs w i) \<Longrightarrow> mstep (L1, L, w) (L1, L, snd (msg_header_chop L i sz w))"
| ms_clear: "\<not> gone (msgs w i) \<Longrightarrow> mstep (L1, L, w) (L1, L, snd (msg_header_clear L i w))"
| ms_copy: "\<not> gone (msgs w i) \<Longrightarrow> mstep (L1, L, w) (L1, L, snd (msg_copy L i w))"
| ms_del: "\<not> gone (msgs w i) \<Longrightarrow> mstep (L1, L, w) (L1, L, snd (msg_del L i w))"

definition minit :: "config \<Rightarrow> bool" where
  "minit s = (case s of (L1, L, w) \<Rightarrow> fresh_lib L \<and> recv_lib L \<and> calls w = [] \<and>
     (\<forall>i. nng_msg (msgs w i) = None))"

definition minv :: "config \<Rightarrow> bool" where
  "minv s = (case s of (L1, L, w) \<Rightarrow> fresh_lib L \<and> recv_lib L \<and> msgs_inv w)"

lemma socket_send_inv: "msgs_inv w \<Longrightarrow> wp (socket_send L sock d block) (\<lambda>_. msgs_inv) (\<lambda>_. msgs_inv) w"
  unfolding socket_send_def ensure_can_send_data_def
  by (auto simp: wp_simps uses_msg_def simp del: wp_ccall wp_check_err split: py_data.split
      intro!: wp_inv_call wp_inv_check_err)

lemma quiet_state: "wp m (\<lambda>_. quiet w) (\<lambda>_. quiet w) w \<Longrightarrow> msgs_inv (snd (m w))"
  by (drule wp_stateI, erule quiet_inv)

lemma minv_mstep: "minv s \<Longrightarrow> mstep s t \<Longrightarrow> minv t"
  by (erule mstep.cases)
    (auto simp: minv_def intro: wp_stateI mk_message_inv socket_recv_msg_inv context_recv_msg_inv
      socket_send_inv socket_send_msg_inv context_send_inv context_send_msg_inv pipe_send_inv
      msg_set_pipe_inv msg_copy_inv msg_del_inv
      quiet_state [OF msg_bytes_inv] quiet_state [OF msg_header_inv] quiet_state [OF msg_header_append_inv]
      quiet_state [OF msg_header_trim_inv] quiet_state [OF msg_header_chop_inv]
      quiet_state [OF msg_header_clear_inv])

interpretation msgs_run: step_invariant minit mstep minv
proof
  show "minit s \<Longrightarrow> minv s" for s
    by (auto simp: minit_def minv_def msgs_inv_def live_def)
  show "minv s \<Longrightarrow> mstep s t \<Longrightarrow> minv t" for s t by (rule minv_mstep)
qed

text \<open>C1. Sending and receiving is memory safe. In every run of message operations, with any
  library that hands out fresh messages, whatever it answers and wherever it raises, no call ever works on a
  message that was sent, freed or given away, so in particular no message is freed twice; each unsent
  message object owns its message and no two objects share one.\<close>

theorem transfer_memory_safe:
  assumes "reach minit mstep (L1, L, w)"
  shows "safe (calls w) \<and> (\<forall>i p. live w i p \<longrightarrow> own (led (calls w)) p = Mine) \<and>
         (\<forall>i j p. live w i p \<and> live w j p \<longrightarrow> i = j)"
  using msgs_run.reach_inv [OF assms] unfolding minv_def msgs_inv_def by blast

definition quiet_demo :: nng_lib where
  "quiet_demo = demo_lib (\<lambda>_ _. 0) (\<lambda>_ _. None) (\<lambda>_ _. [])"

lemma quiet_demo_ok: "fresh_lib quiet_demo" "recv_lib quiet_demo"
proof -
  show "fresh_lib quiet_demo" by (simp add: quiet_demo_def fresh_demo_lib)
  have "top_ptr tr + 1 \<noteq> 0" for tr using top_ptr_nonneg [of tr] by simp
  then show "recv_lib quiet_demo" by (simp add: recv_lib_def quiet_demo_def demo_lib_def)
qed

theorem transfer_memory_safe_witness:
  "let w1 = snd (mk_message quiet_demo (FromData (DBuf (bytes_buf [1]))) NoPipe mworld0);
       w2 = snd (context_send_msg quiet_demo 4 0 True w1)
   in safe (calls w2) \<and> length (calls w2) = 12"
proof -
  let ?w1 = "snd (mk_message quiet_demo (FromData (DBuf (bytes_buf [1]))) NoPipe mworld0)"
  let ?w2 = "snd (context_send_msg quiet_demo 4 0 True ?w1)"
  note run = mk_message_def new_message_def message_init_def alloc_msg_def ccall_def
    ensure_can_send_data_def as_memoryview_def prog_defs Let_def check_fork_def fork_detected_def
    check_err_def upd_msg_def quiet_demo_def demo_lib_def top_ptr_def context_send_msg_def
    ensure_can_send_def check_not_sent_def msg_ptr_def ctx_cleanup_def fresh_message_def ptrs_of_def
  have "minit (quiet_demo, quiet_demo, mworld0)"
    by (simp add: minit_def quiet_demo_ok fresh_message_def)
  then have "reach minit mstep (quiet_demo, quiet_demo, ?w1)"
    by (blast intro: reach_init reach_step ms_new)
  moreover have "\<not> gone (msgs ?w1 0)" by (simp add: run)
  ultimately have "reach minit mstep (quiet_demo, quiet_demo, ?w2)"
    by (blast intro: reach_step ms_ctx_send_msg)
  from transfer_memory_safe [OF this] have "safe (calls ?w2)" by blast
  moreover have "length (calls ?w2) = 12" by (simp add: run)
  ultimately show ?thesis by (simp only: Let_def simp_thms)
qed

lemma safe_append: "safe (tr @ xs) = (safe tr \<and> safe_from (led tr) xs)"
  by (simp add: safe_def safe_from_append led_def)

text \<open>C40. A method that misses the check for a sent message. Whenever a message object was sent
  (its pointer is no longer the caller's), \<open>Pipe.send_msg\<close> and \<open>Pipe.asend_msg\<close>, which set the pipe
  first and check afterwards, call \<open>nng_msg_set_pipe\<close> on the message nng took or freed, while
  \<open>Socket.send_msg\<close> refuses it without a call.\<close>

theorem pipe_send_msg_after_send:
  assumes "nng_msg (msgs w i) = Some p" and "mem_freed (msgs w i)" and "own (led (calls w)) p \<noteq> Mine"
  shows "\<not> safe (calls (snd (pipe_send_msg L sock pipe i w))) \<and>
         calls (snd (socket_send_msg L sock i block w)) = calls w"
proof -
  have "wp (pipe_send_msg L sock pipe i) (\<lambda>_ t. \<not> safe (calls t)) (\<lambda>_ t. \<not> safe (calls t)) w"
    using assms
    by (auto simp: pipe_send_msg_def socket_send_msg_def msg_set_pipe_def wp_simps safe_append safe_call_def
        uses_msg_def)
  then have "\<not> safe (calls (snd (pipe_send_msg L sock pipe i w)))" by (rule wp_stateI)
  moreover have "wp (socket_send_msg L sock i block) (\<lambda>_ t. calls t = calls w) (\<lambda>_ t. calls t = calls w) w"
    using assms(2) by (auto simp: socket_send_msg_def wp_simps)
  then have "calls (snd (socket_send_msg L sock i block w)) = calls w" by (rule wp_stateI)
  ultimately show ?thesis by simp
qed

theorem pipe_send_msg_after_send_witness:
  "let w1 = snd (mk_message quiet_demo (FromData (DBuf (bytes_buf [1]))) NoPipe mworld0);
       w2 = snd (socket_send_msg quiet_demo 4 0 True w1)
   in safe (calls w2) \<and> \<not> safe (calls (snd (pipe_send_msg quiet_demo 4 9 0 w2)))"
proof -
  let ?w1 = "snd (mk_message quiet_demo (FromData (DBuf (bytes_buf [1]))) NoPipe mworld0)"
  let ?w2 = "snd (socket_send_msg quiet_demo 4 0 True ?w1)"
  note run = mk_message_def new_message_def message_init_def alloc_msg_def ccall_def
    ensure_can_send_data_def as_memoryview_def prog_defs Let_def check_fork_def fork_detected_def
    check_err_def upd_msg_def quiet_demo_def demo_lib_def top_ptr_def socket_send_msg_def
    ensure_can_send_def check_not_sent_def msg_ptr_def fresh_message_def ptrs_of_def
  have c: "calls ?w2 = [(M (Msg_alloc 0), \<lparr>r_val = 0, r_out = 1, r_bytes = [], r_text = [], r_exn = None\<rparr>),
     (M (Msg_append 1 [1]), \<lparr>r_val = 0, r_out = 2, r_bytes = [], r_text = [], r_exn = None\<rparr>),
     (M (Sendmsg 4 1 0), \<lparr>r_val = 0, r_out = 3, r_bytes = [], r_text = [], r_exn = None\<rparr>)]"
    by (simp add: run send_flags_def copied_def bytes_buf_def buf_len_def)
  have "nng_msg (msgs ?w2 0) = Some 1" "mem_freed (msgs ?w2 0)" by (simp_all add: run)
  moreover have "own (led (calls ?w2)) 1 \<noteq> Mine"
    unfolding c by (simp add: led_def led_msg_def ledger0_def)
  ultimately have "\<not> safe (calls (snd (pipe_send_msg quiet_demo 4 9 0 ?w2)))"
    using pipe_send_msg_after_send [of ?w2 0 1 quiet_demo 4 9] by blast
  moreover have "safe (calls ?w2)"
    unfolding c by (simp add: safe_def safe_call_def uses_msg_def led_msg_def ledger0_def)
  ultimately show ?thesis by (simp only: Let_def simp_thms)
qed

section \<open>The protocol of the sliced receive\<close>

definition cnt :: "(ncall \<times> nres \<Rightarrow> bool) \<Rightarrow> 'a world_scheme \<Rightarrow> nat" where
  "cnt P w = length (filter P (calls w))"

lemma cnt_call [simp]: "cnt P (w\<lparr>calls := calls w @ [x]\<rparr>) = cnt P w + (if P x then 1 else 0)"
  by (simp add: cnt_def)

text \<open>Receive objects allocated and freed, cancellations, and waits that were interrupted.\<close>

definition is_alloc :: "ncall \<times> nres \<Rightarrow> bool" where
  "is_alloc cr \<longleftrightarrow> fst cr = A Sync_recv_alloc \<and> r_val (snd cr) = 0 \<and> r_exn (snd cr) = None"

definition is_free :: "ncall \<times> nres \<Rightarrow> bool" where
  "is_free cr \<longleftrightarrow> (\<exists>v. fst cr = A (Sync_recv_free v))"

definition is_cancel :: "ncall \<times> nres \<Rightarrow> bool" where
  "is_cancel cr \<longleftrightarrow> (\<exists>a. fst cr = A (Aio_cancel a))"

definition is_interrupt :: "ncall \<times> nres \<Rightarrow> bool" where
  "is_interrupt cr \<longleftrightarrow> (\<exists>v s. fst cr = A (Sync_recv_wait v s)) \<and> r_exn (snd cr) \<noteq> None"

lemmas kind_defs = is_alloc_def is_free_def is_cancel_def is_interrupt_def

text \<open>
  \<open>tally w u d f t\<close>: since \<open>w\<close>, each interrupted wait led to one cancellation, except
  \<open>d\<close> still to come, and each allocation to one release, except \<open>f\<close> still to come.
\<close>

definition tally :: "'a world_scheme \<Rightarrow> nat \<Rightarrow> nat \<Rightarrow> 'a world_scheme \<Rightarrow> bool" where
  "tally w d f t \<longleftrightarrow> cnt is_cancel t + cnt is_interrupt w + d = cnt is_cancel w + cnt is_interrupt t \<and>
     cnt is_free t + cnt is_alloc w + f = cnt is_free w + cnt is_alloc t"

definition plain :: "ncall \<Rightarrow> bool" where
  "plain c \<longleftrightarrow> (\<forall>r. \<not> is_alloc (c, r) \<and> \<not> is_free (c, r) \<and> \<not> is_cancel (c, r) \<and> \<not> is_interrupt (c, r))"

lemma plain_simps [simp]:
  "plain (M m)" "plain (Strerror e)" "plain (A (Aio_result a))" "plain (A (Aio_get_msg a))"
  "plain (A (Aio_set_msg a p))" "plain (A (Aio_wait a))" "plain (A (Aio_recv rf t a))"
  "plain (A (Aio_set_timeout a n))" "plain (A (Sync_recv_aio v))"
  by (simp_all add: plain_def kind_defs)

lemma wp_plain_call:
  assumes "tally w d f t" and "plain c"
    and "\<And>r u. tally w d f u \<Longrightarrow> Q r u" and "\<And>e u. tally w d f u \<Longrightarrow> E e u"
  shows "wp (ccall L c) Q E t"
proof -
  have "tally w d f (t\<lparr>calls := calls t @ [(c, r)]\<rparr>)" for r
    using assms(1,2) by (simp add: tally_def plain_def)
  with assms(3,4) show ?thesis by (simp add: wp_ccall)
qed

lemma wp_plain_check_err:
  assumes "tally w d f t" and "n = 0 \<Longrightarrow> Q () t" and "\<And>e u. tally w d f u \<Longrightarrow> E e u"
  shows "wp (check_err L n) Q E t"
  using assms by (auto simp: wp_check_err simp del: wp_ccall intro!: wp_plain_call [where w = w])

lemma tally_cancel:
  assumes "tally w (Suc d) f t" and "\<And>r u. tally w d f u \<Longrightarrow> Q r u" and "\<And>e u. tally w d f u \<Longrightarrow> E e u"
  shows "wp (ccall L (A (Aio_cancel a))) Q E t"
proof -
  have "tally w d f (t\<lparr>calls := calls t @ [(A (Aio_cancel a), r)]\<rparr>)" for r
    using assms(1) by (simp add: tally_def kind_defs)
  with assms(2,3) show ?thesis by (simp add: wp_ccall)
qed

lemma tally_free:
  assumes "tally w d (Suc f) t" and "\<And>r u. tally w d f u \<Longrightarrow> Q r u" and "\<And>e u. tally w d f u \<Longrightarrow> E e u"
  shows "wp (ccall L (A (Sync_recv_free v))) Q E t"
proof -
  have "tally w d f (t\<lparr>calls := calls t @ [(A (Sync_recv_free v), r)]\<rparr>)" for r
    using assms(1) by (simp add: tally_def kind_defs)
  with assms(2,3) show ?thesis by (simp add: wp_ccall)
qed

lemma tally_alloc:
  assumes "tally w d f t" and "\<And>r u. r_val r = 0 \<Longrightarrow> tally w d (Suc f) u \<Longrightarrow> Q r u"
    and "\<And>r u. r_val r \<noteq> 0 \<Longrightarrow> tally w d f u \<Longrightarrow> Q r u" and "\<And>e u. tally w d f u \<Longrightarrow> E e u"
  shows "wp (ccall L (A Sync_recv_alloc)) Q E t"
proof -
  let ?r = "fn L (calls t) (A Sync_recv_alloc)"
  have "tally w d (if r_val ?r = 0 \<and> r_exn ?r = None then Suc f else f)
      (t\<lparr>calls := calls t @ [(A Sync_recv_alloc, ?r)]\<rparr>)"
    using assms(1) by (simp add: tally_def kind_defs)
  with assms(2) [of ?r] assms(3) [of ?r] assms(4) show ?thesis by (cases "r_val ?r = 0") (auto simp: wp_ccall)
qed

lemma tally_wait_loop:
  "tally w 0 f t \<Longrightarrow> wp (wait_loop L v s n) (\<lambda>_. tally w 0 f) (\<lambda>_. tally w 1 f) t"
proof (induction n arbitrary: t)
  case (Suc n)
  have "tally w (if r_exn r = None then 0 else 1) f (t\<lparr>calls := calls t @ [(A (Sync_recv_wait v s), r)]\<rparr>)" for r
    using Suc.prems by (simp add: tally_def kind_defs)
  note st = this
  show ?case
    using Suc.IH st [of "fn L (calls t) (A (Sync_recv_wait v s))"]
    by (auto simp: wp_bnd wp_ccall wp_if wp_ret simp del: cnt_call)
qed (simp add: wp_ret)

lemmas tally_rules = tally_cancel tally_free tally_alloc wp_plain_check_err wp_plain_call

lemma tally_abandon:
  "tally w 1 f t \<Longrightarrow> wp (abandon_recv L a) (\<lambda>_. tally w 0 f) (\<lambda>_. tally w 0 f) t"
  unfolding abandon_recv_def
  by (auto simp: wp_simps simp del: wp_ccall
      intro!: tally_cancel [where w = w and d = 0 and f = f] wp_plain_call [where w = w and d = 0 and f = f])

lemma tally_finish:
  "tally w 0 f t \<Longrightarrow> wp (finish_recv L a) (\<lambda>_. tally w 0 f) (\<lambda>_. tally w 0 f) t"
  unfolding finish_recv_def
  by (auto simp: wp_simps simp del: wp_ccall wp_check_err
      intro!: wp_plain_call [where w = w and d = 0 and f = f] wp_plain_check_err [where w = w and d = 0 and f = f])

lemma tally_slices:
  assumes "tally w 0 f t"
  shows "wp (aio_recv_slices L n rf target timeout sl recv) (\<lambda>_. tally w 0 f) (\<lambda>_. tally w 0 f) t"
proof -
  have loop: "wp (wait_loop L recv sl n)
     (\<lambda>x. wp (if x then finish_recv L a else ret None) (\<lambda>_. tally w 0 f) (\<lambda>_. tally w 0 f))
     (\<lambda>e. wp (abandon_recv L a) (\<lambda>_. tally w 0 f) (\<lambda>_. tally w 0 f)) u" if "tally w 0 f u" for a u
    by (rule wp_mono [OF tally_wait_loop [OF that]]) (auto simp: wp_ret intro: tally_finish tally_abandon)
  show ?thesis
    unfolding aio_recv_slices_def Let_def wp_bnd wp_except wp_andthen wp_raise
    using assms by (auto intro!: wp_plain_call [where w = w and d = 0 and f = f] loop)
qed

lemma tally_path:
  assumes "tally w 0 0 t"
  shows "wp (aio_recv_path L n rf target timeout sl)
    (\<lambda>x. tally w 0 (if x = None then 1 else 0)) (\<lambda>_. tally w 0 0) t"
proof -
  have free: "wp (ccall L (A (Sync_recv_free v))) (\<lambda>_. tally w 0 0) (\<lambda>_. tally w 0 0) u"
    if "tally w 0 1 u" for v u
    using that by (auto intro!: tally_free [where w = w and d = 0 and f = 0])
  have slices: "wp (finally_some (aio_recv_slices L n rf target timeout sl v)
       (bnd (ccall L (A (Sync_recv_free v))) (\<lambda>_. ret ())))
     (\<lambda>x. tally w 0 (if x = None then 1 else 0)) (\<lambda>_. tally w 0 0) u" if "tally w 0 1 u" for v u
    unfolding wp_finally_some
    by (rule wp_mono [OF tally_slices [OF that]])
      (auto simp: wp_bnd wp_ret free split: option.splits)
  show ?thesis
    unfolding aio_recv_path_def wp_bnd wp_andthen
    by (rule tally_alloc [OF assms])
      (auto intro!: wp_plain_check_err [where w = w and d = 0 and f = 0] slices)
qed


section \<open>Termination and nonblocking receives\<close>

definition is_wait :: "ncall \<times> nres \<Rightarrow> bool" where
  "is_wait cr \<longleftrightarrow> (\<exists>v s. fst cr = A (Sync_recv_wait v s))"

text \<open>nng reports the completion of a receive at the latest at the process's slice \<open>N\<close>.\<close>

definition completes_by :: "nat \<Rightarrow> nng_lib \<Rightarrow> bool" where
  "completes_by N L \<longleftrightarrow> (\<forall>tr v s. N \<le> length (filter is_wait tr) \<longrightarrow>
     r_val (fn L tr (A (Sync_recv_wait v s))) \<noteq> 0)"

lemma wait_loop_returns:
  "completes_by N L \<Longrightarrow> N \<le> cnt is_wait t + n \<Longrightarrow>
    wp (wait_loop L v s (Suc n)) (\<lambda>b _. b) (\<lambda>_ _. True) t"
proof (induction n arbitrary: t)
  case 0
  then have "r_val (fn L (calls t) (A (Sync_recv_wait v s))) \<noteq> 0"
    by (simp add: completes_by_def cnt_def)
  then show ?case by (simp add: wp_simps)
next
  case (Suc n)
  let ?t = "t\<lparr>calls := calls t @ [(A (Sync_recv_wait v s), fn L (calls t) (A (Sync_recv_wait v s)))]\<rparr>"
  have "is_wait (A (Sync_recv_wait v s), r)" for r by (simp add: is_wait_def)
  then have "N \<le> cnt is_wait ?t + n" using Suc.prems by simp
  from Suc.IH [OF Suc.prems(1) this] show ?case
    by (subst wait_loop.simps) (simp add: wp_bnd wp_ccall wp_if wp_ret)
qed

lemma finish_recv_some: "wp (finish_recv L a) (\<lambda>x _. x \<noteq> None) (\<lambda>_ _. True) t"
  by (auto simp: finish_recv_def wp_simps)

text \<open>A receive that nng completes returns. If nng reports the completion of the receive at the
  latest at slice \<open>N\<close>, then \<open>N\<close> further slices are enough for \<open>_sliced_aio_recv\<close> to end
  with a message or an exception, whatever the timeout and the functions used.\<close>

theorem sliced_recv_returns:
  assumes "completes_by N L"
  shows "wp (sliced_aio_recv L (Suc N) rf target timeout sl nb) (\<lambda>x _. x \<noteq> None) (\<lambda>_ _. True) w"
proof -
  let ?Q = "\<lambda>x _. x \<noteq> None" and ?E = "\<lambda>_ _. True"
  have fin: "wp (if b then finish_recv L a else ret None) ?Q ?E u" if b for a b and u :: "'a world_scheme"
    using finish_recv_some that by simp
  have triv: "wp m (\<lambda>_. ?E e) ?E t" for m :: "('a world_scheme, pyexc, unit) prog" and e t
    by (simp add: wp_def split: prod.split sum.split)
  have loop: "wp (wait_loop L v sl (Suc N)) (\<lambda>b. wp (if b then finish_recv L a else ret None) ?Q ?E)
      (\<lambda>e. wp (abandon_recv L a) (\<lambda>_. ?E e) ?E) t" for v a and t :: "'a world_scheme"
    by (rule wp_mono [OF wait_loop_returns [OF assms]]) (simp, erule fin, rule triv)
  have call: "wp (ccall L c) Q ?E t" if "\<And>r u. Q r u" for c Q and t :: "'a world_scheme"
    using that by (simp add: wp_ccall)
  have slices: "wp (aio_recv_slices L (Suc N) rf target tmo sl v) ?Q ?E t" for tmo v and t :: "'a world_scheme"
    unfolding aio_recv_slices_def Let_def wp_bnd wp_except wp_andthen wp_raise
    by (intro call loop)
  have path: "wp (aio_recv_path L (Suc N) rf target tmo sl) ?Q ?E t" for tmo and t :: "'a world_scheme"
    unfolding aio_recv_path_def wp_bnd wp_andthen wp_finally_some
    by (intro call)
      (auto simp: wp_check_err wp_ccall wp_bnd wp_ret triv split: option.split intro!: wp_mono [OF slices])
  have nb: "wp (or_else m (f :: ('a world_scheme, pyexc, int option) prog)) ?Q ?E t"
    if "\<And>t. wp f ?Q ?E t" for m f t
    using that by (auto simp: wp_or_else wp_def split: option.splits prod.splits sum.splits)
  have err: "wp (andthen (whenp b (check_err L e)) f) ?Q ?E t" if "\<And>t. wp f ?Q ?E t"
    for b e f and t :: "'a world_scheme"
    using that by (auto simp: wp_andthen wp_whenp wp_check_err wp_ccall)
  show ?thesis
    unfolding sliced_aio_recv_def Let_def
    by (cases nb) (simp_all only: option.case, rule path, intro nb err path)
qed

theorem sliced_recv_returns_witness:
  "wp (sliced_aio_recv (demo_lib (\<lambda>tr c. case c of A a \<Rightarrow> (case a of Sync_recv_wait v s \<Rightarrow>
        if 2 \<le> length (filter is_wait tr) then 1 else 0 | _ \<Rightarrow> 0) | _ \<Rightarrow> 0) (\<lambda>_ _. None) (\<lambda>_ _. []))
      3 Nng_recv_aio 7 None 100 None) (\<lambda>x _. x \<noteq> None) (\<lambda>_ _. True) world0"
  using sliced_recv_returns [of 2 "demo_lib (\<lambda>tr c. case c of A a \<Rightarrow> (case a of Sync_recv_wait v s \<Rightarrow>
        if 2 \<le> length (filter is_wait tr) then 1 else 0 | _ \<Rightarrow> 0) | _ \<Rightarrow> 0) (\<lambda>_ _. None) (\<lambda>_ _. [])"
      Nng_recv_aio 7 None 100 None world0]
  by (simp add: completes_by_def demo_lib_def numeral_3_eq_3)

end
