(* ===== verification/Pipes.thy ===== *)
theory Pipes
  imports Runtime "HOL-Library.Multiset"
begin

text \<open>
  The pipe event dispatcher of \<^verbatim>\<open>pynng/_base.py\<close>: \<open>_handle_pipe_event\<close>,
  \<open>_do_callbacks\<close>, \<open>_PipeState\<close> and the callback lists of a socket. nng delivers the
  events of many pipes on many threads, so the dispatcher is a step relation: a step is what a
  thread does while it holds the pipe lock, or the call or the return of one callback. A callback is
  a number and may do anything; what it can do to the dispatcher (close a pipe, register or
  unregister callbacks, cause another event on its own thread) are steps of their own.

  The lemmas show an invariant of every reachable state; the properties are consequences of it.
\<close>

section \<open>The state of the dispatcher\<close>

datatype pipe_event = AddPre | AddPost | RemPost | OtherEvent

text \<open>The event of a number, by nng's constants, in the order of the code's tests.\<close>

definition pipe_event_of :: "nng_lib \<Rightarrow> int \<Rightarrow> pipe_event" where
  "pipe_event_of L n =
     (if n = const L ''NNG_PIPE_EV_REM_POST'' then RemPost
      else if n = const L ''NNG_PIPE_EV_ADD_PRE'' then AddPre
      else if n = const L ''NNG_PIPE_EV_ADD_POST'' then AddPost else OtherEvent)"

type_synonym tid = nat
type_synonym callback = nat

text \<open>
  A \<open>_PipeState\<close> with the \<open>Pipe\<close> made for it: the nng pipe, named by its id, and the
  \<open>_closed\<close> flag are those of the \<open>Pipe\<close>. States are never shared, so the number of a
  state also names its \<open>Pipe\<close>.
\<close>

record pipe_state =
  st_pipe :: int
  st_closed :: bool
  running :: "tid list"
  added :: bool
  rejected :: bool
  removing :: bool

text \<open>
  What a socket keeps: \<open>_pipe_states\<close>, the states made so far, \<open>_pipes\<close>,
  \<open>_removed_pipe_ids\<close> in insertion order, and the three callback lists.
\<close>

record pipe_socket =
  pstates :: "(int \<times> nat) list"
  pobjs :: "pipe_state list"
  pipes :: "(int \<times> nat) list"
  removed_ids :: "int list"
  on_pre_pipe_add :: "callback list"
  on_post_pipe_add :: "callback list"
  on_post_pipe_remove :: "callback list"

definition pipe_socket0 :: pipe_socket where
  "pipe_socket0 = \<lparr>pstates = [], pobjs = [], pipes = [], removed_ids = [],
     on_pre_pipe_add = [], on_post_pipe_add = [], on_post_pipe_remove = []\<rparr>"

definition new_pipe_state :: "int \<Rightarrow> pipe_state" where
  "new_pipe_state pid = \<lparr>st_pipe = pid, st_closed = False, running = [], added = False,
     rejected = False, removing = False\<rparr>"

section \<open>Operations\<close>

definition MAX_REMOVED_PIPE_IDS :: nat where "MAX_REMOVED_PIPE_IDS = 1024"

text \<open>\<open>_remember_removed_pipe_id\<close>: a dict insertion, then the oldest key goes if there are too many.\<close>

definition remember_removed :: "int \<Rightarrow> int list \<Rightarrow> int list" where
  "remember_removed pid ids =
     (let ids' = (if pid \<in> set ids then ids else ids @ [pid])
      in if length ids' > MAX_REMOVED_PIPE_IDS then tl ids' else ids')"

definition upd_state :: "nat \<Rightarrow> (pipe_state \<Rightarrow> pipe_state) \<Rightarrow> 'a pipe_socket_scheme \<Rightarrow> 'a pipe_socket_scheme" where
  "upd_state i f s = s\<lparr>pobjs := (pobjs s)[i := f (pobjs s ! i)]\<rparr>"

definition new_state :: "int \<Rightarrow> 'a pipe_socket_scheme \<Rightarrow> nat \<times> 'a pipe_socket_scheme" where
  "new_state pid s = (length (pobjs s),
     s\<lparr>pobjs := pobjs s @ [new_pipe_state pid],
       pstates := AList.update pid (length (pobjs s)) (pstates s)\<rparr>)"

text \<open>What a thread does after the first critical section: nothing, wait, or run callbacks.\<close>

datatype entered = Dropped | Blocked nat | Go nat "callback list"

definition begin_callbacks ::
  "tid \<Rightarrow> nat \<Rightarrow> callback list \<Rightarrow> 'a pipe_socket_scheme \<Rightarrow> 'a pipe_socket_scheme \<times> entered" where
  "begin_callbacks me i cbs s = (upd_state i (running_update (\<lambda>r. r @ [me])) s, Go i cbs)"

text \<open>The test of the wait loop of \<open>REM_POST\<close>, run on entry and whenever the condition is notified.\<close>

definition remove_or_wait ::
  "tid \<Rightarrow> nat \<Rightarrow> 'a pipe_socket_scheme \<Rightarrow> 'a pipe_socket_scheme \<times> entered" where
  "remove_or_wait me i s =
     (if list_ex (\<lambda>t. t \<noteq> me) (running (pobjs s ! i)) then (s, Blocked i)
      else begin_callbacks me i
        (if rejected (pobjs s ! i) then [] else on_post_pipe_remove s) s)"

definition enter_remove :: "tid \<Rightarrow> int \<Rightarrow> 'a pipe_socket_scheme \<Rightarrow> 'a pipe_socket_scheme \<times> entered" where
  "enter_remove me pid s =
     (case map_of (pstates s) pid of
        None \<Rightarrow> (s\<lparr>removed_ids := remember_removed pid (removed_ids s)\<rparr>, Dropped)
      | Some i \<Rightarrow>
          if removing (pobjs s ! i) then (s, Dropped)
          else let s1 = upd_state i (removing_update (\<lambda>_. True)) s;
                   s2 = (if added (pobjs s1 ! i) then s1
                         else s1\<lparr>removed_ids := remember_removed pid (removed_ids s1)\<rparr>)
               in remove_or_wait me i s2)"

definition enter_add_pre :: "tid \<Rightarrow> int \<Rightarrow> 'a pipe_socket_scheme \<Rightarrow> 'a pipe_socket_scheme \<times> entered" where
  "enter_add_pre me pid s =
     (case map_of (pstates s) pid of
        Some i \<Rightarrow> (s, Dropped)
      | None \<Rightarrow>
          (case new_state pid s of (i, s1) \<Rightarrow>
             begin_callbacks me i (on_pre_pipe_add s1)
               (s1\<lparr>pipes := AList.update pid i (pipes s1)\<rparr>)))"

definition post_added :: "tid \<Rightarrow> int \<Rightarrow> nat \<Rightarrow> 'a pipe_socket_scheme \<Rightarrow> 'a pipe_socket_scheme \<times> entered" where
  "post_added me pid i s =
     (let s1 = upd_state i (added_update (\<lambda>_. True)) s;
          s2 = s1\<lparr>pipes := AList.update pid i (pipes s1)\<rparr>
      in begin_callbacks me i (on_post_pipe_add s2) s2)"

definition enter_add_post :: "tid \<Rightarrow> int \<Rightarrow> 'a pipe_socket_scheme \<Rightarrow> 'a pipe_socket_scheme \<times> entered" where
  "enter_add_post me pid s =
     (case map_of (pstates s) pid of
        None \<Rightarrow> (case new_state pid s of (i, s1) \<Rightarrow> post_added me pid i s1)
      | Some i \<Rightarrow>
          if removing (pobjs s ! i) \<or> added (pobjs s ! i) \<or> rejected (pobjs s ! i) then (s, Dropped)
          else post_added me pid i s)"

text \<open>The first critical section of \<open>_handle_pipe_event\<close>.\<close>

definition enter_event ::
  "tid \<Rightarrow> pipe_event \<Rightarrow> int \<Rightarrow> 'a pipe_socket_scheme \<Rightarrow> 'a pipe_socket_scheme \<times> entered" where
  "enter_event me ev pid s =
     (if pid \<in> set (removed_ids s) then (s, Dropped)
      else case ev of
        RemPost \<Rightarrow> enter_remove me pid s
      | AddPre \<Rightarrow> enter_add_pre me pid s
      | AddPost \<Rightarrow> enter_add_post me pid s
      | OtherEvent \<Rightarrow> (s, Dropped))"

text \<open>The last critical section, the \<open>finally\<close> block of \<open>_handle_pipe_event\<close>.\<close>

definition leave_event :: "tid \<Rightarrow> pipe_event \<Rightarrow> nat \<Rightarrow> 'a pipe_socket_scheme \<Rightarrow> 'a pipe_socket_scheme" where
  "leave_event me ev i s =
     (let pid = st_pipe (pobjs s ! i);
          s1 = upd_state i (running_update (remove1 me)) s
      in if ev = RemPost then
           (if map_of (pstates s1) pid = Some i
            then s1\<lparr>pstates := AList.delete pid (pstates s1), pipes := AList.delete pid (pipes s1)\<rparr>
            else s1)
         else if ev = AddPre \<and> map_of (pstates s1) pid = Some i \<and> \<not> added (pobjs s1 ! i) \<and>
             st_closed (pobjs s1 ! i)
         then (upd_state i (rejected_update (\<lambda>_. True)) s1)\<lparr>pipes := AList.delete pid (pipes s1)\<rparr>
         else s1)"

text \<open>The callback lists: \<open>list.append\<close>, and \<open>list.remove\<close>, a \<open>ValueError\<close> for an absent one.\<close>

definition add_callback :: "pipe_event \<Rightarrow> callback \<Rightarrow> 'a pipe_socket_scheme \<Rightarrow> 'a pipe_socket_scheme" where
  "add_callback ev c s = (case ev of
     AddPre \<Rightarrow> s\<lparr>on_pre_pipe_add := on_pre_pipe_add s @ [c]\<rparr>
   | AddPost \<Rightarrow> s\<lparr>on_post_pipe_add := on_post_pipe_add s @ [c]\<rparr>
   | RemPost \<Rightarrow> s\<lparr>on_post_pipe_remove := on_post_pipe_remove s @ [c]\<rparr>
   | OtherEvent \<Rightarrow> s)"

definition callbacks_of :: "pipe_event \<Rightarrow> 'a pipe_socket_scheme \<Rightarrow> callback list" where
  "callbacks_of ev s = (case ev of AddPre \<Rightarrow> on_pre_pipe_add s | AddPost \<Rightarrow> on_post_pipe_add s
     | RemPost \<Rightarrow> on_post_pipe_remove s | OtherEvent \<Rightarrow> [])"

definition remove_callback ::
  "pipe_event \<Rightarrow> callback \<Rightarrow> ('a pipe_socket_scheme, pyexc, unit) prog" where
  "remove_callback ev c s =
     (if c \<in> set (callbacks_of ev s) then
        (Inr (), case ev of
           AddPre \<Rightarrow> s\<lparr>on_pre_pipe_add := remove1 c (on_pre_pipe_add s)\<rparr>
         | AddPost \<Rightarrow> s\<lparr>on_post_pipe_add := remove1 c (on_post_pipe_add s)\<rparr>
         | RemPost \<Rightarrow> s\<lparr>on_post_pipe_remove := remove1 c (on_post_pipe_remove s)\<rparr>
         | OtherEvent \<Rightarrow> s)
      else (Inl ValueError, s))"

text \<open>\<open>Socket.pipes\<close>, and the table that \<open>_try_associate_msg_with_pipe\<close> looks a pipe id up in.\<close>

definition active_pipes :: "'a pipe_socket_scheme \<Rightarrow> nat list" where
  "active_pipes s = map snd (pipes s)"

definition pipe_table :: "'a pipe_socket_scheme \<Rightarrow> int \<Rightarrow> int option" where
  "pipe_table s pid = map_option (\<lambda>i. st_pipe (pobjs s ! i)) (map_of (pstates s) pid)"

section \<open>Threads\<close>

text \<open>
  The phase of an event that was not dropped: it waits for other callbacks of the pipe, has the
  callbacks \<open>cs\<close> left, or runs \<open>c\<close> with \<open>cs\<close> left after it.
\<close>

datatype phase = Waiting | Left "callback list" | Calling callback "callback list"

text \<open>
  The dispatcher: the socket and the events under way, oldest first, each under its event and the
  number of its pipe state, with its thread. The rest is history: the callbacks called, the events
  that got to their callbacks with their thread and the list they took, the ones a \<open>BaseException\<close> ended early,
  the events nng delivered, and the ids removed before their \<open>ADD_POST\<close>.
\<close>

type_synonym act = "pipe_event \<times> nat"

record dispatcher = pipe_socket +
  frames :: "(act \<times> tid \<times> phase) list"
  log :: "(tid \<times> pipe_event \<times> nat \<times> callback) list"
  acts :: "(act \<times> tid \<times> callback list) list"
  aborted :: "act set"
  delivered :: "(pipe_event \<times> int) list"
  early :: "int list"

definition top_frame :: "tid \<Rightarrow> (act \<times> tid \<times> phase) list \<Rightarrow> (act \<times> phase) option" where
  "top_frame t fs = map_option (\<lambda>(k, _, ph). (k, ph)) (find (\<lambda>(k, u, ph). u = t) (rev fs))"

text \<open>A thread can get an event when it handles none or is inside a callback.\<close>

definition can_deliver :: "tid \<Rightarrow> 'a dispatcher_scheme \<Rightarrow> bool" where
  "can_deliver t d = (case top_frame t (frames d) of
     None \<Rightarrow> True | Some (k, Calling c cs) \<Rightarrow> True | _ \<Rightarrow> False)"

definition entered_frame ::
  "tid \<Rightarrow> pipe_event \<Rightarrow> 'a dispatcher_scheme \<times> entered \<Rightarrow> 'a dispatcher_scheme" where
  "entered_frame t ev x = (case x of
     (d, Dropped) \<Rightarrow> d
   | (d, Blocked i) \<Rightarrow> d\<lparr>frames := AList.update (ev, i) (t, Waiting) (frames d)\<rparr>
   | (d, Go i cbs) \<Rightarrow> d\<lparr>frames := AList.update (ev, i) (t, Left cbs) (frames d),
        acts := ((ev, i), t, cbs) # acts d\<rparr>)"

text \<open>A removal is early when the pipe is new or its \<open>ADD_POST\<close> was not seen.\<close>

definition early_removal :: "pipe_event \<Rightarrow> int \<Rightarrow> 'a pipe_socket_scheme \<Rightarrow> bool" where
  "early_removal ev pid s \<longleftrightarrow> ev = RemPost \<and> pid \<notin> set (removed_ids s) \<and>
     (case map_of (pstates s) pid of None \<Rightarrow> True
      | Some i \<Rightarrow> \<not> removing (pobjs s ! i) \<and> \<not> added (pobjs s ! i))"

definition deliver :: "tid \<Rightarrow> pipe_event \<Rightarrow> int \<Rightarrow> 'a dispatcher_scheme \<Rightarrow> 'a dispatcher_scheme" where
  "deliver t ev pid d =
     (let d1 = d\<lparr>delivered := delivered d @ [(ev, pid)],
                 early := early d @ (if early_removal ev pid d then [pid] else [])\<rparr>
      in entered_frame t ev (enter_event t ev pid d1))"

inductive dstep :: "dispatcher \<Rightarrow> dispatcher \<Rightarrow> bool" where
  deliver_event: "can_deliver t d \<Longrightarrow> dstep d (deliver t ev pid d)"
| wake_up: "top_frame t (frames d) = Some ((ev, i), Waiting) \<Longrightarrow>
    dstep d (entered_frame t ev (remove_or_wait t i d))"
| call_callback: "top_frame t (frames d) = Some ((ev, i), Left (c # cs)) \<Longrightarrow>
    dstep d (d\<lparr>frames := AList.update (ev, i) (t, Calling c cs) (frames d),
               log := log d @ [(t, ev, i, c)]\<rparr>)"
| callback_returns: "top_frame t (frames d) = Some ((ev, i), Calling c cs) \<Longrightarrow>
    dstep d (d\<lparr>frames := AList.update (ev, i) (t, Left cs) (frames d)\<rparr>)"
| callback_aborts: "top_frame t (frames d) = Some ((ev, i), Calling c cs) \<Longrightarrow>
    dstep d (d\<lparr>frames := AList.update (ev, i) (t, Left []) (frames d),
               aborted := insert (ev, i) (aborted d)\<rparr>)"
| leave_dispatcher: "top_frame t (frames d) = Some ((ev, i), Left []) \<Longrightarrow>
    dstep d (leave_event t ev i (d\<lparr>frames := AList.delete (ev, i) (frames d)\<rparr>))"
| close_pipe: "dstep d (upd_state i (st_closed_update (\<lambda>_. True)) d)"
| register: "dstep d (add_callback ev c d)"
| unregister: "dstep d (snd (remove_callback ev c d))"

definition dispatcher0 :: dispatcher where
  "dispatcher0 = pipe_socket.extend pipe_socket0
     \<lparr>frames = [], log = [], acts = [], aborted = {}, delivered = [], early = []\<rparr>"

definition dinit :: "dispatcher \<Rightarrow> bool" where
  "dinit d \<longleftrightarrow> d = dispatcher0"

section \<open>The invariant\<close>

text \<open>The threads that run callbacks for the pipe state \<open>i\<close>, by the events under way.\<close>

fun busy :: "nat \<Rightarrow> (act \<times> tid \<times> phase) list \<Rightarrow> tid multiset" where
  "busy i [] = {#}"
| "busy i ((k, t, ph) # fs) = (if snd k = i \<and> ph \<noteq> Waiting then {#t#} else {#}) + busy i fs"

lemma busy_append [simp]: "busy i (fs @ gs) = busy i fs + busy i gs"
  by (induction fs) auto

lemma busy_update_new:
  "map_of fs k = None \<Longrightarrow>
   busy i (AList.update k (t, ph) fs) = busy i fs + (if snd k = i \<and> ph \<noteq> Waiting then {#t#} else {#})"
  by (simp add: dict_update_new)

lemma busy_update_old:
  "map_of fs k = Some (t, ph0) \<Longrightarrow>
   busy i (AList.update k (t, ph) fs) + (if snd k = i \<and> ph0 \<noteq> Waiting then {#t#} else {#}) =
   busy i fs + (if snd k = i \<and> ph \<noteq> Waiting then {#t#} else {#})"
  by (induction fs) (auto split: if_splits)

lemma busy_delete:
  "dict_ok fs \<Longrightarrow> map_of fs k = Some (t, ph0) \<Longrightarrow>
   busy i fs = add_mset t (busy i (AList.delete k fs)) \<or> \<not> (snd k = i \<and> ph0 \<noteq> Waiting)"
proof (induction fs)
  case (Cons f fs)
  then show ?case
    by (cases f) (auto simp: dict_ok_def delete_id split: if_splits)
qed simp

lemma busy_delete_other:
  "dict_ok fs \<Longrightarrow> map_of fs k = Some (t, ph0) \<Longrightarrow> snd k \<noteq> i \<or> ph0 = Waiting \<Longrightarrow>
   busy i (AList.delete k fs) = busy i fs"
  by (induction fs) (auto simp: dict_ok_def delete_id split: if_splits)

lemma in_busy: "t \<in># busy i fs \<longleftrightarrow> (\<exists>k ph. (k, t, ph) \<in> set fs \<and> snd k = i \<and> ph \<noteq> Waiting)"
  by (induction fs rule: busy.induct) (simp, fastforce split: if_splits)

text \<open>No event of a pipe starts after its \<open>REM_POST\<close>.\<close>

fun rem_last :: "act list \<Rightarrow> bool" where
  "rem_last [] = True"
| "rem_last ((ev, i) # ks) = ((ev = RemPost \<longrightarrow> i \<notin> snd ` set ks) \<and> rem_last ks)"

lemma rem_last_snoc [simp]:
  "rem_last (ks @ [(ev, i)]) = (rem_last ks \<and> (RemPost, i) \<notin> set ks)"
  by (induction ks rule: rem_last.induct) force+

lemma rem_last_delete: "rem_last (map fst fs) \<Longrightarrow> rem_last (map fst (AList.delete k fs))"
  by (induction fs) (auto simp: image_iff delete_conv' AList.delete_eq)

section \<open>scratch end\<close>

lemma top_frame_simps [simp]:
  "top_frame t [] = None"
  "top_frame t (fs @ [(k, u, ph)]) = (if u = t then Some (k, ph) else top_frame t fs)"
  by (simp_all add: top_frame_def)

lemma top_frame_set: "top_frame t fs = Some (k, ph) \<Longrightarrow> (k, t, ph) \<in> set fs"
  by (induction fs rule: rev_induct) (auto split: if_splits)

lemma top_frame_map_of: "dict_ok fs \<Longrightarrow> top_frame t fs = Some (k, ph) \<Longrightarrow> map_of fs k = Some (t, ph)"
  by (simp add: dict_ok_def top_frame_set)

lemma top_frame_last:
  assumes "top_frame t fs = Some ((ev, i), ph)" and "rem_last (map fst fs)" and "dict_ok fs"
    and "map_of fs (RemPost, i) = Some (t, ph')"
  shows "ev = RemPost"
  using assms
proof (induction fs rule: rev_induct)
  case (snoc x fs)
  obtain k u q where x: "x = (k, u, q)" by (cases x) auto
  show ?case
  proof (cases "u = t")
    case True
    then have k: "k = (ev, i)" "q = ph" using snoc.prems(1) by (auto simp: x)
    show ?thesis
    proof (rule ccontr)
      assume "ev \<noteq> RemPost"
      then have "map_of fs (RemPost, i) = Some (t, ph')" using snoc.prems(4) by (auto simp: x k map_add_def split: option.splits)
      then have "(RemPost, i) \<in> set (map fst fs)" by (force dest: map_of_SomeD)
      with snoc.prems(2) show False by (simp add: x k)
    qed
  next
    case False
    then have "top_frame t fs = Some ((ev, i), ph)" using snoc.prems(1) by (simp add: x)
    moreover have "rem_last (map fst fs)" "dict_ok fs" using snoc.prems(2,3)
      by (cases k, simp_all add: x dict_ok_def)
    moreover have "map_of fs (RemPost, i) = Some (t, ph')"
      using snoc.prems(4) False by (auto simp: x map_add_def split: if_splits option.splits)
    ultimately show ?thesis by (rule snoc.IH)
  qed
qed simp

text \<open>The pipe states of the table, and the pipes: the ones that were not rejected.\<close>

definition table_ok :: "(int \<times> nat) list \<Rightarrow> pipe_state list \<Rightarrow> (int \<times> nat) list \<Rightarrow> bool" where
  "table_ok ps os pp \<longleftrightarrow> dict_ok ps \<and>
     (\<forall>pid i. map_of ps pid = Some i \<longrightarrow> i < length os \<and> st_pipe (os ! i) = pid) \<and>
     pp = filter (\<lambda>(pid, i). \<not> rejected (os ! i)) ps"

text \<open>The events under way, and \<open>running\<close> as their threads.\<close>

definition frames_ok :: "pipe_state list \<Rightarrow> (act \<times> tid \<times> phase) list \<Rightarrow> bool" where
  "frames_ok os fs \<longleftrightarrow> dict_ok fs \<and> rem_last (map fst fs) \<and>
     (\<forall>ev i t ph. map_of fs (ev, i) = Some (t, ph) \<longrightarrow>
        i < length os \<and> (ph = Waiting \<longrightarrow> ev = RemPost)) \<and>
     (\<forall>i < length os. mset (running (os ! i)) = busy i fs)"

text \<open>What the flags of a pipe state say about its events.\<close>

definition flags_ok ::
  "pipe_state list \<Rightarrow> (act \<Rightarrow> (tid \<times> phase) option) \<Rightarrow> (act \<Rightarrow> (tid \<times> callback list) option) \<Rightarrow> bool" where
  "flags_ok os fs ac \<longleftrightarrow>
     (\<forall>i. fs (RemPost, i) \<noteq> None \<or> ac (RemPost, i) \<noteq> None \<longrightarrow> removing (os ! i)) \<and>
     (\<forall>i. fs (AddPost, i) \<noteq> None \<or> ac (AddPost, i) \<noteq> None \<longrightarrow> added (os ! i)) \<and>
     (\<forall>i < length os. rejected (os ! i) \<longrightarrow> \<not> added (os ! i) \<and>
        (\<forall>t cbs. ac (RemPost, i) = Some (t, cbs) \<longrightarrow> cbs = [])) \<and>
     (\<forall>ev i. ac (ev, i) \<noteq> None \<longrightarrow> i < length os)"

text \<open>
  An event has begun its callbacks unless it waits; a pipe in the table that is being removed has
  its removal under way; once a removal runs, no other thread handles an event of the pipe.
\<close>

definition acts_ok ::
  "(int \<Rightarrow> nat option) \<Rightarrow> pipe_state list \<Rightarrow> (act \<Rightarrow> (tid \<times> phase) option) \<Rightarrow>
   (act \<Rightarrow> (tid \<times> callback list) option) \<Rightarrow> bool" where
  "acts_ok ps os fs ac \<longleftrightarrow>
     (\<forall>k t ph. fs k = Some (t, ph) \<longrightarrow>
        (if ph = Waiting then ac k = None else \<exists>cbs. ac k = Some (t, cbs))) \<and>
     (\<forall>pid i. ps pid = Some i \<and> removing (os ! i) \<longrightarrow> fs (RemPost, i) \<noteq> None) \<and>
     (\<forall>i t cbs ev u ph. ac (RemPost, i) = Some (t, cbs) \<and> fs (ev, i) = Some (u, ph) \<longrightarrow> u = t)"

text \<open>The callbacks called for an event against the list it took.\<close>

definition logged :: "(tid \<times> pipe_event \<times> nat \<times> callback) list \<Rightarrow> act \<Rightarrow> callback list" where
  "logged l k = map (\<lambda>(t, ev, i, c). c) (filter (\<lambda>(t, ev, i, c). (ev, i) = k) l)"

fun log_spec :: "callback list \<Rightarrow> (tid \<times> callback list) option \<Rightarrow> (tid \<times> phase) option \<Rightarrow> bool \<Rightarrow> bool" where
  "log_spec l None f ab = (l = [])"
| "log_spec l (Some (t, cbs)) None ab = (l = cbs \<or> ab \<and> (\<exists>r. cbs = l @ r))"
| "log_spec l (Some (t, cbs)) (Some (u, Waiting)) ab = False"
| "log_spec l (Some (t, cbs)) (Some (u, Left cs)) ab =
     (l @ cs = cbs \<or> ab \<and> cs = [] \<and> (\<exists>r. cbs = l @ r))"
| "log_spec l (Some (t, cbs)) (Some (u, Calling c cs)) ab = (l @ cs = cbs)"

fun rem_sorted :: "(tid \<times> pipe_event \<times> nat \<times> callback) list \<Rightarrow> bool" where
  "rem_sorted [] = True"
| "rem_sorted ((t, ev, i, c) # l) =
     ((ev = RemPost \<longrightarrow> (\<forall>(u, ev', j, c') \<in> set l. j = i \<longrightarrow> u = t)) \<and> rem_sorted l)"

lemma rem_sorted_snoc [simp]:
  "rem_sorted (l @ [(u, ev, i, c)]) =
     (rem_sorted l \<and> (\<forall>t c'. (t, RemPost, i, c') \<in> set l \<longrightarrow> u = t))"
  by (induction l rule: rem_sorted.induct) auto

definition log_ok ::
  "(tid \<times> pipe_event \<times> nat \<times> callback) list \<Rightarrow> (act \<Rightarrow> (tid \<times> phase) option) \<Rightarrow>
   (act \<Rightarrow> (tid \<times> callback list) option) \<Rightarrow> act set \<Rightarrow> bool" where
  "log_ok l fs ac ab \<longleftrightarrow>
     (\<forall>k. log_spec (logged l k) (ac k) (fs k) (k \<in> ab)) \<and> rem_sorted l \<and>
     (\<forall>t ev i c. (t, ev, i, c) \<in> set l \<longrightarrow> (\<exists>cbs. ac (ev, i) = Some (t, cbs)))"

definition dinv :: "dispatcher \<Rightarrow> bool" where
  "dinv d \<longleftrightarrow>
     table_ok (pstates d) (pobjs d) (pipes d) \<and> frames_ok (pobjs d) (frames d) \<and>
     flags_ok (pobjs d) (map_of (frames d)) (map_of (acts d)) \<and>
     acts_ok (map_of (pstates d)) (pobjs d) (map_of (frames d)) (map_of (acts d)) \<and>
     log_ok (log d) (map_of (frames d)) (map_of (acts d)) (aborted d)"

section \<open>Preservation\<close>

lemma nth_upd:
  assumes "\<And>x. g (f x) = g x"
  shows "g (os[i := f (os ! i)] ! j) = g (os ! j)"
proof (cases "i < length os")
  case True
  then show ?thesis by (simp add: nth_list_update assms)
next
  case False
  then show ?thesis by (simp add: list_update_beyond)
qed

lemma nth_upd_closed [simp]:
  "st_pipe (os[i := st_closed_update h (os ! i)] ! j) = st_pipe (os ! j)"
  "running (os[i := st_closed_update h (os ! i)] ! j) = running (os ! j)"
  "added (os[i := st_closed_update h (os ! i)] ! j) = added (os ! j)"
  "rejected (os[i := st_closed_update h (os ! i)] ! j) = rejected (os ! j)"
  "removing (os[i := st_closed_update h (os ! i)] ! j) = removing (os ! j)"
  by (rule nth_upd, simp)+

lemma nth_upd_running [simp]:
  "st_pipe (os[i := running_update h (os ! i)] ! j) = st_pipe (os ! j)"
  "st_closed (os[i := running_update h (os ! i)] ! j) = st_closed (os ! j)"
  "added (os[i := running_update h (os ! i)] ! j) = added (os ! j)"
  "rejected (os[i := running_update h (os ! i)] ! j) = rejected (os ! j)"
  "removing (os[i := running_update h (os ! i)] ! j) = removing (os ! j)"
  by (rule nth_upd, simp)+

lemma nth_upd_added [simp]:
  "st_pipe (os[i := added_update h (os ! i)] ! j) = st_pipe (os ! j)"
  "st_closed (os[i := added_update h (os ! i)] ! j) = st_closed (os ! j)"
  "running (os[i := added_update h (os ! i)] ! j) = running (os ! j)"
  "rejected (os[i := added_update h (os ! i)] ! j) = rejected (os ! j)"
  "removing (os[i := added_update h (os ! i)] ! j) = removing (os ! j)"
  by (rule nth_upd, simp)+

lemma nth_upd_rejected [simp]:
  "st_pipe (os[i := rejected_update h (os ! i)] ! j) = st_pipe (os ! j)"
  "st_closed (os[i := rejected_update h (os ! i)] ! j) = st_closed (os ! j)"
  "running (os[i := rejected_update h (os ! i)] ! j) = running (os ! j)"
  "added (os[i := rejected_update h (os ! i)] ! j) = added (os ! j)"
  "removing (os[i := rejected_update h (os ! i)] ! j) = removing (os ! j)"
  by (rule nth_upd, simp)+

lemma nth_upd_removing [simp]:
  "st_pipe (os[i := removing_update h (os ! i)] ! j) = st_pipe (os ! j)"
  "st_closed (os[i := removing_update h (os ! i)] ! j) = st_closed (os ! j)"
  "running (os[i := removing_update h (os ! i)] ! j) = running (os ! j)"
  "added (os[i := removing_update h (os ! i)] ! j) = added (os ! j)"
  "rejected (os[i := removing_update h (os ! i)] ! j) = rejected (os ! j)"
  by (rule nth_upd, simp)+

text \<open>Updates of fields that a part of the invariant does not look at.\<close>

lemma table_ok_upd [simp]:
  "table_ok ps (os[i := st_closed_update h (os ! i)]) pp = table_ok ps os pp"
  "table_ok ps (os[i := running_update h' (os ! i)]) pp = table_ok ps os pp"
  "table_ok ps (os[i := added_update h (os ! i)]) pp = table_ok ps os pp"
  "table_ok ps (os[i := removing_update h (os ! i)]) pp = table_ok ps os pp"
  by (simp_all add: table_ok_def)

lemma frames_ok_upd [simp]:
  "frames_ok (os[i := st_closed_update h (os ! i)]) fs = frames_ok os fs"
  "frames_ok (os[i := added_update h (os ! i)]) fs = frames_ok os fs"
  "frames_ok (os[i := removing_update h (os ! i)]) fs = frames_ok os fs"
  "frames_ok (os[i := rejected_update h (os ! i)]) fs = frames_ok os fs"
  by (simp_all add: frames_ok_def)

lemma flags_ok_upd [simp]:
  "flags_ok (os[i := st_closed_update h (os ! i)]) fs ac = flags_ok os fs ac"
  "flags_ok (os[i := running_update h' (os ! i)]) fs ac = flags_ok os fs ac"
  by (simp_all add: flags_ok_def)

lemma acts_ok_upd [simp]:
  "acts_ok ps (os[i := st_closed_update h (os ! i)]) fs ac = acts_ok ps os fs ac"
  "acts_ok ps (os[i := running_update h' (os ! i)]) fs ac = acts_ok ps os fs ac"
  "acts_ok ps (os[i := added_update h (os ! i)]) fs ac = acts_ok ps os fs ac"
  "acts_ok ps (os[i := rejected_update h (os ! i)]) fs ac = acts_ok ps os fs ac"
  by (simp_all add: acts_ok_def)

lemma upd_state_fields [simp]:
  "pobjs (upd_state i f s) = (pobjs s)[i := f (pobjs s ! i)]"
  "pstates (upd_state i f s) = pstates s" "pipes (upd_state i f s) = pipes s"
  "removed_ids (upd_state i f s) = removed_ids s"
  "on_pre_pipe_add (upd_state i f s) = on_pre_pipe_add s"
  "on_post_pipe_add (upd_state i f s) = on_post_pipe_add s"
  "on_post_pipe_remove (upd_state i f s) = on_post_pipe_remove s"
  by (simp_all add: upd_state_def)

lemma upd_state_history [simp]:
  "frames (upd_state i f d) = frames d" "log (upd_state i f d) = log d"
  "acts (upd_state i f d) = acts d" "aborted (upd_state i f d) = aborted d"
  "delivered (upd_state i f d) = delivered d" "early (upd_state i f d) = early d"
  by (simp_all add: upd_state_def)

lemma dinv_removed_ids [simp]: "dinv (d\<lparr>removed_ids := x\<rparr>) = dinv d"
  by (simp add: dinv_def)

lemma dinv_callbacks [simp]:
  "dinv (d\<lparr>on_pre_pipe_add := x\<rparr>) = dinv d" "dinv (d\<lparr>on_post_pipe_add := x\<rparr>) = dinv d"
  "dinv (d\<lparr>on_post_pipe_remove := x\<rparr>) = dinv d"
  by (simp_all add: dinv_def)

lemma dinv_history [simp]: "dinv (d\<lparr>delivered := x, early := y\<rparr>) = dinv d"
  by (simp add: dinv_def)

lemma dinv_close: "dinv d \<Longrightarrow> dinv (upd_state i (st_closed_update h) d)"
  by (simp add: dinv_def)

lemma frames_bound:
  "frames_ok os fs \<Longrightarrow> map_of fs (ev, length os) = None"
  unfolding frames_ok_def by (metis not_None_eq nat_less_le prod.exhaust)

lemma busy_unused: "frames_ok os fs \<Longrightarrow> busy (length os) fs = {#}"
proof (rule ccontr)
  assume f: "frames_ok os fs" and "busy (length os) fs \<noteq> {#}"
  then obtain t where "t \<in># busy (length os) fs" by blast
  then obtain ev ph where "((ev, length os), t, ph) \<in> set fs" by (auto simp: in_busy)
  then have "map_of fs (ev, length os) = Some (t, ph)"
    using f by (simp add: frames_ok_def dict_ok_def)
  with frames_bound [OF f, of ev] show False by simp
qed

text \<open>A new pipe state goes into the table and the pipes.\<close>

definition fresh_pipe :: "int \<Rightarrow> 'a pipe_socket_scheme \<Rightarrow> 'a pipe_socket_scheme" where
  "fresh_pipe pid s = s\<lparr>pobjs := pobjs s @ [new_pipe_state pid],
     pstates := AList.update pid (length (pobjs s)) (pstates s),
     pipes := AList.update pid (length (pobjs s)) (pipes s)\<rparr>"

lemma filter_append_objs:
  assumes "\<forall>pid i. map_of ps pid = Some i \<longrightarrow> i < length os \<and> st_pipe (os ! i) = pid" and "dict_ok ps"
  shows "filter (\<lambda>(pid, i). \<not> rejected ((os @ [x]) ! i)) ps = filter (\<lambda>(pid, i). \<not> rejected (os ! i)) ps"
proof (rule filter_cong [OF refl])
  fix p assume "p \<in> set ps"
  then have "map_of ps (fst p) = Some (snd p)" using assms(2) by (simp add: dict_ok_def)
  then have "snd p < length os" using assms(1) by blast
  then show "(case p of (pid, i) \<Rightarrow> \<not> rejected ((os @ [x]) ! i)) = (case p of (pid, i) \<Rightarrow> \<not> rejected (os ! i))"
    by (cases p) (simp add: nth_append)
qed

lemma table_ok_fresh:
  assumes t: "table_ok ps os pp" and "map_of ps pid = None"
  shows "table_ok (AList.update pid (length os) ps) (os @ [new_pipe_state pid])
           (AList.update pid (length os) pp)"
proof -
  have "map_of pp pid = None"
    using assms unfolding table_ok_def by (auto simp: map_of_eq_None_iff image_iff)
  then show ?thesis
    using assms filter_append_objs [of ps os "new_pipe_state pid"]
    by (auto simp: table_ok_def dict_update_new nth_append new_pipe_state_def map_of_eq_None_iff
        dict_ok_def map_add_def split: option.splits if_splits)
qed

lemma dinv_fresh:
  assumes "dinv d" and "map_of (pstates d) pid = None"
  shows "dinv (fresh_pipe pid d)"
proof -
  let ?n = "length (pobjs d)" and ?os = "pobjs d @ [new_pipe_state pid]"
  have t: "table_ok (pstates d) (pobjs d) (pipes d)" and f: "frames_ok (pobjs d) (frames d)"
    and g: "flags_ok (pobjs d) (map_of (frames d)) (map_of (acts d))"
    and a: "acts_ok (map_of (pstates d)) (pobjs d) (map_of (frames d)) (map_of (acts d))"
    using assms(1) by (simp_all add: dinv_def)
  have f': "frames_ok ?os (frames d)"
    using f busy_unused [OF f] by (auto simp: frames_ok_def nth_append new_pipe_state_def less_Suc_eq)
  have lt: "map_of (frames d) (ev, i) \<noteq> None \<or> map_of (acts d) (ev, i) \<noteq> None \<Longrightarrow> i < ?n" for ev i
    using f g unfolding frames_ok_def flags_ok_def by (metis not_None_eq surj_pair)
  have g': "flags_ok ?os (map_of (frames d)) (map_of (acts d))"
    using g lt unfolding flags_ok_def
    by (auto simp: nth_append new_pipe_state_def less_Suc_eq simp del: not_None_eq)
  have a': "acts_ok ((map_of (pstates d))(pid \<mapsto> ?n)) ?os (map_of (frames d)) (map_of (acts d))"
    using a t unfolding acts_ok_def table_ok_def
    by (auto simp: nth_append new_pipe_state_def split: if_splits)
  show ?thesis
    using assms table_ok_fresh [OF t assms(2)] f' g' a'
    by (simp add: dinv_def fresh_pipe_def update_conv')
qed

lemma not_removing:
  "flags_ok os fs ac \<Longrightarrow> \<not> removing (os ! i) \<Longrightarrow> fs (RemPost, i) = None \<and> ac (RemPost, i) = None"
  unfolding flags_ok_def by blast

lemma not_added:
  "flags_ok os fs ac \<Longrightarrow> \<not> added (os ! i) \<Longrightarrow> fs (AddPost, i) = None \<and> ac (AddPost, i) = None"
  unfolding flags_ok_def by blast

lemma log_ok_none:
  assumes "log_ok l fs ac ab" and "ac (ev, i) = None"
  shows "logged l (ev, i) = []" "(t, ev, i, c) \<notin> set l"
  using assms unfolding log_ok_def by (metis log_spec.simps(1)) (metis assms(1) assms(2) log_ok_def option.distinct(1))

lemma log_ok_begin:
  assumes "log_ok l fs ac ab" and "ac (ev, i) = None"
  shows "log_ok l (fs((ev, i) \<mapsto> (t, Left cbs))) (ac((ev, i) \<mapsto> (t, cbs))) ab"
  using assms log_ok_none [OF assms] by (simp add: log_ok_def)

lemma log_ok_wait:
  assumes "log_ok l fs ac ab" and "ac (ev, i) = None"
  shows "log_ok l (fs((ev, i) \<mapsto> (t, Waiting))) ac ab"
  using assms log_ok_none [OF assms] by (simp add: log_ok_def)

lemma rem_last_update:
  "rem_last (map fst fs) \<Longrightarrow> map_of fs (ev, i) = None \<Longrightarrow> map_of fs (RemPost, i) = None \<Longrightarrow>
   rem_last (map fst (AList.update (ev, i) v fs))"
  by (simp add: dict_update_new map_of_eq_None_iff)

lemma keys_update_old: "map_of fs k \<noteq> None \<Longrightarrow> map fst (AList.update k v fs) = map fst fs"
  by (auto simp: dict_keys_update map_of_eq_None_iff)

lemma frames_ok_begin:
  assumes f: "frames_ok os fs" and i: "i < length os"
    and old: "map_of fs (ev, i) = None \<and> map_of fs (RemPost, i) = None \<or>
      map_of fs (ev, i) = Some (t, Waiting)"
  shows "frames_ok (os[i := running_update (\<lambda>r. r @ [t]) (os ! i)])
           (AList.update (ev, i) (t, Left cbs) fs)"
proof -
  have b: "busy j (AList.update (ev, i) (t, Left cbs) fs) = busy j fs + (if i = j then {#t#} else {#})" for j
    using old busy_update_new [of fs "(ev, i)" j t "Left cbs"]
      busy_update_old [of fs "(ev, i)" t Waiting j "Left cbs"] by auto
  have "rem_last (map fst (AList.update (ev, i) (t, Left cbs) fs))"
    using old f rem_last_update [of fs ev i] by (auto simp: frames_ok_def keys_update_old)
  then show ?thesis
    using f i unfolding frames_ok_def
    by (simp add: b dict_get_update nth_list_update split: if_splits)
qed

lemma dinv_begin:
  assumes d: "dinv d" and i: "i < length (pobjs d)" and ac: "map_of (acts d) (ev, i) = None"
    and rem: "ev = RemPost \<Longrightarrow> map_of (frames d) (ev, i) = Some (t, Waiting) \<and>
      (\<forall>u \<in> set (running (pobjs d ! i)). u = t) \<and> (rejected (pobjs d ! i) \<longrightarrow> cbs = [])"
    and add: "ev \<noteq> RemPost \<Longrightarrow> map_of (frames d) (ev, i) = None \<and> \<not> removing (pobjs d ! i)"
    and post: "ev = AddPost \<Longrightarrow> added (pobjs d ! i)"
  shows "dinv (entered_frame t ev (begin_callbacks t i cbs d))"
proof -
  let ?fs = "map_of (frames d)" and ?ac = "map_of (acts d)"
  have f: "frames_ok (pobjs d) (frames d)" and g: "flags_ok (pobjs d) ?fs ?ac"
    and a: "acts_ok (map_of (pstates d)) (pobjs d) ?fs ?ac" using d by (simp_all add: dinv_def)
  have rm: "removing (pobjs d ! i)" if "ev = RemPost"
    using rem [OF that] g that unfolding flags_ok_def by auto
  have no_rem: "?fs (RemPost, i) = None" "?ac (RemPost, i) = None" if "ev \<noteq> RemPost"
    using add [OF that] not_removing [OF g] by auto
  have f': "frames_ok ((pobjs d)[i := running_update (\<lambda>r. r @ [t]) (pobjs d ! i)])
      (AList.update (ev, i) (t, Left cbs) (frames d))"
    using rem add no_rem by (intro frames_ok_begin [OF f i]) auto
  have g': "flags_ok (pobjs d) (?fs((ev, i) \<mapsto> (t, Left cbs))) (?ac((ev, i) \<mapsto> (t, cbs)))"
    using g i rem rm post unfolding flags_ok_def by auto
  have same: "u = t" if "ev = RemPost" "?fs (ev', i) = Some (u, ph)" for ev' u ph
  proof (cases "ph = Waiting")
    case True
    then have "ev' = RemPost" using f that(2) by (simp add: frames_ok_def)
    then show ?thesis using rem [OF that(1)] that by simp
  next
    case False
    have "((ev', i), u, ph) \<in> set (frames d)" using that(2) by (rule map_of_SomeD)
    with False have "u \<in># busy i (frames d)" by (force simp: in_busy)
    then have "u \<in> set (running (pobjs d ! i))"
      using f i by (metis frames_ok_def set_mset_mset)
    then show ?thesis using rem [OF that(1)] by simp
  qed
  have a': "acts_ok (map_of (pstates d)) (pobjs d) (?fs((ev, i) \<mapsto> (t, Left cbs))) (?ac((ev, i) \<mapsto> (t, cbs)))"
    using a same no_rem unfolding acts_ok_def by (auto split: if_splits)
  have l': "log_ok (log d) (?fs((ev, i) \<mapsto> (t, Left cbs))) (?ac((ev, i) \<mapsto> (t, cbs))) (aborted d)"
    using d ac by (intro log_ok_begin) (simp_all add: dinv_def)
  show ?thesis
    using d f' g' a' l' by (simp add: dinv_def begin_callbacks_def entered_frame_def update_conv')
qed

lemma dinv_added:
  assumes "dinv d" and "i < length (pobjs d)" and "\<not> rejected (pobjs d ! i)"
  shows "dinv (upd_state i (added_update (\<lambda>_. True)) d)"
  using assms unfolding dinv_def by (auto simp: flags_ok_def nth_list_update)

text \<open>The start of a removal: the mark, and an event that waits.\<close>

lemma dinv_mark_removing:
  assumes d: "dinv d" and ps: "map_of (pstates d) pid = Some i" and r: "\<not> removing (pobjs d ! i)"
  shows "dinv ((upd_state i (removing_update (\<lambda>_. True)) d)
           \<lparr>frames := AList.update (RemPost, i) (t, Waiting) (frames d)\<rparr>)"
proof -
  let ?fs = "map_of (frames d)" and ?ac = "map_of (acts d)"
  let ?os = "(pobjs d)[i := removing_update (\<lambda>_. True) (pobjs d ! i)]"
  have tb: "table_ok (pstates d) (pobjs d) (pipes d)" and f: "frames_ok (pobjs d) (frames d)"
    and g: "flags_ok (pobjs d) ?fs ?ac"
    and a: "acts_ok (map_of (pstates d)) (pobjs d) ?fs ?ac" using d by (simp_all add: dinv_def)
  have i: "i < length (pobjs d)" using tb ps by (simp add: table_ok_def)
  have none: "?fs (RemPost, i) = None" "?ac (RemPost, i) = None" using not_removing [OF g r] by simp_all
  have f': "frames_ok (pobjs d) (AList.update (RemPost, i) (t, Waiting) (frames d))"
    using f none i rem_last_update [of "frames d" RemPost i "(t, Waiting)"]
    by (auto simp: frames_ok_def busy_update_new dict_get_update)
  have g': "flags_ok ?os (?fs((RemPost, i) \<mapsto> (t, Waiting))) ?ac"
    using g i unfolding flags_ok_def by (auto simp: nth_list_update)
  have a': "acts_ok (map_of (pstates d)) ?os (?fs((RemPost, i) \<mapsto> (t, Waiting))) ?ac"
    using a none i unfolding acts_ok_def by (auto simp: nth_list_update split: if_splits)
  have l': "log_ok (log d) (?fs((RemPost, i) \<mapsto> (t, Waiting))) ?ac (aborted d)"
    using d none by (intro log_ok_wait) (simp_all add: dinv_def)
  show ?thesis using d tb f' g' a' l' by (simp add: dinv_def update_conv')
qed

lemma dinv_remove_or_wait:
  assumes d: "dinv d" and w: "map_of (frames d) (RemPost, i) = Some (t, Waiting)"
  shows "dinv (entered_frame t RemPost (remove_or_wait t i d))"
proof (cases "list_ex (\<lambda>u. u \<noteq> t) (running (pobjs d ! i))")
  case True
  then show ?thesis using d w by (simp add: remove_or_wait_def entered_frame_def update_triv)
next
  case False
  have "i < length (pobjs d)" using d w by (auto simp: dinv_def frames_ok_def)
  moreover have "map_of (acts d) (RemPost, i) = None"
    using d w unfolding dinv_def acts_ok_def by (metis (full_types))
  ultimately show ?thesis
    using d w False by (auto simp: remove_or_wait_def list_ex_iff intro!: dinv_begin)
qed

lemma entered_remove_waiting:
  "entered_frame t RemPost (remove_or_wait t i s) =
   entered_frame t RemPost (remove_or_wait t i
     (s\<lparr>frames := AList.update (RemPost, i) (t, Waiting) (frames s)\<rparr>))"
  by (simp add: remove_or_wait_def entered_frame_def begin_callbacks_def upd_state_def)

lemma dinv_enter_remove:
  assumes d: "dinv d"
  shows "dinv (entered_frame t RemPost (enter_remove t pid d))"
proof (cases "map_of (pstates d) pid")
  case None
  with d show ?thesis by (simp add: enter_remove_def entered_frame_def)
next
  case (Some i)
  show ?thesis
  proof (cases "removing (pobjs d ! i)")
    case True
    with Some d show ?thesis by (simp add: enter_remove_def entered_frame_def)
  next
    case False
    let ?m = "upd_state i (removing_update (\<lambda>_. True)) d"
    have m: "dinv (?m\<lparr>frames := AList.update (RemPost, i) (t, Waiting) (frames ?m)\<rparr>)"
      using dinv_mark_removing [OF d Some False] by simp
    then have "dinv ((?m\<lparr>removed_ids := x\<rparr>)\<lparr>frames := AList.update (RemPost, i) (t, Waiting)
        (frames (?m\<lparr>removed_ids := x\<rparr>))\<rparr>)" for x by (simp add: dinv_def)
    with m show ?thesis
      using Some False
      by (simp add: enter_remove_def Let_def entered_remove_waiting [of t i "?m"]
          entered_remove_waiting [of t i "?m\<lparr>removed_ids := x\<rparr>" for x] dinv_remove_or_wait dict_get_update
          del: upd_state_fields upd_state_history)
  qed
qed

lemma fresh_pipe_simps [simp]:
  "pobjs (fresh_pipe pid s) = pobjs s @ [new_pipe_state pid]"
  "frames (fresh_pipe pid d) = frames d" "acts (fresh_pipe pid d) = acts d"
  by (simp_all add: fresh_pipe_def)

lemma new_pipe_state_simps [simp]:
  "\<not> added (new_pipe_state pid)" "\<not> rejected (new_pipe_state pid)" "\<not> removing (new_pipe_state pid)"
  "st_pipe (new_pipe_state pid) = pid" "\<not> st_closed (new_pipe_state pid)"
  "running (new_pipe_state pid) = []"
  by (simp_all add: new_pipe_state_def)

lemma unused_act:
  "dinv d \<Longrightarrow> map_of (frames d) (ev, length (pobjs d)) = None \<and> map_of (acts d) (ev, length (pobjs d)) = None"
  using frames_bound [of "pobjs d" "frames d" ev] unfolding dinv_def flags_ok_def
  by (metis less_irrefl)

lemma dinv_enter_add_pre:
  assumes d: "dinv d"
  shows "dinv (entered_frame t AddPre (enter_add_pre t pid d))"
proof (cases "map_of (pstates d) pid")
  case None
  have "enter_add_pre t pid d = begin_callbacks t (length (pobjs d)) (on_pre_pipe_add d) (fresh_pipe pid d)"
    using None by (simp add: enter_add_pre_def new_state_def fresh_pipe_def)
  then show ?thesis
    using unused_act [OF d] by (auto intro!: dinv_begin dinv_fresh [OF d None])
qed (use d in \<open>simp add: enter_add_pre_def entered_frame_def\<close>)

lemma dinv_post_added:
  assumes d: "dinv d" and ps: "map_of (pstates d) pid = Some i"
    and n: "\<not> removing (pobjs d ! i)" "\<not> added (pobjs d ! i)" "\<not> rejected (pobjs d ! i)"
  shows "dinv (entered_frame t AddPost (post_added t pid i d))"
proof -
  let ?a = "upd_state i (added_update (\<lambda>_. True)) d"
  have tb: "table_ok (pstates d) (pobjs d) (pipes d)" and g: "flags_ok (pobjs d) (map_of (frames d)) (map_of (acts d))"
    using d by (simp_all add: dinv_def)
  have i: "i < length (pobjs d)" using tb ps by (simp add: table_ok_def)
  have "map_of (pipes d) pid = Some i"
    using tb ps n(3) by (auto simp: table_ok_def dict_ok_def distinct_map_filter)
  then have "post_added t pid i d = begin_callbacks t i (on_post_pipe_add d) ?a"
    by (simp add: post_added_def Let_def update_triv) (simp add: upd_state_def)
  then show ?thesis
    using not_added [OF g n(2)] i n by (auto intro!: dinv_begin dinv_added [OF d i n(3)])
qed

lemma dinv_enter_add_post:
  assumes d: "dinv d"
  shows "dinv (entered_frame t AddPost (enter_add_post t pid d))"
proof (cases "map_of (pstates d) pid")
  case None
  let ?n = "length (pobjs d)"
  let ?s = "d\<lparr>pobjs := pobjs d @ [new_pipe_state pid], pstates := AList.update pid ?n (pstates d)\<rparr>"
  have "post_added t pid ?n ?s = post_added t pid ?n (fresh_pipe pid d)"
    by (simp add: post_added_def fresh_pipe_def upd_state_def Let_def begin_callbacks_def)
  then show ?thesis
    using None dinv_post_added [OF dinv_fresh [OF d None], of pid ?n t]
    by (simp add: enter_add_post_def new_state_def fresh_pipe_def dict_get_update)
next
  case (Some i)
  then show ?thesis
    using d dinv_post_added [OF d Some] by (simp add: enter_add_post_def entered_frame_def)
qed

lemma dinv_enter: "dinv d \<Longrightarrow> dinv (entered_frame t ev (enter_event t ev pid d))"
  by (cases ev)
    (simp_all add: enter_event_def dinv_enter_remove dinv_enter_add_pre dinv_enter_add_post
      entered_frame_def [of _ _ "(d, Dropped)"])

lemma dinv_deliver: "dinv d \<Longrightarrow> dinv (deliver t ev pid d)"
  by (simp add: deliver_def dinv_enter)

lemma frames_ok_phase:
  assumes "frames_ok os fs" and "map_of fs k = Some (t, ph0)" and "ph0 \<noteq> Waiting" and "ph \<noteq> Waiting"
  shows "frames_ok os (AList.update k (t, ph) fs)"
proof -
  have "busy j (AList.update k (t, ph) fs) = busy j fs" for j
    using busy_update_old [OF assms(2), of j ph] assms(3,4) by (auto split: if_splits)
  then show ?thesis
    using assms unfolding frames_ok_def
    by (auto simp: dict_get_update keys_update_old split: if_splits)
qed

lemma acts_ok_phase:
  assumes a: "acts_ok ps os fs ac" and k: "fs k = Some (t, ph0)" and p: "ph0 \<noteq> Waiting" "ph \<noteq> Waiting"
  shows "acts_ok ps os (fs(k \<mapsto> (t, ph))) ac"
proof -
  have 1: "if ph = Waiting then ac k = None else \<exists>cbs. ac k = Some (t, cbs)"
    if "fs k = Some (t, ph)" for k t ph using a that unfolding acts_ok_def by blast
  have 2: "fs (RemPost, i) \<noteq> None" if "ps pid = Some i" "removing (os ! i)" for pid i
    using a that unfolding acts_ok_def by blast
  have 3: "u = t" if "ac (RemPost, i) = Some (t, cbs)" "fs (ev, i) = Some (u, ph)" for i t cbs ev u ph
    using a that unfolding acts_ok_def by blast
  have 4: "\<exists>cbs. ac k = Some (t, cbs)" using 1 [OF k] p by simp
  obtain ev i where e: "k = (ev, i)" by (cases k)
  show ?thesis
    unfolding acts_ok_def
  proof (intro conjI allI impI)
    fix k' t' ph' assume "(fs(k \<mapsto> (t, ph))) k' = Some (t', ph')"
    then show "if ph' = Waiting then ac k' = None else \<exists>cbs. ac k' = Some (t', cbs)"
      using 1 [of k' t' ph'] 4 p by (cases "k' = k") auto
  next
    fix pid j assume "ps pid = Some j \<and> removing (os ! j)"
    then show "(fs(k \<mapsto> (t, ph))) (RemPost, j) \<noteq> None" using 2 [of pid j] by simp
  next
    fix j t' cbs ev' u ph'
    assume "ac (RemPost, j) = Some (t', cbs) \<and> (fs(k \<mapsto> (t, ph))) (ev', j) = Some (u, ph')"
    then show "u = t'" using 3 [of j t' cbs ev' u] 3 [of j t' cbs ev t ph0] k
      by (cases "(ev', j) = k") (auto simp: e)
  qed
qed

lemma log_okD: "log_ok l fs ac ab \<Longrightarrow> log_spec (logged l k) (ac k) (fs k) (k \<in> ab)"
  unfolding log_ok_def by blast

lemma dinv_phase:
  assumes d: "dinv d" and k: "map_of (frames d) k = Some (t, ph0)" and p: "ph0 \<noteq> Waiting" "ph \<noteq> Waiting"
    and l: "log_ok lg ((map_of (frames d))(k \<mapsto> (t, ph))) (map_of (acts d)) ab"
  shows "dinv (d\<lparr>frames := AList.update k (t, ph) (frames d), log := lg, aborted := ab\<rparr>)"
proof -
  have "flags_ok (pobjs d) ((map_of (frames d))(k \<mapsto> (t, ph))) (map_of (acts d))"
    using d k unfolding dinv_def flags_ok_def by auto
  moreover have "acts_ok (map_of (pstates d)) (pobjs d) ((map_of (frames d))(k \<mapsto> (t, ph))) (map_of (acts d))"
    using d k p by (intro acts_ok_phase) (auto simp: dinv_def)
  ultimately show ?thesis
    using d frames_ok_phase [OF _ k p] l by (simp add: dinv_def update_conv')
qed

lemma top_frame_dinv: "dinv d \<Longrightarrow> top_frame t (frames d) = Some (k, ph) \<Longrightarrow> map_of (frames d) k = Some (t, ph)"
  by (rule top_frame_map_of) (simp_all add: dinv_def frames_ok_def)

lemma logged_snoc [simp]:
  "logged (l @ [(t, ev, i, c)]) k = logged l k @ (if k = (ev, i) then [c] else [])"
  by (auto simp: logged_def)

lemma dinv_call:
  assumes d: "dinv d" and t: "map_of (frames d) (ev, i) = Some (t, Left (c # cs))"
  shows "dinv (d\<lparr>frames := AList.update (ev, i) (t, Calling c cs) (frames d),
               log := log d @ [(t, ev, i, c)]\<rparr>)"
proof -
  have l: "log_ok (log d) (map_of (frames d)) (map_of (acts d)) (aborted d)"
    and a: "acts_ok (map_of (pstates d)) (pobjs d) (map_of (frames d)) (map_of (acts d))"
    using d by (simp_all add: dinv_def)
  obtain cbs where ac: "map_of (acts d) (ev, i) = Some (t, cbs)"
    using a t unfolding acts_ok_def by (metis phase.distinct(1))
  have "u = t" if u: "(u, RemPost, i, c') \<in> set (log d)" for u c'
  proof -
    obtain cbs where "map_of (acts d) (RemPost, i) = Some (u, cbs)"
      using u l unfolding log_ok_def by blast
    then show ?thesis using a t unfolding acts_ok_def by blast
  qed
  moreover have "logged (log d) (ev, i) @ c # cs = cbs"
    using log_okD [OF l, of "(ev, i)"] ac t by simp
  ultimately have "log_ok (log d @ [(t, ev, i, c)]) ((map_of (frames d))((ev, i) \<mapsto> (t, Calling c cs)))
      (map_of (acts d)) (aborted d)"
    using l ac unfolding log_ok_def by auto
  from dinv_phase [OF d t _ _ this] show ?thesis by simp
qed

lemma dinv_return:
  assumes d: "dinv d" and t: "map_of (frames d) (ev, i) = Some (t, Calling c cs)"
  shows "dinv (d\<lparr>frames := AList.update (ev, i) (t, Left cs) (frames d)\<rparr>)"
    and "dinv (d\<lparr>frames := AList.update (ev, i) (t, Left []) (frames d),
               aborted := insert (ev, i) (aborted d)\<rparr>)"
proof -
  have l: "log_ok (log d) (map_of (frames d)) (map_of (acts d)) (aborted d)"
    and a: "acts_ok (map_of (pstates d)) (pobjs d) (map_of (frames d)) (map_of (acts d))"
    using d by (simp_all add: dinv_def)
  obtain cbs where ac: "map_of (acts d) (ev, i) = Some (t, cbs)"
    using a t unfolding acts_ok_def by (metis phase.distinct(3))
  have c: "logged (log d) (ev, i) @ cs = cbs"
    using log_okD [OF l, of "(ev, i)"] ac t by simp
  have "log_ok (log d) ((map_of (frames d))((ev, i) \<mapsto> (t, Left cs))) (map_of (acts d)) (aborted d)"
    using l ac c unfolding log_ok_def by auto
  from dinv_phase [OF d t _ _ this]
  show "dinv (d\<lparr>frames := AList.update (ev, i) (t, Left cs) (frames d)\<rparr>)" by simp
  have "log_ok (log d) ((map_of (frames d))((ev, i) \<mapsto> (t, Left []))) (map_of (acts d))
      (insert (ev, i) (aborted d))"
    using l ac c unfolding log_ok_def by auto
  from dinv_phase [OF d t _ _ this]
  show "dinv (d\<lparr>frames := AList.update (ev, i) (t, Left []) (frames d),
               aborted := insert (ev, i) (aborted d)\<rparr>)" by simp
qed

lemma delete_filter: "AList.delete k (filter P xs) = filter P (AList.delete k xs)"
  by (simp add: AList.delete_eq conj_commute)

lemma table_ok_delete: "table_ok ps os pp \<Longrightarrow> table_ok (AList.delete k ps) os (AList.delete k pp)"
  by (auto simp: table_ok_def dict_get_delete delete_filter split: if_splits)

lemma table_ok_reject:
  assumes t: "table_ok ps os pp" and k: "map_of ps pid = Some i"
  shows "table_ok ps (os[i := rejected_update (\<lambda>_. True) (os ! i)]) (AList.delete pid pp)"
proof -
  let ?os = "os[i := rejected_update (\<lambda>_. True) (os ! i)]"
  have ok: "dict_ok ps" "\<And>q j. map_of ps q = Some j \<Longrightarrow> j < length os \<and> st_pipe (os ! j) = q"
    and pp: "pp = filter (\<lambda>(pid, i). \<not> rejected (os ! i)) ps"
    using t by (auto simp: table_ok_def)
  have "AList.delete pid pp = filter (\<lambda>(pid, i). \<not> rejected (?os ! i)) ps"
    unfolding pp AList.delete_eq filter_filter
  proof (rule filter_cong [OF refl])
    fix x assume "x \<in> set ps"
    then have x: "map_of ps (fst x) = Some (snd x)" using ok(1) by (simp add: dict_ok_def)
    have st: "st_pipe (os ! snd x) = fst x" "st_pipe (os ! i) = pid" "snd x < length os"
      using ok(2) [OF x] ok(2) [OF k] by blast+
    have "snd x = i \<longleftrightarrow> fst x = pid"
    proof
      assume "fst x = pid"
      with x k show "snd x = i" by simp
    qed (use st in simp)
    then show "((case x of (pid, i) \<Rightarrow> \<not> rejected (os ! i)) \<and> (case x of (k', w) \<Rightarrow> pid \<noteq> k')) =
        (case x of (pid, i) \<Rightarrow> \<not> rejected (?os ! i))"
      using st by (cases x) (auto simp: nth_list_update)
  qed
  then show ?thesis using t by (simp add: table_ok_def)
qed

lemma frames_ok_leave:
  assumes f: "frames_ok os fs" and k: "map_of fs (ev, i) = Some (t, Left [])"
  shows "frames_ok (os[i := running_update (remove1 t) (os ! i)]) (AList.delete (ev, i) fs)"
proof -
  have i: "i < length os" and fs: "dict_ok fs" using f k unfolding frames_ok_def by blast+
  have b: "busy i fs = add_mset t (busy i (AList.delete (ev, i) fs))"
    using busy_delete [OF fs k, of i] by simp
  have "busy j (AList.delete (ev, i) fs) = busy j fs" if "j \<noteq> i" for j
    using busy_delete_other [OF fs k, of j] that by simp
  with b show ?thesis
    using f i unfolding frames_ok_def
    by (auto simp: nth_list_update dict_get_delete rem_last_delete split: if_splits)
qed

lemma log_ok_leave:
  assumes "log_ok l fs ac ab" and k: "fs k = Some (t, Left [])"
  shows "log_ok l (fs(k := None)) ac ab"
proof -
  have "log_spec (logged l k) (ac k) None (k \<in> ab)"
    using log_okD [OF assms(1), of k] k by (cases "ac k") auto
  then show ?thesis using assms unfolding log_ok_def by simp
qed

lemma flags_ok_leave: "flags_ok os fs ac \<Longrightarrow> flags_ok os (fs(k := None)) ac"
  unfolding flags_ok_def by auto

lemma acts_ok_leave:
  assumes "acts_ok ps os fs ac"
    and "\<And>pid j. ps' pid = Some j \<Longrightarrow> ps pid = Some j \<and> (RemPost, j) \<noteq> k"
  shows "acts_ok ps' os (fs(k := None)) ac"
  unfolding acts_ok_def
proof (intro conjI allI impI)
  fix k' t ph assume "(fs(k := None)) k' = Some (t, ph)"
  then have "fs k' = Some (t, ph)" by (simp split: if_splits)
  then show "if ph = Waiting then ac k' = None else \<exists>cbs. ac k' = Some (t, cbs)"
    using assms(1) unfolding acts_ok_def by blast
next
  fix pid j assume "ps' pid = Some j \<and> removing (os ! j)"
  then have "ps pid = Some j" "(RemPost, j) \<noteq> k" "removing (os ! j)" using assms(2) [of pid j] by simp_all
  moreover then have "fs (RemPost, j) \<noteq> None" using assms(1) unfolding acts_ok_def by blast
  ultimately show "(fs(k := None)) (RemPost, j) \<noteq> None" by simp
next
  fix i t cbs ev u ph
  assume "ac (RemPost, i) = Some (t, cbs) \<and> (fs(k := None)) (ev, i) = Some (u, ph)"
  then have "ac (RemPost, i) = Some (t, cbs)" "fs (ev, i) = Some (u, ph)" by (simp_all split: if_splits)
  then show "u = t" using assms(1) unfolding acts_ok_def by blast
qed

text \<open>An event other than \<open>REM_POST\<close> ends on top of its thread: no removal of the pipe runs.\<close>

lemma no_removal_above:
  assumes d: "dinv d" and t: "top_frame t (frames d) = Some ((ev, i), Left [])" and ev: "ev \<noteq> RemPost"
    and ps: "map_of (pstates d) pid = Some i"
  shows "map_of (acts d) (RemPost, i) = None"
proof (rule ccontr)
  let ?fs = "map_of (frames d)" and ?ac = "map_of (acts d)"
  have k: "?fs (ev, i) = Some (t, Left [])" using top_frame_dinv [OF d t] .
  have f: "frames_ok (pobjs d) (frames d)" and g: "flags_ok (pobjs d) ?fs ?ac"
    and a: "acts_ok (map_of (pstates d)) (pobjs d) ?fs ?ac" using d by (simp_all add: dinv_def)
  assume "?ac (RemPost, i) \<noteq> None"
  then obtain u cbs where ac: "?ac (RemPost, i) = Some (u, cbs)" by auto
  then have "removing (pobjs d ! i)" using not_removing [OF g] by force
  then have "?fs (RemPost, i) \<noteq> None" using a ps unfolding acts_ok_def by blast
  then obtain v ph where r: "?fs (RemPost, i) = Some (v, ph)" by auto
  have "v = u" "t = u" using a ac r k unfolding acts_ok_def by blast+
  then show False
    using top_frame_last [OF t _ _ r [folded \<open>t = u\<close> [unfolded \<open>v = u\<close> [symmetric]]]] f ev
    unfolding frames_ok_def by blast
qed

lemma dinv_leave:
  assumes d: "dinv d" and t: "top_frame t (frames d) = Some ((ev, i), Left [])"
  shows "dinv (leave_event t ev i (d\<lparr>frames := AList.delete (ev, i) (frames d)\<rparr>))"
proof -
  let ?fs = "map_of (frames d)" and ?ac = "map_of (acts d)" and ?k = "(ev, i)"
  let ?os = "(pobjs d)[i := running_update (remove1 t) (pobjs d ! i)]"
  let ?pid = "st_pipe (pobjs d ! i)"
  have k: "?fs ?k = Some (t, Left [])" using top_frame_dinv [OF d t] .
  have tb: "table_ok (pstates d) (pobjs d) (pipes d)" and f: "frames_ok (pobjs d) (frames d)"
    and g: "flags_ok (pobjs d) ?fs ?ac" and a: "acts_ok (map_of (pstates d)) (pobjs d) ?fs ?ac"
    and l: "log_ok (log d) ?fs ?ac (aborted d)" using d by (simp_all add: dinv_def)
  have i: "i < length (pobjs d)" using f k unfolding frames_ok_def by blast
  have pid: "pid = ?pid" if "map_of (pstates d) pid = Some i" for pid
    using tb that by (simp add: table_ok_def)
  have f': "frames_ok ?os (AList.delete ?k (frames d))" by (rule frames_ok_leave [OF f k])
  have l': "log_ok (log d) (?fs(?k := None)) ?ac (aborted d)" by (rule log_ok_leave [OF l k])
  have g': "flags_ok (pobjs d) (?fs(?k := None)) ?ac" by (rule flags_ok_leave [OF g])
  show ?thesis
  proof (cases "map_of (pstates d) ?pid = Some i")
    case True
    show ?thesis
    proof (cases "ev = RemPost")
      case rem: True
      have "acts_ok ((map_of (pstates d))(?pid := None)) (pobjs d) (?fs(?k := None)) ?ac"
        using pid by (intro acts_ok_leave [OF a]) (auto simp: rem split: if_splits)
      then show ?thesis
        using True f' l' g' table_ok_delete [OF tb, of ?pid]
        by (simp add: dinv_def leave_event_def rem Let_def delete_conv')
    next
      case False
      have a': "acts_ok (map_of (pstates d)) (pobjs d) (?fs(?k := None)) ?ac"
        using False by (intro acts_ok_leave [OF a]) auto
      have r: "flags_ok (?os[i := rejected_update (\<lambda>_. True) (?os ! i)]) (?fs(?k := None)) ?ac"
        if "\<not> added (pobjs d ! i)"
        using g' no_removal_above [OF d t False True] that i unfolding flags_ok_def
        by (auto simp: nth_list_update)
      have tr: "table_ok (pstates d) (?os[i := rejected_update (\<lambda>_. True) (?os ! i)])
          (AList.delete ?pid (pipes d))"
        using tb True by (intro table_ok_reject) simp_all
      show ?thesis
        using True False tb f' l' g' a' r tr
        by (auto simp: dinv_def leave_event_def Let_def delete_conv'
            simp del: list_update_overwrite nth_list_update_eq)
    qed
  next
    case False
    have "(RemPost, j) \<noteq> ?k" if "map_of (pstates d) pid = Some j" for pid j
      using that pid False by auto
    then have "acts_ok (map_of (pstates d)) (pobjs d) (?fs(?k := None)) ?ac"
      by (intro acts_ok_leave [OF a]) auto
    then show ?thesis
      using False tb f' l' g'
      by (cases "ev = RemPost") (simp_all add: dinv_def leave_event_def Let_def delete_conv')
  qed
qed

lemma dinv_dispatcher0: "dinv dispatcher0"
  by (simp add: dinv_def dispatcher0_def pipe_socket0_def pipe_socket.defs table_ok_def frames_ok_def
      flags_ok_def acts_ok_def log_ok_def logged_def)

lemma dinv_step:
  assumes "dinv d" and "dstep d d'"
  shows "dinv d'"
  using assms(2)
proof (cases rule: dstep.cases)
  case (wake_up t ev i)
  note k = top_frame_dinv [OF assms(1) wake_up(2)]
  then have "ev = RemPost" using assms(1) unfolding dinv_def frames_ok_def by blast
  with k show ?thesis using dinv_remove_or_wait [OF assms(1)] wake_up by simp
next
  case (register ev c)
  then show ?thesis using assms(1) by (cases ev) (simp_all add: add_callback_def)
next
  case (unregister ev c)
  then show ?thesis using assms(1) by (cases ev) (simp_all add: remove_callback_def)
qed (use assms(1) in \<open>auto intro: dinv_deliver dinv_call dinv_return dinv_leave dinv_close dest: top_frame_dinv\<close>)

text \<open>Every reachable state of the dispatcher satisfies the invariant.\<close>

interpretation dispatch: step_invariant dinit dstep dinv
  by unfold_locales (auto simp: dinit_def dinv_dispatcher0 intro: dinv_step)

section \<open>Removed pipes\<close>

text \<open>The flags of the pipe state that an id has in the table.\<close>

definition view :: "'a pipe_socket_scheme \<Rightarrow> int \<Rightarrow> (bool \<times> bool) option" where
  "view s pid = map_option (\<lambda>i. (removing (pobjs s ! i), added (pobjs s ! i))) (map_of (pstates s) pid)"

text \<open>nng announces a pipe at most once: \<open>ADD_PRE\<close>, then \<open>ADD_POST\<close>; ids are not reused.\<close>

definition adds_of :: "int \<Rightarrow> (pipe_event \<times> int) list \<Rightarrow> pipe_event list" where
  "adds_of pid evs = map fst (filter (\<lambda>(ev, p). p = pid \<and> (ev = AddPre \<or> ev = AddPost)) evs)"

definition nng_adds :: "(pipe_event \<times> int) list \<Rightarrow> bool" where
  "nng_adds evs \<longleftrightarrow> (\<forall>pid. adds_of pid evs \<in> {[], [AddPre], [AddPre, AddPost]})"

definition evicted :: "dispatcher \<Rightarrow> int set" where
  "evicted d = set (take (length (early d) - MAX_REMOVED_PIPE_IDS) (early d))"

definition ginv :: "dispatcher \<Rightarrow> bool" where
  "ginv d \<longleftrightarrow>
     removed_ids d = drop (length (early d) - MAX_REMOVED_PIPE_IDS) (early d) \<and>
     (\<forall>q. q \<in> set (early d) \<longrightarrow> (RemPost, q) \<in> set (delivered d)) \<and>
     (\<forall>q r. view d q = Some (r, True) \<longrightarrow> (AddPost, q) \<in> set (delivered d)) \<and>
     (\<forall>q a. view d q = Some (True, a) \<longrightarrow> (RemPost, q) \<in> set (delivered d)) \<and>
     (nng_adds (delivered d) \<longrightarrow> (\<forall>q. (RemPost, q) \<in> set (delivered d) \<and> q \<notin> evicted d \<longrightarrow>
        (q \<in> set (early d) \<or> (AddPost, q) \<in> set (delivered d)) \<and>
        (\<forall>r a. view d q = Some (r, a) \<longrightarrow> r)))"

lemma remember_removed_deque:
  assumes "length ids \<le> MAX_REMOVED_PIPE_IDS" and "pid \<notin> set ids"
  shows "remember_removed pid ids = deque_append MAX_REMOVED_PIPE_IDS pid ids"
proof (cases "length ids = MAX_REMOVED_PIPE_IDS")
  case True
  then show ?thesis
    using assms(2) by (cases ids) (simp_all add: remember_removed_def deque_append_def Let_def MAX_REMOVED_PIPE_IDS_def)
next
  case False
  then show ?thesis
    using assms by (simp add: remember_removed_def deque_append_def Let_def)
qed

lemma view_upd:
  assumes "table_ok (pstates d) (pobjs d) (pipes d)" and "map_of (pstates d) pid = Some i"
  shows "view (upd_state i f d) q =
    (if q = pid then Some (removing (f (pobjs d ! i)), added (f (pobjs d ! i))) else view d q)"
proof (cases "map_of (pstates d) q")
  case (Some j)
  have "j < length (pobjs d)" "st_pipe (pobjs d ! j) = q" "i < length (pobjs d)" "st_pipe (pobjs d ! i) = pid"
    using assms Some by (simp_all add: table_ok_def)
  then show ?thesis using Some assms(2) by (auto simp: view_def nth_list_update)
qed (use assms(2) in \<open>auto simp: view_def\<close>)

lemma view_running [simp]: "view (upd_state i (running_update h) s) = view s"
  by (auto simp: view_def fun_eq_iff intro: option.map_cong0)

lemma view_begin [simp]: "view (fst (begin_callbacks t i cbs s)) = view s"
  by (simp add: begin_callbacks_def)

lemma view_remove_or_wait [simp]: "view (fst (remove_or_wait t i s)) = view s"
  by (simp add: remove_or_wait_def)

lemma view_removed_ids [simp]: "view (s\<lparr>removed_ids := x\<rparr>) = view s"
  by (simp add: view_def fun_eq_iff)

lemma view_pipes [simp]: "view (s\<lparr>pipes := x\<rparr>) = view s"
  by (simp add: view_def fun_eq_iff)

lemma view_new_state:
  assumes "table_ok (pstates d) (pobjs d) (pipes d)" and "map_of (pstates d) pid = None"
  shows "view (snd (new_state pid d)) q = (if q = pid then Some (False, False) else view d q)"
proof (cases "map_of (pstates d) q")
  case (Some j)
  then have "j < length (pobjs d)" using assms(1) by (simp add: table_ok_def)
  with Some assms(2) show ?thesis
    by (auto simp: view_def new_state_def dict_get_update nth_append)
qed (use assms(2) in \<open>auto simp: view_def new_state_def dict_get_update\<close>)

text \<open>What an event does to the removed ids and to the table.\<close>

lemma enter_removed_ids:
  "removed_ids (fst (enter_event t ev pid s)) =
     (if early_removal ev pid s then remember_removed pid (removed_ids s) else removed_ids s)"
  by (cases ev)
    (auto simp: enter_event_def enter_remove_def enter_add_pre_def enter_add_post_def post_added_def
      remove_or_wait_def begin_callbacks_def new_state_def early_removal_def Let_def split: option.splits)

lemma view_post_added:
  assumes "table_ok (pstates d) (pobjs d) (pipes d)" and "map_of (pstates d) pid = Some i"
  shows "view (fst (post_added t pid i d)) q =
    (if q = pid then Some (removing (pobjs d ! i), True) else view d q)"
proof -
  have "view (fst (post_added t pid i d)) = view (upd_state i (added_update (\<lambda>_. True)) d)"
    unfolding post_added_def Let_def view_begin view_pipes ..
  then show ?thesis using view_upd [OF assms] by simp
qed

lemma view_enter_remove:
  assumes tb: "table_ok (pstates d) (pobjs d) (pipes d)"
  shows "view (fst (enter_remove t pid d)) q =
    (if q = pid then map_option (\<lambda>(r, a). (True, a)) (view d q) else view d q)"
proof (cases "map_of (pstates d) pid")
  case None
  then show ?thesis by (auto simp: enter_remove_def) (simp add: view_def)
next
  case (Some i)
  then have v: "view d pid = Some (removing (pobjs d ! i), added (pobjs d ! i))" by (simp add: view_def)
  show ?thesis
    using Some v view_upd [OF tb Some, of "removing_update (\<lambda>_. True)" q]
    by (simp add: enter_remove_def Let_def del: upd_state_fields split: if_splits)
qed

lemma view_enter_add:
  assumes tb: "table_ok (pstates d) (pobjs d) (pipes d)"
  shows "view (fst (enter_add_pre t pid d)) q =
      (if q = pid \<and> view d q = None then Some (False, False) else view d q)"
    and "view (fst (enter_add_post t pid d)) q = view d q \<or>
      q = pid \<and> view (fst (enter_add_post t pid d)) q = Some (False, True)"
proof -
  have n: "view d pid = None \<longleftrightarrow> map_of (pstates d) pid = None" by (simp add: view_def)
  show "view (fst (enter_add_pre t pid d)) q =
      (if q = pid \<and> view d q = None then Some (False, False) else view d q)"
    using view_new_state [OF tb, of pid q] n
    by (cases "map_of (pstates d) pid") (auto simp: enter_add_pre_def split: prod.split)
  show "view (fst (enter_add_post t pid d)) q = view d q \<or>
      q = pid \<and> view (fst (enter_add_post t pid d)) q = Some (False, True)"
  proof (cases "map_of (pstates d) pid")
    case None
    let ?n = "length (pobjs d)" and ?s = "snd (new_state pid d)"
    have "view (fst (post_added t pid ?n ?s)) = view (fst (post_added t pid ?n (fresh_pipe pid d)))"
      by (auto simp: post_added_def Let_def view_def new_state_def fresh_pipe_def upd_state_def
          begin_callbacks_def fun_eq_iff)
    moreover have "view (fst (post_added t pid ?n (fresh_pipe pid d))) q =
        (if q = pid then Some (False, True) else view (fresh_pipe pid d) q)"
      using table_ok_fresh [OF tb None]
      by (subst view_post_added) (simp_all add: fresh_pipe_def dict_get_update)
    moreover have "view (fresh_pipe pid d) q = view d q" if "q \<noteq> pid"
      using that view_new_state [OF tb None, of q]
      by (simp add: view_def new_state_def fresh_pipe_def)
    ultimately show ?thesis using None by (auto simp: enter_add_post_def new_state_def)
  next
    case (Some i)
    then show ?thesis using view_post_added [OF tb Some] by (auto simp: enter_add_post_def)
  qed
qed

lemma entered_frame_socket:
  "view (entered_frame t ev x) = view (fst x)" "removed_ids (entered_frame t ev x) = removed_ids (fst x)"
  "delivered (entered_frame t ev x) = delivered (fst x)" "early (entered_frame t ev x) = early (fst x)"
  by (cases x; cases "snd x"; auto simp: entered_frame_def view_def fun_eq_iff)+

lemma enter_history [simp]:
  "delivered (fst (enter_event t ev pid d)) = delivered d" "early (fst (enter_event t ev pid d)) = early d"
  by (cases ev; auto simp: enter_event_def enter_remove_def enter_add_pre_def enter_add_post_def
      post_added_def remove_or_wait_def begin_callbacks_def new_state_def Let_def split: option.splits)+

lemma adds_of_snoc:
  "adds_of pid (evs @ [(ev, p)]) =
     adds_of pid evs @ (if p = pid \<and> (ev = AddPre \<or> ev = AddPost) then [ev] else [])"
  by (simp add: adds_of_def)

lemma nng_adds_prefix: "nng_adds (evs @ [x]) \<Longrightarrow> nng_adds evs"
proof -
  assume a: "nng_adds (evs @ [x])"
  obtain ev p where x: "x = (ev, p)" by (cases x)
  show "nng_adds evs"
    unfolding nng_adds_def
  proof
    fix pid
    have "adds_of pid (evs @ [x]) \<in> {[], [AddPre], [AddPre, AddPost]}" using a by (simp add: nng_adds_def)
    then show "adds_of pid evs \<in> {[], [AddPre], [AddPre, AddPost]}"
      by (auto simp: x adds_of_snoc append_eq_Cons_conv split: if_splits)
  qed
qed

lemma no_add_after_post:
  assumes "nng_adds (evs @ [(ev, pid)])" and "(AddPost, pid) \<in> set evs"
  shows "ev \<noteq> AddPre" "ev \<noteq> AddPost"
proof -
  have "AddPost \<in> set (adds_of pid evs)" using assms(2) by (force simp: adds_of_def)
  moreover have "adds_of pid (evs @ [(ev, pid)]) \<in> {[], [AddPre], [AddPre, AddPost]}"
    using assms(1) by (simp add: nng_adds_def)
  ultimately show "ev \<noteq> AddPre" "ev \<noteq> AddPost"
    by (auto simp: adds_of_snoc append_eq_Cons_conv split: if_splits)
qed

lemma early_removal_view:
  "early_removal ev pid s \<longleftrightarrow> ev = RemPost \<and> pid \<notin> set (removed_ids s) \<and>
     (case view s pid of None \<Rightarrow> True | Some (r, a) \<Rightarrow> \<not> r \<and> \<not> a)"
  by (simp add: early_removal_def view_def split: option.split)

text \<open>What the delivery of an event does to the history, the table and the removed ids.\<close>

lemma deliver_history:
  "delivered (deliver t ev pid d) = delivered d @ [(ev, pid)]"
  "early (deliver t ev pid d) = early d @ (if early_removal ev pid d then [pid] else [])"
  by (simp_all add: deliver_def entered_frame_socket)

lemma deliver_view:
  assumes "dinv d"
  shows "pid \<in> set (removed_ids d) \<Longrightarrow> view (deliver t ev pid d) = view d"
    and "ev = RemPost \<Longrightarrow> pid \<notin> set (removed_ids d) \<Longrightarrow> view (deliver t ev pid d) q =
      (if q = pid then map_option (\<lambda>(r, a). (True, a)) (view d q) else view d q)"
    and "ev \<noteq> RemPost \<Longrightarrow> view (deliver t ev pid d) q = view d q \<or> q = pid \<and>
      (ev = AddPre \<and> view (deliver t ev pid d) q = Some (False, False) \<or>
       ev = AddPost \<and> view (deliver t ev pid d) q = Some (False, True))"
proof -
  define d1 where "d1 = d\<lparr>delivered := delivered d @ [(ev, pid)],
    early := early d @ (if early_removal ev pid d then [pid] else [])\<rparr>"
  have v: "view (deliver t ev pid d) = view (fst (enter_event t ev pid d1))"
    by (simp add: deliver_def d1_def entered_frame_socket)
  have v1: "view d1 = view d" "removed_ids d1 = removed_ids d"
    by (simp_all add: d1_def view_def fun_eq_iff)
  have tb: "table_ok (pstates d1) (pobjs d1) (pipes d1)" using assms by (simp add: dinv_def d1_def)
  show "pid \<in> set (removed_ids d) \<Longrightarrow> view (deliver t ev pid d) = view d"
    using v v1 by (simp add: enter_event_def)
  show "ev = RemPost \<Longrightarrow> pid \<notin> set (removed_ids d) \<Longrightarrow> view (deliver t ev pid d) q =
      (if q = pid then map_option (\<lambda>(r, a). (True, a)) (view d q) else view d q)"
    using view_enter_remove [OF tb, of t pid q] v v1 by (simp add: enter_event_def)
  show "ev \<noteq> RemPost \<Longrightarrow> view (deliver t ev pid d) q = view d q \<or> q = pid \<and>
      (ev = AddPre \<and> view (deliver t ev pid d) q = Some (False, False) \<or>
       ev = AddPost \<and> view (deliver t ev pid d) q = Some (False, True))"
    using view_enter_add [OF tb, of t pid q] v v1
    by (cases ev) (auto simp: enter_event_def split: if_splits)
qed

lemma deliver_removed_ids:
  assumes rem: "removed_ids d = drop (length (early d) - MAX_REMOVED_PIPE_IDS) (early d)"
  shows "removed_ids (deliver t ev pid d) =
    drop (length (early (deliver t ev pid d)) - MAX_REMOVED_PIPE_IDS) (early (deliver t ev pid d))"
proof -
  let ?M = MAX_REMOVED_PIPE_IDS
  define d1 where "d1 = d\<lparr>delivered := delivered d @ [(ev, pid)],
    early := early d @ (if early_removal ev pid d then [pid] else [])\<rparr>"
  have "view d1 = view d" by (simp add: d1_def view_def fun_eq_iff)
  then have e: "early_removal ev pid d1 = early_removal ev pid d"
    by (simp add: early_removal_view d1_def)
  have r: "removed_ids (deliver t ev pid d) = removed_ids (fst (enter_event t ev pid d1))"
    by (simp add: deliver_def d1_def entered_frame_socket)
  have r1: "removed_ids d1 = removed_ids d" by (simp add: d1_def)
  show ?thesis
  proof (cases "early_removal ev pid d")
    case True
    then have "remember_removed pid (removed_ids d) = deque_append ?M pid (removed_ids d)"
      by (intro remember_removed_deque) (simp_all add: rem early_removal_def)
    then show ?thesis
      using True e r r1 deque_append_drop [of ?M pid "early d"]
      by (simp add: enter_removed_ids rem deliver_history)
  next
    case False
    then show ?thesis using e r r1 by (simp add: enter_removed_ids rem deliver_history)
  qed
qed

text \<open>A pipe whose removal nng has delivered stays out of the table, or is being removed.\<close>

lemma removed_stays:
  assumes d: "dinv d" and G: "ginv d" and n: "nng_adds (delivered (deliver t ev pid d))"
    and q: "(RemPost, q) \<in> set (delivered (deliver t ev pid d))" "q \<notin> evicted (deliver t ev pid d)"
  shows "(q \<in> set (early (deliver t ev pid d)) \<or> (AddPost, q) \<in> set (delivered (deliver t ev pid d))) \<and>
    (\<forall>r a. view (deliver t ev pid d) q = Some (r, a) \<longrightarrow> r)"
proof -
  let ?d' = "deliver t ev pid d"
  note v' = deliver_history [of t ev pid d]
  have n0: "nng_adds (delivered d)" using n v' nng_adds_prefix by simp
  have ev: "q \<notin> evicted d"
    using q(2) v' set_take_subset_set_take [OF diff_le_mono [OF le_SucI [OF le_refl]],
      of "length (early d)" MAX_REMOVED_PIPE_IDS "early d"]
    by (auto simp: evicted_def split: if_splits)
  have rem: "removed_ids d = drop (length (early d) - MAX_REMOVED_PIPE_IDS) (early d)"
    using G by (simp add: ginv_def)
  show ?thesis
  proof (cases "(RemPost, q) \<in> set (delivered d)")
    case True
    then have k: "q \<in> set (early d) \<or> (AddPost, q) \<in> set (delivered d)" "\<forall>r a. view d q = Some (r, a) \<longrightarrow> r"
      using G n0 ev unfolding ginv_def by blast+
    have add: "view ?d' q = view d q" if "ev = AddPre \<or> ev = AddPost"
    proof (cases "q = pid")
      case qp: True
      have "(AddPost, q) \<notin> set (delivered d)"
        using no_add_after_post [of "delivered d" ev q] n v' that qp by auto
      then have "q \<in> set (removed_ids d)"
        using k ev unfolding rem evicted_def by (metis Un_iff append_take_drop_id set_append)
      then show ?thesis using deliver_view(1) [OF d] qp by simp
    qed (use deliver_view(3) [OF d, of ev t pid q] that in auto)
    have "\<forall>r a. view ?d' q = Some (r, a) \<longrightarrow> r"
      using k(2) add deliver_view(1) [OF d, of pid t ev] deliver_view(2) [OF d, of ev pid t q]
        deliver_view(3) [OF d, of ev t pid q] by (cases ev; cases "pid \<in> set (removed_ids d)") auto
    then show ?thesis using k(1) v' by auto
  next
    case False
    then have e: "ev = RemPost" "q = pid" using q(1) v' by auto
    have early: "q \<notin> set (early d)" and nv: "view d pid \<noteq> Some (True, a)" for a
      using G False e unfolding ginv_def by blast+
    then have nr: "pid \<notin> set (removed_ids d)" using e rem in_set_dropD by metis
    have post: "(AddPost, pid) \<in> set (delivered d)" if "view d pid = Some (r, True)" for r
      using G that unfolding ginv_def by blast
    show ?thesis
      using e nr nv post v' deliver_view(2) [OF d e(1) nr, of t q]
      by (cases "view d pid") (auto simp: early_removal_view)
  qed
qed

lemma ginv_deliver:
  assumes d: "dinv d" and G: "ginv d"
  shows "ginv (deliver t ev pid d)"
proof -
  let ?d' = "deliver t ev pid d"
  note v' = deliver_history [of t ev pid d]
  have early: "\<And>q. q \<in> set (early d) \<Longrightarrow> (RemPost, q) \<in> set (delivered d)"
    and post: "\<And>q r. view d q = Some (r, True) \<Longrightarrow> (AddPost, q) \<in> set (delivered d)"
    and gone: "\<And>q a. view d q = Some (True, a) \<Longrightarrow> (RemPost, q) \<in> set (delivered d)"
    using G unfolding ginv_def by blast+
  have view: "view d q = Some (x, a) \<or> q = pid \<and>
      (ev = RemPost \<and> x \<and> (\<exists>r. view d q = Some (r, a)) \<or> ev = AddPre \<and> \<not> x \<and> \<not> a \<or> ev = AddPost \<and> \<not> x)"
    if "view ?d' q = Some (x, a)" for q x a
    using that deliver_view(1) [OF d, of pid t ev] deliver_view(2) [OF d, of ev pid t q]
      deliver_view(3) [OF d, of ev t pid q]
    by (cases "ev = RemPost"; cases "pid \<in> set (removed_ids d)")
      (auto simp: eq_commute [of "Some (x, a)"] split: if_splits)
  have 1: "removed_ids ?d' = drop (length (early ?d') - MAX_REMOVED_PIPE_IDS) (early ?d')"
    using G by (intro deliver_removed_ids) (simp add: ginv_def)
  have 2: "(RemPost, q) \<in> set (delivered ?d')" if "q \<in> set (early ?d')" for q
    using that early v' by (auto simp: early_removal_def split: if_splits)
  have 3: "(AddPost, q) \<in> set (delivered ?d')" if "view ?d' q = Some (r, True)" for q r
    using view [OF that] post v' by auto
  have 4: "(RemPost, q) \<in> set (delivered ?d')" if "view ?d' q = Some (True, a)" for q a
    using view [OF that] gone v' by auto
  show ?thesis
    unfolding ginv_def using 1 2 3 4 removed_stays [OF d G] by blast
qed

lemma ginv_same:
  assumes "ginv d" and "removed_ids d' = removed_ids d" "early d' = early d" "delivered d' = delivered d"
    and v: "\<And>q. view d' q = view d q \<or> view d' q = None"
  shows "ginv d'"
proof -
  have *: "view d q = Some x" if "view d' q = Some x" for q x using v [of q] that by simp
  have e: "evicted d' = evicted d" by (simp add: evicted_def assms(3))
  show ?thesis
    using assms(1) * unfolding ginv_def e assms(2) assms(3) assms(4) by blast
qed

lemma view_leave: "view (leave_event t ev i d) q = view d q \<or> view (leave_event t ev i d) q = None"
proof -
  have "view (upd_state i (rejected_update h) s) = view s" for h and s :: "'a pipe_socket_scheme"
    by (auto simp: view_def fun_eq_iff intro: option.map_cong0)
  moreover have "view (s\<lparr>pstates := AList.delete pid (pstates s), pipes := x\<rparr>) q = (if q = pid then None else view s q)"
    for pid x and s :: "'a pipe_socket_scheme" by (simp add: view_def dict_get_delete)
  ultimately show ?thesis
    by (simp add: leave_event_def Let_def del: upd_state_fields)
qed

lemma leave_history [simp]:
  "removed_ids (leave_event t ev i d) = removed_ids d" "early (leave_event t ev i d) = early d"
  "delivered (leave_event t ev i d) = delivered d"
  by (simp_all add: leave_event_def Let_def)

lemma wake_history:
  "removed_ids (entered_frame t ev (remove_or_wait t i d)) = removed_ids d"
  "early (entered_frame t ev (remove_or_wait t i d)) = early d"
  "delivered (entered_frame t ev (remove_or_wait t i d)) = delivered d"
  "view (entered_frame t ev (remove_or_wait t i d)) = view d"
  by (simp_all add: entered_frame_socket) (simp_all add: remove_or_wait_def begin_callbacks_def)

lemma view_frames [simp]:
  "view (d\<lparr>frames := f\<rparr>) = view d" "view (d\<lparr>frames := f, log := l\<rparr>) = view d"
  "view (d\<lparr>frames := f, aborted := a\<rparr>) = view d"
  by (simp_all add: view_def fun_eq_iff)

lemma view_callbacks [simp]:
  "view (add_callback ev c s) = view s" "view (snd (remove_callback ev c s)) = view s"
  by (cases ev; simp add: add_callback_def remove_callback_def view_def fun_eq_iff)+

lemma callbacks_history [simp]:
  "removed_ids (add_callback ev c s) = removed_ids s"
  "early (add_callback ev c d) = early d" "delivered (add_callback ev c d) = delivered d"
  "removed_ids (snd (remove_callback ev c s)) = removed_ids s"
  "early (snd (remove_callback ev c d)) = early d" "delivered (snd (remove_callback ev c d)) = delivered d"
  by (cases ev; simp add: add_callback_def remove_callback_def)+

lemma view_close [simp]: "view (upd_state i (st_closed_update h) s) = view s"
  by (auto simp: view_def fun_eq_iff intro: option.map_cong0)

lemma ginv_step:
  assumes "dinv d" and "ginv d" and "dstep d d'"
  shows "ginv d'"
  using assms(3)
proof (cases rule: dstep.cases)
  case (deliver_event t ev pid)
  then show ?thesis using ginv_deliver assms by simp
next
  case (leave_dispatcher t ev i)
  then show ?thesis
    using view_leave [of t ev i "d\<lparr>frames := AList.delete (ev, i) (frames d)\<rparr>"]
    by (intro ginv_same [OF assms(2)]) simp_all
qed (auto intro!: ginv_same [OF assms(2)] simp: wake_history)

definition removal_inv :: "dispatcher \<Rightarrow> bool" where
  "removal_inv d \<longleftrightarrow> dinv d \<and> ginv d"

interpretation removal: step_invariant dinit dstep removal_inv
proof unfold_locales
  show "removal_inv d" if "dinit d" for d
    using that dinv_dispatcher0
    by (simp add: removal_inv_def dinit_def ginv_def dispatcher0_def pipe_socket0_def
        pipe_socket.defs view_def)
  show "removal_inv d'" if "removal_inv d" "dstep d d'" for d d'
    using that dinv_step ginv_step by (auto simp: removal_inv_def)
qed

section \<open>Properties\<close>

text \<open>A pipe that was rejected stays rejected.\<close>

definition keeps_rejected :: "pipe_state list \<Rightarrow> pipe_state list \<Rightarrow> bool" where
  "keeps_rejected os os' \<longleftrightarrow>
     (\<forall>i < length os. rejected (os ! i) \<longrightarrow> i < length os' \<and> rejected (os' ! i))"

lemma keeps_rejected_refl [simp]: "keeps_rejected os os"
  by (simp add: keeps_rejected_def)

lemma keeps_rejected_trans: "keeps_rejected os os' \<Longrightarrow> keeps_rejected os' os'' \<Longrightarrow> keeps_rejected os os''"
  by (simp add: keeps_rejected_def)

lemma keeps_rejected_append [simp]: "keeps_rejected os (os @ xs)"
  by (simp add: keeps_rejected_def nth_append)

lemma keeps_rejected_upd_trans:
  assumes "keeps_rejected os os'" and "\<And>x. rejected x \<Longrightarrow> rejected (f x)"
  shows "keeps_rejected os (os'[i := f (os' ! i)])"
  unfolding keeps_rejected_def
proof (intro allI impI)
  fix j assume "j < length os" "rejected (os ! j)"
  then have "j < length os'" "rejected (os' ! j)" using assms(1) by (simp_all add: keeps_rejected_def)
  then show "j < length (os'[i := f (os' ! i)]) \<and> rejected (os'[i := f (os' ! i)] ! j)"
    using assms(2) by (cases "i = j") simp_all
qed

lemmas keeps_rejected_upd = keeps_rejected_upd_trans [OF keeps_rejected_refl]

lemma keeps_rejected_begin: "keeps_rejected (pobjs s) (pobjs (fst (begin_callbacks t i cbs s)))"
  by (simp add: begin_callbacks_def keeps_rejected_upd)

lemma keeps_rejected_wait: "keeps_rejected (pobjs s) (pobjs (fst (remove_or_wait t i s)))"
  by (simp add: remove_or_wait_def keeps_rejected_begin)

lemma keeps_rejected_post: "keeps_rejected (pobjs s) (pobjs (fst (post_added t pid i s)))"
proof -
  let ?s = "upd_state i (added_update (\<lambda>_. True)) s"
  have "keeps_rejected (pobjs s) (pobjs ?s)" by (simp add: keeps_rejected_upd)
  moreover have "keeps_rejected (pobjs ?s) (pobjs (fst (post_added t pid i s)))"
    using keeps_rejected_begin [of "?s\<lparr>pipes := AList.update pid i (pipes ?s)\<rparr>" t i]
    by (simp add: post_added_def Let_def)
  ultimately show ?thesis by (rule keeps_rejected_trans)
qed

lemma keeps_rejected_enter:
  fixes s :: "'a pipe_socket_scheme"
  shows "keeps_rejected (pobjs s) (pobjs (fst (enter_event t ev pid s)))"
proof (cases ev)
  case AddPre
  show ?thesis
  proof (cases "map_of (pstates s) pid")
    case None
    have "enter_add_pre t pid s = begin_callbacks t (length (pobjs s)) (on_pre_pipe_add s) (fresh_pipe pid s)"
      using None by (simp add: enter_add_pre_def new_state_def fresh_pipe_def)
    then show ?thesis
      using keeps_rejected_trans [OF keeps_rejected_append [of "pobjs s" "[new_pipe_state pid]"]
          keeps_rejected_begin [of "fresh_pipe pid s", simplified]]
      by (simp add: enter_event_def AddPre)
  qed (simp add: enter_event_def AddPre enter_add_pre_def)
next
  case AddPost
  have "keeps_rejected (pobjs s) (pobjs (fst (post_added t pid (length (pobjs s)) (snd (new_state pid s)))))"
    using keeps_rejected_trans [OF _ keeps_rejected_post, of "pobjs s" "snd (new_state pid s)"]
    by (simp add: new_state_def)
  then show ?thesis
    by (auto simp: enter_event_def AddPost enter_add_post_def keeps_rejected_post new_state_def
        split: option.split)
next
  case RemPost
  have "keeps_rejected (pobjs s) (pobjs (fst (remove_or_wait t i s')))"
    if "pobjs s' = pobjs (upd_state i (removing_update (\<lambda>_. True)) s)"
    for i and s' :: "'a pipe_socket_scheme"
    using keeps_rejected_trans [OF _ keeps_rejected_wait [of s' t i], of "pobjs s"]
    by (simp add: that keeps_rejected_upd)
  then show ?thesis
    by (auto simp: enter_event_def RemPost enter_remove_def Let_def split: option.split)
qed (simp add: enter_event_def)

lemma entered_frame_pobjs [simp]: "pobjs (entered_frame t ev x) = pobjs (fst x)"
  by (cases x; cases "snd x"; auto simp: entered_frame_def)

lemma keeps_rejected_step: "dstep d d' \<Longrightarrow> keeps_rejected (pobjs d) (pobjs d')"
proof (induction rule: dstep.induct)
  case (deliver_event t d ev pid)
  show ?case
    using keeps_rejected_enter [of "d\<lparr>delivered := x, early := y\<rparr>" for x y] by (simp add: deliver_def Let_def)
next
  case (leave_dispatcher t d ev i)
  show ?case
    by (auto simp: leave_event_def Let_def intro!: keeps_rejected_upd_trans simp del: list_update_overwrite)
next
  case (register d ev c)
  show ?case by (cases ev) (simp_all add: add_callback_def)
next
  case (unregister d ev c)
  show ?case by (cases ev) (simp_all add: remove_callback_def)
qed (simp_all add: keeps_rejected_wait keeps_rejected_upd)

lemma keeps_rejected_steps: "dstep\<^sup>*\<^sup>* d d' \<Longrightarrow> keeps_rejected (pobjs d) (pobjs d')"
  by (induction rule: rtranclp_induct) (auto intro: keeps_rejected_trans keeps_rejected_step)

lemma rejected_silent:
  assumes d: "dinv d" and i: "i < length (pobjs d)" and r: "rejected (pobjs d ! i)"
  shows "logged (log d) (AddPost, i) = []" "logged (log d) (RemPost, i) = []" "i \<notin> snd ` set (pipes d)"
proof -
  have g: "flags_ok (pobjs d) (map_of (frames d)) (map_of (acts d))"
    and l: "log_ok (log d) (map_of (frames d)) (map_of (acts d)) (aborted d)"
    and tb: "table_ok (pstates d) (pobjs d) (pipes d)" using d by (simp_all add: dinv_def)
  have na: "\<not> added (pobjs d ! i)"
    and cb: "\<And>t cbs. map_of (acts d) (RemPost, i) = Some (t, cbs) \<Longrightarrow> cbs = []"
    using g i r unfolding flags_ok_def by blast+
  show "logged (log d) (AddPost, i) = []" using not_added [OF g na] log_ok_none [OF l] by simp
  show "logged (log d) (RemPost, i) = []"
  proof (cases "map_of (acts d) (RemPost, i)")
    case None
    then show ?thesis using log_ok_none [OF l] by simp
  next
    case (Some x)
    then obtain t where x: "map_of (acts d) (RemPost, i) = Some (t, [])" using cb by (cases x) auto
    show ?thesis
      using log_okD [OF l, of "(RemPost, i)"] x
      by (auto elim!: log_spec.elims)
  qed
  show "i \<notin> snd ` set (pipes d)" using tb r by (auto simp: table_ok_def)
qed


text \<open>Runs as lists of moves, to compute reachable states: each move is a step when its guard holds.\<close>

datatype dmove =
    Deliver tid pipe_event int | Wake tid | Run tid | Return tid | Leave tid
  | ClosePipe nat | Register pipe_event callback

fun apply_move :: "dmove \<Rightarrow> dispatcher \<Rightarrow> dispatcher option" where
  "apply_move (Deliver t ev pid) d = (if can_deliver t d then Some (deliver t ev pid d) else None)"
| "apply_move (Wake t) d = (case top_frame t (frames d) of
     Some ((ev, i), Waiting) \<Rightarrow> Some (entered_frame t ev (remove_or_wait t i d)) | _ \<Rightarrow> None)"
| "apply_move (Run t) d = (case top_frame t (frames d) of
     Some ((ev, i), Left (c # cs)) \<Rightarrow>
       Some (d\<lparr>frames := AList.update (ev, i) (t, Calling c cs) (frames d), log := log d @ [(t, ev, i, c)]\<rparr>)
   | _ \<Rightarrow> None)"
| "apply_move (Return t) d = (case top_frame t (frames d) of
     Some ((ev, i), Calling c cs) \<Rightarrow> Some (d\<lparr>frames := AList.update (ev, i) (t, Left cs) (frames d)\<rparr>)
   | _ \<Rightarrow> None)"
| "apply_move (Leave t) d = (case top_frame t (frames d) of
     Some ((ev, i), Left []) \<Rightarrow> Some (leave_event t ev i (d\<lparr>frames := AList.delete (ev, i) (frames d)\<rparr>))
   | _ \<Rightarrow> None)"
| "apply_move (ClosePipe i) d = Some (upd_state i (st_closed_update (\<lambda>_. True)) d)"
| "apply_move (Register ev c) d = Some (add_callback ev c d)"

fun drun :: "dmove list \<Rightarrow> dispatcher \<Rightarrow> dispatcher option" where
  "drun [] d = Some d"
| "drun (m # ms) d = (case apply_move m d of None \<Rightarrow> None | Some e \<Rightarrow> drun ms e)"

lemma apply_move_dstep: "apply_move m d = Some e \<Longrightarrow> dstep d e"
  by (cases m) (auto split: option.splits phase.splits list.splits if_splits intro: dstep.intros)

lemma drun_steps: "drun ms d = Some e \<Longrightarrow> dstep\<^sup>*\<^sup>* d e"
  by (induction ms arbitrary: d)
    (auto split: option.splits intro: converse_rtranclp_into_rtranclp apply_move_dstep)

lemma drun_reach:
  assumes "drun ms dispatcher0 = Some e"
  shows "reach dinit dstep e"
proof (rule reach_steps)
  show "dstep\<^sup>*\<^sup>* dispatcher0 e" using assms by (rule drun_steps)
  show "reach dinit dstep dispatcher0" by (rule reach_init) (simp add: dinit_def)
qed

lemmas run_simps = dispatcher0_def pipe_socket.defs pipe_socket0_def can_deliver_def top_frame_def
  deliver_def enter_event_def enter_remove_def enter_add_pre_def enter_add_post_def post_added_def
  remove_or_wait_def new_state_def new_pipe_state_def begin_callbacks_def entered_frame_def upd_state_def
  leave_event_def add_callback_def early_removal_def remember_removed_def MAX_REMOVED_PIPE_IDS_def
  logged_def

text \<open>Two callbacks are registered for the \<open>ADD_PRE\<close> of pipe 7, and the first one is called.\<close>

definition pre_run :: "dmove list" where
  "pre_run = [Register AddPre 5, Register AddPre 6, Deliver 1 AddPre 7, Run 1]"


text \<open>A pipe closed by a pre-connect callback stays silent. When the pre-connect callbacks of a
  pipe have run and one of them closed it, and the pipe was neither connected nor removed meanwhile,
  then in every run from there no post-connect and no post-remove callback is called for it, and it is
  not among the socket's pipes.\<close>

theorem rejected_pipe_silent:
  assumes "reach dinit dstep d" and t: "top_frame t (frames d) = Some ((AddPre, i), Left [])"
    and "st_closed (pobjs d ! i)" and "\<not> added (pobjs d ! i)"
    and "map_of (pstates d) (st_pipe (pobjs d ! i)) = Some i"
    and "dstep\<^sup>*\<^sup>* (leave_event t AddPre i (d\<lparr>frames := AList.delete (AddPre, i) (frames d)\<rparr>)) e"
  shows "logged (log e) (AddPost, i) = [] \<and> logged (log e) (RemPost, i) = [] \<and> i \<notin> snd ` set (pipes e)"
proof -
  let ?l = "leave_event t AddPre i (d\<lparr>frames := AList.delete (AddPre, i) (frames d)\<rparr>)"
  have d: "dinv d" by (rule dispatch.reach_inv [OF assms(1)])
  have i: "i < length (pobjs d)" using d assms(5) by (simp add: dinv_def table_ok_def)
  have "dinv ?l" by (rule dinv_leave [OF d t])
  then have e: "dinv e" by (rule dispatch.steps_inv [OF assms(6)])
  have "i < length (pobjs ?l)" "rejected (pobjs ?l ! i)"
    using assms(3-5) i by (simp_all add: leave_event_def Let_def)
  then show ?thesis
    using keeps_rejected_steps [OF assms(6)] rejected_silent [OF e] unfolding keeps_rejected_def by blast
qed

definition reject_run :: "dmove list" where
  "reject_run = [Register AddPre 5, Register AddPost 6, Register RemPost 8, Deliver 1 AddPre 7, Run 1,
     ClosePipe 0, Return 1]"

theorem rejected_pipe_silent_witness:
  "\<exists>e. drun [Deliver 2 RemPost 7, Leave 2]
       (leave_event 1 AddPre 0 (the (drun reject_run dispatcher0)\<lparr>frames := []\<rparr>)) = Some e \<and>
     logged (log e) (RemPost, 0) = []"
proof -
  obtain d where d: "drun reject_run dispatcher0 = Some d" by (simp add: reject_run_def run_simps)
  have f: "top_frame 1 (frames d) = Some ((AddPre, 0), Left [])" "AList.delete (AddPre, 0) (frames d) = []"
    "st_closed (pobjs d ! 0)" "\<not> added (pobjs d ! 0)" "map_of (pstates d) (st_pipe (pobjs d ! 0)) = Some 0"
    using d by (simp_all add: reject_run_def run_simps) auto
  have "\<exists>e. drun [Deliver 2 RemPost 7, Leave 2]
      (leave_event 1 AddPre 0 (the (drun reject_run dispatcher0)\<lparr>frames := []\<rparr>)) = Some e"
    by (simp add: reject_run_def run_simps)
  then obtain e where e:
    "drun [Deliver 2 RemPost 7, Leave 2] (leave_event 1 AddPre 0 (d\<lparr>frames := []\<rparr>)) = Some e"
    using d by auto
  show ?thesis
    using rejected_pipe_silent [OF drun_reach [OF d] f(1,3,4,5), unfolded f(2), OF drun_steps [OF e]] d e
    by auto
qed

lemma rem_sorted_append:
  "rem_sorted (xs @ (t, RemPost, i, c) # ys) \<Longrightarrow> (u, ev, i, c') \<in> set ys \<Longrightarrow> u = t"
  by (induction xs rule: rem_sorted.induct) auto

text \<open>Removal callbacks come last. In every reachable state, once a post-remove callback was
  called for a pipe, no other thread has called any callback for it since: \<open>REM_POST\<close> waits for
  the connect callbacks that run on other threads, and connect events that come later are dropped. (The
  thread that handles the removal may return to a connect callback of the pipe only when nng delivered
  the removal inside that callback.)\<close>

theorem removal_callbacks_last:
  assumes "reach dinit dstep d" and "log d = before @ (t, RemPost, i, c) # later"
    and "(u, ev, i, c') \<in> set later"
  shows "u = t"
proof -
  have "rem_sorted (log d)" using dispatch.reach_inv [OF assms(1)] by (simp add: dinv_def log_ok_def)
  with assms(2,3) show ?thesis using rem_sorted_append by metis
qed

text \<open>A removal waits for a connect callback on another thread, then runs its two callbacks.\<close>

definition removal_run :: "dmove list" where
  "removal_run = [Register AddPost 6, Register RemPost 8, Register RemPost 9, Deliver 1 AddPre 7,
     Leave 1, Deliver 1 AddPost 7, Deliver 2 RemPost 7, Wake 2, Run 1, Return 1, Leave 1,
     Wake 2, Run 2, Return 2, Run 2, Return 2, Leave 2]"

theorem removal_callbacks_last_witness:
  "log (the (drun removal_run dispatcher0)) =
     [(1, AddPost, 0, 6)] @ (2, RemPost, 0, 8) # [(2, RemPost, 0, 9)] \<and> (2::tid) = 2"
proof -
  obtain d where d: "drun removal_run dispatcher0 = Some d" by (simp add: removal_run_def run_simps)
  have l: "log d = [(1, AddPost, 0, 6)] @ (2, RemPost, 0, 8) # [(2, RemPost, 0, 9)]"
    using d by (simp add: removal_run_def run_simps) auto
  show ?thesis
    using removal_callbacks_last [OF drun_reach [OF d] l, of 2 RemPost 9] d l by simp
qed

text \<open>C14. The pipe table is exact. In every reachable state, \<open>Socket.pipes\<close> are the pipes of
  the states in the table that were not rejected, in the order they were added; an id has at most one
  state, the state of its own pipe; the running callbacks recorded in a state are those of the threads
  that run one for it; and at most 1024 removed ids are remembered, the latest ones.\<close>

theorem pipe_table_exact:
  assumes "reach dinit dstep d"
  shows "pipes d = filter (\<lambda>(pid, i). \<not> rejected (pobjs d ! i)) (pstates d) \<and>
    distinct (map fst (pstates d)) \<and>
    (\<forall>pid i. map_of (pstates d) pid = Some i \<longrightarrow> st_pipe (pobjs d ! i) = pid) \<and>
    (\<forall>i < length (pobjs d). mset (running (pobjs d ! i)) = busy i (frames d)) \<and>
    length (removed_ids d) \<le> MAX_REMOVED_PIPE_IDS \<and>
    removed_ids d = drop (length (early d) - MAX_REMOVED_PIPE_IDS) (early d)"
  using removal.reach_inv [OF assms]
  by (simp add: removal_inv_def dinv_def ginv_def table_ok_def frames_ok_def dict_ok_def)

theorem pipe_table_exact_witness:
  "let d = the (drun reject_run dispatcher0) in
     pipes d = filter (\<lambda>(pid, i). \<not> rejected (pobjs d ! i)) (pstates d) \<and> pipes d = [(7, 0)]"
proof -
  obtain d where d: "drun reject_run dispatcher0 = Some d" by (simp add: reject_run_def run_simps)
  have "pipes d = [(7, 0)]" using d by (simp add: reject_run_def run_simps) auto
  then show ?thesis using pipe_table_exact [OF drun_reach [OF d]] d by simp
qed

text \<open>C15. A removed pipe does not come back. If nng announces each pipe at most once (\<open>ADD_PRE\<close>,
  then \<open>ADD_POST\<close>, on whatever threads and however late), then in every reachable state a pipe
  whose \<open>REM_POST\<close> was delivered is not in the table, nor among the socket's pipes, unless its
  removal is still under way or more than 1024 other pipes were removed before their \<open>ADD_POST\<close>
  since.\<close>

theorem removed_pipe_stays_out:
  assumes "reach dinit dstep d" and "nng_adds (delivered d)"
    and "(RemPost, pid) \<in> set (delivered d)" and "pid \<notin> evicted d"
    and "\<And>i. st_pipe (pobjs d ! i) = pid \<Longrightarrow> map_of (frames d) (RemPost, i) = None"
  shows "map_of (pstates d) pid = None \<and> map_of (pipes d) pid = None"
proof -
  have d: "dinv d" and g: "ginv d" using removal.reach_inv [OF assms(1)] by (simp_all add: removal_inv_def)
  have tb: "table_ok (pstates d) (pobjs d) (pipes d)"
    and a: "acts_ok (map_of (pstates d)) (pobjs d) (map_of (frames d)) (map_of (acts d))"
    using d by (simp_all add: dinv_def)
  have out: "map_of (pstates d) pid = None"
  proof (rule ccontr)
    assume "map_of (pstates d) pid \<noteq> None"
    then obtain i where i: "map_of (pstates d) pid = Some i" by auto
    have "\<And>r a. view d pid = Some (r, a) \<Longrightarrow> r" using g assms(2-4) unfolding ginv_def by blast
    then have "removing (pobjs d ! i)" using i by (simp add: view_def)
    then have "map_of (frames d) (RemPost, i) \<noteq> None" using a i unfolding acts_ok_def by blast
    then show False using assms(5) [of i] tb i by (simp add: table_ok_def)
  qed
  then show ?thesis using tb by (auto simp: table_ok_def map_of_eq_None_iff)
qed

text \<open>\<open>REM_POST\<close> overtakes \<open>ADD_PRE\<close> and \<open>ADD_POST\<close>, which are dropped.\<close>

definition late_run :: "dmove list" where
  "late_run = [Deliver 2 RemPost 7, Deliver 1 AddPre 7, Deliver 1 AddPost 7]"

theorem removed_pipe_stays_out_witness:
  "map_of (pipes (the (drun late_run dispatcher0))) 7 = None"
proof -
  obtain d where d: "drun late_run dispatcher0 = Some d" by (simp add: late_run_def run_simps)
  have e: "delivered d = [(RemPost, 7), (AddPre, 7), (AddPost, 7)]" "early d = [7]" "frames d = []"
    using d by (simp_all add: late_run_def run_simps) auto
  have "nng_adds (delivered d)" by (auto simp: nng_adds_def adds_of_def e)
  then show ?thesis
    using removed_pipe_stays_out [OF drun_reach [OF d], of 7] d e
    by (simp add: evicted_def MAX_REMOVED_PIPE_IDS_def)
qed

end
