(* ===== verification/Engine.thy ===== *)
theory Engine
  imports Prelude
begin

text \<open>
  The native completion queue of \<^verbatim>\<open>src/aio_engine.h\<close>. Worker threads of nng push the
  entry of a completed aio with \<open>pynng_native_aio_complete\<close>; the event loop takes the slot
  ids out with \<open>pynng_mpsc_drain_batch\<close>. Every operation holds the queue's mutex from its
  first to its last access of the queue, so each one is one step of the model.

  Memory is explicit: the entries are a heap from addresses (0 is \<open>NULL\<close>), the queue is
  \<open>None\<close> once it is destroyed, and an access to freed memory, a double free or an underflow of
  the reference count is the result \<open>None\<close>. The ring buffer is an implementation of the
  interface \<open>fifo\<close>; the lemmas on the operations use only the interface.
\<close>

section \<open>First-in first-out queues\<close>

locale fifo =
  fixes ok :: "'q \<Rightarrow> bool" and items :: "'q \<Rightarrow> 'a list"
    and enq :: "'a \<Rightarrow> 'q \<Rightarrow> 'q" and deq :: "'q \<Rightarrow> 'a \<times> 'q"
  assumes ok_enq: "ok q \<Longrightarrow> ok (enq x q)"
    and items_enq: "ok q \<Longrightarrow> items (enq x q) = items q @ [x]"
    and ok_deq: "ok q \<Longrightarrow> items q \<noteq> [] \<Longrightarrow> ok (snd (deq q))"
    and items_deq: "ok q \<Longrightarrow> items q \<noteq> [] \<Longrightarrow> items q = fst (deq q) # items (snd (deq q))"
begin

lemma ok_fold: "ok q \<Longrightarrow> ok (fold enq xs q)"
  by (induction xs arbitrary: q) (simp_all add: ok_enq)

lemma items_fold: "ok q \<Longrightarrow> items (fold enq xs q) = items q @ xs"
  by (induction xs arbitrary: q) (simp_all add: ok_enq items_enq)

lemma deq_hd: "ok q \<Longrightarrow> items q = x # xs \<Longrightarrow> fst (deq q) = x \<and> items (snd (deq q)) = xs"
  using items_deq [of q] by simp

text \<open>What is put in comes out in the same order.\<close>

primrec deqs :: "nat \<Rightarrow> 'q \<Rightarrow> 'a list \<times> 'q" where
  "deqs 0 q = ([], q)"
| "deqs (Suc n) q = (let (x, q') = deq q; (xs, q'') = deqs n q' in (x # xs, q''))"

lemma deqs_items: "ok q \<Longrightarrow> n \<le> length (items q) \<Longrightarrow>
   fst (deqs n q) = take n (items q) \<and> items (snd (deqs n q)) = drop n (items q) \<and> ok (snd (deqs n q))"
proof (induction n arbitrary: q)
  case (Suc n)
  then obtain x xs where i: "items q = x # xs" by (cases "items q") auto
  have d: "deq q = (x, snd (deq q))" using deq_hd [OF Suc.prems(1) i] by (metis prod.collapse)
  have "fst (deqs n (snd (deq q))) = take n xs \<and> items (snd (deqs n (snd (deq q)))) = drop n xs
      \<and> ok (snd (deqs n (snd (deq q))))"
    using Suc.IH [of "snd (deq q)"] Suc.prems i deq_hd [OF Suc.prems(1) i] ok_deq [of q] by auto
  then show ?case by (subst (1 2 3) deqs.simps, subst (1 2 3) d) (simp add: i case_prod_beta)
qed simp

lemma fifo_order:
  assumes "ok q" and "items q = []"
  shows "fst (deqs (length xs) (fold enq xs q)) = xs"
  using deqs_items [OF ok_fold [OF assms(1)], of "length xs" xs] items_fold [OF assms(1), of xs]
  by (simp add: assms(2))

end

section \<open>The ring buffer\<close>

datatype entry_state = IDLE | QUEUED | FREED

record entry =
  e_aio :: int
  e_slot :: nat
  e_queue :: bool
  e_state :: entry_state

record mpsc =
  entries :: "nat list"
  head :: nat
  tail :: nat
  q_count :: nat
  q_closed :: bool
  write_fd :: int
  refcount :: nat

abbreviation capacity :: "mpsc \<Rightarrow> nat" where "capacity q \<equiv> length (entries q)"

definition items :: "mpsc \<Rightarrow> nat list" where
  "items q = map (\<lambda>i. entries q ! ((tail q + i) mod capacity q)) [0..<q_count q]"

definition ring_ok :: "mpsc \<Rightarrow> bool" where
  "ring_ok q \<longleftrightarrow> 0 < capacity q \<and> tail q < capacity q \<and> q_count q \<le> capacity q \<and>
     head q = (tail q + q_count q) mod capacity q"

definition grow :: "bool \<Rightarrow> mpsc \<Rightarrow> mpsc" where
  "grow malloc_ok q =
     (if q_count q = capacity q \<and> malloc_ok then
        (let new_cap = (if capacity q \<noteq> 0 then capacity q * 2 else 256) in
         q\<lparr>entries := map (\<lambda>i. entries q ! ((tail q + i) mod capacity q)) [0..<q_count q]
                        @ replicate (new_cap - q_count q) 0,
           tail := 0, head := q_count q\<rparr>)
      else q)"

definition push :: "nat \<Rightarrow> mpsc \<Rightarrow> mpsc" where
  "push e q =
     (if q_count q < capacity q then
        q\<lparr>entries := (entries q)[head q := e], head := (head q + 1) mod capacity q,
          q_count := q_count q + 1\<rparr>
      else q)"

definition pop :: "mpsc \<Rightarrow> nat \<times> mpsc" where
  "pop q = (entries q ! tail q,
            q\<lparr>tail := (tail q + 1) mod capacity q, q_count := q_count q - 1\<rparr>)"

definition enqueue :: "bool \<Rightarrow> nat \<Rightarrow> mpsc \<Rightarrow> mpsc" where
  "enqueue malloc_ok e q = push e (grow malloc_ok q)"

lemma mod_add_ne:
  assumes "i < n" and "n < c"
  shows "(a + i) mod c \<noteq> (a + n) mod (c :: nat)"
proof
  assume "(a + i) mod c = (a + n) mod c"
  then have "c dvd (a + n) - (a + i)" using mod_eq_dvd_iff_nat [of "a + i" "a + n" c] assms by simp
  then have "c dvd n - i" by simp
  moreover have "0 < n - i" "n - i < c" using assms by auto
  ultimately show False using nat_dvd_not_less by blast
qed

lemma length_items [simp]: "length (items q) = q_count q"
  by (simp add: items_def)

lemma items_Nil_iff: "items q = [] \<longleftrightarrow> q_count q = 0"
  by (metis length_0_conv length_items)

lemma ring_push:
  assumes "ring_ok q" and "q_count q < capacity q"
  shows "ring_ok (push e q) \<and> items (push e q) = items q @ [e]"
proof
  show "ring_ok (push e q)"
    using assms by (auto simp: ring_ok_def push_def mod_Suc_eq)
  have h: "head q = (tail q + q_count q) mod capacity q" "head q < capacity q"
    using assms(1) by (auto simp: ring_ok_def)
  have ne: "head q \<noteq> (tail q + i) mod capacity q" if "i < q_count q" for i
    unfolding h(1) by (rule mod_add_ne [symmetric]) (use that assms in auto)
  have "items (push e q) =
      map (\<lambda>i. (entries q)[head q := e] ! ((tail q + i) mod capacity q)) [0..<q_count q]
      @ [(entries q)[head q := e] ! head q]"
    using assms by (simp add: items_def push_def h(1))
  with ne h(2) show "items (push e q) = items q @ [e]"
    by (simp add: items_def)
qed

lemma ring_grow:
  assumes "ring_ok q"
  shows "ring_ok (grow m q) \<and> items (grow m q) = items q \<and> (m \<longrightarrow> q_count (grow m q) < capacity (grow m q))"
proof (cases "q_count q = capacity q \<and> m")
  case True
  then have m: "m = True" and g: "grow True q = q\<lparr>entries := items q @ replicate (capacity q) 0, tail := 0, head := capacity q\<rparr>"
    using assms by (auto simp: grow_def ring_ok_def items_def Let_def)
  have l: "length (items q) = capacity q" using True by (simp add: items_def)
  have "items (grow True q) = items q"
  proof (rule nth_equalityI)
    show "length (items (grow True q)) = length (items q)" by (simp add: g)
    fix i assume "i < length (items (grow True q))"
    then have "i < capacity q" "i < q_count q" using True by (simp_all add: g)
    then show "items (grow True q) ! i = items q ! i"
      unfolding items_def [of "grow True q"] using l by (simp add: g nth_append)
  qed
  with assms True l show ?thesis by (auto simp: g m ring_ok_def)
next
  case False
  with assms show ?thesis by (auto simp: grow_def ring_ok_def)
qed

lemma ring_pop:
  assumes "ring_ok q" and "items q \<noteq> []"
  shows "ring_ok (snd (pop q)) \<and> items q = fst (pop q) # items (snd (pop q))"
proof
  have n: "0 < q_count q" using assms(2) by (simp add: items_Nil_iff)
  then obtain k where k: "q_count q = Suc k" by (cases "q_count q") auto
  show "ring_ok (snd (pop q))"
    using assms(1) by (auto simp: ring_ok_def pop_def k mod_simps)
  have u: "[0..<Suc k] = 0 # map Suc [0..<k]"
    by (simp add: map_Suc_upt upt_conv_Cons)
  have "(tail q + Suc i) mod capacity q = ((tail q + 1) mod capacity q + i) mod capacity q" for i
    by (simp add: mod_simps)
  with assms(1) show "items q = fst (pop q) # items (snd (pop q))"
    unfolding items_def pop_def k u by (simp add: comp_def ring_ok_def)
qed

lemma q_count_pop [simp]: "q_count (snd (pop q)) = q_count q - 1"
  by (simp add: pop_def)

lemma ring_enqueue:
  assumes "ring_ok q"
  shows "ring_ok (enqueue True e q) \<and> items (enqueue True e q) = items q @ [e]"
  using ring_push [of "grow True q" e] ring_grow [OF assms, of True] by (simp add: enqueue_def)

interpretation ring: fifo ring_ok items "enqueue True" pop
  by unfold_locales (use ring_enqueue ring_pop in blast)+

text \<open>Without memory for a larger ring a full queue stays as it is: the entry is lost.\<close>

lemma ring_enqueue_any:
  assumes "ring_ok q"
  shows "ring_ok (enqueue m e q) \<and> (items (enqueue m e q) = items q @ [e] \<or>
    \<not> m \<and> q_count q = capacity q \<and> enqueue m e q = q)"
proof (cases "m \<or> q_count q < capacity q")
  case True
  then have "q_count (grow m q) < capacity (grow m q)"
  proof (cases m)
    case True
    then show ?thesis using ring_grow [OF assms, of m] by simp
  next
    case False
    with \<open>m \<or> q_count q < capacity q\<close> show ?thesis by (simp add: grow_def)
  qed
  then show ?thesis
    using ring_push [of "grow m q" e] ring_grow [OF assms, of m] by (simp add: enqueue_def)
next
  case False
  with assms show ?thesis by (auto simp: enqueue_def grow_def push_def ring_ok_def)
qed

lemma enqueue_fields [simp]:
  "q_closed (enqueue m e q) = q_closed q" "write_fd (enqueue m e q) = write_fd q"
  "refcount (enqueue m e q) = refcount q"
  by (simp_all add: enqueue_def grow_def push_def Let_def)

lemma pop_fields [simp]:
  "q_closed (snd (pop q)) = q_closed q" "write_fd (snd (pop q)) = write_fd q"
  "refcount (snd (pop q)) = refcount q"
  by (simp_all add: pop_def)

section \<open>The operations\<close>

text \<open>
  The queue, the allocated entries, and the wake pipe: the bytes in it and how many it holds.
  \<open>owner\<close> is a ghost: the creator of the queue has not released it.
\<close>

record engine =
  queue :: "mpsc option"
  heap :: "nat \<Rightarrow> entry option"
  pipe_bytes :: nat
  pipe_max :: nat
  owner :: bool

definition queue_new :: "nat \<Rightarrow> int \<Rightarrow> engine" where
  "queue_new pmax wfd =
     \<lparr>queue = Some \<lparr>entries = replicate 256 0, head = 0, tail = 0, q_count = 0, q_closed = False,
                     write_fd = wfd, refcount = 1\<rparr>,
      heap = (\<lambda>_. None), pipe_bytes = 0, pipe_max = pmax, owner = True\<rparr>"

definition retain :: "mpsc \<Rightarrow> mpsc" where
  "retain q = q\<lparr>refcount := refcount q + 1\<rparr>"

text \<open>Releasing the last references destroys the queue; more than there are would underflow.\<close>

definition release :: "nat \<Rightarrow> mpsc \<Rightarrow> mpsc option option" where
  "release n q =
     (if n = 0 then Some (Some q)
      else if refcount q < n then None
      else if refcount q = n then Some None
      else Some (Some (q\<lparr>refcount := refcount q - n\<rparr>)))"

definition entry_new :: "nat \<Rightarrow> int \<Rightarrow> nat \<Rightarrow> bool \<Rightarrow> engine \<Rightarrow> engine option" where
  "entry_new e aio slot with_queue g =
     (if e = 0 then Some g
      else let g' = g\<lparr>heap := (heap g)(e := Some \<lparr>e_aio = aio, e_slot = slot,
                                  e_queue = with_queue, e_state = IDLE\<rparr>)\<rparr> in
        if with_queue then
          (case queue g of None \<Rightarrow> None | Some q \<Rightarrow> Some (g'\<lparr>queue := Some (retain q)\<rparr>))
        else Some g')"

definition set_slot_id :: "nat \<Rightarrow> nat \<Rightarrow> engine \<Rightarrow> engine option" where
  "set_slot_id e slot g =
     (if e = 0 then Some g
      else case heap g e of None \<Rightarrow> None
        | Some en \<Rightarrow> Some (g\<lparr>heap := (heap g)(e := Some (en\<lparr>e_slot := slot\<rparr>))\<rparr>))"

definition entry_is_idle :: "nat \<Rightarrow> engine \<Rightarrow> bool option" where
  "entry_is_idle e g =
     (if e = 0 then Some False
      else case heap g e of None \<Rightarrow> None | Some en \<Rightarrow> Some (e_state en = IDLE))"

text \<open>One byte into the pipe, which does not block: it is dropped when the pipe is full.\<close>

definition wake :: "mpsc \<Rightarrow> engine \<Rightarrow> engine" where
  "wake q g =
     (if 0 \<le> write_fd q \<and> pipe_bytes g < pipe_max g then g\<lparr>pipe_bytes := pipe_bytes g + 1\<rparr> else g)"

definition native_aio_complete :: "nat \<Rightarrow> bool \<Rightarrow> engine \<Rightarrow> engine option" where
  "native_aio_complete e malloc_ok g =
     (if e = 0 then Some g
      else case heap g e of None \<Rightarrow> None
        | Some en \<Rightarrow>
            if \<not> e_queue en then Some g
            else case queue g of None \<Rightarrow> None
              | Some q \<Rightarrow>
                  if q_closed q \<or> e_state en \<noteq> IDLE then Some g
                  else Some (wake q (g\<lparr>heap := (heap g)(e := Some (en\<lparr>e_state := QUEUED\<rparr>)),
                                       queue := Some (enqueue malloc_ok e q)\<rparr>)))"

text \<open>
  The loops of \<open>pynng_mpsc_queue_close\<close> and \<open>pynng_mpsc_drain_batch\<close>: they unlink
  an entry, free it if its owner gave it up, and otherwise make it idle; the second also collects
  the slot ids, at most \<open>m\<close>. \<open>fr\<close> counts the freed entries.
\<close>

type_synonym eheap = "nat \<Rightarrow> entry option"

definition unlink :: "nat \<Rightarrow> entry \<Rightarrow> eheap \<Rightarrow> eheap" where
  "unlink e en h = h(e := (if e_state en = FREED then None else Some (en\<lparr>e_state := IDLE\<rparr>)))"

function close_loop :: "nat \<Rightarrow> mpsc \<Rightarrow> eheap \<Rightarrow> (mpsc \<times> eheap \<times> nat) option" where
  "close_loop fr q h =
     (if 0 < q_count q then
        (case pop q of (e, q') \<Rightarrow>
           (case h e of None \<Rightarrow> None
            | Some en \<Rightarrow>
                close_loop (if e_state en = FREED then fr + 1 else fr) q' (unlink e en h)))
      else Some (q, h, fr))"
  by pat_completeness auto
termination
  by (relation "measure (\<lambda>(fr, q, h). q_count q)") (auto simp: pop_def)

function drain_loop ::
  "nat \<Rightarrow> nat \<Rightarrow> nat list \<Rightarrow> mpsc \<Rightarrow> eheap \<Rightarrow> (mpsc \<times> eheap \<times> nat \<times> nat list) option" where
  "drain_loop m fr out q h =
     (if 0 < q_count q \<and> length out < m then
        (case pop q of (e, q') \<Rightarrow>
           (case h e of None \<Rightarrow> None
            | Some en \<Rightarrow>
                if e_state en = FREED then drain_loop m (fr + 1) out q' (unlink e en h)
                else drain_loop m fr (if e_slot en \<noteq> 0 then out @ [e_slot en] else out) q'
                       (unlink e en h)))
      else Some (q, h, fr, out))"
  by pat_completeness auto
termination
  by (relation "measure (\<lambda>(m, fr, out, q, h). q_count q)") (auto simp: pop_def)

declare close_loop.simps [simp del] drain_loop.simps [simp del]

definition queue_close :: "engine \<Rightarrow> engine option" where
  "queue_close g =
     (case queue g of None \<Rightarrow> None
      | Some q \<Rightarrow>
          (case close_loop 0 (q\<lparr>q_closed := True, write_fd := - 1\<rparr>) (heap g) of None \<Rightarrow> None
           | Some (q', h', fr) \<Rightarrow>
               map_option (\<lambda>q''. g\<lparr>queue := q'', heap := h'\<rparr>) (release fr q')))"

definition queue_free :: "engine \<Rightarrow> engine option" where
  "queue_free g =
     (case queue_close g of None \<Rightarrow> None
      | Some g1 \<Rightarrow>
          (case queue g1 of None \<Rightarrow> None
           | Some q \<Rightarrow> map_option (\<lambda>q'. g1\<lparr>queue := q', owner := False\<rparr>) (release 1 q)))"

definition drain_batch :: "nat \<Rightarrow> engine \<Rightarrow> (nat list \<times> engine) option" where
  "drain_batch m g =
     (if m = 0 then Some ([], g)
      else case queue g of None \<Rightarrow> None
        | Some q \<Rightarrow>
            (case drain_loop m 0 [] q (heap g) of None \<Rightarrow> None
             | Some (q', h', fr, out) \<Rightarrow>
                 map_option (\<lambda>q''. (out, g\<lparr>queue := q'', heap := h'\<rparr>)) (release fr q')))"

definition entry_free :: "nat \<Rightarrow> engine \<Rightarrow> engine option" where
  "entry_free e g =
     (if e = 0 then Some g
      else case heap g e of None \<Rightarrow> None
        | Some en \<Rightarrow>
            if \<not> e_queue en then Some (g\<lparr>heap := (heap g)(e := None)\<rparr>)
            else case queue g of None \<Rightarrow> None
              | Some q \<Rightarrow>
                  if e_state en = IDLE then
                    map_option (\<lambda>q'. g\<lparr>heap := (heap g)(e := None), queue := q'\<rparr>) (release 1 q)
                  else
                    Some (g\<lparr>heap := (heap g)(e := Some (en\<lparr>e_slot := 0, e_state := FREED\<rparr>))\<rparr>))"

section \<open>Runs\<close>

text \<open>
  \<open>New e\<close> has the address that \<open>malloc\<close> returned, and \<open>Complete\<close> and
  \<open>New\<close> whether it could.
\<close>

datatype eop =
    New nat int nat bool | SetSlot nat nat | Complete nat bool | Drain nat | FreeEntry nat
  | Close | FreeQueue

fun estep :: "eop \<Rightarrow> engine \<Rightarrow> (nat list \<times> engine) option" where
  "estep (New e aio slot b) g = map_option (Pair []) (entry_new e aio slot b g)"
| "estep (SetSlot e slot) g = map_option (Pair []) (set_slot_id e slot g)"
| "estep (Complete e m) g = map_option (Pair []) (native_aio_complete e m g)"
| "estep (Drain n) g = drain_batch n g"
| "estep (FreeEntry e) g = map_option (Pair []) (entry_free e g)"
| "estep Close g = map_option (Pair []) (queue_close g)"
| "estep FreeQueue g = map_option (Pair []) (queue_free g)"

text \<open>A run, with all slot ids that its drains delivered, in order.\<close>

fun eruns :: "eop list \<Rightarrow> engine \<Rightarrow> (nat list \<times> engine) option" where
  "eruns [] g = Some ([], g)"
| "eruns (x # xs) g =
     (case estep x g of None \<Rightarrow> None
      | Some (out, g') \<Rightarrow> map_option (apfst (append out)) (eruns xs g'))"

text \<open>
  What callers must respect: an entry is used, completed and freed only while its creator has not
  freed it, the queue is drained, closed and freed only by its owner and freed once; \<open>malloc\<close>
  returns an address that is not in use.
\<close>

definition held :: "engine \<Rightarrow> nat \<Rightarrow> bool" where
  "held g e \<longleftrightarrow> (case heap g e of None \<Rightarrow> False | Some en \<Rightarrow> e_state en \<noteq> FREED)"

fun legal :: "eop \<Rightarrow> engine \<Rightarrow> bool" where
  "legal (New e aio slot b) g \<longleftrightarrow> heap g e = None \<and> (b \<longrightarrow> owner g)"
| "legal (SetSlot e slot) g \<longleftrightarrow> e = 0 \<or> held g e"
| "legal (Complete e m) g \<longleftrightarrow> e = 0 \<or> held g e"
| "legal (Drain n) g \<longleftrightarrow> owner g"
| "legal (FreeEntry e) g \<longleftrightarrow> e = 0 \<or> held g e"
| "legal Close g \<longleftrightarrow> owner g"
| "legal FreeQueue g \<longleftrightarrow> owner g"

fun legal_run :: "eop list \<Rightarrow> engine \<Rightarrow> bool" where
  "legal_run [] g \<longleftrightarrow> True"
| "legal_run (x # xs) g \<longleftrightarrow>
     legal x g \<and> (case estep x g of None \<Rightarrow> True | Some (out, g') \<Rightarrow> legal_run xs g')"

section \<open>The loops on the queued entries\<close>

text \<open>
  What the loops do, on the list of queued entries: \<open>settle xs\<close> unlinks the entries
  \<open>xs\<close>, \<open>freed_num h xs\<close> of them are freed and \<open>slots h xs\<close> are the slot ids
  delivered; a drain of at most \<open>m\<close> ids unlinks the first \<open>quota h m xs\<close> entries.
\<close>

definition freed_at :: "eheap \<Rightarrow> nat \<Rightarrow> bool" where
  "freed_at h e \<longleftrightarrow> (\<exists>en. h e = Some en \<and> e_state en = FREED)"

definition settle :: "nat list \<Rightarrow> eheap \<Rightarrow> eheap" where
  "settle xs h = (\<lambda>e. if e \<in> set xs then
      (case h e of None \<Rightarrow> None
       | Some en \<Rightarrow> if e_state en = FREED then None else Some (en\<lparr>e_state := IDLE\<rparr>)) else h e)"

definition freed_num :: "eheap \<Rightarrow> nat list \<Rightarrow> nat" where
  "freed_num h xs = length (filter (freed_at h) xs)"

definition slot_of :: "eheap \<Rightarrow> nat \<Rightarrow> nat" where
  "slot_of h e = (case h e of None \<Rightarrow> 0 | Some en \<Rightarrow> if e_state en = FREED then 0 else e_slot en)"

definition slots :: "eheap \<Rightarrow> nat list \<Rightarrow> nat list" where
  "slots h xs = filter (\<lambda>s. s \<noteq> 0) (map (slot_of h) xs)"

fun quota :: "eheap \<Rightarrow> nat \<Rightarrow> nat list \<Rightarrow> nat" where
  "quota h 0 xs = 0"
| "quota h (Suc m) [] = 0"
| "quota h (Suc m) (e # xs) = Suc (quota h (if slot_of h e = 0 then Suc m else m) xs)"

definition same_on :: "nat set \<Rightarrow> eheap \<Rightarrow> eheap \<Rightarrow> bool" where
  "same_on A h h' \<longleftrightarrow> (\<forall>e\<in>A. h e = h' e)"

lemma same_on_cong:
  assumes "same_on (set xs) h h'"
  shows "freed_num h xs = freed_num h' xs" "slots h xs = slots h' xs" "quota h m xs = quota h' m xs"
proof -
  show "freed_num h xs = freed_num h' xs"
    using assms by (induction xs) (auto simp: freed_num_def same_on_def freed_at_def)
  show "slots h xs = slots h' xs"
    using assms by (induction xs) (auto simp: slots_def same_on_def slot_of_def)
  show "quota h m xs = quota h' m xs"
    using assms by (induction h m xs rule: quota.induct) (auto simp: same_on_def slot_of_def)
qed

lemma same_on_take: "same_on (set xs) h h' \<Longrightarrow> same_on (set (take n xs)) h h'"
  by (auto simp: same_on_def dest: in_set_takeD)

lemma same_on_unlink: "e \<notin> set xs \<Longrightarrow> same_on (set xs) (unlink e en h) h"
  by (auto simp: same_on_def unlink_def)

lemma settle_unlink:
  "h e = Some en \<Longrightarrow> e \<notin> set xs \<Longrightarrow> settle xs (unlink e en h) = settle (e # xs) h"
  by (rule ext) (auto simp: settle_def unlink_def)

lemma settle_Nil [simp]: "settle [] h = h"
  by (simp add: settle_def)

lemma quota_le: "quota h m xs \<le> length xs"
  by (induction h m xs rule: quota.induct) auto

lemma slots_quota: "length (slots h (take (quota h m xs) xs)) \<le> m"
  by (induction h m xs rule: quota.induct) (auto simp: slots_def split: if_splits)

text \<open>A drain stops early only when the batch is full.\<close>

lemma quota_rest:
  "quota h m xs < length xs \<Longrightarrow> length (slots h (take (quota h m xs) xs)) = m"
  by (induction h m xs rule: quota.induct) (auto simp: slots_def split: if_splits)

text \<open>The queue after a loop: only its contents changed.\<close>

definition same_queue :: "mpsc \<Rightarrow> mpsc \<Rightarrow> bool" where
  "same_queue q q' \<longleftrightarrow> q_closed q' = q_closed q \<and> write_fd q' = write_fd q \<and>
     refcount q' = refcount q"

lemma same_queue_refl [simp]: "same_queue q q"
  by (simp add: same_queue_def)

lemma same_queue_pop: "same_queue (snd (pop q)) q' \<Longrightarrow> same_queue q q'"
  by (simp add: same_queue_def)

lemma items_Cons:
  assumes "ring_ok q" and "items q = e # xs"
  obtains q' where "pop q = (e, q')" "ring_ok q'" "items q' = xs" "same_queue q q'" "0 < q_count q"
proof -
  have "pop q = (e, snd (pop q))"
    using ring.deq_hd [OF assms] by (metis prod.collapse)
  moreover have "0 < q_count q" using assms(2) by (metis items_Nil_iff list.distinct(1) neq0_conv)
  moreover have "same_queue q (snd (pop q))" by (simp add: same_queue_def)
  moreover have "ring_ok (snd (pop q))" using ring.ok_deq [OF assms(1)] assms(2) by simp
  ultimately show thesis using that ring.deq_hd [OF assms] by blast
qed

lemma same_queue_trans: "same_queue a b \<Longrightarrow> same_queue b c \<Longrightarrow> same_queue a c"
  by (simp add: same_queue_def)

definition entries_ok :: "eheap \<Rightarrow> nat list \<Rightarrow> bool" where
  "entries_ok h xs \<longleftrightarrow> distinct xs \<and> (\<forall>e\<in>set xs. h e \<noteq> None)"

lemma entries_ok_Cons:
  assumes "entries_ok h (e # xs)"
  obtains en where "h e = Some en" "e \<notin> set xs" "entries_ok (unlink e en h) xs"
    "same_on (set xs) (unlink e en h) h"
proof -
  from assms obtain en where en: "h e = Some en" "e \<notin> set xs"
    by (auto simp: entries_ok_def)
  moreover from assms en have "entries_ok (unlink e en h) xs"
    by (auto simp: entries_ok_def unlink_def)
  ultimately show thesis using that same_on_unlink by blast
qed

lemma freed_num_Cons:
  "h e = Some en \<Longrightarrow> freed_num h (e # xs) = (if e_state en = FREED then 1 else 0) + freed_num h xs"
  by (auto simp: freed_num_def freed_at_def)

lemma slots_Cons:
  "h e = Some en \<Longrightarrow> slots h (e # xs) =
     (if e_state en = FREED \<or> e_slot en = 0 then slots h xs else e_slot en # slots h xs)"
  by (auto simp: slots_def slot_of_def)

lemma close_loop_spec:
  assumes "ring_ok q" and "entries_ok h (items q)"
  shows "\<exists>q'. close_loop fr q h = Some (q', settle (items q) h, fr + freed_num h (items q)) \<and>
     ring_ok q' \<and> items q' = [] \<and> same_queue q q'"
  using assms
proof (induction "items q" arbitrary: q h fr)
  case Nil
  then have "items q = []" "q_count q = 0" by (simp_all add: items_Nil_iff [symmetric])
  with Nil show ?case by (subst close_loop.simps) (simp add: freed_num_def)
next
  case (Cons e xs)
  from Cons.prems(1) Cons.hyps(2) [symmetric] obtain q1 where q1:
    "pop q = (e, q1)" "ring_ok q1" "items q1 = xs" "same_queue q q1" "0 < q_count q"
    by (rule items_Cons)
  from Cons.prems(2) Cons.hyps(2) have "entries_ok h (e # xs)" by simp
  then obtain en where en: "h e = Some en" "e \<notin> set xs" "entries_ok (unlink e en h) xs"
    "same_on (set xs) (unlink e en h) h" by (rule entries_ok_Cons)
  let ?fr = "if e_state en = FREED then fr + 1 else fr"
  have step: "close_loop fr q h = close_loop ?fr q1 (unlink e en h)"
    by (subst close_loop.simps) (simp add: q1 en)
  obtain q' where "close_loop ?fr q1 (unlink e en h)
      = Some (q', settle xs (unlink e en h), ?fr + freed_num (unlink e en h) xs)"
    "ring_ok q'" "items q' = []" "same_queue q1 q'"
    using Cons.hyps(1) [of q1 "unlink e en h" ?fr] q1 en by auto
  then show ?case
    using same_queue_trans [OF q1(4)] en same_on_cong(1) [OF en(4)]
    by (auto simp: step Cons.hyps(2) [symmetric] settle_unlink freed_num_Cons)
qed

lemma drain_loop_spec:
  assumes "ring_ok q" and "entries_ok h (items q)" and "k = quota h m (items q)"
  shows "\<exists>q'. drain_loop (length out + m) fr out q h =
       Some (q', settle (take k (items q)) h, fr + freed_num h (take k (items q)),
             out @ slots h (take k (items q))) \<and>
     ring_ok q' \<and> items q' = drop k (items q) \<and> same_queue q q'"
  using assms
proof (induction "items q" arbitrary: q h fr out m k)
  case Nil
  then have "items q = []" "q_count q = 0" by (simp_all add: items_Nil_iff [symmetric])
  with Nil show ?case by (subst drain_loop.simps) (simp add: freed_num_def slots_def)
next
  case (Cons e xs)
  note i = Cons.hyps(2) [symmetric]
  show ?case
  proof (cases m)
    case 0
    with Cons.prems show ?thesis by (subst drain_loop.simps) (simp add: freed_num_def slots_def)
  next
    case (Suc n)
    from Cons.prems(1) i obtain q1 where q1:
      "pop q = (e, q1)" "ring_ok q1" "items q1 = xs" "same_queue q q1" "0 < q_count q"
      by (rule items_Cons)
    from Cons.prems(2) i have "entries_ok h (e # xs)" by simp
    then obtain en where en: "h e = Some en" "e \<notin> set xs" "entries_ok (unlink e en h) xs"
      "same_on (set xs) (unlink e en h) h" by (rule entries_ok_Cons)
    define l where "l = (if slot_of h e = 0 then m else n)"
    define out' where "out' = (if slot_of h e = 0 then out else out @ [e_slot en])"
    define fr' where "fr' = (if e_state en = FREED then fr + 1 else fr)"
    have len: "length out' + l = length out + m" by (simp add: l_def out'_def Suc)
    have step: "drain_loop (length out + m) fr out q h
        = drain_loop (length out' + l) fr' out' q1 (unlink e en h)"
      unfolding len
      by (subst drain_loop.simps) (simp add: q1 en Suc out'_def fr'_def slot_of_def)
    let ?k = "quota (unlink e en h) l xs"
    have k: "k = Suc ?k" "?k = quota h l xs"
      using Cons.prems(3) same_on_cong(3) [OF en(4)] by (simp_all add: i Suc l_def)
    have cong: "freed_num (unlink e en h) (take n xs) = freed_num h (take n xs)"
      "slots (unlink e en h) (take n xs) = slots h (take n xs)" for n
      by (rule same_on_cong [OF same_on_take [OF en(4)]])+
    obtain q' where "drain_loop (length out' + l) fr' out' q1 (unlink e en h) =
        Some (q', settle (take ?k xs) (unlink e en h), fr' + freed_num (unlink e en h) (take ?k xs),
              out' @ slots (unlink e en h) (take ?k xs))"
      "ring_ok q'" "items q' = drop ?k xs" "same_queue q1 q'"
      using Cons.hyps(1) [of q1 "unlink e en h" ?k l out' fr'] q1 en by auto
    moreover have "settle (take ?k xs) (unlink e en h) = settle (take k (items q)) h"
      using settle_unlink [of h e en "take ?k xs"] en(1,2) by (auto simp: i k dest: in_set_takeD)
    ultimately show ?thesis
      using same_queue_trans [OF q1(4)]
      by (auto simp: step cong i k freed_num_Cons [of h e en] slots_Cons [of h e en] fr'_def out'_def
          slot_of_def en(1))
  qed
qed

section \<open>The invariant\<close>

text \<open>
  \<open>refs h\<close>: the entries that hold a reference on the queue. \<open>qinv\<close> relates the queue to
  the heap: the ring holds distinct live entries that are not idle, the reference count is exact
  and positive, a queue whose owner is gone is closed, a closed queue is empty. With
  \<open>ll\<close> every entry that is not idle is in the ring (which a failed \<open>malloc\<close> breaks).
\<close>

definition refs :: "eheap \<Rightarrow> nat" where
  "refs h = card {e. \<exists>en. h e = Some en \<and> e_queue en}"

definition heap_ok :: "eheap \<Rightarrow> bool" where
  "heap_ok h \<longleftrightarrow> h 0 = None \<and> finite (dom h) \<and>
     (\<forall>e en. h e = Some en \<longrightarrow> \<not> e_queue en \<longrightarrow> e_state en = IDLE)"

definition ring_inv :: "bool \<Rightarrow> nat list \<Rightarrow> eheap \<Rightarrow> bool" where
  "ring_inv ll xs h \<longleftrightarrow> distinct xs \<and>
     (\<forall>e\<in>set xs. \<exists>en. h e = Some en \<and> e_queue en \<and> e_state en \<noteq> IDLE) \<and>
     (ll \<longrightarrow> (\<forall>e en. h e = Some en \<longrightarrow> e_state en \<noteq> IDLE \<longrightarrow> e \<in> set xs))"

definition qinv :: "bool \<Rightarrow> bool \<Rightarrow> mpsc \<Rightarrow> eheap \<Rightarrow> bool" where
  "qinv ll own q h \<longleftrightarrow> ring_ok q \<and> ring_inv ll (items q) h \<and>
     refcount q = (if own then 1 else 0) + refs h \<and> 0 < refcount q \<and>
     (\<not> own \<longrightarrow> q_closed q) \<and> (q_closed q \<longrightarrow> items q = [])"

definition einv :: "bool \<Rightarrow> engine \<Rightarrow> bool" where
  "einv ll g \<longleftrightarrow> heap_ok (heap g) \<and>
     (case queue g of None \<Rightarrow> \<not> owner g \<and> refs (heap g) = 0 | Some q \<Rightarrow> qinv ll (owner g) q (heap g))"

lemma finite_refs: "heap_ok h \<Longrightarrow> finite {e. \<exists>en. h e = Some en \<and> e_queue en}"
  by (rule finite_subset [of _ "dom h"]) (auto simp: heap_ok_def)

lemma refs_upd_same:
  "h e = Some en \<Longrightarrow> e_queue en' = e_queue en \<Longrightarrow> refs (h(e := Some en')) = refs h"
  unfolding refs_def by (rule arg_cong [where f = card]) auto

lemma refs_new:
  assumes "heap_ok h" and "h e = None"
  shows "refs (h(e := Some en)) = (if e_queue en then 1 else 0) + refs h"
proof -
  have "{x. \<exists>en'. (h(e := Some en)) x = Some en' \<and> e_queue en'} =
      (if e_queue en then insert e {x. \<exists>en. h x = Some en \<and> e_queue en}
       else {x. \<exists>en. h x = Some en \<and> e_queue en})"
    using assms(2) by auto
  then show ?thesis using finite_refs [OF assms(1)] assms(2) by (simp add: refs_def)
qed

lemma refs_delete:
  assumes "heap_ok h" and "h e = Some en"
  shows "refs h = (if e_queue en then 1 else 0) + refs (h(e := None))"
proof -
  have "heap_ok (h(e := None))" using assms by (auto simp: heap_ok_def)
  from refs_new [OF this, of e en] assms(2) show ?thesis by (simp add: fun_upd_idem)
qed

lemma refs_zero: "heap_ok h \<Longrightarrow> refs h = 0 \<Longrightarrow> h e = Some en \<Longrightarrow> \<not> e_queue en"
  using finite_refs [of h] by (auto simp: refs_def)

lemma heap_ok_upd: "heap_ok h \<Longrightarrow> e \<noteq> 0 \<Longrightarrow> (e_queue en \<or> e_state en = IDLE) \<Longrightarrow>
   heap_ok (h(e := Some en))"
  by (auto simp: heap_ok_def)

lemma heap_ok_delete: "heap_ok h \<Longrightarrow> heap_ok (h(e := None))"
  by (auto simp: heap_ok_def)

lemma entry_nonzero: "heap_ok h \<Longrightarrow> h e = Some en \<Longrightarrow> e \<noteq> 0"
  by (cases "e = 0") (simp_all add: heap_ok_def)

lemma ring_inv_entries: "ring_inv ll xs h \<Longrightarrow> entries_ok h xs"
  by (auto simp: ring_inv_def entries_ok_def)

lemma settle_in:
  "e \<in> set xs \<Longrightarrow> settle xs h e = (case h e of None \<Rightarrow> None
     | Some en \<Rightarrow> if e_state en = FREED then None else Some (en\<lparr>e_state := IDLE\<rparr>))"
  by (simp add: settle_def)

lemma settle_out: "e \<notin> set xs \<Longrightarrow> settle xs h e = h e"
  by (simp add: settle_def)

lemma heap_ok_settle: "heap_ok h \<Longrightarrow> heap_ok (settle xs h)"
proof -
  assume h: "heap_ok h"
  have "dom (settle xs h) \<subseteq> dom h"
    by (auto simp: settle_def split: option.splits if_splits)
  with h show ?thesis
    by (auto simp: heap_ok_def settle_def intro: finite_subset split: option.splits if_splits)
qed

lemma refs_settle:
  assumes "heap_ok h" and "ring_inv ll xs h"
  shows "refs h = freed_num h xs + refs (settle xs h)"
proof -
  let ?F = "{e \<in> set xs. freed_at h e}" and ?S = "{e. \<exists>en. h e = Some en \<and> e_queue en}"
  have "freed_num h xs = card ?F"
    using assms(2) by (simp add: freed_num_def ring_inv_def set_filter [symmetric] distinct_card del: set_filter)
  moreover have "{e. \<exists>en. settle xs h e = Some en \<and> e_queue en} = ?S - ?F"
    by (auto simp: settle_def freed_at_def split: option.splits if_splits)
  moreover have "?F \<subseteq> ?S" using assms(2) by (auto simp: ring_inv_def freed_at_def)
  ultimately show ?thesis
    using finite_refs [OF assms(1)] by (simp add: refs_def card_Diff_subset finite_subset card_mono)
qed

lemma ring_inv_settle:
  assumes "ring_inv ll xs h"
  shows "ring_inv ll (drop k xs) (settle (take k xs) h)"
proof -
  have "distinct (take k xs @ drop k xs)" using assms by (simp add: ring_inv_def)
  then have d: "set (take k xs) \<inter> set (drop k xs) = {}" unfolding distinct_append by blast
  have s: "set xs = set (take k xs) \<union> set (drop k xs)"
    by (metis append_take_drop_id set_append)
  show ?thesis
    unfolding ring_inv_def
  proof (intro conjI ballI impI allI)
    show "distinct (drop k xs)" using assms by (simp add: ring_inv_def)
    fix e assume e: "e \<in> set (drop k xs)"
    then have "settle (take k xs) h e = h e" using d by (blast intro: settle_out)
    then show "\<exists>en. settle (take k xs) h e = Some en \<and> e_queue en \<and> e_state en \<noteq> IDLE"
      using e assms s by (auto simp: ring_inv_def)
  next
    fix e en
    assume "ll" and "settle (take k xs) h e = Some en" and "e_state en \<noteq> IDLE"
    then have "e \<in> set xs \<and> e \<notin> set (take k xs)"
      using assms by (auto simp: ring_inv_def settle_def split: option.splits if_splits)
    with s show "e \<in> set (drop k xs)" by blast
  qed
qed

text \<open>Unlinking a prefix of the ring keeps the queue alive as long as its owner holds it.\<close>

lemma qinv_unlinked:
  assumes "heap_ok h" and "qinv ll True q h" and "k \<le> length (items q)"
    and "ring_ok q'" and "items q' = drop k (items q)"
    and "refcount q' = refcount q" and "q_closed q' \<longrightarrow> q_closed q \<or> items q' = []"
  shows "\<exists>q''. release (freed_num h (take k (items q))) q' = Some (Some q'') \<and>
    qinv ll True q'' (settle (take k (items q)) h) \<and> items q'' = items q' \<and> q_closed q'' = q_closed q'
    \<and> write_fd q'' = write_fd q'"
proof -
  let ?x = "take k (items q)"
  have r: "ring_inv ll (items q) h" using assms(2) by (simp add: qinv_def)
  then have rx: "ring_inv False ?x h"
    by (auto simp: ring_inv_def dest: in_set_takeD)
  have n: "refcount q' = 1 + freed_num h ?x + refs (settle ?x h)"
    using refs_settle [OF assms(1) rx] assms(2,6) by (simp add: qinv_def)
  have "items q = [] \<Longrightarrow> items q' = []" using assms(5) by simp
  then show ?thesis
    using n ring_inv_settle [OF r, of k] assms
    by (auto simp: release_def qinv_def ring_ok_def items_def)
qed

section \<open>Every operation is safe\<close>

lemma einv_heap: "einv ll g \<Longrightarrow> heap_ok (heap g)"
  by (simp add: einv_def)

lemma einv_owner:
  assumes "einv ll g" and "owner g"
  obtains q where "queue g = Some q" "qinv ll True q (heap g)"
  using assms by (auto simp: einv_def split: option.splits)

lemma einv_entry:
  assumes "einv ll g" and "heap g e = Some en" and "e_queue en"
  obtains q where "queue g = Some q" "qinv ll (owner g) q (heap g)"
  using assms refs_zero [of "heap g" e en] by (auto simp: einv_def split: option.splits)

lemma einv_queue: "einv ll g \<Longrightarrow> queue g = Some q \<Longrightarrow> qinv ll (owner g) q (heap g)"
  by (simp add: einv_def)

text \<open>Changing an idle entry, or the slot of any entry, in place.\<close>

lemma ring_inv_upd:
  assumes "ring_inv ll xs h" and "h e = Some en" and "e_queue en' = e_queue en"
    and "e_state en' = e_state en \<or> e_state en \<noteq> IDLE \<and> e_state en' \<noteq> IDLE"
  shows "ring_inv ll xs (h(e := Some en'))"
  using assms unfolding ring_inv_def by auto

lemma einv_upd:
  assumes "einv ll g" and "heap g e = Some en" and "e_queue en' = e_queue en"
    and "e_state en' = e_state en \<or> e_state en \<noteq> IDLE \<and> e_state en' \<noteq> IDLE"
  shows "einv ll (g\<lparr>heap := (heap g)(e := Some en')\<rparr>)"
proof -
  have h: "heap_ok (heap g)" by (rule einv_heap [OF assms(1)])
  then have "heap_ok ((heap g)(e := Some en'))"
  proof (rule heap_ok_upd)
    show "e \<noteq> 0" using h assms(2) by (rule entry_nonzero)
    show "e_queue en' \<or> e_state en' = IDLE" using h assms(2-4) by (auto simp: heap_ok_def)
  qed
  then show ?thesis
    using assms ring_inv_upd [of ll _ "heap g" e en en'] refs_upd_same [of "heap g" e en en']
    by (auto simp: einv_def qinv_def split: option.splits)
qed

lemma ring_inv_fresh:
  assumes "ring_inv ll xs h" and "h e = None" and "e_state en = IDLE"
  shows "ring_inv ll xs (h(e := Some en))"
  using assms unfolding ring_inv_def by auto

lemma einv_entry_new:
  assumes "einv ll g" and "legal (New e aio slot b) g"
  shows "\<exists>g'. entry_new e aio slot b g = Some g' \<and> einv ll g'"
proof (cases "e = 0")
  case False
  have h: "heap_ok (heap g)" by (rule einv_heap [OF assms(1)])
  have n: "heap g e = None" using assms(2) by simp
  let ?en = "\<lparr>e_aio = aio, e_slot = slot, e_queue = b, e_state = IDLE\<rparr>"
  have h': "heap_ok ((heap g)(e := Some ?en))" using h False by (auto intro: heap_ok_upd)
  note r = refs_new [OF h n, of ?en]
  show ?thesis
  proof (cases b)
    case True
    with assms obtain q where q: "queue g = Some q" "qinv ll True q (heap g)"
      by (auto elim: einv_owner)
    have "qinv ll True (retain q) ((heap g)(e := Some ?en))"
      using q(2) r True ring_inv_fresh [of ll "items q" "heap g" e ?en] n
      by (auto simp: qinv_def retain_def ring_ok_def items_def)
    with True q h' False assms(2) show ?thesis by (auto simp: entry_new_def Let_def einv_def)
  next
    case False
    then show ?thesis
      using assms(1) h' r \<open>e \<noteq> 0\<close> ring_inv_fresh [of ll _ "heap g" e ?en] n
      by (auto simp: entry_new_def Let_def einv_def qinv_def split: option.splits)
  qed
qed (simp add: entry_new_def assms(1))

lemma einv_set_slot_id:
  assumes "einv ll g" and "legal (SetSlot e slot) g"
  shows "\<exists>g'. set_slot_id e slot g = Some g' \<and> einv ll g'"
  using assms einv_upd [OF assms(1), of e]
  by (auto simp: set_slot_id_def held_def split: option.splits)

lemma einv_wake: "einv ll g \<Longrightarrow> einv ll (wake q g)"
  by (auto simp: einv_def wake_def split: option.splits)

lemma ring_inv_push:
  assumes "ring_inv ll xs h" and "h e = Some en" and "e_queue en" and "e_state en = IDLE"
  shows "ring_inv ll (xs @ [e]) (h(e := Some (en\<lparr>e_state := QUEUED\<rparr>)))"
  using assms unfolding ring_inv_def by auto

lemma ring_inv_lost:
  assumes "ring_inv ll xs h" and "h e = Some en" and "e_state en = IDLE"
  shows "ring_inv False xs (h(e := Some (en\<lparr>e_state := QUEUED\<rparr>)))"
  using assms unfolding ring_inv_def by auto

lemma einv_complete:
  assumes "einv ll g" and "legal (Complete e m) g" and "ll \<longrightarrow> m"
  shows "\<exists>g'. native_aio_complete e m g = Some g' \<and> einv ll g'"
proof (cases "e = 0 \<or> \<not> e_queue (the (heap g e))")
  case True
  with assms show ?thesis by (auto simp: native_aio_complete_def held_def split: option.splits)
next
  case False
  with assms(2) obtain en where en: "heap g e = Some en" "e_queue en" "e \<noteq> 0"
    by (auto simp: held_def split: option.splits)
  with assms(1) obtain q where q: "queue g = Some q" "qinv ll (owner g) q (heap g)"
    by (auto elim: einv_entry)
  show ?thesis
  proof (cases "q_closed q \<or> e_state en \<noteq> IDLE")
    case True
    with en q assms(1) show ?thesis by (auto simp: native_aio_complete_def)
  next
    case False
    let ?h = "(heap g)(e := Some (en\<lparr>e_state := QUEUED\<rparr>))"
    have h: "heap_ok ?h" using einv_heap [OF assms(1)] en by (auto intro: heap_ok_upd)
    have rf: "refs ?h = refs (heap g)" using en by (intro refs_upd_same) auto
    have "ring_inv ll (items (enqueue m e q)) ?h"
    proof (cases m)
      case True
      with q ring_enqueue [of q e] show ?thesis
        using ring_inv_push [of ll "items q" "heap g" e en] en False by (simp add: qinv_def)
    next
      case m: False
      with assms(3) q have "ring_inv False (items q) (heap g)" "ring_ok q" "\<not> ll"
        by (auto simp: qinv_def)
      then show ?thesis
        using ring_enqueue_any [of q m e] ring_inv_push [of False "items q" "heap g" e en] en False
          ring_inv_lost [of False "items q" "heap g" e en] by auto
    qed
    then have "qinv ll (owner g) (enqueue m e q) ?h"
      using q(2) rf ring_enqueue_any [of q m e] False by (auto simp: qinv_def)
    then have "einv ll (g\<lparr>heap := ?h, queue := Some (enqueue m e q)\<rparr>)"
      using h by (simp add: einv_def)
    then show ?thesis
      using en q False by (auto simp: native_aio_complete_def intro: einv_wake)
  qed
qed

lemma close_marked:
  "qinv ll own q h \<Longrightarrow> ring_ok (q\<lparr>q_closed := True, write_fd := w\<rparr>) \<and>
     items (q\<lparr>q_closed := True, write_fd := w\<rparr>) = items q"
  by (simp add: qinv_def ring_ok_def items_def)

lemma queue_close_spec:
  assumes "einv ll g" and "owner g"
  obtains q q' where "queue g = Some q"
    "queue_close g = Some (g\<lparr>queue := Some q', heap := settle (items q) (heap g)\<rparr>)"
    "qinv ll True q' (settle (items q) (heap g))" "items q' = []" "q_closed q'" "write_fd q' = - 1"
proof -
  obtain q where q: "queue g = Some q" "qinv ll True q (heap g)"
    using assms by (rule einv_owner)
  let ?q = "q\<lparr>q_closed := True, write_fd := - 1\<rparr>"
  have m: "ring_ok ?q" "items ?q = items q" using close_marked [OF q(2)] by simp_all
  have e: "entries_ok (heap g) (items ?q)"
    using q(2) m by (auto simp: qinv_def intro: ring_inv_entries)
  obtain q1 where q1: "close_loop 0 ?q (heap g)
      = Some (q1, settle (items q) (heap g), freed_num (heap g) (items q))"
    "ring_ok q1" "items q1 = []" "same_queue ?q q1"
    using close_loop_spec [OF m(1) e, of 0] m(2) by auto
  obtain q2 where q2: "release (freed_num (heap g) (items q)) q1 = Some (Some q2)"
    "qinv ll True q2 (settle (items q) (heap g))" "items q2 = []" "q_closed q2" "write_fd q2 = - 1"
    using qinv_unlinked [OF einv_heap [OF assms(1)] q(2), of "length (items q)" q1] q1
    by (auto simp: same_queue_def)
  from q q1 q2 show thesis
    by (intro that [of q q2]) (simp_all add: queue_close_def)
qed

lemma einv_close:
  assumes "einv ll g" and "owner g"
  shows "\<exists>g'. queue_close g = Some g' \<and> einv ll g'"
  by (rule queue_close_spec [OF assms])
    (auto simp: einv_def assms(2) intro: heap_ok_settle einv_heap [OF assms(1)])

lemma einv_queue_free:
  assumes "einv ll g" and "owner g"
  shows "\<exists>g'. queue_free g = Some g' \<and> einv ll g'"
proof -
  obtain q q' where q: "queue g = Some q"
    "queue_close g = Some (g\<lparr>queue := Some q', heap := settle (items q) (heap g)\<rparr>)"
    "qinv ll True q' (settle (items q) (heap g))" "items q' = []" "q_closed q'"
    using assms by (rule queue_close_spec)
  let ?h = "settle (items q) (heap g)"
  have h: "heap_ok ?h" by (intro heap_ok_settle einv_heap [OF assms(1)])
  have n: "refcount q' = 1 + refs ?h" using q(3) by (simp add: qinv_def)
  show ?thesis
    using q n h by (auto simp: queue_free_def release_def einv_def qinv_def ring_ok_def items_def)
qed

lemma drain_batch_spec:
  assumes "einv ll g" and "owner g" and "0 < m"
  obtains q q' where "queue g = Some q"
    "drain_batch m g = Some (slots (heap g) (take (quota (heap g) m (items q)) (items q)),
       g\<lparr>queue := Some q', heap := settle (take (quota (heap g) m (items q)) (items q)) (heap g)\<rparr>)"
    "qinv ll True q' (settle (take (quota (heap g) m (items q)) (items q)) (heap g))"
    "items q' = drop (quota (heap g) m (items q)) (items q)" "q_closed q' = q_closed q"
    "write_fd q' = write_fd q"
proof -
  obtain q where q: "queue g = Some q" "qinv ll True q (heap g)"
    using assms(1,2) by (rule einv_owner)
  let ?k = "quota (heap g) m (items q)"
  have k: "?k \<le> length (items q)" by (rule quota_le)
  have e: "ring_ok q" "entries_ok (heap g) (items q)"
    using q(2) by (auto simp: qinv_def intro: ring_inv_entries)
  obtain q1 where q1: "drain_loop m 0 [] q (heap g) = Some (q1, settle (take ?k (items q)) (heap g),
       freed_num (heap g) (take ?k (items q)), slots (heap g) (take ?k (items q)))"
    "ring_ok q1" "items q1 = drop ?k (items q)" "same_queue q q1"
    using drain_loop_spec [OF e refl, of "[]" m 0] by auto
  obtain q2 where q2: "release (freed_num (heap g) (take ?k (items q))) q1 = Some (Some q2)"
    "qinv ll True q2 (settle (take ?k (items q)) (heap g))" "items q2 = items q1"
    "q_closed q2 = q_closed q1" "write_fd q2 = write_fd q1"
    using qinv_unlinked [OF einv_heap [OF assms(1)] q(2) k, of q1] q1 by (auto simp: same_queue_def)
  from q q1 q2 assms(3) show thesis
    by (intro that [of q q2]) (simp_all add: drain_batch_def same_queue_def)
qed

lemma einv_drain:
  assumes "einv ll g" and "owner g"
  shows "\<exists>out g'. drain_batch m g = Some (out, g') \<and> einv ll g' \<and> owner g'"
proof (cases "m = 0")
  case False
  then have "0 < m" by simp
  from drain_batch_spec [OF assms this] show ?thesis
    by (rule) (auto simp: einv_def assms(2) intro: heap_ok_settle einv_heap [OF assms(1)])
qed (simp add: drain_batch_def assms)

lemma einv_entry_free:
  assumes "einv ll g" and "legal (FreeEntry e) g"
  shows "\<exists>g'. entry_free e g = Some g' \<and> einv ll g'"
proof (cases "e = 0")
  case False
  with assms(2) obtain en where en: "heap g e = Some en" "e_state en \<noteq> FREED"
    by (auto simp: held_def split: option.splits)
  have h: "heap_ok (heap g)" "heap_ok ((heap g)(e := None))"
    using einv_heap [OF assms(1)] by (auto intro: heap_ok_delete)
  note r = refs_delete [OF h(1) en(1)]
  show ?thesis
  proof (cases "e_queue en")
    case True
    with assms(1) en obtain q where q: "queue g = Some q" "qinv ll (owner g) q (heap g)"
      by (auto elim: einv_entry)
    show ?thesis
    proof (cases "e_state en = IDLE")
      case idle: True
      have "ring_inv ll (items q) ((heap g)(e := None))"
        using q(2) en idle unfolding qinv_def ring_inv_def by auto
      then show ?thesis
        using q en True False idle r h(2)
        by (auto simp: entry_free_def release_def einv_def qinv_def ring_ok_def items_def)
    next
      case busy: False
      with einv_upd [OF assms(1) en(1), of "en\<lparr>e_slot := 0, e_state := FREED\<rparr>"] q en True False
      show ?thesis by (auto simp: entry_free_def)
    qed
  next
    case nq: False
    have "ring_inv ll xs ((heap g)(e := None))" if "ring_inv ll xs (heap g)" for xs
      using that en nq unfolding ring_inv_def by auto
    with nq en False r h assms(1) show ?thesis
      by (auto simp: entry_free_def einv_def qinv_def split: option.splits)
  qed
qed (simp add: entry_free_def assms(1))

fun has_memory :: "eop \<Rightarrow> bool" where
  "has_memory (Complete e m) = m"
| "has_memory x = True"

lemma einv_step:
  assumes "einv ll g" and "legal x g" and "ll \<longrightarrow> has_memory x"
  shows "\<exists>out g'. estep x g = Some (out, g') \<and> einv ll g'"
proof (cases x)
  case (Drain n)
  with assms show ?thesis using einv_drain [of ll g n] by auto
next
  case (New e aio slot b)
  with assms show ?thesis using einv_entry_new [of ll g e aio slot b] by auto
next
  case (SetSlot e slot)
  with assms show ?thesis using einv_set_slot_id [of ll g e slot] by auto
next
  case (Complete e m)
  with assms show ?thesis using einv_complete [of ll g e m] by auto
next
  case (FreeEntry e)
  with assms show ?thesis using einv_entry_free [of ll g e] by auto
next
  case Close
  with assms show ?thesis using einv_close [of ll g] by auto
next
  case FreeQueue
  with assms show ?thesis using einv_queue_free [of ll g] by auto
qed

lemma einv_runs:
  assumes "einv ll g" and "legal_run xs g" and "ll \<longrightarrow> list_all has_memory xs"
  shows "\<exists>out g'. eruns xs g = Some (out, g') \<and> einv ll g'"
  using assms
proof (induction xs arbitrary: g)
  case (Cons x xs)
  from Cons.prems obtain out g1 where "estep x g = Some (out, g1)" "einv ll g1"
    using einv_step [of ll g x] by auto
  with Cons show ?case by fastforce
qed simp

lemma einv_new: "einv ll (queue_new p w)"
  by (simp add: queue_new_def einv_def heap_ok_def qinv_def ring_ok_def ring_inv_def items_def refs_def)

text \<open>C4. The native completion queue is memory safe. Whatever the order in which worker threads
  complete entries and the event loop creates, re-labels and frees entries, drains, closes and
  frees the queue, with or without memory for a larger ring: as long as nobody uses an entry or the
  queue after giving it up, no operation touches freed memory, frees anything twice, or lets the
  reference count underflow.\<close>

theorem engine_never_faults:
  assumes "legal_run xs (queue_new p w)"
  shows "eruns xs (queue_new p w) \<noteq> None"
  using einv_runs [OF einv_new assms, of False] by auto

lemmas engine_simps = queue_new_def entry_new_def native_aio_complete_def entry_free_def
  set_slot_id_def drain_batch_def queue_close_def queue_free_def close_loop.simps drain_loop.simps
  retain_def release_def enqueue_def grow_def push_def pop_def unlink_def wake_def held_def
  numeral_2_eq_2 Let_def

text \<open>An entry freed while it is queued, and a queue freed before an entry.\<close>

definition free_race :: "eop list" where
  "free_race = [New 7 1 5 True, New 8 2 6 True, Complete 7 True, Complete 8 True, FreeEntry 7,
                Drain 256, FreeQueue, FreeEntry 8]"

theorem engine_never_faults_witness:
  "eruns free_race (queue_new 65536 4) \<noteq> None"
  using engine_never_faults [of free_race 65536 4] by (simp add: free_race_def engine_simps)

text \<open>Nothing leaks. Once the owner has freed the queue and every entry has been freed by its
  creator, in whichever order and whether or not entries were still queued, the queue and all
  entries are deallocated, provided that \<open>malloc\<close> never failed to enlarge the ring.\<close>

theorem engine_frees_everything:
  assumes "legal_run xs (queue_new p w)" and "list_all has_memory xs"
    and "eruns xs (queue_new p w) = Some (out, g)"
    and "\<not> owner g" and "\<And>e. \<not> held g e"
  shows "queue g = None \<and> heap g = (\<lambda>_. None)"
proof -
  have inv: "einv True g" using einv_runs [OF einv_new assms(1), of True] assms(2,3) by auto
  have none: "heap g = (\<lambda>_. None)" if q: "\<And>e en. heap g e = Some en \<Longrightarrow> e_state en \<noteq> FREED"
    using q assms(5) by (fastforce simp: held_def split: option.splits)
  show ?thesis
  proof (cases "queue g")
    case None
    with inv have "heap_ok (heap g)" "refs (heap g) = 0" by (simp_all add: einv_def)
    then show ?thesis using None none refs_zero by (fastforce simp: heap_ok_def)
  next
    case (Some q)
    from einv_queue [OF inv Some] assms(4) have q: "items q = []" "ring_inv True [] (heap g)"
      "refcount q = refs (heap g)" "0 < refcount q"
      by (auto simp: qinv_def)
    then have "heap g = (\<lambda>_. None)" by (intro none) (auto simp: ring_inv_def)
    with q show ?thesis by (simp add: refs_def)
  qed
qed

theorem engine_frees_everything_witness:
  "\<exists>g. eruns free_race (queue_new 65536 4) = Some ([6], g) \<and> queue g = None
      \<and> heap g = (\<lambda>_. None)"
  using engine_frees_everything [of free_race 65536 4]
  by (auto simp: free_race_def engine_simps)

section \<open>The specification: a list of completed entries\<close>

text \<open>
  What the queue is for its callers: the entries in the order they were completed, no ring, no
  capacity and no reference count. \<open>abs_engine\<close> reads it off the engine.
\<close>

record espec =
  pending :: "nat list"
  entry_at :: eheap
  is_open :: bool

definition close_spec :: "espec \<Rightarrow> espec" where
  "close_spec a = \<lparr>pending = [], entry_at = settle (pending a) (entry_at a), is_open = False\<rparr>"

fun sstep :: "eop \<Rightarrow> espec \<Rightarrow> nat list \<times> espec" where
  "sstep (New e aio slot b) a =
     ([], if e = 0 then a else a\<lparr>entry_at := (entry_at a)(e := Some
       \<lparr>e_aio = aio, e_slot = slot, e_queue = b, e_state = IDLE\<rparr>)\<rparr>)"
| "sstep (SetSlot e slot) a =
     ([], a\<lparr>entry_at := (entry_at a)(e := map_option (e_slot_update (\<lambda>_. slot)) (entry_at a e))\<rparr>)"
| "sstep (Complete e m) a =
     ([], case entry_at a e of None \<Rightarrow> a
       | Some en \<Rightarrow>
           if e_queue en \<and> e_state en = IDLE \<and> is_open a then
             a\<lparr>pending := pending a @ [e],
               entry_at := (entry_at a)(e := Some (en\<lparr>e_state := QUEUED\<rparr>))\<rparr>
           else a)"
| "sstep (Drain m) a =
     (let xs = take (quota (entry_at a) m (pending a)) (pending a) in
      (slots (entry_at a) xs,
       a\<lparr>pending := drop (quota (entry_at a) m (pending a)) (pending a),
         entry_at := settle xs (entry_at a)\<rparr>))"
| "sstep (FreeEntry e) a =
     ([], a\<lparr>entry_at := (entry_at a)(e := (case entry_at a e of None \<Rightarrow> None
       | Some en \<Rightarrow> if e_state en = IDLE then None
           else Some (en\<lparr>e_slot := 0, e_state := FREED\<rparr>)))\<rparr>)"
| "sstep Close a = ([], close_spec a)"
| "sstep FreeQueue a = ([], close_spec a)"

fun sruns :: "eop list \<Rightarrow> espec \<Rightarrow> nat list \<times> espec" where
  "sruns [] a = ([], a)"
| "sruns (x # xs) a = (case sstep x a of (out, b) \<Rightarrow> apfst (append out) (sruns xs b))"

definition abs_engine :: "engine \<Rightarrow> espec" where
  "abs_engine g = \<lparr>pending = (case queue g of None \<Rightarrow> [] | Some q \<Rightarrow> items q), entry_at = heap g,
     is_open = (case queue g of None \<Rightarrow> False | Some q \<Rightarrow> \<not> q_closed q)\<rparr>"

lemma abs_fields [simp]:
  "entry_at (abs_engine g) = heap g"
  "queue g = Some q \<Longrightarrow> pending (abs_engine g) = items q"
  "queue g = Some q \<Longrightarrow> is_open (abs_engine g) = (\<not> q_closed q)"
  by (simp_all add: abs_engine_def)

lemma abs_close:
  assumes "einv ll g" and "owner g" and "queue_close g = Some g'"
  shows "abs_engine g' = close_spec (abs_engine g)"
  by (rule queue_close_spec [OF assms(1,2)])
    (use assms(3) in \<open>auto simp: abs_engine_def close_spec_def\<close>)

lemma abs_free:
  assumes "einv ll g" and "owner g" and "queue_free g = Some g'"
  shows "abs_engine g' = close_spec (abs_engine g)"
proof -
  obtain q q' where q: "queue g = Some q"
    "queue_close g = Some (g\<lparr>queue := Some q', heap := settle (items q) (heap g)\<rparr>)"
    "qinv ll True q' (settle (items q) (heap g))" "items q' = []" "q_closed q'"
    using assms(1,2) by (rule queue_close_spec)
  then have "items (q'\<lparr>refcount := n\<rparr>) = []" for n by (simp add: items_def)
  with q assms(3) show ?thesis
    by (auto simp: queue_free_def release_def abs_engine_def close_spec_def split: if_splits)
qed

lemma abs_drain:
  assumes "einv ll g" and "owner g" and "drain_batch m g = Some (out, g')"
  shows "sstep (Drain m) (abs_engine g) = (out, abs_engine g')"
proof (cases "m = 0")
  case True
  with assms(3) show ?thesis by (auto simp: drain_batch_def slots_def abs_engine_def)
next
  case False
  then have "0 < m" by simp
  from drain_batch_spec [OF assms(1,2) this] show ?thesis
    by (rule) (use assms(3) in \<open>auto simp: abs_engine_def Let_def\<close>)
qed

lemma abs_complete:
  assumes "einv True g" and "legal (Complete e True) g" and "native_aio_complete e True g = Some g'"
  shows "sstep (Complete e True) (abs_engine g) = ([], abs_engine g')"
proof (cases "heap g e")
  case None
  with assms show ?thesis by (auto simp: native_aio_complete_def held_def)
next
  case (Some en)
  then have ne: "e \<noteq> 0" by (rule entry_nonzero [OF einv_heap [OF assms(1)]])
  show ?thesis
  proof (cases "e_queue en")
    case True
    with assms(1) Some obtain q where q: "queue g = Some q" "qinv True (owner g) q (heap g)"
      by (auto elim: einv_entry)
    with ring_enqueue [of q e] True Some assms(3) ne show ?thesis
      by (auto simp: native_aio_complete_def abs_engine_def wake_def qinv_def split: if_splits)
  next
    case False
    with Some assms(3) ne show ?thesis by (auto simp: native_aio_complete_def abs_engine_def)
  qed
qed

lemma items_refcount [simp]: "items (q\<lparr>refcount := n\<rparr>) = items q"
  by (simp add: items_def)

lemma abs_entry_new:
  assumes "entry_new e aio slot b g = Some g'"
  shows "sstep (New e aio slot b) (abs_engine g) = ([], abs_engine g')"
  using assms by (auto simp: entry_new_def abs_engine_def Let_def retain_def split: if_splits option.splits)

lemma abs_set_slot_id:
  assumes "einv ll g" and "set_slot_id e slot g = Some g'"
  shows "sstep (SetSlot e slot) (abs_engine g) = ([], abs_engine g')"
  using assms(2) einv_heap [OF assms(1)]
  by (auto simp: set_slot_id_def abs_engine_def heap_ok_def fun_upd_idem split: if_splits option.splits)

lemma abs_entry_free:
  assumes "einv ll g" and "entry_free e g = Some g'"
  shows "sstep (FreeEntry e) (abs_engine g) = ([], abs_engine g')"
proof (cases "heap g e")
  case None
  with assms(2) show ?thesis by (auto simp: entry_free_def abs_engine_def split: if_splits)
next
  case (Some en)
  have h: "heap_ok (heap g)" by (rule einv_heap [OF assms(1)])
  then have ne: "e \<noteq> 0" using Some by (rule entry_nonzero)
  show ?thesis
  proof (cases "e_queue en \<and> e_state en = IDLE")
    case True
    with assms(1) Some obtain q where q: "queue g = Some q" "qinv ll (owner g) q (heap g)"
      by (auto elim: einv_entry)
    then have "refcount q = 1 \<Longrightarrow> owner g = False"
      using refs_delete [OF h Some] True by (cases "owner g") (auto simp: qinv_def)
    with q have "refcount q = 1 \<Longrightarrow> items q = [] \<and> q_closed q" by (simp add: qinv_def)
    with q Some True ne assms(2) show ?thesis
      by (auto simp: entry_free_def abs_engine_def release_def split: if_splits)
  next
    case False
    have "\<not> e_queue en \<Longrightarrow> e_state en = IDLE" using h Some by (auto simp: heap_ok_def)
    with False Some ne assms(2) show ?thesis
      by (auto simp: entry_free_def abs_engine_def split: if_splits option.splits)
  qed
qed

lemma abs_step:
  assumes "einv True g" and "legal x g" and "has_memory x" and "estep x g = Some (out, g')"
  shows "sstep x (abs_engine g) = (out, abs_engine g')"
proof (cases x)
  case (New e aio slot b)
  with assms(4) show ?thesis using abs_entry_new by auto
next
  case (SetSlot e slot)
  with assms show ?thesis using abs_set_slot_id by auto
next
  case (Complete e m)
  with assms show ?thesis using abs_complete by (auto simp del: legal.simps)
next
  case (Drain n)
  with assms show ?thesis using abs_drain by auto
next
  case (FreeEntry e)
  with assms show ?thesis using abs_entry_free by auto
next
  case Close
  with assms show ?thesis using abs_close by auto
next
  case FreeQueue
  with assms show ?thesis using abs_free by auto
qed

lemma abs_runs:
  assumes "einv True g" and "legal_run xs g" and "list_all has_memory xs"
  shows "map_option (apsnd abs_engine) (eruns xs g) = Some (sruns xs (abs_engine g))"
  using assms
proof (induction xs arbitrary: g)
  case (Cons x xs)
  from Cons.prems obtain out g1 where g1: "estep x g = Some (out, g1)" "einv True g1"
    using einv_step [of True g x] by auto
  have "map_option (apsnd abs_engine) (eruns xs g1) = Some (sruns xs (abs_engine g1))"
    using Cons g1 by auto
  then show ?case
    using abs_step [OF Cons.prems(1) _ _ g1(1)] Cons.prems g1
    by (auto simp: apfst_def eq_commute [of _ "sruns xs _"])
qed simp



end
