(* ===== verification/LoopEngine.thy ===== *)
theory LoopEngine
  imports Engine Errors
begin

text \<open>
  \<open>MPSCAIOEngine\<close> of \<^verbatim>\<open>_aio.py\<close>: one engine per event loop and library. It hands
  out slot ids for the futures that wait for an aio, is told through a pipe that the native queue
  has entries, drains them and resolves their futures. The native queue is the model of theory
  \<open>Engine\<close>; \<open>None\<close> as the result of an operation is a memory fault in it.
\<close>

section \<open>State\<close>

datatype fstate = Waiting | Resolved | CancelledFut

text \<open>
  \<open>native\<close> is \<open>_queue\<close>, \<open>None\<close> for \<open>NULL\<close>; \<open>fut\<close> is the state of every
  future, \<open>reading\<close> whether \<open>add_reader\<close> is in effect.
\<close>

record loop_engine =
  loop_id :: nat
  lib_key :: nat
  closed :: bool
  read_fd :: int
  pipe_fd :: int
  native :: "engine option"
  slot_tab :: "(nat \<times> nat) list"
  slot_counter :: nat
  reading :: bool

type_synonym futures = "nat \<Rightarrow> fstate"

definition batch_size :: nat where "batch_size = 256"

section \<open>Slots\<close>

definition next_slot :: "nat \<Rightarrow> nat" where
  "next_slot c = (let d = (c + 1) mod 2 ^ 31 in if d = 0 then 1 else d)"

text \<open>The loop of \<open>register\<close>, on fuel \<open>n\<close>.\<close>

fun find_slot :: "nat \<Rightarrow> (nat \<times> nat) list \<Rightarrow> nat \<Rightarrow> nat option" where
  "find_slot 0 tab c = None"
| "find_slot (Suc n) tab c =
     (let d = next_slot c in if map_of tab d = None then Some d else find_slot n tab d)"

definition register :: "nat \<Rightarrow> nat \<Rightarrow> loop_engine \<Rightarrow> (nat \<times> loop_engine) option" where
  "register n f e =
     (case find_slot n (slot_tab e) (slot_counter e) of None \<Rightarrow> None
      | Some s \<Rightarrow> Some (s, e\<lparr>slot_counter := s, slot_tab := AList.update s f (slot_tab e)\<rparr>))"

definition unregister :: "nat \<Rightarrow> loop_engine \<Rightarrow> loop_engine" where
  "unregister s e = e\<lparr>slot_tab := AList.delete s (slot_tab e)\<rparr>"

section \<open>Notification\<close>

text \<open>\<open>self._slots.pop(slot_id, None)\<close>, and the result for the future if it is not done.\<close>

definition resolve :: "nat \<Rightarrow> loop_engine \<times> futures \<Rightarrow> loop_engine \<times> futures" where
  "resolve s ef = (case ef of (e, fu) \<Rightarrow>
     (case map_of (slot_tab e) s of None \<Rightarrow> (e, fu)
      | Some f \<Rightarrow> (unregister s e, if fu f = Waiting then fu(f := Resolved) else fu)))"

definition resolve_all :: "nat list \<Rightarrow> loop_engine \<times> futures \<Rightarrow> loop_engine \<times> futures" where
  "resolve_all = fold resolve"

text \<open>
  The part of \<open>_on_notify\<close> before the loop: it returns when the engine is closed, and
  otherwise takes up to 65536 bytes out of the pipe.
\<close>

definition notify_enter :: "loop_engine \<Rightarrow> loop_engine option" where
  "notify_enter e =
     (if closed e \<or> read_fd e < 0 then None
      else Some (e\<lparr>native := map_option (\<lambda>g. g\<lparr>pipe_bytes := pipe_bytes g - 65536\<rparr>) (native e)\<rparr>))"

text \<open>One turn of the loop: whether it goes on, and what it resolved.\<close>

definition notify_turn :: "loop_engine \<times> futures \<Rightarrow> (bool \<times> loop_engine \<times> futures) option" where
  "notify_turn ef = (case ef of (e, fu) \<Rightarrow>
     (case native e of None \<Rightarrow> Some (False, e, fu)
      | Some g \<Rightarrow>
          (case drain_batch batch_size g of None \<Rightarrow> None
           | Some (ids, g') \<Rightarrow>
               (if ids = [] then Some (False, e\<lparr>native := Some g'\<rparr>, fu)
                else Some (True, resolve_all ids (e\<lparr>native := Some g'\<rparr>, fu))))))"

text \<open>
  The loop, on fuel \<open>n\<close> once nothing more arrives: the lists are the entries that worker
  threads complete before each turn.
\<close>

definition complete_all :: "nat list \<Rightarrow> loop_engine \<Rightarrow> loop_engine option" where
  "complete_all es e = (case native e of None \<Rightarrow> Some e
     | Some g \<Rightarrow> (case eruns (map (\<lambda>x. Complete x True) es) g of None \<Rightarrow> None
         | Some (out, g') \<Rightarrow> Some (e\<lparr>native := Some g'\<rparr>)))"

fun notify_loop :: "nat list list \<Rightarrow> nat \<Rightarrow> loop_engine \<times> futures \<Rightarrow> (loop_engine \<times> futures) option"
where
  "notify_loop (es # ess) n (e, fu) =
     (case complete_all es e of None \<Rightarrow> None
      | Some e1 \<Rightarrow> (case notify_turn (e1, fu) of None \<Rightarrow> None
          | Some (go, ef) \<Rightarrow> if go then notify_loop ess n ef else Some ef))"
| "notify_loop [] (Suc n) (e, fu) =
     (case notify_turn (e, fu) of None \<Rightarrow> None
      | Some (go, ef) \<Rightarrow> if go then notify_loop [] n ef else Some ef)"
| "notify_loop [] 0 ef = None"

definition on_notify :: "nat list list \<Rightarrow> nat \<Rightarrow> loop_engine \<times> futures \<Rightarrow> (loop_engine \<times> futures) option"
where
  "on_notify ess n ef = (case notify_enter (fst ef) of None \<Rightarrow> Some ef
     | Some e \<Rightarrow> notify_loop ess n (e, snd ef))"

section \<open>Creation and closing\<close>

text \<open>
  The descriptors that are open in the process are a list. Every exception while closing is
  caught, so a close always runs to its end; \<open>live\<close> says that the loop is still there and not
  closed.
\<close>

definition cancel_all :: "(nat \<times> nat) list \<Rightarrow> futures \<Rightarrow> futures" where
  "cancel_all tab fu = (\<lambda>f. if f \<in> snd ` set tab \<and> fu f = Waiting then CancelledFut else fu f)"

definition close_fd :: "int \<Rightarrow> int set \<Rightarrow> int set" where
  "close_fd d fds = (if 0 \<le> d then fds - {d} else fds)"

record engine_sys =
  eng :: loop_engine
  futs :: futures
  fds :: "int set"

definition close_native :: "bool \<Rightarrow> loop_engine \<Rightarrow> loop_engine option" where
  "close_native has_close e = (case native e of None \<Rightarrow> Some e
     | Some g \<Rightarrow> if has_close then map_option (\<lambda>g'. e\<lparr>native := Some g'\<rparr>) (queue_close g) else Some e)"

definition close_engine :: "bool \<Rightarrow> bool \<Rightarrow> engine_sys \<Rightarrow> engine_sys option" where
  "close_engine has_close live s =
     (if closed (eng s) then Some s
      else case close_native has_close (eng s\<lparr>closed := True\<rparr>) of None \<Rightarrow> None
        | Some e \<Rightarrow> Some (s\<lparr>
            eng := e\<lparr>reading := reading e \<and> \<not> (0 \<le> read_fd e \<and> live), read_fd := - 1, pipe_fd := - 1,
                     slot_tab := []\<rparr>,
            fds := close_fd (pipe_fd e) (close_fd (read_fd e) (fds s)),
            futs := cancel_all (slot_tab e) (futs s)\<rparr>))"

text \<open>\<open>__del__\<close>, and the end of a failed \<open>__init__\<close>: close, then free the queue.\<close>

definition engine_del :: "bool \<Rightarrow> bool \<Rightarrow> engine_sys \<Rightarrow> engine_sys option" where
  "engine_del has_close live s =
     (case close_engine has_close live s of None \<Rightarrow> None
      | Some t \<Rightarrow> (case native (eng t) of None \<Rightarrow> Some t
          | Some g \<Rightarrow> map_option (\<lambda>_. t\<lparr>eng := (eng t)\<lparr>native := None\<rparr>\<rparr>) (queue_free g)))"

text \<open>
  \<open>__init__\<close>: the descriptors of \<open>os.pipe\<close>, whether \<open>malloc\<close> has memory for
  the queue, and where an exception is raised, if any.
\<close>

datatype init_fault = At_set_blocking pyexc | At_add_reader pyexc

definition engine_init ::
  "nat \<Rightarrow> nat \<Rightarrow> int \<times> int \<Rightarrow> nat \<Rightarrow> bool \<Rightarrow> init_fault option \<Rightarrow> futures \<Rightarrow> int set
     \<Rightarrow> ((pyexc + unit) \<times> engine_sys) option" where
  "engine_init loop lib rw pmax malloc_ok fault fu open_fds =
     (case rw of (r, w) \<Rightarrow>
       let e0 = \<lparr>loop_id = loop, lib_key = lib, closed = False, read_fd = - 1, pipe_fd = - 1, native = None,
                 slot_tab = [], slot_counter = 0, reading = False\<rparr>;
           s0 = \<lparr>eng = e0, futs = fu, fds = open_fds \<union> {r, w}\<rparr>;
           e1 = e0\<lparr>read_fd := r, pipe_fd := w,
                   native := (if malloc_ok then Some (queue_new pmax w) else None)\<rparr>
       in case fault of
           None \<Rightarrow> Some (Inr (), s0\<lparr>eng := e1\<lparr>reading := True\<rparr>\<rparr>)
         | Some (At_set_blocking x) \<Rightarrow> map_option (Pair (Inl x)) (engine_del True True s0)
         | Some (At_add_reader x) \<Rightarrow> map_option (Pair (Inl x)) (engine_del True True (s0\<lparr>eng := e1\<rparr>)))"

section \<open>Slot ids\<close>

lemma next_slot_range: "1 \<le> next_slot c \<and> next_slot c \<le> 2 ^ 31 - 1"
proof -
  have "(c + 1) mod 2 ^ 31 < 2 ^ 31" by simp
  then show ?thesis by (auto simp: next_slot_def Let_def)
qed

lemma next_slot_eq: "next_slot c = c mod (2 ^ 31 - 1) + 1" if "c \<le> 2 ^ 31 - 1"
proof (cases "c = 2 ^ 31 - 1")
  case False
  with that have "c + 1 < 2 ^ 31" "c < 2 ^ 31 - 1" by auto
  then show ?thesis by (simp add: next_slot_def Let_def)
qed (simp add: next_slot_def Let_def)

text \<open>The \<open>k\<close>-th candidate after \<open>c\<close>.\<close>

lemma next_slot_pow:
  assumes "c \<le> 2 ^ 31 - 1"
  shows "(next_slot ^^ Suc k) c = (c + k) mod (2 ^ 31 - 1) + 1"
proof (induction k)
  case 0
  show ?case using next_slot_eq [OF assms] by simp
next
  case (Suc k)
  have "(c + k) mod (2 ^ 31 - 1) < 2 ^ 31 - (1::nat)" by simp
  then have "(c + k) mod (2 ^ 31 - 1) + 1 \<le> 2 ^ 31 - (1::nat)" by linarith
  then have "next_slot ((c + k) mod (2 ^ 31 - 1) + 1) = ((c + k) mod (2 ^ 31 - 1) + 1) mod (2 ^ 31 - 1) + 1"
    by (rule next_slot_eq)
  then show ?case using Suc by (simp add: mod_Suc_eq)
qed

lemma find_slot_None:
  "find_slot n tab c = None \<Longrightarrow> k < n \<Longrightarrow> map_of tab ((next_slot ^^ Suc k) c) \<noteq> None"
proof (induction n tab c arbitrary: k rule: find_slot.induct)
  case (2 n tab c)
  then show ?case
    by (cases k) (auto simp: Let_def funpow_swap1 split: if_splits)
qed simp

lemma find_slot_Some:
  "find_slot n tab c = Some s \<Longrightarrow> map_of tab s = None \<and> 1 \<le> s \<and> s \<le> 2 ^ 31 - 1"
  by (induction n tab c rule: find_slot.induct)
    (use next_slot_range in \<open>auto simp: Let_def split: if_splits\<close>)

lemma find_slot_total:
  assumes "c \<le> 2 ^ 31 - 1" and "length tab < 2 ^ 31 - 1" and "length tab < n"
  shows "find_slot n tab c \<noteq> None"
proof
  let ?f = "\<lambda>k. (next_slot ^^ Suc k) c" and ?m = "length tab"
  assume "find_slot n tab c = None"
  then have "?f ` {..?m} \<subseteq> dom (map_of tab)"
    using find_slot_None assms(3) by fastforce
  then have "card (?f ` {..?m}) \<le> card (dom (map_of tab))"
    by (rule card_mono [OF finite_dom_map_of])
  also have "\<dots> \<le> ?m" by (simp add: dom_map_of_conv_image_fst card_image_le [THEN le_trans] card_length)
  finally have "card (?f ` {..?m}) \<le> ?m" .
  moreover have "inj_on ?f {..?m}"
  proof (rule inj_onI)
    fix a b assume ab: "a \<in> {..?m}" "b \<in> {..?m}" "?f a = ?f b"
    then have "(c + a) mod (2 ^ 31 - 1) = (c + b) mod (2 ^ 31 - 1)"
      by (simp only: next_slot_pow [OF assms(1)] add_right_cancel)
    then show "a = b"
      using mod_add_ne [of a b "2 ^ 31 - 1" c] mod_add_ne [of b a "2 ^ 31 - 1" c] ab assms(2)
      by (metis atMost_iff le_less_trans nat_neq_iff)
  qed
  then have "card (?f ` {..?m}) = Suc ?m" by (simp add: card_image)
  ultimately show False by simp
qed

text \<open>C23. \<open>register\<close> returns: as long as fewer than \<open>2^31 - 1\<close> futures wait, its search
  ends within one try more than there are waiting futures, although the counter wraps around, and
  the slot id is between 1 and \<open>2^31 - 1\<close> (0 means "no slot" to the native queue), is not
  in use, and leads to the future; all other slots keep theirs.\<close>

theorem register_fresh:
  assumes "slot_counter e \<le> 2 ^ 31 - 1" and "length (slot_tab e) < 2 ^ 31 - 1"
    and "length (slot_tab e) < n"
  shows "\<exists>s e'. register n f e = Some (s, e') \<and> 1 \<le> s \<and> s \<le> 2 ^ 31 - 1 \<and> slot_counter e' = s \<and>
    map_of (slot_tab e) s = None \<and> map_of (slot_tab e') = (map_of (slot_tab e))(s \<mapsto> f)"
proof -
  obtain s where s: "find_slot n (slot_tab e) (slot_counter e) = Some s"
    using find_slot_total [OF assms] by auto
  show ?thesis
    using find_slot_Some [OF s] by (auto simp: register_def s dict_simps)
qed

definition wrapped_engine :: loop_engine where
  "wrapped_engine = \<lparr>loop_id = 0, lib_key = 0, closed = False, read_fd = 3, pipe_fd = 4, native = None,
     slot_tab = [(2147483647, 0), (1, 1)], slot_counter = 2147483646, reading = True\<rparr>"

theorem register_fresh_witness:
  "\<exists>e'. register 3 2 wrapped_engine = Some (2, e') \<and> slot_counter e' = 2"
proof -
  have c: "slot_counter wrapped_engine \<le> 2 ^ 31 - 1" by (simp add: wrapped_engine_def)
  have l: "length (slot_tab wrapped_engine) < 3" by (simp add: wrapped_engine_def)
  have "(3 :: nat) < 2 ^ 31 - 1" by simp
  then have m: "length (slot_tab wrapped_engine) < 2 ^ 31 - 1" by (rule less_trans [OF l])
  from register_fresh [OF c m l, of 2] obtain s e' where
    s: "register 3 2 wrapped_engine = Some (s, e')" "slot_counter e' = s" by blast
  have n: "next_slot 2147483646 = 2147483647" "next_slot 2147483647 = 1" "next_slot 1 = 2"
    by (simp_all add: next_slot_def)
  have "find_slot (Suc (Suc (Suc 0))) [(2147483647, 0), (1, 1)] 2147483646 = Some 2"
    by (simp only: find_slot.simps Let_def n) simp
  then have "find_slot 3 (slot_tab wrapped_engine) (slot_counter wrapped_engine) = Some 2"
    by (simp only: numeral_3_eq_3) (simp add: wrapped_engine_def)
  with s(1) have "s = 2" by (simp add: register_def)
  with s show ?thesis by auto
qed

section \<open>What a notification does\<close>

lemma resolve_futs:
  "snd (resolve s (e, fu)) = (\<lambda>f. if fu f = Waiting \<and> map_of (slot_tab e) s = Some f then Resolved else fu f)"
  by (auto simp: resolve_def fun_eq_iff split: option.split)

lemma resolve_tab:
  "map_of (slot_tab (fst (resolve s (e, fu)))) x = (if x = s then None else map_of (slot_tab e) x)"
  by (simp add: resolve_def unregister_def dict_simps split: option.split)

lemma resolve_rest:
  "native (fst (resolve s ef)) = native (fst ef)" "closed (fst (resolve s ef)) = closed (fst ef)"
  "read_fd (fst (resolve s ef)) = read_fd (fst ef)"
  "(fst (resolve s ef))\<lparr>slot_tab := t\<rparr> = (fst ef)\<lparr>slot_tab := t\<rparr>"
  by (cases ef; simp add: resolve_def unregister_def split: option.split)+

lemma resolve_all_rest [simp]:
  "native (fst (resolve_all ids ef)) = native (fst ef)"
  "closed (fst (resolve_all ids ef)) = closed (fst ef)"
  "read_fd (fst (resolve_all ids ef)) = read_fd (fst ef)"
  by (induction ids arbitrary: ef) (simp_all add: resolve_all_def resolve_rest)

lemma resolve_all_Cons: "resolve_all (s # ids) ef = resolve_all ids (resolve s ef)"
  by (simp add: resolve_all_def)

lemma resolve_all_append: "resolve_all (xs @ ys) ef = resolve_all ys (resolve_all xs ef)"
  by (simp add: resolve_all_def)

text \<open>Exactly the futures of the delivered slots are resolved, and their slots are gone.\<close>

lemma resolve_all_futs:
  "snd (resolve_all ids (e, fu)) f =
     (if fu f = Waiting \<and> (\<exists>s\<in>set ids. map_of (slot_tab e) s = Some f) then Resolved else fu f)"
proof (induction ids arbitrary: e fu)
  case (Cons s ids)
  have *: "resolve s (e, fu) = (fst (resolve s (e, fu)), snd (resolve s (e, fu)))" by simp
  show ?case
    by (subst resolve_all_Cons, subst *, subst Cons.IH) (auto simp: resolve_futs resolve_tab)
qed (simp add: resolve_all_def)

lemma resolve_all_tab:
  "map_of (slot_tab (fst (resolve_all ids (e, fu)))) x =
     (if x \<in> set ids then None else map_of (slot_tab e) x)"
proof (induction ids arbitrary: e fu)
  case (Cons s ids)
  have *: "resolve s (e, fu) = (fst (resolve s (e, fu)), snd (resolve s (e, fu)))" by simp
  show ?case
    by (subst resolve_all_Cons, subst *, subst Cons.IH) (auto simp: resolve_tab)
qed (simp add: resolve_all_def)

lemma resolve_native_upd:
  "resolve s (e\<lparr>native := g\<rparr>, fu) = apfst (\<lambda>e. e\<lparr>native := g\<rparr>) (resolve s (e, fu))"
  by (simp add: resolve_def unregister_def split: option.split)

lemma resolve_all_native_upd:
  "resolve_all ids (e\<lparr>native := g\<rparr>, fu) = apfst (\<lambda>e. e\<lparr>native := g\<rparr>) (resolve_all ids (e, fu))"
proof (induction ids arbitrary: e fu)
  case (Cons s ids)
  obtain e1 fu1 where r: "resolve s (e, fu) = (e1, fu1)" by (cases "resolve s (e, fu)")
  show ?case by (simp add: resolve_all_Cons resolve_native_upd r Cons.IH)
qed (simp add: resolve_all_def)

lemma quota_pos: "0 < m \<Longrightarrow> xs \<noteq> [] \<Longrightarrow> quota h m xs \<noteq> 0"
  by (cases m; cases xs) auto

text \<open>The part of the native queue that a turn takes, and what it leaves.\<close>

lemma notify_turn_spec:
  assumes "native e = Some g" and "einv ll g" and "owner g"
  obtains ids rest g' where
    "drain_batch batch_size g = Some (ids, g')" "einv ll g'" "owner g'"
    "pending (abs_engine g) = rest @ pending (abs_engine g')"
    "ids = slots (heap g) rest" "heap g' = settle rest (heap g)"
    "ids = [] \<longrightarrow> pending (abs_engine g') = []" "rest = [] \<longrightarrow> pending (abs_engine g) = []"
proof -
  have b: "0 < batch_size" by (simp add: batch_size_def)
  from drain_batch_spec [OF assms(2,3) b] obtain q q' where q: "queue g = Some q"
    "drain_batch batch_size g = Some (slots (heap g) (take (quota (heap g) batch_size (items q)) (items q)),
       g\<lparr>queue := Some q', heap := settle (take (quota (heap g) batch_size (items q)) (items q)) (heap g)\<rparr>)"
    "qinv ll True q' (settle (take (quota (heap g) batch_size (items q)) (items q)) (heap g))"
    "items q' = drop (quota (heap g) batch_size (items q)) (items q)"
    by metis
  let ?k = "quota (heap g) batch_size (items q)"
  let ?g = "g\<lparr>queue := Some q', heap := settle (take ?k (items q)) (heap g)\<rparr>"
  have inv: "einv ll ?g"
    using q(3) assms(3) einv_heap [OF assms(2)] by (simp add: einv_def heap_ok_settle)
  have all: "slots (heap g) (take ?k (items q)) = [] \<Longrightarrow> drop ?k (items q) = []"
    using quota_rest [of "heap g" batch_size "items q"] quota_le [of "heap g" batch_size "items q"] b
    by (cases "?k < length (items q)") auto
  have "take ?k (items q) = [] \<Longrightarrow> items q = []"
    using quota_pos [OF b, of "items q" "heap g"] by (metis take_eq_Nil)
  with q inv all assms(3) show thesis
    by (intro that [of _ ?g "take ?k (items q)"] impI) (simp_all add: abs_engine_def)
qed

lemma slots_append: "slots h (xs @ ys) = slots h xs @ slots h ys"
  by (simp add: slots_def)

lemma settle_append: "distinct (xs @ ys) \<Longrightarrow> settle ys (settle xs h) = settle (xs @ ys) h"
  by (rule ext) (auto simp: settle_def split: option.split)

lemma slots_settle: "distinct (xs @ ys) \<Longrightarrow> slots (settle xs h) ys = slots h ys"
  by (rule same_on_cong) (auto simp: same_on_def settle_def)

lemma einv_distinct: "einv ll g \<Longrightarrow> distinct (pending (abs_engine g))"
  by (auto simp: einv_def abs_engine_def qinv_def ring_inv_def split: option.split)

text \<open>The whole loop, when no more completions arrive.\<close>

lemma notify_loop_spec:
  assumes "native e = Some g" and "einv ll g" and "owner g"
    and "length (pending (abs_engine g)) < n"
  shows "\<exists>g'. notify_loop [] n (e, fu) =
       Some (resolve_all (slots (heap g) (pending (abs_engine g))) (e\<lparr>native := Some g'\<rparr>, fu)) \<and>
     pending (abs_engine g') = [] \<and> heap g' = settle (pending (abs_engine g)) (heap g) \<and> einv ll g'
     \<and> owner g'"
  using assms
proof (induction n arbitrary: e g fu)
  case (Suc n)
  from notify_turn_spec [OF Suc.prems(1-3)] obtain ids rest g1 where g1:
    "drain_batch batch_size g = Some (ids, g1)" "einv ll g1" "owner g1"
    "pending (abs_engine g) = rest @ pending (abs_engine g1)"
    "ids = slots (heap g) rest" "heap g1 = settle rest (heap g)"
    "ids = [] \<longrightarrow> pending (abs_engine g1) = []" "rest = [] \<longrightarrow> pending (abs_engine g) = []"
    by metis
  have d: "distinct (rest @ pending (abs_engine g1))"
    using einv_distinct [OF Suc.prems(2)] g1(4) by simp
  show ?case
  proof (cases "ids = []")
    case True
    with g1 Suc.prems show ?thesis by (auto simp: notify_turn_def resolve_all_def)
  next
    case False
    obtain e1 fu1 where r: "resolve_all ids (e, fu) = (e1, fu1)"
      by (cases "resolve_all ids (e, fu)")
    let ?e = "e1\<lparr>native := Some g1\<rparr>"
    have t: "notify_turn (e, fu) = Some (True, ?e, fu1)"
      using g1(1) Suc.prems(1) False by (simp add: notify_turn_def resolve_all_native_upd r)
    have "rest \<noteq> []" using False g1(5) by (auto simp: slots_def)
    then have "length (pending (abs_engine g1)) < n"
      using Suc.prems(4) g1(4) by (cases rest) auto
    from Suc.IH [of ?e g1 fu1, OF _ g1(2,3) this] obtain g' where g':
      "notify_loop [] n (?e, fu1) = Some (resolve_all (slots (heap g1) (pending (abs_engine g1)))
         (?e\<lparr>native := Some g'\<rparr>, fu1))"
      "pending (abs_engine g') = []" "heap g' = settle (pending (abs_engine g1)) (heap g1)"
      "einv ll g'" "owner g'" by auto
    have "resolve_all (slots (heap g1) (pending (abs_engine g1))) (?e\<lparr>native := Some g'\<rparr>, fu1) =
        resolve_all (slots (heap g) (pending (abs_engine g))) (e\<lparr>native := Some g'\<rparr>, fu)"
      using d g1(5,6)
      by (simp add: g1(4) slots_append slots_settle resolve_all_append resolve_all_native_upd
          r [unfolded g1(5)])
    then show ?thesis
      using g' d t by (intro exI [of _ g']) (simp add: g1(4,6) settle_append)
  qed
qed simp

text \<open>C7. A notification loses nothing and invents nothing. After any history of the native
  queue, \<open>_on_notify\<close> returns (its fuel is one more than the queued entries) and leaves the
  queue empty, however many batches that takes; it has resolved exactly the futures that still
  waited under a slot id that a completed, not yet freed entry carried, it has removed exactly those
  slots, and no future that was already resolved or cancelled has changed.\<close>

theorem notify_delivers:
  assumes "legal_run xs (queue_new p w)" and "eruns xs (queue_new p w) = Some (out, g)"
    and "native e = Some g" and "owner g" and "\<not> closed e" and "0 \<le> read_fd e"
    and "ids = slots (heap g) (pending (abs_engine g))"
    and "length (pending (abs_engine g)) < n"
  shows "\<exists>e' fu' g'. on_notify [] n (e, fu) = Some (e', fu') \<and> native e' = Some g' \<and>
    pending (abs_engine g') = [] \<and>
    (\<forall>f. fu' f = (if fu f = Waiting \<and> (\<exists>s\<in>set ids. map_of (slot_tab e) s = Some f)
                 then Resolved else fu f)) \<and>
    (\<forall>s. map_of (slot_tab e') s = (if s \<in> set ids then None else map_of (slot_tab e) s))"
proof -
  have inv: "einv False g" using einv_runs [OF einv_new assms(1), of False] assms(2) by auto
  let ?g = "g\<lparr>pipe_bytes := pipe_bytes g - 65536\<rparr>"
  have a: "abs_engine ?g = abs_engine g" by (simp add: abs_engine_def)
  have "einv False ?g" "owner ?g" using inv assms(4) by (auto simp: einv_def split: option.splits)
  from notify_loop_spec [of "e\<lparr>native := Some ?g\<rparr>", OF _ this, of n fu] assms(8)
  obtain g' where g': "notify_loop [] n (e\<lparr>native := Some ?g\<rparr>, fu) =
      Some (resolve_all ids (e\<lparr>native := Some g'\<rparr>, fu))" "pending (abs_engine g') = []"
    by (auto simp: a assms(7))
  obtain e' fu' where r: "resolve_all ids (e\<lparr>native := Some g'\<rparr>, fu) = (e', fu')"
    by (cases "resolve_all ids (e\<lparr>native := Some g'\<rparr>, fu)")
  have "on_notify [] n (e, fu) = Some (e', fu')"
    using assms(3,5,6) g'(1) r by (simp add: on_notify_def notify_enter_def)
  moreover have "native e' = Some g'"
    using resolve_all_rest(1) [of ids "(e\<lparr>native := Some g'\<rparr>, fu)"] by (simp add: r)
  moreover have "fu' f = (if fu f = Waiting \<and> (\<exists>s\<in>set ids. map_of (slot_tab e) s = Some f)
      then Resolved else fu f)" for f
    using resolve_all_futs [of ids "e\<lparr>native := Some g'\<rparr>" fu f] by (simp add: r)
  moreover have "map_of (slot_tab e') s = (if s \<in> set ids then None else map_of (slot_tab e) s)" for s
    using resolve_all_tab [of ids "e\<lparr>native := Some g'\<rparr>" fu s] by (simp add: r)
  ultimately show ?thesis using g'(2) by blast
qed

text \<open>Two aios completed, one of them freed meanwhile; its future is not touched.\<close>

definition two_done :: "eop list" where
  "two_done = [New 7 1 5 True, New 8 2 6 True, Complete 7 True, Complete 8 True, FreeEntry 7]"

theorem notify_delivers_witness:
  "\<exists>e' fu'. on_notify [] 3 (wrapped_engine\<lparr>slot_tab := [(5, 50), (6, 60)],
       native := map_option snd (eruns two_done (queue_new 65536 4))\<rparr>, \<lambda>_. Waiting) = Some (e', fu')
     \<and> fu' 60 = Resolved \<and> fu' 50 = Waiting"
proof -
  obtain g where g1: "eruns two_done (queue_new 65536 4) = Some ([], g)" "owner g"
    by (simp add: two_done_def engine_simps)
  have "legal_run two_done (queue_new 65536 4)" "list_all has_memory two_done"
    by (simp_all add: two_done_def engine_simps)
  from abs_runs [OF einv_new this] have
    "abs_engine g = snd (sruns two_done (abs_engine (queue_new 65536 4)))"
    by (auto simp: g1 eq_commute [of _ "sruns _ _"])
  then have a: "pending (abs_engine g) = [7, 8]" "entry_at (abs_engine g) 7 =
      Some \<lparr>e_aio = 1, e_slot = 0, e_queue = True, e_state = FREED\<rparr>" "entry_at (abs_engine g) 8 =
      Some \<lparr>e_aio = 2, e_slot = 6, e_queue = True, e_state = QUEUED\<rparr>"
    by (simp_all add: two_done_def abs_engine_def queue_new_def items_def)
  then have g: "eruns two_done (queue_new 65536 4) = Some ([], g)" "owner g"
    "slots (heap g) (pending (abs_engine g)) = [6]" "length (pending (abs_engine g)) < 3"
    using g1 by (simp_all add: slots_def slot_of_def)
  let ?e = "wrapped_engine\<lparr>slot_tab := [(5, 50), (6, 60)], native := Some g\<rparr>"
  have "legal_run two_done (queue_new 65536 4)" by (simp add: two_done_def engine_simps)
  moreover have "native ?e = Some g" "\<not> closed ?e" "0 \<le> read_fd ?e"
    by (simp_all add: wrapped_engine_def)
  ultimately obtain e' fu' where n: "on_notify [] 3 (?e, \<lambda>_. Waiting) = Some (e', fu')"
    and f: "\<forall>f. fu' f = (if (\<lambda>_. Waiting) f = Waiting \<and> (\<exists>s\<in>set [6]. map_of (slot_tab ?e) s = Some f)
                 then Resolved else (\<lambda>_. Waiting) f)"
    using notify_delivers [of two_done 65536 4 "[]" g ?e "[6]" 3 "\<lambda>_. Waiting"] g by metis
  from f have "fu' 60 = Resolved" "fu' 50 = Waiting" by simp_all
  with n g(1) show ?thesis by (intro exI [of _ e'] exI [of _ fu']) simp
qed

section \<open>No wake-up is lost\<close>

text \<open>
  The engine while worker threads and the event loop interleave. \<open>draining\<close> holds from the
  moment \<open>_on_notify\<close> has read the pipe until its loop has ended. The event loop calls it
  when the pipe has bytes (\<open>Enter\<close>); each turn of its loop is one step, and any other
  operation may come in between.
\<close>

record wake_sys = engine_sys +
  draining :: bool

definition on_native :: "eop \<Rightarrow> wake_sys \<Rightarrow> wake_sys \<Rightarrow> bool" where
  "on_native x s t \<longleftrightarrow> (\<exists>g out g'. native (eng s) = Some g \<and> legal x g \<and> estep x g = Some (out, g') \<and>
     t = s\<lparr>eng := (eng s)\<lparr>native := Some g'\<rparr>\<rparr>)"

fun entry_op :: "eop \<Rightarrow> bool" where
  "entry_op (New e aio slot b) = True"
| "entry_op (SetSlot e slot) = True"
| "entry_op (Complete e m) = True"
| "entry_op (FreeEntry e) = True"
| "entry_op x = False"

inductive wstep :: "wake_sys \<Rightarrow> wake_sys \<Rightarrow> bool" where
  Entry: "entry_op x \<Longrightarrow> on_native x s t \<Longrightarrow> wstep s t"
| Register: "register n f (eng s) = Some (i, e) \<Longrightarrow> wstep s (s\<lparr>eng := e\<rparr>)"
| Unregister: "wstep s (s\<lparr>eng := unregister i (eng s)\<rparr>)"
| Enter: "\<not> draining s \<Longrightarrow> native (eng s) = Some g \<Longrightarrow> 0 < pipe_bytes g \<Longrightarrow>
    notify_enter (eng s) = Some e \<Longrightarrow> wstep s (s\<lparr>eng := e, draining := True\<rparr>)"
| Turn: "draining s \<Longrightarrow> notify_turn (eng s, futs s) = Some (go, e, fu) \<Longrightarrow>
    wstep s (s\<lparr>eng := e, futs := fu, draining := go\<rparr>)"
| CloseEngine: "close_engine True live (engine_sys.truncate s) = Some u \<Longrightarrow>
    wstep s (s\<lparr>eng := eng u, futs := futs u, fds := fds u\<rparr>)"

definition wake_init :: "nat \<Rightarrow> int \<Rightarrow> wake_sys \<Rightarrow> bool" where
  "wake_init p w s \<longleftrightarrow> native (eng s) = Some (queue_new p w) \<and> \<not> closed (eng s) \<and>
     0 \<le> read_fd (eng s) \<and> \<not> draining s"

text \<open>The wake pipe belongs to an open queue, and has a byte whenever one is needed.\<close>

definition awake :: "bool \<Rightarrow> engine \<Rightarrow> bool" where
  "awake busy g \<longleftrightarrow> 0 < pipe_max g \<and> (is_open (abs_engine g) \<longrightarrow> 0 \<le> write_fd (the (queue g))) \<and>
     (pending (abs_engine g) \<noteq> [] \<longrightarrow> busy \<or> 0 < pipe_bytes g)"

definition native_inv :: "bool \<Rightarrow> bool \<Rightarrow> engine \<Rightarrow> bool" where
  "native_inv cl busy g \<longleftrightarrow> einv False g \<and> owner g \<and> awake busy g \<and>
     is_open (abs_engine g) = (\<not> cl)"

definition winv :: "wake_sys \<Rightarrow> bool" where
  "winv s \<longleftrightarrow> (\<exists>g. native (eng s) = Some g \<and> native_inv (closed (eng s)) (draining s) g) \<and>
     (\<not> closed (eng s) \<longrightarrow> 0 \<le> read_fd (eng s))"

lemma owner_queue:
  assumes "einv ll g" and "owner g"
  obtains q where "queue g = Some q" "pending (abs_engine g) = items q"
    "is_open (abs_engine g) = (\<not> q_closed q)" "ring_ok q" "q_closed q \<Longrightarrow> items q = []"
  using assms(1) by (rule einv_owner [OF _ assms(2)]) (auto simp: abs_engine_def qinv_def)

text \<open>An operation on entries keeps the pipe, the owner and the closing of the queue; only a
  completion adds to the pending entries, and it wakes.\<close>

lemma entry_op_native:
  assumes inv: "native_inv cl busy g" and op: "entry_op x" "legal x g" and st: "estep x g = Some (out, g')"
  shows "native_inv cl busy g'"
proof -
  have g: "einv False g" "owner g" "awake busy g" "is_open (abs_engine g) = (\<not> cl)"
    using inv by (simp_all add: native_inv_def)
  then obtain q where q: "queue g = Some q" "pending (abs_engine g) = items q"
    "is_open (abs_engine g) = (\<not> q_closed q)" "ring_ok q" by (auto elim: owner_queue)
  have e': "einv False g'" using einv_step [OF g(1) op(2), of] st by auto
  have "owner g' \<and> awake busy g' \<and> is_open (abs_engine g') = (\<not> cl)"
  proof (cases x)
    case (New e aio slot b)
    with st q g show ?thesis
      by (auto simp: entry_new_def Let_def retain_def awake_def abs_engine_def split: if_splits)
  next
    case (SetSlot e slot)
    with st q g show ?thesis
      by (auto simp: set_slot_id_def awake_def abs_engine_def split: if_splits option.splits)
  next
    case (Complete e m)
    from ring_enqueue_any [OF q(4), of m e]
    have "items (enqueue m e q) \<noteq> [] \<longrightarrow> items (enqueue m e q) = items q @ [e] \<or> items q \<noteq> []"
      by auto
    with Complete st q g show ?thesis
      by (auto simp: native_aio_complete_def wake_def awake_def abs_engine_def
          split: if_splits option.splits)
  next
    case (FreeEntry e)
    have r1: "refcount q = 1 \<Longrightarrow> heap g e = Some en \<Longrightarrow> \<not> e_queue en" for en
      using einv_queue [OF g(1) q(1)] g(2) refs_zero [OF einv_heap [OF g(1)]]
      by (auto simp: qinv_def)
    with FreeEntry st q g show ?thesis
      by (auto simp: entry_free_def release_def awake_def abs_engine_def
          split: if_splits option.splits)
  qed (use op in auto)
  with e' show ?thesis by (simp add: native_inv_def)
qed

lemma winv_init: "0 < p \<Longrightarrow> 0 \<le> w \<Longrightarrow> wake_init p w s \<Longrightarrow> winv s"
  by (auto simp: wake_init_def winv_def native_inv_def awake_def einv_new abs_engine_def items_def)
    (auto simp: queue_new_def items_def)

lemma native_inv_turn:
  assumes "native_inv cl busy g" and "notify_turn (e, fu) = Some (go, e', fu')" and "native e = Some g"
  shows "\<exists>g'. native e' = Some g' \<and> native_inv cl go g' \<and> closed e' = closed e \<and> read_fd e' = read_fd e"
proof -
  have g: "einv False g" "owner g" "awake busy g" "is_open (abs_engine g) = (\<not> cl)"
    using assms(1) by (simp_all add: native_inv_def)
  have b: "0 < batch_size" by (simp add: batch_size_def)
  from drain_batch_spec [OF g(1,2) b] obtain q q' ids h' where q: "queue g = Some q"
    "drain_batch batch_size g = Some (ids, g\<lparr>queue := Some q', heap := h'\<rparr>)"
    "q_closed q' = q_closed q" "write_fd q' = write_fd q" by metis
  from notify_turn_spec [OF assms(3) g(1,2)] obtain ids1 g1 where
    g1: "drain_batch batch_size g = Some (ids1, g1)" "einv False g1" "owner g1"
    "ids1 = [] \<longrightarrow> pending (abs_engine g1) = []" by metis
  have eq: "ids1 = ids" "g1 = g\<lparr>queue := Some q', heap := h'\<rparr>" using q(2) g1(1) by simp_all
  have g1': "pipe_max g1 = pipe_max g" "is_open (abs_engine g1) = is_open (abs_engine g)"
    "is_open (abs_engine g1) \<Longrightarrow> write_fd (the (queue g1)) = write_fd (the (queue g))"
    using q by (simp_all add: eq abs_engine_def)
  show ?thesis
  proof (cases "ids = []")
    case True
    with assms(2,3) q(2) have "go = False" "e' = e\<lparr>native := Some g1\<rparr>"
      by (simp_all add: notify_turn_def eq)
    with True g1 g1' g eq show ?thesis by (simp add: native_inv_def awake_def)
  next
    case False
    with assms(2,3) q(2) have go: "go" "resolve_all ids (e\<lparr>native := Some g1\<rparr>, fu) = (e', fu')"
      by (simp_all add: notify_turn_def eq)
    then have "native e' = Some g1" "closed e' = closed e" "read_fd e' = read_fd e"
      using resolve_all_rest [of ids "(e\<lparr>native := Some g1\<rparr>, fu)"] by simp_all
    with go g1 g1' g show ?thesis by (simp add: native_inv_def awake_def)
  qed
qed

lemma native_inv_enter:
  assumes "native_inv cl False g"
  shows "native_inv cl True (g\<lparr>pipe_bytes := n\<rparr>)"
  using assms by (auto simp: native_inv_def awake_def einv_def abs_engine_def split: option.splits)

lemma native_inv_close:
  assumes "native_inv False busy g" and "queue_close g = Some g'"
  shows "native_inv True busy' g'"
proof -
  have g: "einv False g" "owner g" "awake busy g" using assms(1) by (simp_all add: native_inv_def)
  from queue_close_spec [OF g(1,2)] obtain q q' where q: "queue g = Some q"
    "queue_close g = Some (g\<lparr>queue := Some q', heap := settle (items q) (heap g)\<rparr>)"
    "items q' = []" "q_closed q'" by metis
  have "einv False g'" using einv_close [OF g(1,2)] assms(2) by auto
  with q assms(2) g show ?thesis by (auto simp: native_inv_def awake_def abs_engine_def)
qed

lemma winv_step:
  assumes "winv s" and "wstep s t"
  shows "winv t"
  using assms(2)
proof cases
  case (Entry x)
  with assms(1) show ?thesis using entry_op_native by (auto simp: winv_def on_native_def)
next
  case (Register n f i e)
  with assms(1) show ?thesis by (auto simp: winv_def register_def split: option.splits)
next
  case (Unregister i)
  with assms(1) show ?thesis by (simp add: winv_def unregister_def)
next
  case (Enter g e)
  with assms(1) have "native_inv (closed (eng s)) True (g\<lparr>pipe_bytes := pipe_bytes g - 65536\<rparr>)"
    by (intro native_inv_enter) (auto simp: winv_def)
  with Enter assms(1) show ?thesis by (auto simp: winv_def notify_enter_def split: if_splits)
next
  case (Turn go e fu)
  with assms(1) obtain g where "native (eng s) = Some g" "native_inv (closed (eng s)) True g"
    "\<not> closed (eng s) \<longrightarrow> 0 \<le> read_fd (eng s)" by (auto simp: winv_def)
  with native_inv_turn [OF this(2) Turn(3) this(1)] Turn show ?thesis by (auto simp: winv_def)
next
  case (CloseEngine live u)
  with assms(1) obtain g where g: "native (eng s) = Some g" "native_inv (closed (eng s)) (draining s) g"
    by (auto simp: winv_def)
  show ?thesis
  proof (cases "closed (eng s)")
    case True
    with CloseEngine assms(1) show ?thesis
      by (auto simp: winv_def close_engine_def engine_sys.truncate_def)
  next
    case False
    with CloseEngine g obtain g' where "queue_close g = Some g'" "native (eng u) = Some g'"
      "closed (eng u)"
      by (auto simp: close_engine_def close_native_def engine_sys.truncate_def split: option.splits)
    with native_inv_close [of "draining s" g g' "draining s"] g False CloseEngine
    show ?thesis by (auto simp: winv_def)
  qed
qed

interpretation wakeups: step_invariant "\<lambda>s. 0 < p \<and> 0 \<le> w \<and> wake_init p w s" wstep winv
  by unfold_locales (auto intro: winv_init winv_step)

text \<open>C6. No wake-up is lost. However worker threads, registrations and notifications interleave,
  whenever a completed entry is waiting in the queue, the event loop is either inside
  \<open>_on_notify\<close> with another drain still to come, or the pipe has a byte, so that the loop
  calls \<open>_on_notify\<close>, and that call does not return early.\<close>

theorem no_lost_wakeup:
  assumes "reach (\<lambda>s. 0 < p \<and> 0 \<le> w \<and> wake_init p w s) wstep s"
    and "native (eng s) = Some g" and "pending (abs_engine g) \<noteq> []"
  shows "if draining s then notify_turn (eng s, futs s) \<noteq> None
    else 0 < pipe_bytes g \<and> notify_enter (eng s) \<noteq> None"
proof -
  have inv: "winv s" by (rule wakeups.reach_inv [OF assms(1)])
  then have g: "native_inv (closed (eng s)) (draining s) g" using assms(2) by (auto simp: winv_def)
  then have o: "einv False g" "owner g" "awake (draining s) g" "is_open (abs_engine g) = (\<not> closed (eng s))"
    by (simp_all add: native_inv_def)
  then have "\<not> closed (eng s)" using assms(3) by (auto elim: owner_queue)
  with inv have "notify_enter (eng s) \<noteq> None" by (simp add: winv_def notify_enter_def)
  moreover have "notify_turn (eng s, futs s) \<noteq> None"
    using einv_drain [OF o(1,2), of batch_size] assms(2) by (auto simp: notify_turn_def)
  ultimately show ?thesis using o(3) assms(3) by (auto simp: awake_def)
qed

definition wake_start :: wake_sys where
  "wake_start = \<lparr>eng = wrapped_engine\<lparr>native := Some (queue_new 65536 4)\<rparr>, futs = (\<lambda>_. Waiting),
     fds = {3, 4}, draining = False\<rparr>"

text \<open>A completion that comes while the loop is not looking.\<close>

theorem no_lost_wakeup_witness:
  "\<exists>s g. wstep\<^sup>*\<^sup>* wake_start s \<and> native (eng s) = Some g \<and> pending (abs_engine g) \<noteq> [] \<and>
     \<not> draining s \<and> 0 < pipe_bytes g"
proof -
  let ?ops = "[New 7 1 5 True, Complete 7 True]"
  define g1 where "g1 = snd (the (estep (New 7 1 5 True) (queue_new 65536 4)))"
  define g2 where "g2 = snd (the (estep (Complete 7 True) g1))"
  have g1: "estep (New 7 1 5 True) (queue_new 65536 4) = Some ([], g1)"
    "legal (New 7 1 5 True) (queue_new 65536 4)" "legal (Complete 7 True) g1"
    by (simp_all add: g1_def engine_simps)
  have g2: "estep (Complete 7 True) g1 = Some ([], g2)"
    by (simp add: g2_def g1_def engine_simps)
  let ?s = "\<lambda>g. wake_start\<lparr>eng := (eng wake_start)\<lparr>native := Some g\<rparr>\<rparr>"
  have s1: "wstep wake_start (?s g1)"
    by (rule wstep.Entry [of "New 7 1 5 True"])
      (use g1 in \<open>auto simp: on_native_def wake_start_def\<close>)
  have s2: "wstep (?s g1) (?s g2)"
    by (rule wstep.Entry [of "Complete 7 True"])
      (use g1 g2 in \<open>auto simp: on_native_def wake_start_def\<close>)
  have run: "wstep\<^sup>*\<^sup>* wake_start (?s g2)" 
    by (rule rtranclp.rtrancl_into_rtrancl [OF r_into_rtranclp [of wstep, OF s1] s2])
  have "reach (\<lambda>s. (0::nat) < 65536 \<and> (0::int) \<le> 4 \<and> wake_init 65536 4 s) wstep wake_start"
    by (rule reach_init) (simp add: wake_init_def wake_start_def wrapped_engine_def)
  with run have r: "reach (\<lambda>s. (0::nat) < 65536 \<and> (0::int) \<le> 4 \<and> wake_init 65536 4 s) wstep (?s g2)"
    by (rule reach_steps)
  have "legal_run ?ops (queue_new 65536 4)" "list_all has_memory ?ops"
    using g1 g2 by (auto simp del: estep.simps legal.simps)
  from abs_runs [OF einv_new this] g1 g2 have
    "abs_engine g2 = snd (sruns ?ops (abs_engine (queue_new 65536 4)))"
    by (auto simp: eq_commute [of _ "sruns _ _"] simp del: estep.simps)
  then have p: "pending (abs_engine g2) \<noteq> []"
    by (simp add: abs_engine_def queue_new_def items_def)
  have "native (eng (?s g2)) = Some g2" "\<not> draining (?s g2)" by (simp_all add: wake_start_def)
  with no_lost_wakeup [OF r this(1) p] run p show ?thesis
    by (intro exI [of _ "?s g2"] exI [of _ g2]) simp
qed

section \<open>Closing releases everything\<close>

lemma close_engine_spec:
  assumes "native (eng s) = Some g" and "einv ll g" and "owner g" and "\<not> closed (eng s)"
  obtains g' where "einv ll g'" "owner g'"
    "close_engine True live s = Some (s\<lparr>
       eng := (eng s)\<lparr>closed := True, native := Some g', reading := reading (eng s) \<and> \<not> (0 \<le> read_fd (eng s) \<and> live),
         read_fd := - 1, pipe_fd := - 1, slot_tab := []\<rparr>,
       fds := close_fd (pipe_fd (eng s)) (close_fd (read_fd (eng s)) (fds s)),
       futs := cancel_all (slot_tab (eng s)) (futs s)\<rparr>)"
proof -
  from queue_close_spec [OF assms(2,3)] obtain g' where g': "queue_close g = Some g'" "owner g'"
    using assms(3) by (metis engine.select_convs(5) engine.simps(6,7) engine.update_convs(1,2) engine.surjective)
  moreover have "einv ll g'" using einv_close [OF assms(2,3)] g'(1) by auto
  ultimately show thesis
    using that [of g'] assms(1,4) by (simp add: close_engine_def close_native_def)
qed

text \<open>Closing an engine for good gives everything back, whatever happened before: both ends of
  the wake pipe are closed and no other descriptor, the native queue is freed without a memory
  fault, every future that still waits is cancelled and no other one is touched, no slot remains,
  and closing once more does nothing (so a descriptor number that the process has reused since is not
  closed by mistake).\<close>

theorem engine_del_releases:
  assumes "legal_run xs (queue_new p w)" and "eruns xs (queue_new p w) = Some (out, g)"
    and "native (eng s) = Some g" and "owner g" and "\<not> closed (eng s)"
    and "0 \<le> read_fd (eng s)" and "0 \<le> pipe_fd (eng s)"
  shows "\<exists>t. engine_del True live s = Some t \<and> fds t = fds s - {read_fd (eng s), pipe_fd (eng s)} \<and>
    native (eng t) = None \<and> slot_tab (eng t) = [] \<and> futs t = cancel_all (slot_tab (eng s)) (futs s) \<and>
    engine_del True live t = Some t"
proof -
  have inv: "einv False g" using einv_runs [OF einv_new assms(1), of False] assms(2) by auto
  obtain g' where g': "einv False g'" "owner g'"
    "close_engine True live s = Some (s\<lparr>
       eng := (eng s)\<lparr>closed := True, native := Some g', reading := reading (eng s) \<and> \<not> (0 \<le> read_fd (eng s) \<and> live),
         read_fd := - 1, pipe_fd := - 1, slot_tab := []\<rparr>,
       fds := close_fd (pipe_fd (eng s)) (close_fd (read_fd (eng s)) (fds s)),
       futs := cancel_all (slot_tab (eng s)) (futs s)\<rparr>)"
    using assms(3) inv assms(4,5) by (rule close_engine_spec)
  obtain g'' where "queue_free g' = Some g''" using einv_queue_free [OF g'(1,2)] by auto
  then show ?thesis
    using g'(3) assms(6,7)
    by (auto simp: engine_del_def close_engine_def close_fd_def)
qed

definition busy_engine :: engine_sys where
  "busy_engine = \<lparr>eng = wrapped_engine\<lparr>slot_tab := [(5, 50), (6, 60)],
     native := map_option snd (eruns two_done (queue_new 65536 4))\<rparr>,
     futs = (\<lambda>f. if f = 50 then Resolved else Waiting), fds = {0, 1, 2, 3, 4}\<rparr>"

theorem engine_del_releases_witness:
  "\<exists>t. engine_del True False busy_engine = Some t \<and> fds t = {0, 1, 2} \<and> futs t 60 = CancelledFut \<and>
     futs t 50 = Resolved"
proof -
  obtain g where g: "eruns two_done (queue_new 65536 4) = Some ([], g)" "owner g"
    by (simp add: two_done_def engine_simps)
  have l: "legal_run two_done (queue_new 65536 4)" by (simp add: two_done_def engine_simps)
  have e: "native (eng busy_engine) = Some g" "\<not> closed (eng busy_engine)"
    "read_fd (eng busy_engine) = 3" "pipe_fd (eng busy_engine) = 4"
    by (simp_all add: busy_engine_def wrapped_engine_def g(1))
  from engine_del_releases [OF l g(1) e(1) g(2) e(2), of False] obtain t where
    t: "engine_del True False busy_engine = Some t" "fds t = fds busy_engine - {3, 4}"
    "futs t = cancel_all (slot_tab (eng busy_engine)) (futs busy_engine)"
    by (auto simp: e)
  have "fds busy_engine - {3, 4} = {0, 1, 2}" by (auto simp: busy_engine_def)
  moreover have "futs t 60 = CancelledFut" "futs t 50 = Resolved"
    by (simp_all add: t(3) cancel_all_def busy_engine_def)
  ultimately show ?thesis using t(1,2) by auto
qed

text \<open>
  A constructor that fails after \<open>add_reader\<close> has refused leaves nothing behind; one that fails
  while the descriptors are made non-blocking leaves both of them open, because the attributes that
  \<open>close\<close> looks at are not set yet.
\<close>

lemma engine_init_fails:
  assumes "0 \<le> r" and "0 \<le> w" and "r \<notin> open_fds" and "w \<notin> open_fds"
  shows "\<exists>s. engine_init loop lib (r, w) p True (Some (At_add_reader x)) fu open_fds = Some (Inl x, s) \<and>
      fds s = open_fds \<and> native (eng s) = None"
    "\<exists>s. engine_init loop lib (r, w) p m (Some (At_set_blocking x)) fu open_fds = Some (Inl x, s) \<and>
      fds s = open_fds \<union> {r, w}"
  using assms
  by (auto simp: engine_init_def engine_del_def close_engine_def close_native_def close_fd_def
      engine_simps Let_def)

section \<open>One engine per event loop and library\<close>

text \<open>
  The class attribute \<open>_loop_engines\<close>: for each loop the engines by library. The engines of the
  process are numbered, and share the futures and the descriptors.
\<close>

record engine_proc =
  made :: nat
  engine_at :: "nat \<Rightarrow> loop_engine"
  loop_engines :: "(nat \<times> (nat \<times> nat) list) list"
  p_futs :: futures
  p_fds :: "int set"

definition on_engine :: "nat \<Rightarrow> (engine_sys \<Rightarrow> engine_sys option) \<Rightarrow> engine_proc \<Rightarrow> engine_proc option" where
  "on_engine i f s = map_option
     (\<lambda>u. s\<lparr>engine_at := (engine_at s)(i := eng u), p_futs := futs u, p_fds := fds u\<rparr>)
     (f \<lparr>eng = engine_at s i, futs = p_futs s, fds = p_fds s\<rparr>)"

fun close_ids :: "nat list \<Rightarrow> engine_proc \<Rightarrow> engine_proc option" where
  "close_ids [] s = Some s"
| "close_ids (i # is) s =
     (case on_engine i (close_engine True False) s of None \<Rightarrow> None | Some t \<Rightarrow> close_ids is t)"

fun close_stale :: "(nat \<Rightarrow> bool) \<Rightarrow> (nat \<times> (nat \<times> nat) list) list \<Rightarrow> engine_proc \<Rightarrow> engine_proc option"
where
  "close_stale is_closed [] s = Some s"
| "close_stale is_closed ((l, by_lib) # xs) s =
     (if is_closed l then
        (case close_ids (map snd by_lib) s of None \<Rightarrow> None
         | Some t \<Rightarrow> close_stale is_closed xs (t\<lparr>loop_engines := AList.delete l (loop_engines t)\<rparr>))
      else close_stale is_closed xs s)"

text \<open>The exceptions that make the caller fall back to the helper without an engine.\<close>

definition no_engine :: "pyexc \<Rightarrow> bool" where
  "no_engine x \<longleftrightarrow> x \<in> {AttributeError, NotImplementedError, OSError, RuntimeError}"

definition make_engine ::
  "nat \<Rightarrow> nat \<Rightarrow> (nat \<times> nat) list \<Rightarrow> int \<times> int \<Rightarrow> nat \<Rightarrow> bool \<Rightarrow> init_fault option
     \<Rightarrow> engine_proc \<Rightarrow> ((pyexc + nat option) \<times> engine_proc) option" where
  "make_engine l lib by_lib rw pmax malloc_ok fault s =
     (case engine_init l lib rw pmax malloc_ok fault (p_futs s) (p_fds s) of None \<Rightarrow> None
      | Some (r, u) \<Rightarrow>
          (let i = made s;
               t = s\<lparr>made := i + 1, engine_at := (engine_at s)(i := eng u), p_futs := futs u,
                     p_fds := fds u\<rparr>
           in case r of
               Inr _ \<Rightarrow> Some (Inr (Some i),
                 t\<lparr>loop_engines := AList.update l (AList.update lib i by_lib) (loop_engines t)\<rparr>)
             | Inl x \<Rightarrow> Some (if no_engine x then Inr None else Inl x, t)))"

definition get_for_loop ::
  "(nat \<Rightarrow> bool) \<Rightarrow> bool \<Rightarrow> nat option \<Rightarrow> nat \<Rightarrow> int \<times> int \<Rightarrow> nat \<Rightarrow> bool \<Rightarrow> init_fault option
     \<Rightarrow> engine_proc \<Rightarrow> ((pyexc + nat option) \<times> engine_proc) option" where
  "get_for_loop is_closed has_reader loop lib rw pmax malloc_ok fault s =
     (case loop of None \<Rightarrow> Some (Inr None, s)
      | Some l \<Rightarrow>
        if is_closed l \<or> \<not> has_reader then Some (Inr None, s)
        else case close_stale is_closed (loop_engines s) s of None \<Rightarrow> None
          | Some t \<Rightarrow>
            (let by_lib = (case map_of (loop_engines t) l of None \<Rightarrow> [] | Some d \<Rightarrow> d);
                 t = t\<lparr>loop_engines := AList.update l by_lib (loop_engines t)\<rparr>
             in case map_of by_lib lib of
                 Some i \<Rightarrow>
                   if \<not> closed (engine_at t i) then Some (Inr (Some i), t)
                   else make_engine l lib by_lib rw pmax malloc_ok fault t
               | None \<Rightarrow> make_engine l lib by_lib rw pmax malloc_ok fault t))"

text \<open>What can happen to the engines of a process.\<close>

inductive pstep :: "engine_proc \<Rightarrow> engine_proc \<Rightarrow> bool" where
  Get: "get_for_loop is_closed has_reader loop lib rw pmax m fault s = Some (r, t) \<Longrightarrow> pstep s t"
| CloseOne: "i < made s \<Longrightarrow> on_engine i (close_engine True live) s = Some t \<Longrightarrow> pstep s t"
| Delete: "i < made s \<Longrightarrow> on_engine i (engine_del True live) s = Some t \<Longrightarrow> pstep s t"
| NativeOp: "i < made s \<Longrightarrow> native (engine_at s i) = Some g \<Longrightarrow> legal x g \<Longrightarrow> x \<noteq> FreeQueue \<Longrightarrow>
    estep x g = Some (out, g') \<Longrightarrow>
    pstep s (s\<lparr>engine_at := (engine_at s)(i := (engine_at s i)\<lparr>native := Some g'\<rparr>)\<rparr>)"

definition proc_start :: "engine_proc \<Rightarrow> bool" where
  "proc_start s \<longleftrightarrow> made s = 0 \<and> loop_engines s = []"

definition registered :: "(nat \<times> (nat \<times> nat) list) list \<Rightarrow> nat \<Rightarrow> nat \<Rightarrow> nat option" where
  "registered reg l lib = (case map_of reg l of None \<Rightarrow> None | Some d \<Rightarrow> map_of d lib)"

text \<open>Every open engine is the registered one of its loop and library.\<close>

definition reg_ok :: "nat \<Rightarrow> (nat \<Rightarrow> loop_engine) \<Rightarrow> (nat \<times> (nat \<times> nat) list) list \<Rightarrow> bool" where
  "reg_ok n at reg \<longleftrightarrow> dict_ok reg \<and>
     (\<forall>i<n. \<not> closed (at i) \<longrightarrow> registered reg (loop_id (at i)) (lib_key (at i)) = Some i) \<and>
     (\<forall>l d lib i. map_of reg l = Some d \<longrightarrow> (lib, i) \<in> set d \<longrightarrow>
        i < n \<and> loop_id (at i) = l \<and> lib_key (at i) = lib)"

lemma reg_okD: "reg_ok n at reg \<Longrightarrow> i < n \<Longrightarrow> \<not> closed (at i) \<Longrightarrow>
   registered reg (loop_id (at i)) (lib_key (at i)) = Some i"
  unfolding reg_ok_def by blast

definition same_place :: "loop_engine \<Rightarrow> loop_engine \<Rightarrow> bool" where
  "same_place e e' \<longleftrightarrow> loop_id e' = loop_id e \<and> lib_key e' = lib_key e \<and> (closed e \<longrightarrow> closed e')"

lemma reg_ok_upd: "reg_ok n at reg \<Longrightarrow> same_place (at i) e \<Longrightarrow> reg_ok n (at(i := e)) reg"
  unfolding reg_ok_def same_place_def by auto

lemma close_same_place:
  assumes "close_engine h live s = Some t"
  shows "same_place (eng s) (eng t)" "closed (eng t)"
  using assms by (auto simp: close_engine_def close_native_def same_place_def split: option.splits if_splits)

lemma del_same_place:
  assumes "engine_del h live s = Some t"
  shows "same_place (eng s) (eng t)" "closed (eng t)"
  using assms close_same_place
  by (auto simp: engine_del_def same_place_def split: option.splits)

definition rinv :: "engine_proc \<Rightarrow> bool" where
  "rinv s \<longleftrightarrow> reg_ok (made s) (engine_at s) (loop_engines s)"

lemma on_engine_rinv:
  assumes "rinv s" and "on_engine i f s = Some t"
    and "\<And>u v. f u = Some v \<Longrightarrow> same_place (eng u) (eng v)"
  shows "rinv t" "loop_engines t = loop_engines s" "made t = made s"
    "\<And>j. j \<noteq> i \<Longrightarrow> engine_at t j = engine_at s j" "same_place (engine_at s i) (engine_at t i)"
proof -
  obtain u where u: "f \<lparr>eng = engine_at s i, futs = p_futs s, fds = p_fds s\<rparr> = Some u"
    "t = s\<lparr>engine_at := (engine_at s)(i := eng u), p_futs := futs u, p_fds := fds u\<rparr>"
    using assms(2) by (auto simp: on_engine_def)
  have "same_place (engine_at s i) (eng u)" using assms(3) [OF u(1)] by simp
  with assms(1) u(2) show "rinv t" "loop_engines t = loop_engines s" "made t = made s"
    "\<And>j. j \<noteq> i \<Longrightarrow> engine_at t j = engine_at s j" "same_place (engine_at s i) (engine_at t i)"
    by (auto simp: rinv_def intro: reg_ok_upd)
qed

lemma on_engine_closed:
  "on_engine i (close_engine h live) s = Some t \<Longrightarrow> closed (engine_at t i)"
  by (auto simp: on_engine_def dest: close_same_place(2))

lemma close_ids_rinv:
  "rinv s \<Longrightarrow> close_ids is s = Some t \<Longrightarrow> rinv t \<and> loop_engines t = loop_engines s \<and> made t = made s \<and>
     (\<forall>j. same_place (engine_at s j) (engine_at t j)) \<and> (\<forall>j\<in>set is. closed (engine_at t j))"
proof (induction "is" arbitrary: s)
  case (Cons i "is")
  from Cons.prems(2) obtain u where u: "on_engine i (close_engine True False) s = Some u"
    "close_ids is u = Some t" by (auto split: option.splits)
  note o = on_engine_rinv [OF Cons.prems(1) u(1) close_same_place(1)]
  have sp: "same_place (engine_at s j) (engine_at u j)" for j
    using o(4,5) by (cases "j = i") (simp_all add: same_place_def)
  from Cons.IH [OF o(1) u(2)] on_engine_closed [OF u(1)] o(2,3) sp show ?case
    unfolding same_place_def by auto
qed (simp add: same_place_def)

lemma reg_ok_delete:
  assumes "reg_ok n at reg" and "\<And>i. i < n \<Longrightarrow> loop_id (at i) = l \<Longrightarrow> closed (at i)"
  shows "reg_ok n at (AList.delete l reg)"
  using assms unfolding reg_ok_def registered_def
  by (auto simp: dict_simps split: option.splits)

lemma registered_in: "registered reg l lib = Some i \<Longrightarrow> map_of reg l = Some d \<Longrightarrow> (lib, i) \<in> set d"
  by (auto simp: registered_def dest!: map_of_SomeD)

lemma close_stale_rinv:
  assumes "rinv s" and "close_stale isc xs s = Some t" and "distinct (map fst xs)"
    and "\<And>l d. (l, d) \<in> set xs \<Longrightarrow> map_of (loop_engines s) l = Some d"
  shows "rinv t \<and> made t = made s \<and> (\<forall>l. \<not> isc l \<longrightarrow> map_of (loop_engines t) l = map_of (loop_engines s) l)
    \<and> (\<forall>l. isc l \<longrightarrow> l \<in> fst ` set xs \<longrightarrow> map_of (loop_engines t) l = None)
    \<and> (\<forall>l. map_of (loop_engines s) l = None \<longrightarrow> map_of (loop_engines t) l = None)
    \<and> (\<forall>j. same_place (engine_at s j) (engine_at t j))"
  using assms
proof (induction xs arbitrary: s)
  case (Cons x xs)
  obtain l d where x: "x = (l, d)" by (cases x)
  have md: "map_of (loop_engines s) l = Some d" using Cons.prems(4) x by simp
  show ?case
  proof (cases "isc l")
    case False
    have "close_stale isc xs s = Some t" using Cons.prems(2) x False by simp
    from Cons.IH [OF Cons.prems(1) this] Cons.prems(3,4) x False show ?thesis by auto
  next
    case True
    from Cons.prems(2) x True obtain u where u: "close_ids (map snd d) s = Some u"
      "close_stale isc xs (u\<lparr>loop_engines := AList.delete l (loop_engines u)\<rparr>) = Some t"
      by (auto split: option.splits)
    note c = close_ids_rinv [OF Cons.prems(1) u(1)]
    let ?u = "u\<lparr>loop_engines := AList.delete l (loop_engines u)\<rparr>"
    have "closed (engine_at u i)" if "i < made u" "loop_id (engine_at u i) = l" for i
    proof (rule ccontr)
      assume "\<not> closed (engine_at u i)"
      then have "registered (loop_engines u) l (lib_key (engine_at u i)) = Some i"
        using c that by (auto simp: rinv_def reg_ok_def)
      then have "(lib_key (engine_at u i), i) \<in> set d" using md c by (intro registered_in) auto
      then have "i \<in> set (map snd d)" by force
      with c \<open>\<not> closed (engine_at u i)\<close> show False by auto
    qed
    then have r: "rinv ?u" using c by (auto simp: rinv_def intro: reg_ok_delete)
    have "map_of (loop_engines ?u) l' = Some d'" if "(l', d') \<in> set xs" for l' d'
    proof -
      have "l' \<noteq> l" using that Cons.prems(3) x by force
      then show ?thesis using that Cons.prems(4) c by (simp add: dict_simps)
    qed
    from Cons.IH [OF r u(2) _ this] Cons.prems(3) x c True show ?thesis
      by (auto simp: dict_simps same_place_def)
  qed
qed (simp add: same_place_def)

lemma engine_init_place:
  assumes "engine_init l lib rw p m fault fu fds0 = Some (r, u)"
  shows "loop_id (eng u) = l \<and> lib_key (eng u) = lib \<and> (r \<noteq> Inr () \<longrightarrow> closed (eng u)) \<and>
    (r = Inr () \<longrightarrow> \<not> closed (eng u))"
proof (cases fault)
  case None
  with assms show ?thesis by (auto simp: engine_init_def Let_def split: prod.splits)
next
  case (Some f)
  with assms obtain s x where d: "engine_del True True s = Some u" "r = Inl x"
    "loop_id (eng s) = l" "lib_key (eng s) = lib"
    by (cases f) (auto simp: engine_init_def Let_def split: prod.splits)
  with del_same_place [OF d(1)] show ?thesis by (simp add: same_place_def)
qed

lemma make_engine_rinv:
  assumes "rinv s" and "map_of (loop_engines s) l = Some d"
    and "make_engine l lib d rw p m fault s = Some (r, t)"
    and "\<And>i. map_of d lib = Some i \<Longrightarrow> closed (engine_at s i)"
  shows "rinv t \<and> (\<forall>i. r = Inr (Some i) \<longrightarrow> \<not> closed (engine_at t i) \<and> loop_id (engine_at t i) = l
    \<and> lib_key (engine_at t i) = lib)"
proof -
  from assms(3) obtain ri u where u: "engine_init l lib rw p m fault (p_futs s) (p_fds s) = Some (ri, u)"
    by (auto simp: make_engine_def split: option.splits)
  have pl: "loop_id (eng u) = l" "lib_key (eng u) = lib" "ri \<noteq> Inr () \<Longrightarrow> closed (eng u)"
    "ri = Inr () \<Longrightarrow> \<not> closed (eng u)" using engine_init_place [OF u] by auto
  have reg: "reg_ok (made s) (engine_at s) (loop_engines s)" using assms(1) by (simp add: rinv_def)
  have old: "reg_ok (made s) ((engine_at s)(made s := eng u)) (loop_engines s)"
    using reg unfolding reg_ok_def by (auto simp: less_imp_neq)
  show ?thesis
  proof (cases ri)
    case (Inl x)
    with pl(3) have "closed (eng u)" by simp
    with old have "reg_ok (Suc (made s)) ((engine_at s)(made s := eng u)) (loop_engines s)"
      unfolding reg_ok_def by (auto simp: less_Suc_eq)
    with assms(3) u Inl show ?thesis by (auto simp: make_engine_def rinv_def Let_def split: if_splits)
  next
    case (Inr un)
    then have nc: "\<not> closed (eng u)" using pl(4) by simp
    let ?at = "(engine_at s)(made s := eng u)"
    let ?reg = "AList.update l (AList.update lib (made s) d) (loop_engines s)"
    have look: "registered ?reg l' lib' = (if l' = l \<and> lib' = lib then Some (made s)
        else registered (loop_engines s) l' lib')" for l' lib'
      using assms(2) by (simp add: registered_def dict_simps)
    have "reg_ok (Suc (made s)) ?at ?reg"
      unfolding reg_ok_def
    proof (intro conjI allI impI)
      show "dict_ok ?reg" using reg by (simp add: reg_ok_def)
    next
      fix i assume i: "i < Suc (made s)" "\<not> closed (?at i)"
      show "registered ?reg (loop_id (?at i)) (lib_key (?at i)) = Some i"
      proof (cases "i = made s")
        case True
        then show ?thesis using pl(1,2) by (simp add: look)
      next
        case False
        with i reg have ri: "registered (loop_engines s) (loop_id (engine_at s i)) (lib_key (engine_at s i)) = Some i"
          by (auto simp: reg_ok_def)
        have "\<not> (loop_id (engine_at s i) = l \<and> lib_key (engine_at s i) = lib)"
          using ri assms(2,4) i(2) False by (auto simp: registered_def)
        with ri False show ?thesis by (simp add: look)
      qed
    next
      fix l' d' k i assume a: "map_of ?reg l' = Some d'" "(k, i) \<in> set d'"
      have old_in: "i < made s \<and> loop_id (engine_at s i) = l'' \<and> lib_key (engine_at s i) = k"
        if "map_of (loop_engines s) l'' = Some d''" "(k, i) \<in> set d''" for l'' d''
        using reg that by (auto simp: reg_ok_def)
      have "i = made s \<and> l' = l \<and> k = lib \<or>
          i < made s \<and> loop_id (engine_at s i) = l' \<and> lib_key (engine_at s i) = k"
      proof (cases "l' = l")
        case True
        with a have "(k, i) \<in> set (AList.update lib (made s) d)" by (simp add: dict_simps)
        then have "(k, i) = (lib, made s) \<or> (k, i) \<in> set d"
          by (induction d) (auto split: if_splits)
        then show ?thesis using old_in [OF assms(2)] True by blast
      next
        case False
        with a have "map_of (loop_engines s) l' = Some d'" by (simp add: dict_simps)
        then show ?thesis using old_in a(2) by blast
      qed
      then show "i < Suc (made s)" "loop_id (?at i) = l'" "lib_key (?at i) = k" using pl(1,2) by auto
    qed
    with assms(3) u Inr nc pl(1,2) show ?thesis by (auto simp: make_engine_def rinv_def Let_def)
  qed
qed

lemma get_for_loop_rinv:
  assumes "rinv s" and "get_for_loop isc has_reader loop lib rw p m fault s = Some (r, t)"
  shows "rinv t \<and> (\<forall>i. r = Inr (Some i) \<longrightarrow> \<not> closed (engine_at t i) \<and>
    loop = Some (loop_id (engine_at t i)) \<and> lib_key (engine_at t i) = lib)"
proof (cases "\<forall>l. loop = Some l \<longrightarrow> isc l \<or> \<not> has_reader")
  case True
  with assms show ?thesis by (cases loop) (auto simp: get_for_loop_def)
next
  case False
  then obtain l where l: "loop = Some l" "\<not> isc l" "has_reader" by auto
  with assms(2) obtain t1 where t1: "close_stale isc (loop_engines s) s = Some t1"
    by (auto simp: get_for_loop_def split: option.splits)
  have dk: "dict_ok (loop_engines s)" using assms(1) by (simp add: rinv_def reg_ok_def)
  then have c: "rinv t1"
    using close_stale_rinv [OF assms(1) t1] by (auto simp: dict_ok_def)
  define d where "d = (case map_of (loop_engines t1) l of None \<Rightarrow> [] | Some d \<Rightarrow> d)"
  let ?t = "t1\<lparr>loop_engines := AList.update l d (loop_engines t1)\<rparr>"
  have reg: "registered (AList.update l d (loop_engines t1)) = registered (loop_engines t1)"
    by (auto simp: registered_def d_def dict_simps fun_eq_iff split: option.split)
  have in_d: "map_of (AList.update l d (loop_engines t1)) l' = Some d' \<Longrightarrow> x \<in> set d' \<Longrightarrow>
      map_of (loop_engines t1) l' = Some d'" for l' d' x
    by (auto simp: d_def dict_simps split: if_splits option.splits)
  have rt: "rinv ?t"
    using c unfolding rinv_def reg_ok_def
    by (simp add: reg) (use in_d in blast)
  have md: "map_of (loop_engines ?t) l = Some d" by (simp add: dict_simps)
  show ?thesis
  proof (cases "\<exists>i. map_of d lib = Some i \<and> \<not> closed (engine_at t1 i)")
    case True
    then obtain i where i: "map_of d lib = Some i" "\<not> closed (engine_at t1 i)" by blast
    then have "r = Inr (Some i)" "t = ?t"
      using assms(2) l t1 by (auto simp: get_for_loop_def d_def [symmetric] Let_def)
    moreover have "loop_id (engine_at ?t i) = l" "lib_key (engine_at ?t i) = lib"
      using rt md map_of_SomeD [OF i(1)] unfolding rinv_def reg_ok_def by blast+
    ultimately show ?thesis using rt i(2) l by auto
  next
    case False
    then have "make_engine l lib d rw p m fault ?t = Some (r, t)"
      using assms(2) l t1
      by (auto simp: get_for_loop_def d_def [symmetric] Let_def split: option.splits)
    from make_engine_rinv [OF rt md this] False l show ?thesis by auto
  qed
qed

lemma rinv_step:
  assumes "rinv s" and "pstep s t"
  shows "rinv t"
  using assms(2)
proof cases
  case (Get isc hr loop lib rw p m fault r)
  with get_for_loop_rinv [OF assms(1) Get] show ?thesis by simp
next
  case (CloseOne i live)
  from on_engine_rinv(1) [OF assms(1) CloseOne(2) close_same_place(1)] show ?thesis .
next
  case (Delete i live)
  from on_engine_rinv(1) [OF assms(1) Delete(2) del_same_place(1)] show ?thesis .
next
  case (NativeOp i g x out g')
  with assms(1) show ?thesis by (auto simp: rinv_def same_place_def intro!: reg_ok_upd)
qed

lemma rinv_start: "proc_start s \<Longrightarrow> rinv s"
  by (simp add: proc_start_def rinv_def reg_ok_def)

interpretation registry: step_invariant proc_start pstep rinv
  by unfold_locales (rule rinv_start rinv_step; assumption)+

text \<open>C22. One engine per event loop and library. However often \<open>get_for_loop\<close> is called, for
  loops that come, go and close, with constructors that fail, and however engines are closed in
  between, two engines that are both open never serve the same loop and library, so a completion is
  never waited for in one queue and delivered in another.\<close>

theorem one_engine_per_loop:
  assumes "reach proc_start pstep s"
    and "i < made s" and "j < made s" and "\<not> closed (engine_at s i)" and "\<not> closed (engine_at s j)"
    and "loop_id (engine_at s i) = loop_id (engine_at s j)"
    and "lib_key (engine_at s i) = lib_key (engine_at s j)"
  shows "i = j"
proof -
  have "reg_ok (made s) (engine_at s) (loop_engines s)"
    using registry.reach_inv [OF assms(1)] unfolding rinv_def .
  from reg_okD [OF this assms(2,4)] reg_okD [OF this assms(3,5)] show ?thesis
    unfolding assms(6,7) by simp
qed

definition proc0 :: engine_proc where
  "proc0 = \<lparr>made = 0, engine_at = (\<lambda>_. wrapped_engine), loop_engines = [], p_futs = (\<lambda>_. Waiting),
            p_fds = {0, 1, 2}\<rparr>"

definition get0 :: "nat \<Rightarrow> int \<Rightarrow> engine_proc \<Rightarrow> engine_proc" where
  "get0 l r s = snd (the (get_for_loop (\<lambda>_. False) True (Some l) 9 (r, r + 1) 65536 True None s))"

text \<open>The same loop again gets the engine it has; another loop gets one of its own.\<close>

theorem one_engine_per_loop_witness:
  "\<exists>s. reach proc_start pstep s \<and> made s = 2 \<and>
     (\<forall>i<made s. i = 1 \<or> loop_id (engine_at s i) \<noteq> loop_id (engine_at s 1))"
proof -
  let ?s = "get0 6 5 (get0 7 8 (get0 7 3 proc0))"
  note run = get0_def get_for_loop_def proc0_def make_engine_def engine_init_def Let_def
  have "get_for_loop (\<lambda>_. False) True (Some 7) 9 (3, 4) 65536 True None proc0 =
      Some (Inr (Some 0), get0 7 3 proc0)" by (simp add: run)
  then have p1: "pstep proc0 (get0 7 3 proc0)" by (rule pstep.Get)
  have "get_for_loop (\<lambda>_. False) True (Some 7) 9 (8, 9) 65536 True None (get0 7 3 proc0) =
      Some (Inr (Some 0), get0 7 8 (get0 7 3 proc0))" by (simp add: run)
  then have p2: "pstep (get0 7 3 proc0) (get0 7 8 (get0 7 3 proc0))" by (rule pstep.Get)
  have "get_for_loop (\<lambda>_. False) True (Some 6) 9 (5, 6) 65536 True None
      (get0 7 8 (get0 7 3 proc0)) = Some (Inr (Some 1), ?s)" by (simp add: run)
  then have p3: "pstep (get0 7 8 (get0 7 3 proc0)) ?s" by (rule pstep.Get)
  have r0: "reach proc_start pstep proc0"
    by (rule reach_init) (simp add: proc_start_def proc0_def)
  have "reach proc_start pstep (get0 7 3 proc0)" using r0 p1 by (rule reach_step)
  then have "reach proc_start pstep (get0 7 8 (get0 7 3 proc0))" using p2 by (rule reach_step)
  then have r: "reach proc_start pstep ?s" using p3 by (rule reach_step)
  have m: "made ?s = 2" by (simp add: run)
  have c: "\<not> closed (engine_at ?s 0)" "\<not> closed (engine_at ?s 1)" "lib_key (engine_at ?s 0) = 9"
    "lib_key (engine_at ?s 1) = 9" by (simp_all add: run)
  have "i = 1 \<or> loop_id (engine_at ?s i) \<noteq> loop_id (engine_at ?s 1)" if "i < made ?s" for i
  proof -
    have "i = 0 \<or> i = 1" using that m by auto
    then show ?thesis using one_engine_per_loop [OF r that, of 1] c m by auto
  qed
  with r m show ?thesis by blast
qed

end
