(* ===== verification/AsyncIO.thy ===== *)
theory AsyncIO
  imports SyncIO LoopEngine
begin

text \<open>
  \<open>AIOHelper\<close> of \<^verbatim>\<open>_aio.py\<close>: asynchronous sending and receiving on one socket or
  context, for asyncio (through the engine of theory \<open>LoopEngine\<close>, or without it) and for trio.
  A coroutine gives up control only where it waits for nng, and the wait is a call of the library
  argument, \<open>Await_shield\<close>: what it raises there is what the event loop throws into the
  coroutine. A wait may go on for ever, so it runs on fuel, the number of times it is woken; the
  result \<open>None\<close> is a coroutine that still waits.
\<close>

section \<open>State\<close>

datatype backend = Asyncio | Trio

record aio_helper =
  h_aio :: "int option"
  h_engine :: bool
  h_entry :: "int option"
  h_slot :: "nat option"
  h_fut :: "nat option"
  h_sending :: bool
  h_cb :: "nat option"
  h_awaitable :: "backend option"
  h_obj :: int
  h_recv :: recv_fn
  h_send :: send_fn

text \<open>
  The world of one helper: the helper, the engine of its event loop (with the futures), whether
  \<open>engine._loop\<close> is there and not closed, the keys of \<open>_aio_map\<close>, and the next numbers
  for futures and callbacks.
\<close>

record aworld = mworld +
  helper :: aio_helper
  esys :: engine_sys
  loop_open :: bool
  aio_map :: "nat list"
  next_fut :: nat

definition upd_helper :: "(aio_helper \<Rightarrow> aio_helper) \<Rightarrow> ('a aworld_scheme, pyexc, unit) prog" where
  "upd_helper f = modf (\<lambda>w. w\<lparr>helper := f (helper w)\<rparr>)"

definition get_helper :: "(aio_helper \<Rightarrow> 'b) \<Rightarrow> ('a aworld_scheme, pyexc, 'b) prog" where
  "get_helper f = getf (\<lambda>w. f (helper w))"

text \<open>A field as a C argument: cffi refuses \<open>None\<close> with a \<open>TypeError\<close>.\<close>

definition ptr_of :: "int option \<Rightarrow> ('s, pyexc, int) prog" where
  "ptr_of x = (case x of None \<Rightarrow> raise_exc TypeError | Some p \<Rightarrow> ret p)"

definition helper_aio :: "('a aworld_scheme, pyexc, int) prog" where
  "helper_aio = bnd (get_helper h_aio) ptr_of"

definition entry_set_slot :: "nng_lib \<Rightarrow> int \<Rightarrow> nat \<Rightarrow> ('a aworld_scheme, pyexc, unit) prog" where
  "entry_set_slot L e slot =
     bnd (ccall L (Fn ''pynng_aio_entry_set_slot_id'' [CInt e, CInt (int slot)])) (\<lambda>_. ret ())"

section \<open>Slots of the engine\<close>

text \<open>\<open>loop.create_future\<close> and \<open>engine.register\<close>; its search ends (\<open>register_fresh\<close>).\<close>

definition new_slot :: "('a aworld_scheme, pyexc, nat \<times> nat) prog" where
  "new_slot = bnd (getf (\<lambda>w. (next_fut w, eng (esys w)))) (\<lambda>(f, e).
     let (s, e') = the (register (Suc (length (slot_tab e))) f e) in
     andthen (modf (\<lambda>w. w\<lparr>next_fut := Suc f, esys := (esys w)\<lparr>eng := e'\<rparr>\<rparr>)) (ret (s, f)))"

definition drop_slot :: "('a aworld_scheme, pyexc, unit) prog" where
  "drop_slot = bnd (get_helper h_slot) (\<lambda>s. case s of None \<Rightarrow> ret ()
     | Some i \<Rightarrow> andthen (modf (\<lambda>w. w\<lparr>esys := (esys w)\<lparr>eng := unregister i (eng (esys w))\<rparr>\<rparr>))
         (upd_helper (h_slot_update (\<lambda>_. None))))"

definition prepare_aio :: "nng_lib \<Rightarrow> ('a aworld_scheme, pyexc, unit) prog" where
  "prepare_aio L = bnd (get_helper h_engine) (\<lambda>e. whenp e
     (bnd (getf loop_open) (\<lambda>o'. if \<not> o' then raise_exc RuntimeError else
      bnd new_slot (\<lambda>(s, f).
      andthen (upd_helper (\<lambda>h. h\<lparr>h_slot := Some s, h_fut := Some f\<rparr>))
      (bnd (get_helper h_entry) (\<lambda>en. bnd (ptr_of en) (\<lambda>e. entry_set_slot L e s)))))))"

definition release_slot :: "nng_lib \<Rightarrow> ('a aworld_scheme, pyexc, unit) prog" where
  "release_slot L = andthen drop_slot
     (andthen (upd_helper (h_fut_update (\<lambda>_. None)))
        (bnd (get_helper h_entry) (\<lambda>en. case en of None \<Rightarrow> ret () | Some e \<Rightarrow> entry_set_slot L e 0)))"

definition cleanup_prepared_aio :: "nng_lib \<Rightarrow> ('a aworld_scheme, pyexc, unit) prog" where
  "cleanup_prepared_aio L = bnd (get_helper h_engine) (\<lambda>e. whenp e (release_slot L))"

section \<open>Waiting\<close>

text \<open>
  \<open>await asyncio.shield(fut)\<close> in a loop: a cancellation cancels the nng operation, once, and
  the wait goes on until the operation has finished. The result is whether it was cancelled.
\<close>

fun shield_loop :: "nng_lib \<Rightarrow> nat \<Rightarrow> int \<Rightarrow> bool \<Rightarrow> ('a world_scheme, pyexc, bool option) prog" where
  "shield_loop L 0 a c = ret None"
| "shield_loop L (Suc n) a c =
     bnd (try_except (bnd (ccall L (A (Await_shield a))) (\<lambda>_. ret True))
           (\<lambda>e. if e = CancelledError then ret False else raise_exc e))
       (\<lambda>done. if done then ret (Some c)
          else andthen (whenp (\<not> c) (bnd (ccall L (A (Aio_cancel a))) (\<lambda>_. ret ())))
            (shield_loop L n a True))"

text \<open>The result of the operation: a cancellation that arrived, or one that nng reports, wins.\<close>

definition wait_result :: "nng_lib \<Rightarrow> int \<Rightarrow> bool \<Rightarrow> ('a world_scheme, pyexc, unit option) prog" where
  "wait_result L a cancelled =
     bnd (ccall L (A (Aio_result a))) (\<lambda>r.
     if cancelled \<or> r_val r = err L ECANCELED then raise_exc CancelledError
     else andthen (check_err L (r_val r)) (ret (Some ())))"

text \<open>The coroutine of \<open>asyncio_helper\<close>.\<close>

definition asyncio_wait :: "nng_lib \<Rightarrow> nat \<Rightarrow> int \<Rightarrow> ('a world_scheme, pyexc, unit option) prog" where
  "asyncio_wait L n a = bnd_some (shield_loop L n a False) (wait_result L a)"

text \<open>
  The coroutine of \<open>trio_helper\<close>: trio may call \<open>abort_fn\<close> once while the task sleeps;
  \<open>Fn ''abort_requested''\<close> is whether it did. \<open>raise_cancel_fn\<close> is \<open>None\<close> if it
  did not, and then calling it is a \<open>TypeError\<close>.
\<close>

definition trio_wait :: "nng_lib \<Rightarrow> int \<Rightarrow> ('a world_scheme, pyexc, unit option) prog" where
  "trio_wait L a =
     bnd (ccall L (Fn ''abort_requested'' [CInt a])) (\<lambda>q.
     let aborted = r_val q \<noteq> 0 in
     andthen (whenp aborted (bnd (ccall L (A (Aio_cancel a))) (\<lambda>_. ret ())))
       (bnd (ccall L (A (Await_shield a))) (\<lambda>_.
        bnd (ccall L (A (Aio_result a))) (\<lambda>r.
        if r_val r = err L ECANCELED then raise_exc (if aborted then CancelledError else TypeError)
        else andthen (check_err L (r_val r)) (ret (Some ()))))))"

definition wait_for_aio :: "nng_lib \<Rightarrow> nat \<Rightarrow> ('a aworld_scheme, pyexc, unit option) prog" where
  "wait_for_aio L n =
     bnd (get_helper (\<lambda>h. (h_engine h, h_awaitable h))) (\<lambda>(e, aw).
     bnd helper_aio (\<lambda>a.
     if e then bnd_some (finally_some (shield_loop L n a False) (release_slot L)) (wait_result L a)
     else case aw of
         Some Asyncio \<Rightarrow> asyncio_wait L n a
       | Some Trio \<Rightarrow> trio_wait L a
       | None \<Rightarrow> raise_exc TypeError))"

section \<open>The methods\<close>

text \<open>\<open>__init__\<close>: the engine for the running loop, if \<open>get_for_loop\<close> gave one, or a callback in \<open>_aio_map\<close>.\<close>

definition fresh_helper :: aio_helper where
  "fresh_helper = \<lparr>h_aio = None, h_engine = False, h_entry = None, h_slot = None, h_fut = None,
     h_sending = False, h_cb = None, h_awaitable = None, h_obj = 0, h_recv = Nng_recv_aio,
     h_send = Nng_send_aio\<rparr>"

definition backend_of :: "string \<Rightarrow> backend option" where
  "backend_of b = (if b = ''asyncio'' then Some Asyncio else if b = ''trio'' then Some Trio else None)"

definition init_engine_aio :: "nng_lib \<Rightarrow> ('a aworld_scheme, pyexc, unit) prog" where
  "init_engine_aio L =
     andthen (upd_helper (h_engine_update (\<lambda>_. True))) (
     bnd (ccall L (Fn ''pynng_aio_entry_new'' [])) (\<lambda>en.
     andthen (upd_helper (h_entry_update (\<lambda>_. Some (r_out en)))) (
     bnd (ccall L (A (Aio_alloc (r_out en)))) (\<lambda>r.
     andthen (check_err L (r_val r)) (upd_helper (h_aio_update (\<lambda>_. Some (r_out r))))))))"

definition init_callback_aio :: "nng_lib \<Rightarrow> backend \<Rightarrow> ('a aworld_scheme, pyexc, unit) prog" where
  "init_callback_aio L b =
     bnd (getf next_fut) (\<lambda>k.
     andthen (modf (\<lambda>w. w\<lparr>next_fut := Suc k, aio_map := k # aio_map w\<rparr>)) (
     andthen (upd_helper (\<lambda>h. h\<lparr>h_cb := Some k, h_awaitable := Some b\<rparr>)) (
     bnd (try_except
            (bnd (ccall L (A (Aio_alloc (int k)))) (\<lambda>r. andthen (check_err L (r_val r)) (ret (r_out r))))
            (\<lambda>e. andthen (modf (\<lambda>w. w\<lparr>aio_map := filter (\<lambda>j. j \<noteq> k) (aio_map w)\<rparr>)) (raise_exc e)))
       (\<lambda>a. upd_helper (h_aio_update (\<lambda>_. Some a))))))"

definition helper_init ::
  "nng_lib \<Rightarrow> int \<Rightarrow> recv_fn \<Rightarrow> send_fn \<Rightarrow> string option \<Rightarrow> string \<Rightarrow> bool \<Rightarrow> ('a aworld_scheme, pyexc, unit) prog"
where
  "helper_init L obj rf sf async_backend current got_engine =
     andthen (upd_helper (\<lambda>_. fresh_helper\<lparr>h_obj := obj, h_recv := rf, h_send := sf\<rparr>))
       (case backend_of (case async_backend of None \<Rightarrow> current | Some b \<Rightarrow> b) of
          None \<Rightarrow> raise_exc ValueError
        | Some b \<Rightarrow>
            if b = Asyncio \<and> has_attr L ''pynng_native_aio_complete'' \<and> got_engine
            then init_engine_aio L else init_callback_aio L b)"

text \<open>\<open>_async_complete\<close>, on an nng thread: the callback of the key, once.\<close>

definition async_complete :: "nat \<Rightarrow> nat list \<Rightarrow> bool \<times> nat list" where
  "async_complete k m = (k \<in> set m, filter (\<lambda>j. j \<noteq> k) m)"

definition is_valid_for_current_loop ::
  "nng_lib \<Rightarrow> bool \<Rightarrow> ('a aworld_scheme, pyexc, bool) prog" where
  "is_valid_for_current_loop L same_loop =
     bnd (get_helper id) (\<lambda>h. bnd (getf (\<lambda>w. (closed (eng (esys w)), loop_open w))) (\<lambda>(cl, o').
     if \<not> h_engine h \<or> cl \<or> h_aio h = None \<or> h_entry h = None then ret False
     else if \<not> (same_loop \<and> o' \<and> h_slot h = None \<and> \<not> h_sending h) then ret False
     else bnd (ccall L (Fn ''pynng_aio_entry_is_idle'' [CInt (the (h_entry h))])) (\<lambda>r. ret (r_val r \<noteq> 0))))"

text \<open>What the handlers \<open>except BaseException\<close> after a wait do: free a message that the aio still has.\<close>

definition free_leftover :: "nng_lib \<Rightarrow> int \<Rightarrow> ('a world_scheme, pyexc, unit) prog" where
  "free_leftover L a =
     bnd (ccall L (A (Aio_get_msg a))) (\<lambda>m.
     whenp (r_out m \<noteq> 0)
       (bnd (ccall L (A (Aio_set_msg a 0))) (\<lambda>_.
        bnd (ccall L (M (Msg_free (r_out m)))) (\<lambda>_. ret ()))))"

definition after_failed :: "nng_lib \<Rightarrow> pyexc \<Rightarrow> ('a aworld_scheme, pyexc, 'b) prog" where
  "after_failed L e = bnd helper_aio (\<lambda>a. andthen (free_leftover L a) (raise_exc e))"

definition start_arecv :: "nng_lib \<Rightarrow> ('a aworld_scheme, pyexc, unit) prog" where
  "start_arecv L =
     bnd helper_aio (\<lambda>a. bnd (get_helper (\<lambda>h. (h_recv h, h_obj h))) (\<lambda>(rf, ob).
     bnd (ccall L (A (Aio_recv rf ob a))) (\<lambda>r. check_err L (r_val r))))"

definition take_received :: "nng_lib \<Rightarrow> ('a aworld_scheme, pyexc, nat option) prog" where
  "take_received L =
     bnd helper_aio (\<lambda>a.
     bnd (ccall L (A (Aio_result a))) (\<lambda>r.
     andthen (check_err L (r_val r)) (
     bnd (ccall L (A (Aio_get_msg a))) (\<lambda>m.
     bnd (ccall L (A (Aio_set_msg a 0))) (\<lambda>_.
     bnd (mk_message L (FromPtr (r_out m)) NoPipe) (\<lambda>i. ret (Some i)))))))"

definition arecv_msg :: "nng_lib \<Rightarrow> nat \<Rightarrow> ('a aworld_scheme, pyexc, nat option) prog" where
  "arecv_msg L n =
     andthen (prepare_aio L) (
     andthen (try_except (start_arecv L) (\<lambda>e. andthen (cleanup_prepared_aio L) (raise_exc e)))
       (bnd_some (try_except (wait_for_aio L n) (after_failed L)) (\<lambda>_. take_received L)))"

definition arecv :: "nng_lib \<Rightarrow> nat \<Rightarrow> ('a aworld_scheme, pyexc, byte list option) prog" where
  "arecv L n = recv_with L (arecv_msg L n)"

text \<open>The part that both sending methods share: start the send, then wait for it.\<close>

definition start_send :: "nng_lib \<Rightarrow> ('a aworld_scheme, pyexc, unit) prog" where
  "start_send L =
     bnd helper_aio (\<lambda>a. bnd (get_helper (\<lambda>h. (h_send h, h_obj h))) (\<lambda>(sf, ob).
     bnd (ccall L (A (Aio_send sf ob a))) (\<lambda>r. check_err L (r_val r))))"

definition undo_send :: "nng_lib \<Rightarrow> int \<Rightarrow> pyexc \<Rightarrow> ('a aworld_scheme, pyexc, unit) prog" where
  "undo_send L p e =
     andthen (upd_helper (h_sending_update (\<lambda>_. False))) (
     andthen (cleanup_prepared_aio L) (
     bnd helper_aio (\<lambda>a.
     bnd (ccall L (A (Aio_set_msg a 0))) (\<lambda>_.
     bnd (ccall L (M (Msg_free p))) (\<lambda>_. raise_exc e)))))"

definition finish_send :: "nng_lib \<Rightarrow> nat \<Rightarrow> ('a aworld_scheme, pyexc, unit option) prog" where
  "finish_send L n =
     finally_some
       (try_except (wait_for_aio L n) (after_failed L))
       (upd_helper (h_sending_update (\<lambda>_. False)))"

definition asend :: "nng_lib \<Rightarrow> nat \<Rightarrow> py_data \<Rightarrow> ('a aworld_scheme, pyexc, unit option) prog" where
  "asend L n d =
     bnd (ccall L (M (Msg_alloc 0))) (\<lambda>r.
     andthen (check_err L (r_val r)) (
     let p = r_out r in
     andthen
       (try_except
         (bnd (as_memoryview d) (\<lambda>b.
          bnd (ccall L (M (Msg_append p (copied b)))) (\<lambda>x.
          andthen (check_err L (r_val x)) (
          andthen (prepare_aio L) (
          bnd helper_aio (\<lambda>a.
          bnd (ccall L (A (Aio_set_msg a p))) (\<lambda>_.
          andthen (upd_helper (h_sending_update (\<lambda>_. True))) (start_send L))))))))
         (undo_send L p))
       (finish_send L n)))"

definition asend_msg :: "nng_lib \<Rightarrow> nat \<Rightarrow> nat \<Rightarrow> ('a aworld_scheme, pyexc, unit option) prog" where
  "asend_msg L n i =
     andthen (ensure_can_send i) (
     andthen (prepare_aio L) (
     bnd helper_aio (\<lambda>a.
     bnd (msg_ptr i) (\<lambda>p.
     bnd (ccall L (A (Aio_set_msg a p))) (\<lambda>_.
     andthen (upd_msg i (mem_freed_update (\<lambda>_. True))) (
     andthen (upd_helper (h_sending_update (\<lambda>_. True))) (
     andthen (try_except (start_send L) (undo_send L p))
       (finish_send L n))))))))"

text \<open>\<open>_free\<close>, which \<open>__exit__\<close> and \<open>__del__\<close> call.\<close>

definition free_aio :: "nng_lib \<Rightarrow> int \<Rightarrow> ('a aworld_scheme, pyexc, unit) prog" where
  "free_aio L a =
     bnd (ccall L (A (Aio_cancel a))) (\<lambda>_.
     bnd (ccall L (A (Aio_wait a))) (\<lambda>_.
     andthen (bnd (get_helper h_sending) (\<lambda>s. whenp s
        (andthen (free_leftover L a) (upd_helper (h_sending_update (\<lambda>_. False)))))) (
     bnd (ccall L (A (Aio_free a))) (\<lambda>_. upd_helper (h_aio_update (\<lambda>_. None))))))"

definition pop_callback :: "('a aworld_scheme, pyexc, unit) prog" where
  "pop_callback = bnd (get_helper h_cb) (\<lambda>c. case c of None \<Rightarrow> ret ()
     | Some k \<Rightarrow> modf (\<lambda>w. w\<lparr>aio_map := filter (\<lambda>j. j \<noteq> k) (aio_map w)\<rparr>))"

definition close_dead_engine :: "('a aworld_scheme, pyexc, unit) prog" where
  "close_dead_engine = modf (\<lambda>w. if h_engine (helper w) \<and> \<not> loop_open w
     then (case close_engine True False (esys w) of None \<Rightarrow> w | Some s \<Rightarrow> w\<lparr>esys := s\<rparr>) else w)"

definition helper_free :: "nng_lib \<Rightarrow> ('a aworld_scheme, pyexc, unit) prog" where
  "helper_free L = bnd (getf is_nng_finalized) (\<lambda>fin.
     if fin then andthen (upd_helper (\<lambda>h. h\<lparr>h_aio := None, h_entry := None\<rparr>)) pop_callback
     else
       andthen (bnd (get_helper h_engine) (\<lambda>e. whenp e drop_slot)) (
       andthen (upd_helper (h_fut_update (\<lambda>_. None))) (
       andthen (bnd (get_helper h_aio) (\<lambda>a. case a of None \<Rightarrow> ret () | Some a \<Rightarrow> free_aio L a)) (
       andthen (bnd (get_helper h_entry) (\<lambda>en. case en of None \<Rightarrow> ret ()
         | Some e \<Rightarrow> bnd (ccall L (Fn ''pynng_aio_entry_free'' [CInt e]))
             (\<lambda>_. upd_helper (h_entry_update (\<lambda>_. None))))) (
       andthen close_dead_engine (
       andthen pop_callback (upd_helper (\<lambda>h. h\<lparr>h_cb := None, h_awaitable := None\<rparr>))))))))"

section \<open>An operation in flight\<close>

text \<open>
  The fields that the methods keep while they run, and what a library does that raises only
  where a coroutine waits: \<open>CancelledError\<close>, thrown in by the event loop. \<open>nng_aio_send\<close>
  returns nothing, so its value is 0. trio's wait does not raise, because \<open>abort_fn\<close> refuses.
\<close>

definition core :: "'a aworld_scheme \<Rightarrow> int option \<times> bool \<times> backend option" where
  "core w = (h_aio (helper w), h_engine (helper w), h_awaitable (helper w))"

definition async_lib :: "nng_lib \<Rightarrow> bool" where
  "async_lib L \<longleftrightarrow>
     (\<forall>tr c e. r_exn (fn L tr c) = Some e \<longrightarrow> e = CancelledError \<and> (\<exists>a. c = A (Await_shield a))) \<and>
     (\<forall>tr sf ob a. r_val (fn L tr (A (Aio_send sf ob a))) = 0)"

definition never_cancels :: "nng_lib \<Rightarrow> bool" where
  "never_cancels L \<longleftrightarrow> (\<forall>tr a. r_exn (fn L tr (A (Await_shield a))) = None)"

definition usable :: "nng_lib \<Rightarrow> int option \<times> bool \<times> backend option \<Rightarrow> bool" where
  "usable L k \<longleftrightarrow> (case k of (a, e, aw) \<Rightarrow> e \<or> aw = Some Asyncio \<or> aw = Some Trio \<and> never_cancels L)"

lemma core_upds [simp]:
  "core (w\<lparr>calls := cs\<rparr>) = core w" "core (w\<lparr>msgs := ms\<rparr>) = core w" "core (w\<lparr>esys := es\<rparr>) = core w"
  "core (w\<lparr>next_msg := k\<rparr>) = core w" "core (w\<lparr>next_fut := k\<rparr>) = core w"
  "core (w\<lparr>helper := (helper w)\<lparr>h_slot := s\<rparr>\<rparr>) = core w"
  "core (w\<lparr>helper := (helper w)\<lparr>h_fut := f\<rparr>\<rparr>) = core w"
  "core (w\<lparr>helper := (helper w)\<lparr>h_sending := b\<rparr>\<rparr>) = core w"
  by (simp_all add: core_def)

lemma async_lib_raises:
  "async_lib L \<Longrightarrow> r_exn (fn L tr c) = Some e \<Longrightarrow> e = CancelledError \<and> (\<exists>a. c = A (Await_shield a))"
  unfolding async_lib_def by blast

lemma wp_async_call:
  assumes "async_lib L" and "\<And>a. c \<noteq> A (Await_shield a)"
  shows "wp (ccall L c) Q E s = Q (fn L (calls s) c) (s\<lparr>calls := calls s @ [(c, fn L (calls s) c)]\<rparr>)"
proof -
  have "r_exn (fn L (calls s) c) = None"
    using assms(2) async_lib_raises [OF assms(1)] by (cases "r_exn (fn L (calls s) c)") blast+
  then show ?thesis by (simp add: wp_ccall)
qed

lemma live_ext [simp]:
  "live (w\<lparr>helper := h\<rparr>) = live w" "live (w\<lparr>esys := es\<rparr>) = live w"
  "live (w\<lparr>next_fut := k\<rparr>) = live w"
  by (simp_all add: live_def fun_eq_iff)

lemma msgs_inv_ext [simp]:
  "msgs_inv (w\<lparr>helper := h\<rparr>) = msgs_inv w" "msgs_inv (w\<lparr>esys := es\<rparr>) = msgs_inv w"
  "msgs_inv (w\<lparr>next_fut := k\<rparr>) = msgs_inv w" "msgs_inv (w\<lparr>aio_map := am\<rparr>) = msgs_inv w"
  unfolding msgs_inv_def by (simp_all add: live_def)

text \<open>Calls that say nothing about messages.\<close>

definition mute :: "ncall \<Rightarrow> bool" where
  "mute c \<longleftrightarrow> uses c = None \<and> (\<forall>g r. led_step g (c, r) = g)"

lemma mute_simps [simp]:
  "mute (A (Aio_cancel a))" "mute (A (Aio_result a))" "mute (A (Aio_free a))" "mute (Strerror e)"
  "mute (Fn f xs)" "mute (S sc)"
  by (simp_all add: mute_def led_aio_def)

lemma mute_not_await: "mute c \<Longrightarrow> c \<noteq> A (Await_shield a)"
proof
  assume "mute c" "c = A (Await_shield a)"
  then have "led_step g (A (Await_shield a), r) = g" for g r by (simp add: mute_def)
  from this [of "park ledger0 a (ASend 1)" "\<lparr>r_val = 0, r_out = 0, r_bytes = [], r_text = [], r_exn = None\<rparr>"]
  have "after_wait (park ledger0 a (ASend 1)) a = park ledger0 a (ASend 1)" by (simp add: led_aio_def)
  then have "pend (after_wait (park ledger0 a (ASend 1)) a) a = ASend 1" by simp
  then show False by (simp add: after_wait_def)
qed

text \<open>A state with the fields \<open>k\<close>, and what a wait that ended, or still goes on, leaves.\<close>

definition at :: "('a aworld_scheme \<Rightarrow> bool) \<Rightarrow> int option \<times> bool \<times> backend option \<Rightarrow> 'a aworld_scheme \<Rightarrow> bool" where
  "at R k u \<longleftrightarrow> R u \<and> core u = k"

definition ended ::
  "('a aworld_scheme \<Rightarrow> bool) \<Rightarrow> ('a aworld_scheme \<Rightarrow> bool) \<Rightarrow> int option \<times> bool \<times> backend option
     \<Rightarrow> 'b option \<Rightarrow> 'a aworld_scheme \<Rightarrow> bool" where
  "ended P R k x u \<longleftrightarrow> at (if x = None then P else R) k u"

lemma ended_simps [simp]:
  "ended P R k None u = at P k u" "ended P R k (Some y) u = at R k u"
  by (simp_all add: ended_def)

lemma atI: "R u \<Longrightarrow> core u = k \<Longrightarrow> at R k u"
  by (simp add: at_def)

text \<open>
  What the coroutines need to know of a fact \<open>R\<close> about the messages: it does not depend on the
  helper and the engine, and mute calls keep it. Then so do the operations on slots.
\<close>

locale stable =
  fixes R :: "'a aworld_scheme \<Rightarrow> bool"
  assumes mute_call: "R t \<Longrightarrow> mute c \<Longrightarrow> R (t\<lparr>calls := calls t @ [(c, r)]\<rparr>)"
    and ext: "R (t\<lparr>helper := h\<rparr>) = R t" "R (t\<lparr>esys := es\<rparr>) = R t" "R (t\<lparr>next_fut := nf\<rparr>) = R t"
begin

lemma wp_call:
  assumes "async_lib L" and "at R k t" and "mute c" and "\<And>r u. at R k u \<Longrightarrow> Q r u"
  shows "wp (ccall L c) Q E t"
  using assms mute_call [of t c]
  by (simp add: wp_async_call [OF assms(1) mute_not_await [OF assms(3)]] at_def)

lemma wp_checked:
  assumes "async_lib L" and "at R k t" and "n = 0 \<Longrightarrow> Q () t" and "\<And>e u. at R k u \<Longrightarrow> E e u"
  shows "wp (check_err L n) Q E t"
  using assms(2-) by (auto simp: wp_check_err simp del: wp_ccall intro!: wp_call [OF assms(1), where k = k])

lemma at_helper:
  "at R k t \<Longrightarrow> h_aio h = h_aio (helper t) \<Longrightarrow> h_engine h = h_engine (helper t) \<Longrightarrow>
     h_awaitable h = h_awaitable (helper t) \<Longrightarrow> at R k (t\<lparr>helper := h\<rparr>)"
  by (simp add: at_def ext core_def)

lemma wp_entry_set_slot:
  assumes "async_lib L" and "at R k t"
  shows "wp (entry_set_slot L e s) (\<lambda>_. at R k) E t"
  unfolding entry_set_slot_def wp_bnd wp_ret by (rule wp_call [OF assms]) auto

lemma wp_drop_slot: "at R k t \<Longrightarrow> wp drop_slot (\<lambda>_. at R k) E t"
  by (auto simp: drop_slot_def get_helper_def upd_helper_def wp_simps ext at_def core_def split: option.split)

lemma wp_release_slot:
  assumes "async_lib L" and "at R k t"
  shows "wp (release_slot L) (\<lambda>_. at R k) E t"
  unfolding release_slot_def wp_andthen
  by (rule wp_mono [OF wp_drop_slot [OF assms(2)]])
    (auto simp: get_helper_def upd_helper_def wp_modf wp_bnd wp_getf wp_ret
      split: option.split intro!: wp_entry_set_slot [OF assms(1)] at_helper)

lemma wp_cleanup:
  assumes "async_lib L" and "at R k t"
  shows "wp (cleanup_prepared_aio L) (\<lambda>_. at R k) E t"
  using assms(2) wp_release_slot [OF assms]
  by (simp add: cleanup_prepared_aio_def get_helper_def wp_bnd wp_getf wp_whenp)

lemma wp_prepare:
  assumes "async_lib L" and "at R k t"
  shows "wp (prepare_aio L) (\<lambda>_. at R k) (\<lambda>_. at R k) t"
proof -
  have slot: "wp new_slot (\<lambda>_. at R k) E t" for E
    using assms(2)
    by (auto simp: new_slot_def wp_bnd wp_getf wp_andthen wp_modf wp_ret Let_def ext at_def core_def
        split: prod.split)
  have rest: "wp (andthen (upd_helper (\<lambda>h. h\<lparr>h_slot := Some sl, h_fut := Some f\<rparr>))
      (bnd (get_helper h_entry) (\<lambda>en. bnd (ptr_of en) (\<lambda>e. entry_set_slot L e sl))))
      (\<lambda>_. at R k) (\<lambda>_. at R k) u" if "at R k u" for sl f u
    using that
    by (auto simp: get_helper_def upd_helper_def ptr_of_def wp_andthen wp_modf wp_bnd wp_getf wp_ret wp_raise
        split: option.split intro!: wp_entry_set_slot [OF assms(1)] at_helper)
  show ?thesis
    using assms(2)
    by (auto simp: prepare_aio_def get_helper_def [of h_engine] wp_bnd [of "getf f" for f] wp_getf wp_whenp
        wp_raise wp_bnd [of new_slot] intro!: wp_mono [OF slot] rest)
qed

end

text \<open>
  \<open>P\<close> holds while the aio's operation runs, \<open>R\<close> once it has finished.
\<close>

locale aio_op = run: stable P + fin: stable R
  for P R :: "'a aworld_scheme \<Rightarrow> bool" +
  fixes a :: int
  assumes P_cancelled: "P t \<Longrightarrow> r_exn r \<noteq> None \<Longrightarrow> P (t\<lparr>calls := calls t @ [(A (Await_shield a), r)]\<rparr>)"
    and P_done: "P t \<Longrightarrow> r_exn r = None \<Longrightarrow> R (t\<lparr>calls := calls t @ [(A (Await_shield a), r)]\<rparr>)"
begin

lemma wp_shield_loop:
  assumes "async_lib L"
  shows "at P k t \<Longrightarrow> wp (shield_loop L n a c) (ended P R k) (\<lambda>e u. False) t"
proof (induction n arbitrary: t c)
  case (Suc n)
  let ?c = "A (Await_shield a)"
  let ?r = "fn L (calls t) ?c" and ?t = "t\<lparr>calls := calls t @ [(?c, fn L (calls t) ?c)]\<rparr>"
  show ?case
  proof (cases "r_exn ?r")
    case None
    with Suc.prems show ?thesis by (simp add: wp_simps P_done at_def)
  next
    case (Some e)
    then have e: "e = CancelledError" using async_lib_raises [OF assms] by blast
    have p: "at P k ?t" using Suc.prems Some by (simp add: P_cancelled at_def)
    have "wp (andthen (whenp (\<not> c) (bnd (ccall L (A (Aio_cancel a))) (\<lambda>_. ret ())))
            (shield_loop L n a True)) (ended P R k) (\<lambda>e u. False) ?t"
      using p by (auto simp: wp_andthen wp_whenp wp_bnd wp_ret intro!: Suc.IH run.wp_call [OF assms, where k = k]
          simp del: wp_ccall)
    then show ?thesis
      using Some e by (simp add: wp_bnd [of "try_except m h" for m h] wp_bnd [of "ccall L (A (Await_shield a))"]
          wp_except wp_ret wp_raise wp_ccall [of L "A (Await_shield a)"])
  qed
qed (simp add: wp_ret)

lemma wp_wait_result:
  assumes "async_lib L" and "at R k t"
  shows "wp (wait_result L a c) (ended P R k) (\<lambda>e. at R k) t"
  unfolding wait_result_def wp_bnd
  by (rule fin.wp_call [OF assms])
    (auto simp: wp_andthen wp_ret wp_raise intro!: fin.wp_checked [OF assms(1), where k = k])

lemma wp_trio_wait:
  assumes "async_lib L" and "never_cancels L" and "at P k t"
  shows "wp (trio_wait L a) (ended P R k) (\<lambda>e. at R k) t"
proof -
  have aw: "wp (ccall L (A (Await_shield a))) Q E u"
    if "at P k u" "\<And>r v. at R k v \<Longrightarrow> Q r v" for Q E u
  proof -
    have "r_exn (fn L (calls u) (A (Await_shield a))) = None"
      using assms(2) by (simp add: never_cancels_def)
    with that show ?thesis by (simp add: wp_ccall P_done at_def)
  qed
  have rest: "wp (bnd (ccall L (A (Await_shield a))) (\<lambda>_.
        bnd (ccall L (A (Aio_result a))) (\<lambda>r.
        if r_val r = err L ECANCELED then raise_exc x
        else andthen (check_err L (r_val r)) (ret (Some ())))))
      (ended P R k) (\<lambda>e. at R k) u" if "at P k u" for x u
    unfolding wp_bnd
    by (rule aw [OF that], rule fin.wp_call [OF assms(1), where k = k])
      (auto simp: wp_andthen wp_ret wp_raise wp_if intro!: fin.wp_checked [OF assms(1), where k = k])
  show ?thesis
    unfolding trio_wait_def Let_def wp_bnd [of "ccall L (Fn f xs)" for f xs]
    by (rule run.wp_call [OF assms(1,3)])
      (auto simp: wp_andthen [of "whenp b m" for b m] wp_whenp wp_bnd [of "ccall L (A (Aio_cancel a))"] wp_ret
        intro!: rest run.wp_call [OF assms(1), where k = k] simp del: wp_ccall)
qed

text \<open>The wait ends with the operation finished, in whatever way it ends.\<close>

lemma wp_wait_for_aio:
  assumes "async_lib L" and "at P k t" and "h_aio (helper t) = Some a" and "usable L k"
  shows "wp (wait_for_aio L n) (ended P R k) (\<lambda>e. at R k) t"
proof -
  have res: "wp (wait_result L a c) (ended P R k) (\<lambda>e. at R k) u" if "at R k u" for c u
    by (rule wp_wait_result [OF assms(1) that])
  have rel: "wp (release_slot L) (\<lambda>_. wp (wait_result L a c) (ended P R k) (\<lambda>e. at R k)) (\<lambda>e. at R k) u"
    if "at R k u" for c u
    by (rule wp_mono [OF fin.wp_release_slot [OF assms(1) that]]) (auto intro: res)
  have engine: "wp (bnd_some (finally_some (shield_loop L n a False) (release_slot L)) (wait_result L a))
      (ended P R k) (\<lambda>e. at R k) t"
    unfolding wp_bnd_some wp_finally_some
    by (rule wp_mono [OF wp_shield_loop [OF assms(1,2)]]) (auto split: option.split intro: rel)
  have plain: "wp (asyncio_wait L n a) (ended P R k) (\<lambda>e. at R k) t"
    unfolding asyncio_wait_def wp_bnd_some
    by (rule wp_mono [OF wp_shield_loop [OF assms(1,2)]]) (auto split: option.split intro: res)
  have trio: "wp (trio_wait L a) (ended P R k) (\<lambda>e. at R k) t" if "never_cancels L"
    by (rule wp_trio_wait [OF assms(1) that assms(2)])
  have k: "k = (Some a, h_engine (helper t), h_awaitable (helper t))"
    using assms(2,3) by (simp add: core_def at_def)
  show ?thesis
    using engine plain trio assms(3,4)
    by (auto simp: wait_for_aio_def get_helper_def helper_aio_def ptr_of_def wp_bnd wp_getf wp_ret wp_raise
        usable_def k wp_if split: option.split backend.split)
qed

end

section \<open>Messages in flight\<close>

text \<open>
  The message \<open>p\<close>, that no object holds, with its owner \<open>x\<close> and the state \<open>st\<close> of the
  aio it is sent with; and a receive on the aio.
\<close>

definition carried :: "int \<Rightarrow> int \<Rightarrow> aiost \<Rightarrow> own \<Rightarrow> 'a mworld_scheme \<Rightarrow> bool" where
  "carried p a st x t \<longleftrightarrow> msgs_inv t \<and> p \<noteq> 0 \<and> pend (led (calls t)) a = st \<and>
     own (led (calls t)) p = x \<and> (\<forall>j. \<not> live t j p)"

definition recving :: "int \<Rightarrow> 'a mworld_scheme \<Rightarrow> bool" where
  "recving a t \<longleftrightarrow> msgs_inv t \<and> pend (led (calls t)) a = ARecv"

lemma msgs_inv_mute: "msgs_inv t \<Longrightarrow> mute c \<Longrightarrow> msgs_inv (t\<lparr>calls := calls t @ [(c, r)]\<rparr>)"
  by (rule msgs_inv_call) (auto simp: mute_def safe_call_def)

lemma led_mute: "mute c \<Longrightarrow> led (tr @ [(c, r)]) = led tr"
  by (simp add: mute_def)

interpretation inv: stable msgs_inv
  by unfold_locales (simp_all add: msgs_inv_mute)

interpretation parcel: stable "carried p a st x"
  by unfold_locales (simp_all add: carried_def msgs_inv_mute led_mute del: led_snoc)

interpretation incoming: stable "recving a"
  by unfold_locales (simp_all add: recving_def msgs_inv_mute led_mute del: led_snoc)

text \<open>Any call that uses at most the message in flight, while it is ours, keeps the others as they are.\<close>

lemma carried_call:
  assumes "carried p a st x t" and "uses c = None \<or> uses c = Some p \<and> x = Mine"
    and "\<And>q. q \<noteq> p \<Longrightarrow> own (led_step (led (calls t)) (c, r)) q = own (led (calls t)) q"
  shows "carried p a (pend (led_step (led (calls t)) (c, r)) a) (own (led_step (led (calls t)) (c, r)) p)
     (t\<lparr>calls := calls t @ [(c, r)]\<rparr>)"
proof -
  have "msgs_inv (t\<lparr>calls := calls t @ [(c, r)]\<rparr>)"
  proof (rule msgs_inv_call)
    show "msgs_inv t" using assms(1) by (simp add: carried_def)
    show "safe_call (led (calls t)) c" using assms(1,2) by (auto simp: carried_def safe_call_def)
    fix q assume "own (led (calls t)) q = Mine" "\<exists>j. live t j q"
    moreover then have "q \<noteq> p" using assms(1) by (auto simp: carried_def)
    ultimately show "own (led_step (led (calls t)) (c, r)) q = Mine" using assms(3) by simp
  qed
  with assms(1) show ?thesis by (simp add: carried_def)
qed

lemma recving_await:
  assumes "recving a t"
  shows "recving a (t\<lparr>calls := calls t @ [(A (Await_shield a), r)]\<rparr>)"
proof -
  have "quiet t (t\<lparr>calls := calls t @ [(A (Await_shield a), r)]\<rparr>)"
    using assms by (intro quiet_call) (simp_all add: recving_def safe_call_def)
  with assms show ?thesis by (simp add: recving_def quiet_inv led_aio_def after_wait_def)
qed

interpretation receive: aio_op "recving a" "recving a" a
  by unfold_locales (rule recving_await; assumption)+

interpretation send: aio_op "carried p a (ASend p) InFlight" "carried p a (ASent p) InFlight" a
proof
  fix t :: "'a aworld_scheme" and r
  assume c: "carried p a (ASend p) InFlight t"
  then have s: "pend (led (calls t)) a = ASend p" "own (led (calls t)) p = InFlight"
    by (simp_all add: carried_def)
  show "carried p a (ASend p) InFlight (t\<lparr>calls := calls t @ [(A (Await_shield a), r)]\<rparr>)"
    if "r_exn r \<noteq> None"
    using carried_call [OF c, of "A (Await_shield a)" r] that s by (simp add: led_aio_def)
  show "carried p a (ASent p) InFlight (t\<lparr>calls := calls t @ [(A (Await_shield a), r)]\<rparr>)"
    if "r_exn r = None"
    using carried_call [OF c, of "A (Await_shield a)" r] that s by (simp add: led_aio_def after_wait_def)
qed

text \<open>What \<open>nng_aio_get_msg\<close> returns after a send: the message that was sent, or nothing.\<close>

definition returns_unsent :: "nng_lib \<Rightarrow> bool" where
  "returns_unsent L \<longleftrightarrow> (\<forall>tr a p. pend (led tr) a = ASent p \<longrightarrow> r_out (fn L tr (A (Aio_get_msg a))) \<in> {0, p})"

text \<open>A message in our hand: ours, and no object holds it.\<close>

lemma carried_claims: "carried p a st Mine t \<Longrightarrow> claims t p"
  by (simp add: carried_def claims_def)

lemma claims_free:
  assumes "claims t p"
  shows "msgs_inv (t\<lparr>calls := calls t @ [(M (Msg_free p), r)]\<rparr>)"
  using assms by (intro msgs_inv_call) (auto simp: claims_def safe_call_def uses_msg_def led_msg_def)

lemma claims_clear:
  assumes "claims t p"
  shows "claims (t\<lparr>calls := calls t @ [(A (Aio_set_msg a 0), r)]\<rparr>) p"
  using assms quiet_call [of t "A (Aio_set_msg a 0)" r]
  by (auto simp: claims_def quiet_def safe_call_def live_def)

lemma wp_claims_free:
  assumes "async_lib L" and "claims t p" and "core t = k"
  shows "wp (bnd (ccall L (A (Aio_set_msg a 0))) (\<lambda>_. bnd (ccall L (M (Msg_free p))) (\<lambda>_. ret ())))
    (\<lambda>_. at msgs_inv k) E t"
  using assms(3) claims_free [OF claims_clear [OF assms(2)]]
  by (simp add: wp_bnd wp_ret wp_async_call [OF assms(1)] at_def)

lemma free_leftover_sent:
  assumes "async_lib L" and "returns_unsent L" and "at (carried p a (ASent p) InFlight) k t"
  shows "wp (free_leftover L a) (\<lambda>_. at msgs_inv k) E t"
proof -
  let ?c = "A (Aio_get_msg a)"
  let ?r = "fn L (calls t) ?c"
  let ?t = "t\<lparr>calls := calls t @ [(?c, ?r)]\<rparr>"
  have c: "carried p a (ASent p) InFlight t" "core t = k" using assms(3) by (simp_all add: at_def)
  then have s: "pend (led (calls t)) a = ASent p" by (simp add: carried_def)
  from carried_call [OF c(1), of ?c ?r] s
  have u: "carried p a AIdle (if r_out ?r = 0 then Theirs else Mine) ?t" by (simp add: led_aio_def)
  have o: "r_out ?r \<noteq> 0 \<Longrightarrow> r_out ?r = p" using assms(2) s unfolding returns_unsent_def by blast
  have "wp (bnd (ccall L (A (Aio_set_msg a 0))) (\<lambda>_. bnd (ccall L (M (Msg_free (r_out ?r)))) (\<lambda>_. ret ())))
      (\<lambda>_. at msgs_inv k) E ?t" if "r_out ?r \<noteq> 0"
    using u o that c(2) by (intro wp_claims_free [OF assms(1)]) (auto intro: carried_claims)
  moreover have "at msgs_inv k ?t" using u c(2) by (simp add: at_def carried_def)
  ultimately show ?thesis
    by (simp add: free_leftover_def wp_bnd [of "ccall L ?c"] wp_async_call [OF assms(1)] wp_whenp)
qed

lemma recving_get:
  assumes "fresh_lib L" and "recving a t" and "r_out (fn L (calls t) (A (Aio_get_msg a))) \<noteq> 0"
  shows "claims (t\<lparr>calls := calls t @ [(A (Aio_get_msg a), fn L (calls t) (A (Aio_get_msg a)))]\<rparr>)
     (r_out (fn L (calls t) (A (Aio_get_msg a))))"
  by (rule msgs_inv_handed_out [OF assms(1)])
    (use assms in \<open>auto simp: recving_def hands_out_def safe_call_def led_aio_def\<close>)

lemma recving_get_none:
  assumes "recving a t" and "r_out r = 0"
  shows "msgs_inv (t\<lparr>calls := calls t @ [(A (Aio_get_msg a), r)]\<rparr>)"
  using assms by (intro msgs_inv_call) (auto simp: recving_def safe_call_def led_aio_def)

lemma free_leftover_recv:
  assumes "async_lib L" and "fresh_lib L" and "at (recving a) k t"
  shows "wp (free_leftover L a) (\<lambda>_. at msgs_inv k) E t"
proof -
  let ?c = "A (Aio_get_msg a)"
  let ?r = "fn L (calls t) ?c"
  let ?t = "t\<lparr>calls := calls t @ [(?c, ?r)]\<rparr>"
  have c: "recving a t" "core t = k" using assms(3) by (simp_all add: at_def)
  have "wp (bnd (ccall L (A (Aio_set_msg a 0))) (\<lambda>_. bnd (ccall L (M (Msg_free (r_out ?r)))) (\<lambda>_. ret ())))
      (\<lambda>_. at msgs_inv k) E ?t" if "r_out ?r \<noteq> 0"
    using recving_get [OF assms(2) c(1) that] c(2) by (intro wp_claims_free [OF assms(1)]) auto
  moreover have "at msgs_inv k ?t" if "r_out ?r = 0"
    using recving_get_none [OF c(1) that] c(2) by (simp add: at_def)
  ultimately show ?thesis
    by (simp add: free_leftover_def wp_bnd [of "ccall L ?c"] wp_async_call [OF assms(1)] wp_whenp)
qed

section \<open>Every method is safe\<close>

lemma recving_inv: "at (recving a) k t \<Longrightarrow> at msgs_inv k t"
  by (simp add: at_def recving_def)

lemma carried_inv: "at (carried p a st x) k t \<Longrightarrow> at msgs_inv k t"
  by (simp add: at_def carried_def)

lemma ended_inv:
  assumes "ended P R k x t" and "\<And>u. at P k u \<Longrightarrow> at msgs_inv k u" and "\<And>u. at R k u \<Longrightarrow> at msgs_inv k u"
  shows "at msgs_inv k t"
  using assms by (cases x) auto

lemma at_aio: "at R k t \<Longrightarrow> fst k = h_aio (helper t)"
  by (auto simp: at_def core_def)

lemma wp_helper_aio:
  assumes "at R k t" and "fst k = Some a" and "Q a t"
  shows "wp helper_aio Q E t"
  using assms at_aio [OF assms(1)]
  by (simp add: helper_aio_def get_helper_def ptr_of_def wp_bnd wp_getf wp_ret)

lemma wp_helper_aio_None:
  assumes "at R k t" and "fst k = None" and "E TypeError t"
  shows "wp helper_aio Q E t"
  using assms at_aio [OF assms(1)]
  by (simp add: helper_aio_def get_helper_def ptr_of_def wp_bnd wp_getf wp_raise)

lemma wp_begin_recv:
  assumes "async_lib L" and "at msgs_inv k t" and "\<And>r u. at (recving a) k u \<Longrightarrow> Q r u"
  shows "wp (ccall L (A (Aio_recv rf ob a))) Q E t"
proof -
  have "quiet t (t\<lparr>calls := calls t @ [(A (Aio_recv rf ob a), r)]\<rparr>)" for r
    using assms(2) by (intro quiet_call) (simp_all add: at_def safe_call_def)
  then have "msgs_inv (t\<lparr>calls := calls t @ [(A (Aio_recv rf ob a), r)]\<rparr>)" for r
    by (rule quiet_inv)
  then have "at (recving a) k (t\<lparr>calls := calls t @ [(A (Aio_recv rf ob a), r)]\<rparr>)" for r
    using assms(2) by (simp add: at_def recving_def led_aio_def)
  with assms(3) show ?thesis by (simp add: wp_async_call [OF assms(1)])
qed

lemma mk_message_core: "wp (mk_message L (FromPtr q) NoPipe) (\<lambda>_ u. core u = core t) (\<lambda>_ _. True) t"
  by (simp add: mk_message_def new_message_def message_init_def wp_simps)

lemma wp_mk_message_at:
  assumes "fresh_lib L" and "claims t q" and "core t = k"
  shows "wp (mk_message L (FromPtr q) NoPipe) (\<lambda>_. at msgs_inv k) (\<lambda>_. msgs_inv) t"
proof -
  have "wp (mk_message L (FromPtr q) NoPipe) (\<lambda>_. msgs_inv) (\<lambda>_. msgs_inv) t"
    using assms by (intro mk_message_inv) (auto simp: claims_def in_hand_def)
  from wp_conj [OF this mk_message_core [of L q t]] show ?thesis
    by (rule wp_mono) (simp_all add: at_def assms(3))
qed

lemma mk_message_no_exn: "wp (mk_message L (FromPtr q) NoPipe) (\<lambda>_ _. True) (\<lambda>_ _. False) t"
  by (simp add: mk_message_def new_message_def message_init_def wp_simps)

lemma wp_take_received:
  assumes "async_lib L" and "fresh_lib L" and "recv_lib L" and "at (recving a) k t" and "fst k = Some a"
  shows "wp (take_received L) (\<lambda>_. at msgs_inv k) (\<lambda>_. at msgs_inv k) t"
  unfolding take_received_def wp_bnd [of helper_aio]
proof (rule wp_helper_aio [OF assms(4,5)])
  let ?c = "A (Aio_result a)"
  let ?r = "fn L (calls t) ?c"
  let ?t = "t\<lparr>calls := calls t @ [(?c, ?r)]\<rparr>"
  let ?g = "A (Aio_get_msg a)"
  let ?m = "fn L (calls ?t) ?g"
  let ?u = "?t\<lparr>calls := calls ?t @ [(?g, ?m)]\<rparr>"
  have t: "at (recving a) k ?t"
    using assms(4) incoming.mute_call [of a t ?c ?r] by (simp add: at_def)
  have ok: "claims ?u (r_out ?m)" if "r_val ?r = 0"
  proof (rule recving_get [OF assms(2)])
    show "recving a ?t" using t by (simp add: at_def)
    have "pend (led (calls t)) a = ARecv" using assms(4) by (simp add: at_def recving_def)
    then show "r_out ?m \<noteq> 0" using assms(3) that unfolding recv_lib_def by auto
  qed
  have mk: "wp (mk_message L (FromPtr (r_out ?m)) NoPipe) (\<lambda>_. at msgs_inv k) (\<lambda>_. at msgs_inv k)
      (?u\<lparr>calls := calls ?u @ [(A (Aio_set_msg a 0), r)]\<rparr>)" if "r_val ?r = 0" for r
    by (rule wp_mono [OF wp_conj [OF wp_mk_message_at [OF assms(2) claims_clear [OF ok [OF that], of a r], where k = k]
          mk_message_no_exn]])
      (use t in \<open>auto simp: at_def\<close>)
  have fail: "wp (check_err L (r_val ?r)) Q (\<lambda>_. at msgs_inv k) ?t" if "r_val ?r \<noteq> 0" for Q
    using t that by (intro incoming.wp_checked [OF assms(1), where k = k and a = a]) (auto intro: recving_inv)
  show "wp (bnd (ccall L ?c) (\<lambda>r.
     andthen (check_err L (r_val r)) (
     bnd (ccall L ?g) (\<lambda>m.
     bnd (ccall L (A (Aio_set_msg a 0))) (\<lambda>_.
     bnd (mk_message L (FromPtr (r_out m)) NoPipe) (\<lambda>i. ret (Some i)))))))
     (\<lambda>_. at msgs_inv k) (\<lambda>_. at msgs_inv k) t"
  proof (cases "r_val ?r = 0")
    case True
    with mk show ?thesis by (simp add: wp_bnd wp_andthen wp_ret wp_check_err wp_async_call [OF assms(1)])
  next
    case False
    with fail show ?thesis by (simp add: wp_bnd [of "ccall L ?c"] wp_andthen wp_async_call [OF assms(1)])
  qed
qed

lemma wp_abort_start:
  assumes "async_lib L" and "at msgs_inv k t"
  shows "wp (andthen (cleanup_prepared_aio L) (raise_exc e)) Q (\<lambda>_. at msgs_inv k) t"
  by (simp add: wp_andthen wp_raise inv.wp_cleanup [OF assms])

lemma wp_after_failed_recv:
  assumes "async_lib L" and "fresh_lib L" and "at (recving a) k t" and "fst k = Some a"
  shows "wp (after_failed L e) Q (\<lambda>_. at msgs_inv k) t"
  unfolding after_failed_def wp_bnd wp_andthen wp_raise
  by (rule wp_helper_aio [OF assms(3,4)]) (rule free_leftover_recv [OF assms(1-3)])

lemma wp_start_arecv:
  assumes "async_lib L" and "at msgs_inv k t" and "\<And>a u. fst k = Some a \<Longrightarrow> at (recving a) k u \<Longrightarrow> Q () u"
    and "\<And>e u. at msgs_inv k u \<Longrightarrow> E e u"
  shows "wp (start_arecv L) Q E t"
proof (cases "fst k")
  case None
  show ?thesis
    unfolding start_arecv_def wp_bnd [of helper_aio]
    by (rule wp_helper_aio_None [OF assms(2) None]) (rule assms(4) [OF assms(2)])
next
  case (Some a)
  have fail: "E e u" if "at (recving a) k u" for e u
    by (rule assms(4)) (rule recving_inv [OF that])
  show ?thesis
    unfolding start_arecv_def wp_bnd [of helper_aio]
    by (rule wp_helper_aio [OF assms(2) Some])
      (use assms(2,3) Some in \<open>auto simp: wp_bnd get_helper_def wp_getf
        intro!: wp_begin_recv [OF assms(1), where k = k] incoming.wp_checked [OF assms(1), where k = k and a = a]
        intro: fail\<close>)
qed

lemma arecv_msg_safe:
  assumes "async_lib L" and "fresh_lib L" and "recv_lib L" and "at msgs_inv k t"
    and "fst k \<noteq> None \<longrightarrow> usable L k"
  shows "wp (arecv_msg L n) (\<lambda>_. at msgs_inv k) (\<lambda>_. at msgs_inv k) t"
proof -
  have wait: "wp (bnd_some (try_except (wait_for_aio L n) (after_failed L)) (\<lambda>_. take_received L))
      (\<lambda>_. at msgs_inv k) (\<lambda>_. at msgs_inv k) u" if "at (recving a) k u" "fst k = Some a" for a u
  proof -
    have us: "usable L k" using assms(5) that(2) by simp
    have "h_aio (helper u) = Some a" using at_aio [OF that(1)] that(2) by simp
    then show ?thesis
      unfolding wp_bnd_some wp_except
      by (intro wp_mono [OF receive.wp_wait_for_aio [OF assms(1) that(1) _ us]])
        (auto split: option.split intro: wp_take_received [OF assms(1-3) _ that(2)]
          wp_after_failed_recv [OF assms(1,2) _ that(2)] recving_inv)
  qed
  show ?thesis
    unfolding arecv_msg_def wp_andthen [of "prepare_aio L"] wp_andthen [of "try_except m h" for m h] wp_except
    by (rule wp_mono [OF inv.wp_prepare [OF assms(1,4)]])
      (auto intro!: wp_start_arecv [OF assms(1), where k = k] wp_abort_start [OF assms(1)] intro: wait)
qed

text \<open>Sending: from the message in hand to the end of the wait.\<close>

lemma wp_begin_send:
  assumes "async_lib L" and "at (carried p a (AHold p) Mine) k t"
    and "\<And>r u. r_val r = 0 \<Longrightarrow> at (carried p a (ASend p) InFlight) k u \<Longrightarrow> Q r u"
  shows "wp (ccall L (A (Aio_send sf ob a))) Q E t"
proof -
  let ?c = "A (Aio_send sf ob a)"
  have c: "carried p a (AHold p) Mine t" "core t = k" using assms(2) by (simp_all add: at_def)
  then have "pend (led (calls t)) a = AHold p" by (simp add: carried_def)
  with carried_call [OF c(1), of ?c "fn L (calls t) ?c"] c(2)
  have "at (carried p a (ASend p) InFlight) k (t\<lparr>calls := calls t @ [(?c, fn L (calls t) ?c)]\<rparr>)"
    by (simp add: led_aio_def at_def)
  moreover have "r_val (fn L (calls t) ?c) = 0" using assms(1) unfolding async_lib_def by blast
  ultimately show ?thesis using assms(3) by (simp add: wp_async_call [OF assms(1)])
qed

lemma wp_start_send:
  assumes "async_lib L" and "at (carried p a (AHold p) Mine) k t" and "fst k = Some a"
    and "\<And>u. at (carried p a (ASend p) InFlight) k u \<Longrightarrow> Q () u"
  shows "wp (start_send L) Q E t"
  unfolding start_send_def wp_bnd [of helper_aio]
  by (rule wp_helper_aio [OF assms(2,3)])
    (use assms(2,4) in \<open>auto simp: wp_bnd get_helper_def wp_getf wp_check_err
      intro!: wp_begin_send [OF assms(1), where k = k]\<close>)

lemma wp_after_failed_send:
  assumes "async_lib L" and "returns_unsent L" and "at (carried p a (ASent p) InFlight) k t" and "fst k = Some a"
  shows "wp (after_failed L e) Q (\<lambda>_. at msgs_inv k) t"
  unfolding after_failed_def wp_bnd wp_andthen wp_raise
  by (rule wp_helper_aio [OF assms(3,4)]) (rule free_leftover_sent [OF assms(1-3)])

lemma wp_finish_send:
  assumes "async_lib L" and "returns_unsent L" and "at (carried p a (ASend p) InFlight) k t"
    and "fst k = Some a" and "usable L k"
  shows "wp (finish_send L n) (\<lambda>_. at msgs_inv k) (\<lambda>_. at msgs_inv k) t"
proof -
  have "h_aio (helper t) = Some a" using at_aio [OF assms(3)] assms(4) by simp
  note w = send.wp_wait_for_aio [OF assms(1,3) this assms(5), of n]
  have "wp (try_except (wait_for_aio L n) (after_failed L)) (\<lambda>_. at msgs_inv k) (\<lambda>_. at msgs_inv k) t"
    unfolding wp_except
    by (rule wp_mono [OF w])
      (auto intro: wp_after_failed_send [OF assms(1,2) _ assms(4)] ended_inv carried_inv)
  then show ?thesis
    unfolding finish_send_def wp_finally_some
    by (rule wp_mono) (auto simp: upd_helper_def wp_modf split: option.split intro: inv.at_helper)
qed

lemma wp_undo_send:
  assumes "async_lib L" and "at (carried p a st Mine) k t" and "fst k = Some a"
  shows "wp (undo_send L p e) Q (\<lambda>_. at msgs_inv k) t"
proof -
  have fr: "wp (bnd (ccall L (A (Aio_set_msg a 0))) (\<lambda>_. bnd (ccall L (M (Msg_free p))) (\<lambda>_. raise_exc e)))
      Q (\<lambda>_. at msgs_inv k) u" if "at (carried p a st Mine) k u" for u
  proof -
    have "claims u p" "core u = k" using that by (auto simp: at_def intro: carried_claims)
    with claims_free [OF claims_clear [OF this(1)]] show ?thesis
      by (simp add: wp_bnd wp_raise wp_async_call [OF assms(1)] at_def)
  qed
  have "at (carried p a st Mine) k (t\<lparr>helper := (helper t)\<lparr>h_sending := False\<rparr>\<rparr>)"
    using assms(2) by (intro parcel.at_helper) simp_all
  then show ?thesis
    unfolding undo_send_def wp_andthen upd_helper_def wp_modf
    by (rule wp_mono [OF parcel.wp_cleanup [OF assms(1)]])
      (auto simp: wp_bnd [of helper_aio] intro: wp_helper_aio [OF _ assms(3)] fr)
qed

lemma claims_at_carried:
  assumes "claims t p" and "core t = k"
  shows "at (carried p a (pend (led (calls t)) a) Mine) k t"
  using assms by (simp add: claims_def carried_def at_def)

lemma wp_set_msg:
  assumes "async_lib L" and "at (carried p a st Mine) k t"
    and "\<And>r u. at (carried p a (AHold p) Mine) k u \<Longrightarrow> Q r u"
  shows "wp (ccall L (A (Aio_set_msg a p))) Q E t"
proof -
  let ?c = "A (Aio_set_msg a p)"
  have c: "carried p a st Mine t" "core t = k" using assms(2) by (simp_all add: at_def)
  then have "p \<noteq> 0" "own (led (calls t)) p = Mine" by (simp_all add: carried_def)
  with carried_call [OF c(1), of ?c "fn L (calls t) ?c"] c(2)
  have "at (carried p a (AHold p) Mine) k (t\<lparr>calls := calls t @ [(?c, fn L (calls t) ?c)]\<rparr>)"
    by (simp add: led_aio_def at_def)
  with assms(3) show ?thesis by (simp add: wp_async_call [OF assms(1)])
qed

lemma wp_alloc:
  fixes t :: "'a aworld_scheme"
  assumes "async_lib L" and "fresh_lib L" and "at msgs_inv k t"
    and "\<And>r u. r_val r = 0 \<Longrightarrow> at (carried (r_out r) a (pend (led (calls u)) a) Mine) k u \<Longrightarrow> Q r u"
    and "\<And>r u. r_val r \<noteq> 0 \<Longrightarrow> at msgs_inv k u \<Longrightarrow> Q r u"
  shows "wp (ccall L (M (Msg_alloc n))) Q E t"
proof -
  let ?c = "M (Msg_alloc n)"
  let ?r = "fn L (calls t) ?c"
  let ?u = "t\<lparr>calls := calls t @ [(?c, ?r)]\<rparr>"
  have t: "msgs_inv t" "core t = k" using assms(3) by (simp_all add: at_def)
  have "wp (ccall L ?c) (\<lambda>r u. (r_val r = 0 \<longrightarrow> claims u (r_out r)) \<and> msgs_inv u) (\<lambda>_ _. True) t"
    by (rule wp_hand_out [OF assms(2) t(1), where n = n]) (auto simp: in_hand_def claims_def quiet_inv)
  then have u: "r_val ?r = 0 \<Longrightarrow> claims ?u (r_out ?r)" "msgs_inv ?u"
    by (simp_all add: wp_async_call [OF assms(1)])
  have k: "core ?u = k" using t(2) by (simp add: core_def)
  have "Q ?r ?u"
  proof (cases "r_val ?r = 0")
    case True
    with u(1) k show ?thesis by (intro assms(4) claims_at_carried) simp_all
  next
    case False
    with u(2) k show ?thesis by (intro assms(5)) (simp_all add: at_def)
  qed
  then show ?thesis by (simp add: wp_async_call [OF assms(1)])
qed

lemma asend_safe:
  fixes t :: "'a aworld_scheme"
  assumes "async_lib L" and "fresh_lib L" and "returns_unsent L" and "at msgs_inv k t"
    and "fst k = Some a" and "usable L k"
  shows "wp (asend L n d) (\<lambda>_. at msgs_inv k) (\<lambda>_. at msgs_inv k) t"
proof -
  let ?E = "\<lambda>_. at msgs_inv k"
  have undo: "wp (undo_send L p e) Q ?E u" if "at (carried p a st Mine) k u"
    for p st e and u :: "'a aworld_scheme" and Q :: "unit \<Rightarrow> 'a aworld_scheme \<Rightarrow> bool"
    by (rule wp_undo_send [OF assms(1) that assms(5)])
  have tail: "wp (bnd helper_aio (\<lambda>a. bnd (ccall L (A (Aio_set_msg a p))) (\<lambda>_.
        andthen (upd_helper (h_sending_update (\<lambda>_. True))) (start_send L))))
      (\<lambda>_. wp (finish_send L n) ?E ?E) (\<lambda>e. wp (undo_send L p e) (\<lambda>_. wp (finish_send L n) ?E ?E) ?E) u"
    if "at (carried p a st Mine) k u" for p st and u :: "'a aworld_scheme"
    unfolding wp_bnd [of helper_aio]
    by (rule wp_helper_aio [OF that assms(5)])
      (use that in \<open>auto simp: wp_bnd wp_andthen upd_helper_def wp_modf
        intro!: wp_set_msg [OF assms(1)] wp_start_send [OF assms(1) _ assms(5)] parcel.at_helper
          wp_finish_send [OF assms(1,3) _ assms(5,6)]\<close>)
  have prep: "wp (andthen (prepare_aio L) (bnd helper_aio (\<lambda>a. bnd (ccall L (A (Aio_set_msg a p))) (\<lambda>_.
        andthen (upd_helper (h_sending_update (\<lambda>_. True))) (start_send L)))))
      (\<lambda>_. wp (finish_send L n) ?E ?E) (\<lambda>e. wp (undo_send L p e) (\<lambda>_. wp (finish_send L n) ?E ?E) ?E) u"
    if "at (carried p a st Mine) k u" for p st and u :: "'a aworld_scheme"
    unfolding wp_andthen [of "prepare_aio L"]
    by (rule wp_mono [OF parcel.wp_prepare [OF assms(1) that]]) (auto intro: tail undo)
  have body: "wp (try_except
         (bnd (as_memoryview d) (\<lambda>b.
          bnd (ccall L (M (Msg_append p (copied b)))) (\<lambda>x.
          andthen (check_err L (r_val x)) (
          andthen (prepare_aio L) (
          bnd helper_aio (\<lambda>a.
          bnd (ccall L (A (Aio_set_msg a p))) (\<lambda>_.
          andthen (upd_helper (h_sending_update (\<lambda>_. True))) (start_send L))))))))
         (undo_send L p)) (\<lambda>_. wp (finish_send L n) ?E ?E) ?E u"
    if u: "at (carried p a st Mine) k u" for p st and u :: "'a aworld_scheme"
  proof -
    have ap: "wp (ccall L (M (Msg_append p bs))) Q E u" if "\<And>r v. at (carried p a st Mine) k v \<Longrightarrow> Q r v" for bs Q E
    proof -
      let ?c = "M (Msg_append p bs)"
      have c: "carried p a st Mine u" "core u = k" using u by (simp_all add: at_def)
      then have "pend (led (calls u)) a = st" "own (led (calls u)) p = Mine" by (simp_all add: carried_def)
      with carried_call [OF c(1), of ?c "fn L (calls u) ?c"] c(2)
      have "at (carried p a st Mine) k (u\<lparr>calls := calls u @ [(?c, fn L (calls u) ?c)]\<rparr>)"
        by (simp add: led_msg_def uses_msg_def at_def)
      with that show ?thesis by (simp add: wp_async_call [OF assms(1)])
    qed
    show ?thesis
      unfolding wp_except wp_bnd [of "as_memoryview d"] wp_as_memoryview
      by (cases d) (auto simp: wp_bnd [of "ccall L (M (Msg_append p b))" for b]
          wp_andthen [of "check_err L e" for e]
          intro!: ap prep undo parcel.wp_checked [OF assms(1), where k = k and p = p and a = a and st = st and x = Mine]
          intro: u)
  qed
  have err: "wp (check_err L e) Q ?E u" if "at msgs_inv k u" "e = 0 \<Longrightarrow> Q () u" for e and u :: "'a aworld_scheme" and Q
    by (rule inv.wp_checked [OF assms(1) that(1)]) (use that(2) in auto)
  show ?thesis
    unfolding asend_def wp_bnd [of "ccall L (M (Msg_alloc 0))"] Let_def
    by (rule wp_alloc [OF assms(1,2,4), where a = a])
      (auto simp: wp_andthen [of "check_err L e" for e] wp_andthen [of "try_except m h" for m h]
        intro!: err intro: body dest: carried_inv)
qed

definition same_msgs :: "(nat \<Rightarrow> message) \<Rightarrow> 'a mworld_scheme \<Rightarrow> bool" where
  "same_msgs ms t \<longleftrightarrow> msgs_inv t \<and> msgs t = ms"

interpretation objs: stable "same_msgs ms"
  by unfold_locales (simp_all add: same_msgs_def msgs_inv_mute)

lemma same_msgs_inv: "at (same_msgs ms) k t \<Longrightarrow> at msgs_inv k t"
  by (simp add: at_def same_msgs_def)

text \<open>Giving the message of an object to the aio, and marking the object as sent.\<close>

lemma wp_hand_over:
  assumes "async_lib L" and "at (same_msgs ms) k t" and "nng_msg (ms i) = Some p"
    and "\<not> mem_freed (ms i)" and "\<not> gone (ms i)"
    and "\<And>u. at (carried p a (AHold p) Mine) k u \<Longrightarrow> Q () u"
  shows "wp (ccall L (A (Aio_set_msg a p))) (\<lambda>_. wp (upd_msg i (mem_freed_update (\<lambda>_. True))) Q E) E t"
proof -
  let ?c = "A (Aio_set_msg a p)"
  let ?u = "t\<lparr>calls := calls t @ [(?c, fn L (calls t) ?c)]\<rparr>"
  let ?v = "?u\<lparr>msgs := (msgs ?u)(i := (msgs ?u i)\<lparr>mem_freed := True\<rparr>)\<rparr>"
  have t: "msgs_inv t" "msgs t = ms" "core t = k" using assms(2) by (simp_all add: at_def same_msgs_def)
  have lv: "live t i p" using assms(3-5) t(2) by (simp add: live_def)
  have u: "quiet t ?u"
    using t(1) lv by (intro quiet_call) (auto simp: safe_call_def live_own)
  then have iu: "msgs_inv ?u" "live ?u i p" using lv by (simp_all add: quiet_inv quiet_live)
  have "p \<noteq> 0" using t(1) lv unfolding msgs_inv_def by blast
  then have "pend (led (calls ?u)) a = AHold p" by (simp add: led_aio_def)
  with live_give_up [OF iu] t(3) have "at (carried p a (AHold p) Mine) k ?v"
    by (simp add: at_def carried_def sending_def)
  with assms(6) show ?thesis by (simp add: wp_async_call [OF assms(1)] wp_upd_msg)
qed

lemma asend_msg_safe:
  fixes t :: "'a aworld_scheme"
  assumes "async_lib L" and "returns_unsent L" and "at msgs_inv k t" and "\<not> gone (msgs t i)"
    and "fst k = Some a" and "usable L k"
  shows "wp (asend_msg L n i) (\<lambda>_. at msgs_inv k) (\<lambda>_. at msgs_inv k) t"
proof (cases "mem_freed (msgs t i) \<or> fork_detected t")
  case True
  with assms(3) show ?thesis
    by (auto simp: asend_msg_def wp_andthen [of "ensure_can_send i"] wp_ensure_can_send wp_check_not_sent)
next
  case False
  let ?E = "\<lambda>_. at msgs_inv k :: 'a aworld_scheme \<Rightarrow> bool" and ?ms = "msgs t"
  define rest :: "int \<Rightarrow> int \<Rightarrow> 'a aworld_scheme \<Rightarrow> bool" where
    "rest = (\<lambda>a p. wp (andthen (upd_helper (h_sending_update (\<lambda>_. True)))
      (andthen (try_except (start_send L) (undo_send L p)) (finish_send L n))) ?E ?E)"
  have rest: "rest a p u" if "at (carried p a (AHold p) Mine) k u" for p and u :: "'a aworld_scheme"
  proof -
    have "at (carried p a (AHold p) Mine) k (u\<lparr>helper := (helper u)\<lparr>h_sending := True\<rparr>\<rparr>)"
      using that by (intro parcel.at_helper) simp_all
    then show ?thesis
      unfolding rest_def wp_andthen upd_helper_def wp_modf wp_except
      by (intro wp_start_send [OF assms(1) _ assms(5)])
        (auto intro: wp_finish_send [OF assms(1,2) _ assms(5,6)])
  qed
  have body: "wp (bnd helper_aio (\<lambda>a. bnd (msg_ptr i) (\<lambda>p. bnd (ccall L (A (Aio_set_msg a p))) (\<lambda>_.
     andthen (upd_msg i (mem_freed_update (\<lambda>_. True))) (
     andthen (upd_helper (h_sending_update (\<lambda>_. True)))
     (andthen (try_except (start_send L) (undo_send L p)) (finish_send L n))))))) ?E ?E u"
    if u: "at (same_msgs ?ms) k u" for u :: "'a aworld_scheme"
  proof -
    have m: "msgs u = ?ms" using u by (simp add: at_def same_msgs_def)
    have "wp (bnd (msg_ptr i) (\<lambda>p. bnd (ccall L (A (Aio_set_msg a p))) (\<lambda>_.
     andthen (upd_msg i (mem_freed_update (\<lambda>_. True))) (
     andthen (upd_helper (h_sending_update (\<lambda>_. True)))
     (andthen (try_except (start_send L) (undo_send L p)) (finish_send L n)))))) ?E ?E u"
      unfolding wp_bnd wp_msg_ptr m wp_andthen [of "upd_msg i f" for f]
      using False assms(4) same_msgs_inv [OF u]
      by (auto intro!: wp_hand_over [OF assms(1) u] rest [unfolded rest_def])
    then show ?thesis
      unfolding wp_bnd [of helper_aio] by (intro wp_helper_aio [OF u assms(5)])
  qed
  have t0: "at (same_msgs ?ms) k t" using assms(3) by (simp add: at_def same_msgs_def)
  show ?thesis
    unfolding asend_msg_def wp_andthen [of "ensure_can_send i"] wp_ensure_can_send wp_check_not_sent
      wp_andthen [of "prepare_aio L"]
    using False
    by (auto intro!: wp_mono [OF objs.wp_prepare [OF assms(1) t0]] intro: body same_msgs_inv)
qed

lemma wp_inv_call_helper:
  fixes t :: "'a aworld_scheme"
  assumes "async_lib L" and "msgs_inv t" and "neutral c" and "uses c = None" and "\<And>b. c \<noteq> A (Await_shield b)"
    and "\<And>r v. msgs_inv v \<Longrightarrow> helper v = helper t \<Longrightarrow> Q r v"
  shows "wp (ccall L c) Q E t"
proof -
  have "quiet t (t\<lparr>calls := calls t @ [(c, fn L (calls t) c)]\<rparr>)"
    using assms(2-4) by (intro quiet_call) (simp_all add: safe_call_def)
  then have "Q (fn L (calls t) c) (t\<lparr>calls := calls t @ [(c, fn L (calls t) c)]\<rparr>)"
    by (intro assms(6)) (simp_all add: quiet_inv)
  then show ?thesis using assms(5) by (simp add: wp_async_call [OF assms(1)])
qed

lemma wp_inv_checked_helper:
  fixes t :: "'a aworld_scheme"
  assumes "async_lib L" and "msgs_inv t" and "e = 0 \<Longrightarrow> Q () t"
    and "\<And>x v. msgs_inv v \<Longrightarrow> helper v = helper t \<Longrightarrow> E x v"
  shows "wp (check_err L e) Q E t"
  using assms(2-) by (auto simp: wp_check_err simp del: wp_ccall intro!: wp_inv_call_helper [OF assms(1)])

lemma wp_free_aio:
  assumes "async_lib L" and "msgs_inv t" and "\<not> h_sending (helper t)"
  shows "wp (free_aio L a) (\<lambda>_. msgs_inv) (\<lambda>_. msgs_inv) t"
  unfolding free_aio_def using assms(2,3)
  by (auto simp: wp_andthen wp_bnd get_helper_def wp_getf wp_whenp upd_helper_def wp_modf
      intro!: wp_inv_call_helper [OF assms(1)] simp del: wp_ccall)

section \<open>The helper between operations\<close>

text \<open>A helper that can be used, with the flag \<open>b\<close> for sending; at rest, it holds no slot and no future.\<close>

definition held :: "bool \<Rightarrow> int option \<times> bool \<times> backend option \<Rightarrow> aio_helper \<Rightarrow> bool" where
  "held b k h \<longleftrightarrow> (h_aio h, h_engine h, h_awaitable h) = k \<and> h_aio h \<noteq> None \<and> h_sending h = b \<and>
     (h_engine h \<longrightarrow> h_entry h \<noteq> None)"

definition at_rest :: "bool \<Rightarrow> int option \<times> bool \<times> backend option \<Rightarrow> aio_helper \<Rightarrow> bool" where
  "at_rest b k h \<longleftrightarrow> held b k h \<and> (h_engine h \<longrightarrow> h_slot h = None \<and> h_fut h = None)"

definition hlp :: "(aio_helper \<Rightarrow> bool) \<Rightarrow> 'a aworld_scheme \<Rightarrow> bool" where
  "hlp H u \<longleftrightarrow> H (helper u)"

lemma rest_held: "hlp (at_rest b k) u \<Longrightarrow> hlp (held b k) u"
  by (simp add: hlp_def at_rest_def)

lemma hlp_upds [simp]:
  "hlp H (w\<lparr>calls := cs\<rparr>) = hlp H w" "hlp H (w\<lparr>esys := es\<rparr>) = hlp H w"
  "hlp H (w\<lparr>next_fut := k\<rparr>) = hlp H w" "hlp H (w\<lparr>msgs := ms\<rparr>) = hlp H w"
  "hlp H (w\<lparr>next_msg := j\<rparr>) = hlp H w"
  by (simp_all add: hlp_def)

lemma held_upds [simp]:
  "held b k (h\<lparr>h_slot := s\<rparr>) = held b k h" "held b k (h\<lparr>h_fut := f\<rparr>) = held b k h"
  "held c k (h\<lparr>h_sending := c\<rparr>) = held (h_sending h) k h"
  by (auto simp: held_def)

lemma hlp_call:
  assumes "async_lib L" and "hlp H t" and "\<And>r u. hlp H u \<Longrightarrow> Q r u" and "\<And>e u. hlp H u \<Longrightarrow> E e u"
  shows "wp (ccall L c) Q E t"
  using assms by (simp add: wp_ccall split: option.split)

lemma hlp_call_only:
  assumes "async_lib L" and "hlp H t" and "\<And>a. c \<noteq> A (Await_shield a)" and "\<And>r u. hlp H u \<Longrightarrow> Q r u"
  shows "wp (ccall L c) Q E t"
  using assms by (simp add: wp_async_call)

lemma hlp_checked:
  assumes "async_lib L" and "hlp H t" and "Q () t" and "\<And>e u. hlp H u \<Longrightarrow> E e u"
  shows "wp (check_err L n) Q E t"
  using assms(2-) by (auto simp: wp_check_err simp del: wp_ccall intro!: hlp_call [OF assms(1), where H = H])

lemma hlp_release:
  assumes "async_lib L" and "hlp (held b k) t"
  shows "wp (release_slot L) (\<lambda>_. hlp (at_rest b k)) E t"
proof -
  have set0: "wp (ccall L (Fn f xs)) (\<lambda>_. hlp (at_rest b k)) E u" if "hlp (at_rest b k) u"
    for f xs and u :: "'a aworld_scheme"
    using that by (simp add: wp_async_call [OF assms(1)])
  show ?thesis
    using assms(2)
    by (auto simp: release_slot_def drop_slot_def get_helper_def upd_helper_def entry_set_slot_def wp_simps
        simp del: wp_ccall split: option.split intro!: set0)
      (auto simp: hlp_def at_rest_def)
qed

lemma hlp_cleanup:
  assumes "async_lib L" and "hlp (held b k) t"
  shows "wp (cleanup_prepared_aio L) (\<lambda>_. hlp (at_rest b k)) E t"
  using hlp_release [OF assms] assms(2)
  by (auto simp: cleanup_prepared_aio_def get_helper_def wp_bnd wp_getf wp_whenp hlp_def at_rest_def)

lemma hlp_prepare:
  assumes "async_lib L" and "hlp (at_rest b k) t"
  shows "wp (prepare_aio L) (\<lambda>_. hlp (held b k)) (\<lambda>_. hlp (at_rest b k)) t"
proof -
  have set0: "wp (ccall L (Fn f xs)) (\<lambda>_. hlp (held b k)) E u" if "hlp (held b k) u"
    for f xs E and u :: "'a aworld_scheme"
    using that by (simp add: wp_async_call [OF assms(1)])
  show ?thesis
    using assms(2)
    by (auto simp: prepare_aio_def new_slot_def get_helper_def upd_helper_def entry_set_slot_def ptr_of_def
        Let_def wp_simps simp del: wp_ccall split: option.split prod.split intro!: set0)
      (auto simp: hlp_def at_rest_def held_def)
qed

lemma hlp_shield:
  assumes "async_lib L"
  shows "hlp H t \<Longrightarrow> wp (shield_loop L n a c) (\<lambda>_. hlp H) (\<lambda>_. hlp H) t"
proof (induction n arbitrary: t c)
  case (Suc n)
  show ?case
    using Suc.prems
    by (auto simp: wp_simps simp del: wp_ccall intro!: Suc.IH hlp_call [OF assms, where H = H])
qed (simp add: wp_ret)

lemma hlp_wait_result:
  assumes "async_lib L" and "hlp H t"
  shows "wp (wait_result L a c) (\<lambda>_. hlp H) (\<lambda>_. hlp H) t"
  using assms(2)
  by (auto simp: wait_result_def wp_simps simp del: wp_ccall
      intro!: hlp_call [OF assms(1), where H = H] hlp_checked [OF assms(1), where H = H])

definition rested :: "bool \<Rightarrow> int option \<times> bool \<times> backend option \<Rightarrow> 'b option \<Rightarrow> 'a aworld_scheme \<Rightarrow> bool" where
  "rested b k x u \<longleftrightarrow> hlp (if x = None then held b k else at_rest b k) u"

lemma rested_simps [simp]:
  "rested b k None u = hlp (held b k) u" "rested b k (Some y) u = hlp (at_rest b k) u"
  by (simp_all add: rested_def)

lemma rested_res: "hlp (at_rest b k) u \<Longrightarrow> rested b k x u"
  by (cases x) (simp_all add: rest_held)

lemma hlp_wait:
  assumes "async_lib L" and "hlp (held b k) t"
  shows "wp (wait_for_aio L n) (rested b k) (\<lambda>_. hlp (at_rest b k)) t"
proof -
  have res: "wp (wait_result L a c) (rested b k) (\<lambda>_. hlp (at_rest b k)) u"
    if "hlp (at_rest b k) u" for a c and u :: "'a aworld_scheme"
    by (rule wp_mono [OF hlp_wait_result [OF assms(1) that]]) (auto intro: rested_res)
  have rel: "wp (release_slot L) (\<lambda>_. wp (wait_result L a c) (rested b k) (\<lambda>_. hlp (at_rest b k))) (\<lambda>_. hlp (at_rest b k)) u"
    if "hlp (held b k) u" for a c and u :: "'a aworld_scheme"
    by (rule wp_mono [OF hlp_release [OF assms(1) that]]) (auto intro: res)
  have rel': "wp (release_slot L) (\<lambda>_. hlp (at_rest b k)) (\<lambda>_. hlp (at_rest b k)) u"
    if "hlp (held b k) u" for u :: "'a aworld_scheme"
    by (rule hlp_release [OF assms(1) that])
  have engine: "wp (bnd_some (finally_some (shield_loop L n a False) (release_slot L)) (wait_result L a))
      (rested b k) (\<lambda>_. hlp (at_rest b k)) t" for a
    unfolding wp_bnd_some wp_finally_some
    by (rule wp_mono [OF hlp_shield [OF assms]]) (auto split: option.split intro: rel rel')
  have k: "at_rest b k h \<longleftrightarrow> held b k h" if "\<not> h_engine h" for h
    using that by (simp add: at_rest_def)
  have plain: "wp (asyncio_wait L n a) (rested b k) (\<lambda>_. hlp (at_rest b k)) t" if "\<not> h_engine (helper t)" for a
  proof -
    have "hlp (at_rest b k) t" using assms(2) that by (simp add: hlp_def k)
    then show ?thesis
      unfolding asyncio_wait_def wp_bnd_some
      by (intro wp_mono [OF hlp_shield [OF assms(1)]]) (auto split: option.split intro: res rest_held)
  qed
  have trio: "wp (trio_wait L a) (rested b k) (\<lambda>_. hlp (at_rest b k)) t" if "\<not> h_engine (helper t)" for a
  proof -
    have "hlp (at_rest b k) t" using assms(2) that by (simp add: hlp_def k)
    then show ?thesis
      by (auto simp: trio_wait_def Let_def wp_simps simp del: wp_ccall wp_check_err
          intro!: hlp_call [OF assms(1), where H = "at_rest b k"]
            hlp_checked [OF assms(1), where H = "at_rest b k"])
  qed
  obtain a where a: "h_aio (helper t) = Some a" using assms(2) by (auto simp: hlp_def held_def)
  have bad: "hlp (at_rest b k) t" if "\<not> h_engine (helper t)"
    using assms(2) that by (simp add: hlp_def k)
  show ?thesis
    using engine [of a] plain [of a] trio [of a] bad
    by (auto simp: wait_for_aio_def get_helper_def helper_aio_def ptr_of_def wp_bnd wp_getf wp_ret wp_raise a wp_if
        split: option.split backend.split)
qed

lemma hlp_helper_aio:
  assumes "hlp (held b k) t" and "\<And>a. Q a t"
  shows "wp helper_aio Q E t"
  using assms by (auto simp: helper_aio_def get_helper_def ptr_of_def wp_simps hlp_def held_def split: option.split)

lemma hlp_after_failed:
  assumes "async_lib L" and "hlp (at_rest b k) t"
  shows "wp (after_failed L e) Q (\<lambda>_. hlp (at_rest b k)) t"
  unfolding after_failed_def wp_bnd
  by (rule hlp_helper_aio [OF rest_held [OF assms(2)]])
    (use assms(2) in \<open>auto simp: free_leftover_def wp_simps simp del: wp_ccall
      intro!: hlp_call_only [OF assms(1), where H = "at_rest b k"]\<close>)

lemma mk_message_hlp: "hlp H t \<Longrightarrow> wp (mk_message L (FromPtr q) NoPipe) (\<lambda>_. hlp H) (\<lambda>_. hlp H) t"
  by (auto simp: mk_message_def new_message_def message_init_def fresh_message_def wp_simps hlp_def)

lemma hlp_arecv_msg:
  assumes "async_lib L" and "hlp (at_rest False k) t"
  shows "wp (arecv_msg L n) (rested False k) (\<lambda>_. hlp (at_rest False k)) t"
proof -
  let ?E = "\<lambda>_. hlp (at_rest False k)"
  have take: "wp (take_received L) (rested False k) ?E u" if "hlp (at_rest False k) u" for u :: "'a aworld_scheme"
    unfolding take_received_def wp_bnd [of helper_aio]
    by (rule hlp_helper_aio [OF rest_held [OF that]])
      (use that in \<open>auto simp: wp_bnd [of "ccall L c" for c] wp_andthen wp_bnd [of "mk_message L d p" for d p] wp_ret
        simp del: wp_ccall wp_check_err
        intro!: hlp_call_only [OF assms(1), where H = "at_rest False k"] wp_mono [OF mk_message_hlp]
          hlp_checked [OF assms(1), where H = "at_rest False k"]\<close>)
  have wait: "wp (bnd_some (try_except (wait_for_aio L n) (after_failed L)) (\<lambda>_. take_received L))
      (rested False k) ?E u" if "hlp (held False k) u" for u :: "'a aworld_scheme"
    unfolding wp_bnd_some wp_except
    by (rule wp_mono [OF hlp_wait [OF assms(1) that]])
      (auto split: option.split intro: take hlp_after_failed [OF assms(1)])
  have undo: "wp (andthen (cleanup_prepared_aio L) (raise_exc e)) Q ?E u" if "hlp (held False k) u"
    for u :: "'a aworld_scheme" and Q e
    unfolding wp_andthen wp_raise by (rule hlp_cleanup [OF assms(1) that])
  have start: "wp (try_except (start_arecv L) (\<lambda>e. andthen (cleanup_prepared_aio L) (raise_exc e)))
      (\<lambda>_. wp (bnd_some (try_except (wait_for_aio L n) (after_failed L)) (\<lambda>_. take_received L)) (rested False k) ?E) ?E u"
    if "hlp (held False k) u" for u :: "'a aworld_scheme"
    unfolding wp_except start_arecv_def wp_bnd [of helper_aio]
    by (rule hlp_helper_aio [OF that])
      (use that in \<open>auto simp: wp_bnd [of "ccall L c" for c] wp_bnd [of "getf f" for f] get_helper_def wp_getf
        simp del: wp_ccall wp_check_err
        intro!: hlp_call_only [OF assms(1), where H = "held False k"] wait undo
          hlp_checked [OF assms(1), where H = "held False k"]\<close>)
  show ?thesis
    unfolding arecv_msg_def wp_andthen
    by (rule wp_mono [OF hlp_prepare [OF assms]]) (auto intro: start)
qed

lemma hlp_sending: "hlp (held b k) u \<Longrightarrow> helper v = (helper u)\<lparr>h_sending := c\<rparr> \<Longrightarrow> hlp (held c k) v"
  by (simp add: hlp_def held_def)

lemma rest_sending: "hlp (at_rest b k) u \<Longrightarrow> hlp (at_rest c k) (u\<lparr>helper := (helper u)\<lparr>h_sending := c\<rparr>\<rparr>)"
  by (simp add: hlp_def at_rest_def held_def)

text \<open>The result of a send: unless it still waits, the helper is at rest again.\<close>

definition sent_rest :: "int option \<times> bool \<times> backend option \<Rightarrow> 'b option \<Rightarrow> 'a aworld_scheme \<Rightarrow> bool" where
  "sent_rest k x u \<longleftrightarrow> (x \<noteq> None \<longrightarrow> hlp (at_rest False k) u)"

lemma hlp_finish_send:
  assumes "async_lib L" and "hlp (held True k) t"
  shows "wp (finish_send L n) (sent_rest k) (\<lambda>_. hlp (at_rest False k)) t"
proof -
  have "wp (try_except (wait_for_aio L n) (after_failed L)) (rested True k) (\<lambda>_. hlp (at_rest True k)) t"
    unfolding wp_except
    by (rule wp_mono [OF hlp_wait [OF assms]]) (auto intro: hlp_after_failed [OF assms(1)])
  then show ?thesis
    unfolding finish_send_def wp_finally_some
    by (rule wp_mono)
      (auto simp: upd_helper_def wp_modf sent_rest_def split: option.split intro: rest_sending)
qed

lemma hlp_undo_send:
  assumes "async_lib L" and "hlp (held b k) t"
  shows "wp (undo_send L p e) Q (\<lambda>_. hlp (at_rest False k)) t"
proof -
  have fr: "wp (bnd helper_aio (\<lambda>a. bnd (ccall L (A (Aio_set_msg a 0))) (\<lambda>_.
      bnd (ccall L (M (Msg_free p))) (\<lambda>_. raise_exc e)))) Q (\<lambda>_. hlp (at_rest False k)) u"
    if "hlp (at_rest False k) u" for u :: "'a aworld_scheme"
    unfolding wp_bnd [of helper_aio]
    by (rule hlp_helper_aio [OF rest_held [OF that]])
      (use that in \<open>simp add: wp_bnd wp_raise wp_async_call [OF assms(1)]\<close>)
  have "hlp (held False k) (t\<lparr>helper := (helper t)\<lparr>h_sending := False\<rparr>\<rparr>)"
    by (rule hlp_sending [OF assms(2)]) simp
  then show ?thesis
    unfolding undo_send_def wp_andthen upd_helper_def wp_modf
    by (intro wp_mono [OF hlp_cleanup [OF assms(1)]]) (auto intro: fr)
qed

lemma hlp_start_send:
  assumes "async_lib L" and "hlp (held b k) t" and "\<And>u. hlp (held b k) u \<Longrightarrow> Q () u"
    and "\<And>e u. hlp (held b k) u \<Longrightarrow> E e u"
  shows "wp (start_send L) Q E t"
  unfolding start_send_def wp_bnd [of helper_aio]
  by (rule hlp_helper_aio [OF assms(2)])
    (use assms(2-) in \<open>auto simp: wp_bnd [of "ccall L c" for c] wp_bnd [of "getf f" for f] get_helper_def wp_getf
        simp del: wp_ccall wp_check_err
        intro!: hlp_call_only [OF assms(1), where H = "held b k"] hlp_checked [OF assms(1), where H = "held b k"]\<close>)

lemma hlp_asend:
  fixes t :: "'a aworld_scheme"
  assumes "async_lib L" and "hlp (at_rest False k) t"
  shows "wp (asend L n d) (sent_rest k) (\<lambda>_. hlp (at_rest False k)) t"
proof -
  let ?E = "\<lambda>_. hlp (at_rest False k) :: 'a aworld_scheme \<Rightarrow> bool"
  let ?R = "\<lambda>_. wp (finish_send L n) (sent_rest k) ?E"
  note call = hlp_call_only [OF assms(1), where H = "at_rest False k"]
  have undo: "wp (undo_send L p e) ?R ?E u" if "hlp (held b k) u" for p e b and u :: "'a aworld_scheme"
    by (rule hlp_undo_send [OF assms(1) that])
  have go: "wp (start_send L) ?R (\<lambda>e. wp (undo_send L p e) ?R ?E) u" if "hlp (held True k) u"
    for p and u :: "'a aworld_scheme"
    by (rule hlp_start_send [OF assms(1) that]) (auto intro: hlp_finish_send [OF assms(1)] undo)
  have fill: "wp (bnd helper_aio (\<lambda>a. bnd (ccall L (A (Aio_set_msg a p))) (\<lambda>_.
        andthen (upd_helper (h_sending_update (\<lambda>_. True))) (start_send L))))
      ?R (\<lambda>e. wp (undo_send L p e) ?R ?E) u" if "hlp (held False k) u" for p and u :: "'a aworld_scheme"
    unfolding wp_bnd [of helper_aio]
    by (rule hlp_helper_aio [OF that])
      (use that in \<open>auto simp: wp_bnd wp_andthen upd_helper_def wp_modf wp_async_call [OF assms(1)]
        intro!: go hlp_sending [OF that]\<close>)
  have prep: "wp (andthen (prepare_aio L) (bnd helper_aio (\<lambda>a. bnd (ccall L (A (Aio_set_msg a p))) (\<lambda>_.
        andthen (upd_helper (h_sending_update (\<lambda>_. True))) (start_send L)))))
      ?R (\<lambda>e. wp (undo_send L p e) ?R ?E) u" if "hlp (at_rest False k) u" for p and u :: "'a aworld_scheme"
    unfolding wp_andthen [of "prepare_aio L"]
    by (rule wp_mono [OF hlp_prepare [OF assms(1) that]]) (auto intro: fill undo rest_held)
  have body: "wp (try_except
         (bnd (as_memoryview d) (\<lambda>b.
          bnd (ccall L (M (Msg_append p (copied b)))) (\<lambda>x.
          andthen (check_err L (r_val x)) (
          andthen (prepare_aio L) (
          bnd helper_aio (\<lambda>a.
          bnd (ccall L (A (Aio_set_msg a p))) (\<lambda>_.
          andthen (upd_helper (h_sending_update (\<lambda>_. True))) (start_send L))))))))
         (undo_send L p)) ?R ?E u" if u: "hlp (at_rest False k) u" for p and u :: "'a aworld_scheme"
    unfolding wp_except wp_bnd [of "as_memoryview d"] wp_as_memoryview
    by (cases d) (auto simp: wp_bnd [of "ccall L (M (Msg_append p b))" for b]
        wp_andthen [of "check_err L e" for e] simp del: wp_check_err
        intro!: call hlp_checked [OF assms(1), where H = "at_rest False k"] prep undo rest_held intro: u)
  show ?thesis
    unfolding asend_def wp_bnd [of "ccall L (M (Msg_alloc 0))"] Let_def
    by (rule call [OF assms(2)])
      (auto simp: wp_andthen [of "check_err L e" for e] wp_andthen [of "try_except m h" for m h]
        simp del: wp_check_err intro!: hlp_checked [OF assms(1), where H = "at_rest False k"] body)
qed

lemma hlp_asend_msg:
  fixes t :: "'a aworld_scheme"
  assumes "async_lib L" and "hlp (at_rest False k) t" and "msgs_inv t" and "\<not> gone (msgs t i)"
    and "nng_msg (msgs t i) \<noteq> None"
  shows "wp (asend_msg L n i) (sent_rest k) (\<lambda>_. hlp (at_rest False k)) t"
proof (cases "mem_freed (msgs t i) \<or> fork_detected t")
  case True
  with assms(2) show ?thesis
    by (auto simp: asend_msg_def wp_andthen [of "ensure_can_send i"] wp_ensure_can_send wp_check_not_sent)
next
  case False
  let ?E = "\<lambda>_. hlp (at_rest False k) :: 'a aworld_scheme \<Rightarrow> bool"
  have undo: "wp (undo_send L p e) (\<lambda>_. wp (finish_send L n) (sent_rest k) ?E) ?E u"
    if "hlp (held b k) u" for p e b and u :: "'a aworld_scheme"
    by (rule hlp_undo_send [OF assms(1) that])
  have go: "wp (start_send L) (\<lambda>_. wp (finish_send L n) (sent_rest k) ?E)
      (\<lambda>e. wp (undo_send L p e) (\<lambda>_. wp (finish_send L n) (sent_rest k) ?E) ?E) u"
    if "hlp (held True k) u" for p and u :: "'a aworld_scheme"
    by (rule hlp_start_send [OF assms(1) that]) (auto intro: hlp_finish_send [OF assms(1)] undo)
  have body: "wp (bnd helper_aio (\<lambda>a. bnd (msg_ptr i) (\<lambda>p. bnd (ccall L (A (Aio_set_msg a p))) (\<lambda>_.
     andthen (upd_msg i (mem_freed_update (\<lambda>_. True))) (
     andthen (upd_helper (h_sending_update (\<lambda>_. True)))
     (andthen (try_except (start_send L) (undo_send L p)) (finish_send L n))))))) (sent_rest k) ?E u"
    if u: "hlp (held False k) u" and p: "nng_msg (msgs u i) = Some p" for p and u :: "'a aworld_scheme"
    unfolding wp_bnd [of helper_aio]
    by (rule hlp_helper_aio [OF u])
      (use u p in \<open>auto simp: wp_bnd [of "ccall L c" for c] wp_bnd [of "msg_ptr i"] wp_msg_ptr
        wp_andthen upd_helper_def upd_msg_def wp_modf wp_async_call [OF assms(1)] wp_except
        intro!: go hlp_sending [OF u]\<close>)
  have t0: "at (same_msgs (msgs t)) (core t) t" using assms(3) by (simp add: at_def same_msgs_def)
  have u: "\<exists>p. nng_msg (msgs u i) = Some p" if "at (same_msgs (msgs t)) (core t) u" for u :: "'a aworld_scheme"
    using assms(5) that by (simp add: at_def same_msgs_def)
  have p: "wp (prepare_aio L) (\<lambda>_ u. hlp (held False k) u \<and> at (same_msgs (msgs t)) (core t) u)
      (\<lambda>_ u. hlp (at_rest False k) u \<and> at (same_msgs (msgs t)) (core t) u) t"
    by (rule wp_conj [OF hlp_prepare [OF assms(1,2)] objs.wp_prepare [OF assms(1) t0]])
  show ?thesis
    unfolding asend_msg_def wp_andthen [of "ensure_can_send i"] wp_ensure_can_send wp_check_not_sent
      wp_andthen [of "prepare_aio L"]
    using False by (auto intro!: wp_mono [OF p] intro: body dest!: u)
qed

section \<open>The life of a helper\<close>

text \<open>
  A helper is made, used and freed. With an engine it can be used again; without one its
  awaitable is a coroutine, which Python awaits once, so after one operation it can only be freed.
  A run stops at an operation that still waits. Between the operations messages are made and
  dropped, and the event loop may do anything with the engine.
\<close>

datatype life = Resting | Spent | Parked | Released

type_synonym aconfig = "nng_lib \<times> life \<times> aworld"

definition used :: "nng_lib \<Rightarrow> (pyexc + 'b option) \<times> aworld \<Rightarrow> aconfig" where
  "used L rw = (L, (if fst rw = Inr None then Parked else if h_engine (helper (snd rw)) then Resting else Spent),
     snd rw)"

inductive astep :: "aconfig \<Rightarrow> aconfig \<Rightarrow> bool" where
  as_recv_msg: "astep (L, Resting, w) (used L (arecv_msg L n w))"
| as_recv: "astep (L, Resting, w) (used L (arecv L n w))"
| as_send: "astep (L, Resting, w) (used L (asend L n d w))"
| as_send_msg: "\<not> gone (msgs w i) \<Longrightarrow> nng_msg (msgs w i) \<noteq> None \<Longrightarrow>
    astep (L, Resting, w) (used L (asend_msg L n i w))"
| as_free: "m = Resting \<or> m = Spent \<Longrightarrow> astep (L, m, w) (L, Released, snd (helper_free L w))"
| as_new: "astep (L, m, w) (L, m, snd (mk_message L (FromData d) p w))"
| as_del: "\<not> gone (msgs w i) \<Longrightarrow> astep (L, m, w) (L, m, snd (msg_del L i w))"
| as_loop: "astep (L, m, w) (L, m, w\<lparr>esys := es, loop_open := o'\<rparr>)"

definition ainit :: "aconfig \<Rightarrow> bool" where
  "ainit s = (case s of (L, m, w) \<Rightarrow> m = Resting \<and> fresh_lib L \<and> recv_lib L \<and> async_lib L \<and> returns_unsent L \<and>
     (h_awaitable (helper w) = Some Trio \<longrightarrow> never_cancels L) \<and>
     (\<exists>w0 ob rf sf b cur e. calls w0 = [] \<and> (\<forall>i. nng_msg (msgs w0 i) = None) \<and>
        helper_init L ob rf sf b cur e w0 = (Inr (), w)))"

definition ainv :: "aconfig \<Rightarrow> bool" where
  "ainv s = (case s of (L, m, w) \<Rightarrow> fresh_lib L \<and> recv_lib L \<and> async_lib L \<and> returns_unsent L \<and> msgs_inv w \<and>
     (m = Resting \<or> m = Spent \<longrightarrow> hlp (at_rest False (core w)) w \<and> usable L (core w)))"

lemma wp_helper_init:
  assumes "async_lib L" and "msgs_inv t"
  shows "wp (helper_init L ob rf sf b cur e)
    (\<lambda>_ u. msgs_inv u \<and> hlp (at_rest False (core u)) u \<and>
       (h_engine (helper u) \<or> h_awaitable (helper u) = Some Asyncio \<or> h_awaitable (helper u) = Some Trio))
    (\<lambda>_. msgs_inv) t"
proof -
  let ?Q = "\<lambda>u :: 'a aworld_scheme. msgs_inv u \<and> hlp (at_rest False (core u)) u \<and>
       (h_engine (helper u) \<or> h_awaitable (helper u) = Some Asyncio \<or> h_awaitable (helper u) = Some Trio)"
  note calls = wp_inv_call_helper [OF assms(1)] wp_inv_checked_helper [OF assms(1)]
  let ?h = "fresh_helper\<lparr>h_obj := ob, h_recv := rf, h_send := sf\<rparr>"
  have en: "wp (init_engine_aio L) (\<lambda>_. ?Q) (\<lambda>_. msgs_inv) u" if "msgs_inv u" "helper u = ?h"
    for u :: "'a aworld_scheme"
    using that by (auto simp: init_engine_aio_def upd_helper_def wp_simps simp del: wp_ccall wp_check_err
      intro!: calls) (auto simp: hlp_def at_rest_def held_def core_def fresh_helper_def)
  have cb: "wp (init_callback_aio L k) (\<lambda>_. ?Q) (\<lambda>_. msgs_inv) u" if "msgs_inv u" "helper u = ?h"
    for u :: "'a aworld_scheme" and k
    using that by (cases k) (auto simp: init_callback_aio_def upd_helper_def wp_simps
        hlp_def at_rest_def held_def core_def fresh_helper_def simp del: wp_ccall wp_check_err intro!: calls)
  show ?thesis
    using assms(2)
    by (auto simp: helper_init_def upd_helper_def wp_andthen wp_modf wp_raise intro: en cb split: option.split)
qed

lemma wp_helper_free:
  assumes "async_lib L" and "msgs_inv t" and "\<not> h_sending (helper t)"
  shows "wp (helper_free L) (\<lambda>_. msgs_inv) (\<lambda>_. msgs_inv) t"
proof -
  note call = wp_inv_call_helper [OF assms(1)]
  have close: "wp close_dead_engine (\<lambda>_. msgs_inv) E u" if "msgs_inv u" for E and u :: "'a aworld_scheme"
    using that by (auto simp: close_dead_engine_def wp_modf split: option.split)
  have pop: "wp pop_callback (\<lambda>_. msgs_inv) E u" if "msgs_inv u" for E and u :: "'a aworld_scheme"
    using that by (auto simp: pop_callback_def get_helper_def wp_simps split: option.split)
  have upd: "wp (upd_helper f) (\<lambda>_. msgs_inv) E u" if "msgs_inv u" for E f and u :: "'a aworld_scheme"
    using that by (simp add: upd_helper_def wp_modf)
  have entry: "wp (bnd (get_helper h_entry) (\<lambda>en. case en of None \<Rightarrow> ret ()
         | Some e \<Rightarrow> bnd (ccall L (Fn f [CInt e])) (\<lambda>_. upd_helper (h_entry_update (\<lambda>_. None)))))
     (\<lambda>_. msgs_inv) E u" if "msgs_inv u" for E f and u :: "'a aworld_scheme"
    using that by (auto simp: get_helper_def wp_bnd wp_getf wp_ret simp del: wp_ccall split: option.split intro!: call upd)
  have aio: "wp (bnd (get_helper h_aio) (\<lambda>a. case a of None \<Rightarrow> ret () | Some a \<Rightarrow> free_aio L a))
     (\<lambda>_. msgs_inv) (\<lambda>_. msgs_inv) u" if "msgs_inv u" "\<not> h_sending (helper u)" for u :: "'a aworld_scheme"
    using that wp_free_aio [OF assms(1)]
    by (auto simp: get_helper_def wp_bnd wp_getf wp_ret split: option.split)
  have slot: "wp (bnd (get_helper h_engine) (\<lambda>e. whenp e drop_slot))
     (\<lambda>_ u. msgs_inv u \<and> \<not> h_sending (helper u)) E t" for E
    using assms(2,3) by (auto simp: get_helper_def upd_helper_def drop_slot_def wp_simps split: option.split)
  have fut: "wp (upd_helper (h_fut_update f)) (\<lambda>_ u. msgs_inv u \<and> \<not> h_sending (helper u)) E u"
    if "msgs_inv u" "\<not> h_sending (helper u)" for E f and u :: "'a aworld_scheme"
    using that by (simp add: upd_helper_def wp_modf)
  have fin: "wp (upd_helper f) (\<lambda>_. wp pop_callback (\<lambda>_. msgs_inv) (\<lambda>_. msgs_inv)) (\<lambda>_. msgs_inv) t" for f
    by (rule wp_mono [OF upd [OF assms(2)]]) (auto intro: pop)
  show ?thesis
    unfolding helper_free_def wp_bnd [of "getf f" for f] wp_getf wp_if wp_andthen
    by (auto intro: fin intro!: wp_mono [OF slot] intro!: wp_mono [OF fut] wp_mono [OF aio] wp_mono [OF entry] wp_mono [OF close]
      wp_mono [OF pop] pop upd)
qed

lemma arecv_msg_not_gone:
  "wp (arecv_msg L n) (\<lambda>x t. \<forall>i. x = Some i \<longrightarrow> \<not> gone (msgs t i)) (\<lambda>_ _. True) w"
proof -
  have triv: "wp m (\<lambda>_ _. True) (\<lambda>_ _. True) t" for m :: "('s, pyexc, 'b) prog" and t
    by (simp add: wp_def split: prod.split sum.split)
  have mk: "wp (bnd (mk_message L (FromPtr p) NoPipe) (\<lambda>i. ret (Some i)))
      (\<lambda>x t. \<forall>i. x = Some i \<longrightarrow> \<not> gone (msgs t i)) (\<lambda>_ _. True) u" for p and u :: "'a aworld_scheme"
    unfolding wp_bnd wp_ret by (rule wp_mono [OF mk_message_not_gone]) auto
  have take: "wp (take_received L) (\<lambda>x t. \<forall>i. x = Some i \<longrightarrow> \<not> gone (msgs t i)) (\<lambda>_ _. True) u"
    for u :: "'a aworld_scheme"
    unfolding take_received_def wp_bnd [of helper_aio] wp_bnd [of "ccall L c" for c] wp_andthen
    by (auto intro!: mk wp_mono [OF triv] simp del: wp_ccall wp_check_err)
  show ?thesis
    unfolding arecv_msg_def wp_andthen wp_bnd_some
    by (auto intro!: wp_mono [OF triv] take split: option.split)
qed

lemma ainv_used:
  assumes "ainv (L, Resting, w)"
    and "wp m (\<lambda>_. at msgs_inv (core w)) (\<lambda>_. at msgs_inv (core w)) w"
    and "wp m (\<lambda>x. sent_rest (core w) x) (\<lambda>_. hlp (at_rest False (core w))) w"
  shows "ainv (used L (m w))"
proof -
  obtain r u where m: "m w = (r, u)" by (cases "m w")
  have "msgs_inv u" "core u = core w" using assms(2) m by (auto simp: wp_def at_def split: sum.splits)
  moreover have "r \<noteq> Inr None \<Longrightarrow> hlp (at_rest False (core w)) u"
    using assms(3) m by (auto simp: wp_def sent_rest_def split: sum.splits)
  ultimately show ?thesis using assms(1) m by (auto simp: ainv_def used_def)
qed

lemma rested_sent: "rested False k x u \<Longrightarrow> sent_rest k x u"
  by (cases x) (simp_all add: sent_rest_def)

lemma recv_with_at:
  assumes "wp m (\<lambda>_. at msgs_inv k) (\<lambda>_. at msgs_inv k) w" and "wp m (rested False k) (\<lambda>_. hlp (at_rest False k)) w"
    and "wp m (\<lambda>x t. \<forall>i. x = Some i \<longrightarrow> \<not> gone (msgs t i)) (\<lambda>_ _. True) w"
  shows "wp (recv_with L m) (\<lambda>x u. at msgs_inv k u \<and> sent_rest k x u)
    (\<lambda>_ u. at msgs_inv k u \<and> hlp (at_rest False k) u) w"
proof -
  have keep: "wp (msg_bytes L i) (\<lambda>_ u. helper u = helper t) (\<lambda>_ u. helper u = helper t) t" for i t
    by (simp add: msg_bytes_def wp_simps)
  have b: "wp (msg_bytes L i) (\<lambda>_ u. at msgs_inv k u \<and> hlp (at_rest False k) u)
      (\<lambda>_ u. at msgs_inv k u \<and> hlp (at_rest False k) u) t"
    if "at msgs_inv k t" "hlp (at_rest False k) t" "\<not> gone (msgs t i)" for i t
    by (rule wp_mono [OF wp_conj [OF msg_bytes_inv keep]])
      (use that in \<open>auto simp: at_def core_def hlp_def dest: quiet_inv\<close>)
  show ?thesis
    unfolding recv_with_def wp_bnd_some
    by (rule wp_mono [OF wp_conj [OF assms(1) wp_conj [OF assms(2,3)]]])
      (auto simp: wp_bnd wp_ret sent_rest_def split: option.split intro!: wp_mono [OF b])
qed

lemma ainv_kept:
  assumes "ainv (L, m, w)" and "msgs_inv u" and "helper u = helper w"
  shows "ainv (L, m, u)"
  using assms by (auto simp: ainv_def core_def hlp_def)

lemma wp_helper_stateI: "wp m (\<lambda>_ u. helper u = h) (\<lambda>_ u. helper u = h) w \<Longrightarrow> helper (snd (m w)) = h"
  by (auto simp: wp_def split: prod.splits sum.splits)

lemma mk_message_helper: "helper (snd (mk_message L (FromData d) p (w :: 'a aworld_scheme))) = helper w"
  by (rule wp_helper_stateI, cases d; cases p)
    (auto simp: mk_message_def new_message_def message_init_def alloc_msg_def msg_set_pipe_def
      ensure_can_send_data_def as_memoryview_def fresh_message_def wp_simps split: py_data.split)

lemma msg_del_helper: "helper (snd (msg_del L i (w :: 'a aworld_scheme))) = helper w"
  by (rule wp_helper_stateI) (auto simp: msg_del_def wp_simps)

lemma ainv_ready:
  assumes "ainv (L, Resting, w)"
  obtains a where "fst (core w) = Some a" "usable L (core w)" "at msgs_inv (core w) w"
    "hlp (at_rest False (core w)) w" "async_lib L" "fresh_lib L" "recv_lib L" "returns_unsent L"
  using assms by (auto simp: ainv_def at_def core_def hlp_def at_rest_def held_def)

lemma ainv_astep:
  assumes "ainv s" and "astep s t"
  shows "ainv t"
  using assms(2,1)
proof cases
  case (as_recv_msg L w n)
  with assms(1) have i: "ainv (L, Resting, w)" by simp
  from i show ?thesis unfolding as_recv_msg(2)
    by (rule ainv_ready)
      (rule ainv_used [OF i], auto intro: arecv_msg_safe wp_mono [OF hlp_arecv_msg] rested_sent)
next
  case (as_recv L w n)
  with assms(1) have i: "ainv (L, Resting, w)" by simp
  then obtain a where a: "fst (core w) = Some a" "usable L (core w)" "at msgs_inv (core w) w"
    "hlp (at_rest False (core w)) w" "async_lib L" "fresh_lib L" "recv_lib L" by (rule ainv_ready)
  have r: "wp (arecv L n) (\<lambda>x u. at msgs_inv (core w) u \<and> sent_rest (core w) x u)
      (\<lambda>_ u. at msgs_inv (core w) u \<and> hlp (at_rest False (core w)) u) w"
    unfolding arecv_def
    by (rule recv_with_at [OF arecv_msg_safe [OF a(5-7,3)] hlp_arecv_msg [OF a(5,4)] arecv_msg_not_gone])
      (simp add: a(2))
  show ?thesis unfolding as_recv(2)
    by (rule ainv_used [OF i]) (auto intro: wp_mono [OF r])
next
  case (as_send L w n d)
  with assms(1) have i: "ainv (L, Resting, w)" by simp
  from i show ?thesis unfolding as_send(2)
    by (rule ainv_ready) (rule ainv_used [OF i], auto intro: asend_safe hlp_asend)
next
  case (as_send_msg w i L n)
  with assms(1) have i: "ainv (L, Resting, w)" by simp
  then have m: "msgs_inv w" by (simp add: ainv_def)
  from i show ?thesis unfolding as_send_msg(2)
    by (rule ainv_ready)
      (rule ainv_used [OF i], use as_send_msg(3,4) m in \<open>auto intro: asend_msg_safe hlp_asend_msg\<close>)
next
  case (as_free m L w)
  with assms(1) have i: "ainv (L, m, w)" by simp
  with as_free(3) have "async_lib L" "msgs_inv w" "\<not> h_sending (helper w)"
    by (auto simp: ainv_def hlp_def at_rest_def held_def)
  from wp_helper_free [OF this] have "msgs_inv (snd (helper_free L w))" by (rule wp_stateI)
  with i show ?thesis unfolding as_free(2) by (simp add: ainv_def)
next
  case (as_new L m w d p)
  with assms(1) have i: "ainv (L, m, w)" by simp
  then have "fresh_lib L" "msgs_inv w" by (simp_all add: ainv_def)
  then have "wp (mk_message L (FromData d) p) (\<lambda>_. msgs_inv) (\<lambda>_. msgs_inv) w"
    by (rule mk_message_inv) simp
  from wp_stateI [OF this] mk_message_helper show ?thesis
    unfolding as_new(2) by (rule ainv_kept [OF i])
next
  case (as_del w i L m)
  with assms(1) have i: "ainv (L, m, w)" by simp
  then have "msgs_inv w" by (simp add: ainv_def)
  from wp_stateI [OF msg_del_inv [OF this as_del(3)]] msg_del_helper show ?thesis
    unfolding as_del(2) by (rule ainv_kept [OF i])
next
  case (as_loop L m w es o')
  have "msgs_inv (u\<lparr>loop_open := b\<rparr>) = msgs_inv u" for u :: aworld and b
    unfolding msgs_inv_def by (simp add: live_def)
  with as_loop assms(1) show ?thesis by (auto simp: ainv_def core_def hlp_def)
qed

lemma ainv_init:
  assumes "ainit s"
  shows "ainv s"
proof -
  obtain L w w0 ob rf sf b cur e where s: "s = (L, Resting, w)" and i: "async_lib L"
    "fresh_lib L" "recv_lib L" "returns_unsent L" "h_awaitable (helper w) = Some Trio \<longrightarrow> never_cancels L"
    "calls w0 = []" "\<forall>i. nng_msg (msgs w0 i) = None" "helper_init L ob rf sf b cur e w0 = (Inr (), w)"
    using assms by (cases s) (auto simp: ainit_def)
  have "msgs_inv w0" using i(6,7) by (simp add: msgs_inv_def live_def)
  from wp_helper_init [OF i(1) this, of ob rf sf b cur e] i(8)
  have "msgs_inv w" "hlp (at_rest False (core w)) w"
    "h_engine (helper w) \<or> h_awaitable (helper w) = Some Asyncio \<or> h_awaitable (helper w) = Some Trio"
    by (auto simp: wp_def)
  with i(1-5) show ?thesis by (auto simp: s ainv_def usable_def core_def)
qed

interpretation aio_run: step_invariant ainit astep ainv
  by unfold_locales (auto intro: ainv_init ainv_astep)

text \<open>C2. Asynchronous input and output is memory safe. Take any life of a helper: made for asyncio
  with or without the engine or for trio, used for any number of receives and sends of data or of
  message objects, with messages made and dropped in between, and freed. As long as the event loop
  interrupts coroutines only with a cancellation, no call works on a message that nng has, that was
  freed or that another object owns, whatever nng answers and whenever the cancellations come; in
  particular a send that is cancelled frees its message exactly if nng gave it back.\<close>

theorem async_memory_safe:
  assumes "reach ainit astep (L, m, w)"
  shows "safe (calls w) \<and> (\<forall>i p. live w i p \<longrightarrow> own (led (calls w)) p = Mine) \<and>
         (\<forall>i j p. live w i p \<and> live w j p \<longrightarrow> i = j)"
  using aio_run.reach_inv [OF assms] unfolding ainv_def msgs_inv_def by blast

text \<open>A helper can be used again. Whenever an operation has ended, with a result or an exception, the
  helper still has its aio, it is not sending, and with an engine it holds neither a slot nor a future:
  the conditions under which \<open>is_valid_for_current_loop\<close> lets it back into the pool.\<close>

theorem helper_at_rest:
  assumes "reach ainit astep (L, m, w)" and "m = Resting \<or> m = Spent"
  shows "h_aio (helper w) \<noteq> None \<and> \<not> h_sending (helper w) \<and>
    (h_engine (helper w) \<longrightarrow> h_slot (helper w) = None \<and> h_fut (helper w) = None \<and> h_entry (helper w) \<noteq> None)"
  using aio_run.reach_inv [OF assms(1)] assms(2) by (auto simp: ainv_def hlp_def at_rest_def held_def)

section \<open>Cancellation and termination\<close>

text \<open>Requests to cancel the operation, and waits that were interrupted.\<close>

definition is_stop :: "ncall \<times> nres \<Rightarrow> bool" where
  "is_stop cr \<longleftrightarrow> (\<exists>a. fst cr = A (Aio_cancel a))"

definition is_woken :: "ncall \<times> nres \<Rightarrow> bool" where
  "is_woken cr \<longleftrightarrow> (\<exists>a. fst cr = A (Await_shield a)) \<and> r_exn (snd cr) \<noteq> None"

definition asked :: "'a world_scheme \<Rightarrow> 'a world_scheme \<Rightarrow> bool \<Rightarrow> bool" where
  "asked w t c \<longleftrightarrow> cnt is_stop t = cnt is_stop w + (if c then 1 else 0) \<and>
     cnt is_woken w \<le> cnt is_woken t \<and> (c \<longleftrightarrow> cnt is_woken t \<noteq> cnt is_woken w)"

lemma wp_asked_call:
  assumes "async_lib L" and "asked w t c" and "\<not> is_stop (x, fn L (calls t) x)" and "\<And>b. x \<noteq> A (Await_shield b)"
    and "\<And>r u. asked w u c \<Longrightarrow> helper u = helper t \<Longrightarrow> Q r u"
  shows "wp (ccall L x) Q E (t :: 'a aworld_scheme)"
proof -
  have "\<not> is_woken (x, r)" for r using assms(4) by (simp add: is_woken_def)
  with assms(2,3) have "asked w (t\<lparr>calls := calls t @ [(x, fn L (calls t) x)]\<rparr>) c"
    by (simp add: asked_def)
  with assms(5) have "Q (fn L (calls t) x) (t\<lparr>calls := calls t @ [(x, fn L (calls t) x)]\<rparr>)" by simp
  with assms(4) show ?thesis by (simp add: wp_async_call [OF assms(1)])
qed

lemma not_stop [simp]:
  "\<not> is_stop (Fn f xs, r)" "\<not> is_stop (Strerror e, r)" "\<not> is_stop (A (Aio_result a), r)"
  by (simp_all add: is_stop_def)

lemma asked_helper [simp]: "asked w (t\<lparr>helper := h\<rparr>) c = asked w t c" "asked w (t\<lparr>esys := es\<rparr>) c = asked w t c"
  by (simp_all add: asked_def cnt_def)

definition asked_opt :: "'a aworld_scheme \<Rightarrow> bool option \<Rightarrow> 'a aworld_scheme \<Rightarrow> bool" where
  "asked_opt w x t \<longleftrightarrow> (case x of Some c \<Rightarrow> asked w t c | None \<Rightarrow> \<exists>c. asked w t c)"

lemma asked_opt_simps [simp]:
  "asked_opt w (Some c) t = asked w t c" "asked_opt w None t = (\<exists>c. asked w t c)"
  by (simp_all add: asked_opt_def)

lemma asked_shield:
  assumes "async_lib L"
  shows "asked w t c \<Longrightarrow> wp (shield_loop L n a c) (asked_opt w) (\<lambda>_ _. False) (t :: 'a aworld_scheme)"
proof (induction n arbitrary: t c)
  case (Suc n)
  let ?c = "A (Await_shield a)"
  let ?r = "fn L (calls t) ?c" and ?t = "t\<lparr>calls := calls t @ [(?c, fn L (calls t) ?c)]\<rparr>"
  have ns: "\<not> is_stop (?c, r)" for r by (simp add: is_stop_def)
  show ?case
  proof (cases "r_exn ?r")
    case None
    then have "asked w ?t c" using Suc.prems ns by (simp add: asked_def is_woken_def)
    with None show ?thesis by (simp add: wp_simps)
  next
    case (Some e)
    then have e: "e = CancelledError" using async_lib_raises [OF assms] by blast
    have wk: "is_woken (?c, ?r)" using Some by (simp add: is_woken_def)
    let ?d = "A (Aio_cancel a)"
    have d: "is_stop (?d, r)" "\<not> is_woken (?d, r)" for r by (simp_all add: is_stop_def is_woken_def)
    have "wp (andthen (whenp (\<not> c) (bnd (ccall L ?d) (\<lambda>_. ret ()))) (shield_loop L n a True))
       (asked_opt w) (\<lambda>_ _. False) ?t"
      using Suc.prems wk ns d unfolding wp_andthen wp_whenp wp_bnd wp_ret
      by (auto simp: wp_async_call [OF assms] asked_def cnt_def intro!: Suc.IH)
    then show ?thesis
      using Some e by (simp add: wp_bnd [of "try_except m h" for m h] wp_bnd [of "ccall L (A (Await_shield a))"]
          wp_except wp_ret wp_raise wp_ccall [of L "A (Await_shield a)"])
  qed
qed (auto simp: wp_ret)

lemma asked_release:
  assumes "async_lib L" and "asked w t c"
  shows "wp (release_slot L) (\<lambda>_ u. asked w u c) E (t :: 'a aworld_scheme)"
  using assms(2)
  by (auto simp: release_slot_def drop_slot_def entry_set_slot_def get_helper_def upd_helper_def wp_simps
      simp del: wp_ccall split: option.split intro!: wp_asked_call [OF assms(1), where w = w and c = c])

text \<open>The outcomes of a wait: it goes on, it ended undisturbed, or it was interrupted and cancelled.\<close>

definition waited :: "'a aworld_scheme \<Rightarrow> unit option \<Rightarrow> 'a aworld_scheme \<Rightarrow> bool" where
  "waited w x t \<longleftrightarrow> (\<exists>c. asked w t c) \<and> (x \<noteq> None \<longrightarrow> asked w t False)"

definition wait_failed :: "'a aworld_scheme \<Rightarrow> pyexc \<Rightarrow> 'a aworld_scheme \<Rightarrow> bool" where
  "wait_failed w e t \<longleftrightarrow> asked w t False \<or> asked w t True \<and> e = CancelledError"

lemma waited_rules:
  "asked w t c \<Longrightarrow> waited w None t" "asked w t False \<Longrightarrow> waited w x t"
  "asked w t False \<Longrightarrow> wait_failed w e t" "asked w t c \<Longrightarrow> e = CancelledError \<Longrightarrow> wait_failed w e t"
  by ((cases c; auto simp: waited_def wait_failed_def)+)

lemma asked_result:
  assumes "async_lib L" and "asked w t c"
  shows "wp (wait_result L a c) (waited w) (wait_failed w) (t :: 'a aworld_scheme)"
  unfolding wait_result_def wp_bnd
  by (rule wp_asked_call [OF assms, of "A (Aio_result a)"])
    (use assms(2) in \<open>auto simp: wp_andthen wp_raise wp_ret wp_check_err simp del: wp_ccall
      intro: waited_rules intro!: wp_asked_call [OF assms(1), where w = w and c = c]\<close>)

text \<open>C12. Cancelling an asyncio operation. While a coroutine waits under asyncio, with or without the
  engine, \<open>nng_aio_cancel\<close> is called once if the event loop interrupted it, however often, and not
  at all otherwise. A wait that returns was never interrupted, and one that was interrupted ends with
  \<open>CancelledError\<close>, also when nng finished the operation all the same.\<close>

theorem wait_cancels_once:
  assumes "async_lib L" and "h_aio (helper w) = Some a"
    and "h_engine (helper w) \<or> h_awaitable (helper w) = Some Asyncio"
  shows "wp (wait_for_aio L n) (waited w) (wait_failed w) (w :: 'a aworld_scheme)"
proof -
  have 0: "asked w w False" by (simp add: asked_def)
  have rel: "wp (release_slot L) (\<lambda>_. wp (wait_result L a c) (waited w) (wait_failed w)) (wait_failed w) u"
    if "asked w u c" for c and u :: "'a aworld_scheme"
    by (rule wp_mono [OF asked_release [OF assms(1) that]]) (auto intro: asked_result [OF assms(1)])
  have rel0: "wp (release_slot L) (\<lambda>_. waited w None) E u" if "asked w u c" for c E and u :: "'a aworld_scheme"
    by (rule wp_mono [OF asked_release [OF assms(1) that]]) (auto intro: waited_rules)
  have engine: "wp (bnd_some (finally_some (shield_loop L n a False) (release_slot L)) (wait_result L a))
      (waited w) (wait_failed w) w"
    unfolding wp_bnd_some wp_finally_some
    by (rule wp_mono [OF asked_shield [OF assms(1) 0]])
      (auto simp: asked_opt_def split: option.splits intro: rel rel0 waited_rules)
  have plain: "wp (asyncio_wait L n a) (waited w) (wait_failed w) w"
    unfolding asyncio_wait_def wp_bnd_some
    by (rule wp_mono [OF asked_shield [OF assms(1) 0]])
      (auto simp: asked_opt_def split: option.splits intro: asked_result [OF assms(1)] waited_rules)
  show ?thesis
    using engine plain assms(2,3)
    by (auto simp: wait_for_aio_def get_helper_def helper_aio_def ptr_of_def wp_bnd wp_getf wp_ret wp_if
        split: option.split backend.split)
qed

definition is_await :: "ncall \<times> nres \<Rightarrow> bool" where
  "is_await cr \<longleftrightarrow> (\<exists>a. fst cr = A (Await_shield a))"

text \<open>nng has finished what it was asked to do at the latest when the process waits for the \<open>N\<close>-th time.\<close>

definition settles_by :: "nat \<Rightarrow> nng_lib \<Rightarrow> bool" where
  "settles_by N L \<longleftrightarrow> (\<forall>tr a. N \<le> length (filter is_await tr) \<longrightarrow>
     r_exn (fn L tr (A (Await_shield a))) = None)"

definition ends :: "('s, pyexc, 'b option) prog \<Rightarrow> 's \<Rightarrow> bool" where
  "ends m t \<longleftrightarrow> wp m (\<lambda>x _. \<exists>y. x = Some y) (\<lambda>_ _. True) t"

lemma wp_any: "wp m (\<lambda>_ _. True) (\<lambda>_ _. True) t"
  by (simp add: wp_def split: prod.split sum.split)

lemma wp_any_mono: "(\<And>x u. Q x u) \<Longrightarrow> (\<And>e u. E e u) \<Longrightarrow> wp m Q E t"
  by (rule wp_mono [OF wp_any])

lemma shield_ends:
  assumes "settles_by N L"
  shows "N \<le> cnt is_await t + n \<Longrightarrow> ends (shield_loop L (Suc n) a c) (t :: 'a aworld_scheme)"
proof (induction n arbitrary: t c)
  case 0
  then have "r_exn (fn L (calls t) (A (Await_shield a))) = None"
    using assms by (simp add: settles_by_def cnt_def)
  then show ?case by (simp add: ends_def wp_simps)
next
  case (Suc n)
  let ?c = "A (Await_shield a)"
  let ?t = "t\<lparr>calls := calls t @ [(?c, fn L (calls t) ?c)]\<rparr>"
  have aw: "is_await (?c, r)" for r by (simp add: is_await_def)
  have next_wait: "ends (shield_loop L (Suc n) a True) u" if "cnt is_await u \<ge> cnt is_await ?t" for u :: "'a aworld_scheme"
    using Suc.IH [of u] Suc.prems that aw by simp
  have "wp (andthen (whenp (\<not> c) (bnd (ccall L (A (Aio_cancel a))) (\<lambda>_. ret ()))) (shield_loop L (Suc n) a True))
     (\<lambda>x _. \<exists>y. x = Some y) (\<lambda>_ _. True) ?t"
    unfolding wp_andthen wp_whenp wp_bnd wp_ret wp_ccall
    by (auto intro!: next_wait [unfolded ends_def] simp: cnt_def simp del: shield_loop.simps)
  then show ?case
    unfolding ends_def shield_loop.simps(2) [of L "Suc n"]
    by (auto simp: wp_bnd [of "try_except m h" for m h] wp_bnd [of "ccall L (A (Await_shield a))"]
          wp_except wp_ret wp_raise wp_ccall [of L "A (Await_shield a)"] simp del: shield_loop.simps)
qed

lemma ends_bnd_some: "ends m t \<Longrightarrow> (\<And>x u. ends (f x) u) \<Longrightarrow> ends (bnd_some m f) t"
  unfolding ends_def wp_bnd_some by (erule wp_mono) (auto split: option.split)

lemma ends_bnd: "(\<And>x u. ends (f x) u) \<Longrightarrow> ends (bnd m f) t"
  unfolding ends_def wp_bnd by (rule wp_any_mono) auto

lemma ends_andthen: "(\<And>u. ends f u) \<Longrightarrow> ends (andthen m f) t"
  unfolding ends_def wp_andthen by (rule wp_any_mono) auto

lemma ends_finally: "ends m t \<Longrightarrow> ends (finally_some m f) t"
  unfolding ends_def wp_finally_some by (erule wp_mono) (auto split: option.split intro!: wp_any_mono)

lemma ends_except: "ends m t \<Longrightarrow> (\<And>e u. ends (h e) u) \<Longrightarrow> ends (try_except m h) t"
  unfolding ends_def wp_except by (erule wp_mono) auto

lemma ends_raise: "ends (raise_exc e) t"
  by (simp add: ends_def wp_raise)

lemma ends_some: "ends (ret (Some x)) t"
  by (simp add: ends_def wp_ret)

lemmas ends_rules = ends_bnd_some ends_bnd ends_andthen ends_finally ends_except ends_raise ends_some

lemma wait_ends:
  assumes "settles_by N L"
  shows "ends (wait_for_aio L (Suc N)) (t :: 'a aworld_scheme)"
proof -
  have res: "ends (wait_result L a c) u" for a c and u :: "'a aworld_scheme"
    unfolding wait_result_def by (intro ends_bnd) (auto intro: ends_rules)
  have loop: "ends (shield_loop L (Suc N) a False) u" for a and u :: "'a aworld_scheme"
    by (rule shield_ends [OF assms]) simp
  have trio: "ends (trio_wait L a) u" for a and u :: "'a aworld_scheme"
    unfolding trio_wait_def Let_def by (intro ends_bnd ends_andthen) (auto intro: ends_rules)
  have engine: "ends (bnd_some (finally_some (shield_loop L (Suc N) a False) (release_slot L)) (wait_result L a)) u"
    for a and u :: "'a aworld_scheme"
    by (intro ends_bnd_some ends_finally loop res)
  have plain: "ends (asyncio_wait L (Suc N) a) u" for a and u :: "'a aworld_scheme"
    unfolding asyncio_wait_def by (intro ends_bnd_some loop res)
  have none: "ends (raise_exc TypeError :: ('a aworld_scheme, pyexc, unit option) prog) u" for u
    by (rule ends_raise)
  have "ends (if e then bnd_some (finally_some (shield_loop L (Suc N) a False) (release_slot L)) (wait_result L a)
     else case aw of Some Asyncio \<Rightarrow> asyncio_wait L (Suc N) a | Some Trio \<Rightarrow> trio_wait L a
       | None \<Rightarrow> raise_exc TypeError) u" for e a aw and u :: "'a aworld_scheme"
    using engine plain trio none by (simp split: option.split backend.split del: shield_loop.simps)
  then show ?thesis
    unfolding wait_for_aio_def by (intro ends_bnd) (simp add: split_def ends_bnd del: shield_loop.simps)
qed

text \<open>C13. Asynchronous operations end. If nng finishes its operations at the latest at the \<open>N\<close>-th
  wait, so that no more than \<open>N\<close> cancellations can interrupt a coroutine, then \<open>N\<close> further waits are
  enough for every operation of a helper to end with a result or an exception, in every state.\<close>

theorem async_ops_end:
  assumes "settles_by N L"
  shows "ends (arecv_msg L (Suc N)) w \<and> ends (arecv L (Suc N)) w \<and> ends (asend L (Suc N) d) w \<and>
    ends (asend_msg L (Suc N) i) (w :: 'a aworld_scheme)"
proof -
  note wait = wait_ends [OF assms]
  have failed: "ends (after_failed L e :: ('a aworld_scheme, pyexc, 'b option) prog) u" for e u
    unfolding after_failed_def by (intro ends_bnd ends_andthen ends_raise)
  have take: "ends (take_received L) u" for u :: "'a aworld_scheme"
    unfolding take_received_def by (intro ends_bnd ends_andthen ends_some)
  have recv: "ends (arecv_msg L (Suc N)) u" for u :: "'a aworld_scheme"
    unfolding arecv_msg_def by (intro ends_andthen ends_bnd_some ends_except wait failed take)
  have fin: "ends (finish_send L (Suc N)) u" for u :: "'a aworld_scheme"
    unfolding finish_send_def by (intro ends_finally ends_except wait failed)
  show ?thesis
    unfolding arecv_def recv_with_def asend_def asend_msg_def Let_def
    by (intro conjI recv ends_bnd_some ends_bnd ends_andthen ends_some fin)
qed

text \<open>C39. A coroutine that is dropped while it sends. If Python throws \<open>GeneratorExit\<close> into a waiting
  send instead of cancelling it (the coroutine is closed or collected, or the loop is gone), under asyncio
  with or without the engine, the handler for \<open>BaseException\<close> does not cancel the operation and does
  not wait for it. It takes the message that the aio still has, and frees it while nng is sending it.\<close>

theorem dropped_send_frees_in_flight:
  fixes w :: "'a aworld_scheme"
  assumes "pend (led (calls w)) a = ASend p" and "own (led (calls w)) p = InFlight" and "p \<noteq> 0"
    and "h_aio (helper w) = Some a" and "h_engine (helper w) \<or> h_awaitable (helper w) = Some Asyncio"
    and "\<And>tr c e. r_exn (fn L tr c) = Some e \<longleftrightarrow> (\<exists>b. c = A (Await_shield b)) \<and> e = GeneratorExit"
    and "\<And>tr. pend (led tr) a = ASend p \<Longrightarrow> r_out (fn L tr (A (Aio_get_msg a))) = p"
  shows "wp (finish_send L (Suc n)) (\<lambda>_ _. False) (\<lambda>e u. e = GeneratorExit \<and> \<not> safe (calls u)) w"
proof -
  have x: "\<forall>b. c \<noteq> A (Await_shield b) \<Longrightarrow> r_exn (fn L tr c) = None" for tr c
    using assms(6) [of tr c] by (cases "r_exn (fn L tr c)") auto
  have aw: "r_exn (fn L tr (A (Await_shield a))) = Some GeneratorExit" for tr using assms(6) by simp
  define P where "P = (\<lambda>u :: 'a aworld_scheme. pend (led (calls u)) a = ASend p \<and> own (led (calls u)) p = InFlight \<and>
     h_aio (helper u) = Some a)"
  have w: "P w" using assms(1,2,4) by (simp add: P_def)
  have await: "wp (ccall L (A (Await_shield a))) Q E u" if "P u" "\<And>v. P v \<Longrightarrow> helper v = helper u \<Longrightarrow> E GeneratorExit v"
    for Q E and u :: "'a aworld_scheme"
    using that by (simp add: wp_ccall aw P_def led_aio_def)
  have fncall: "wp (ccall L (Fn f xs)) Q E u" if "P u" "\<And>r v. P v \<Longrightarrow> helper v = helper u \<Longrightarrow> Q r v"
    for f xs Q E and u :: "'a aworld_scheme"
    using that by (simp add: wp_ccall x P_def)
  have fail: "wp (after_failed L e) (\<lambda>_ _. False) (\<lambda>e' u. e' = e \<and> \<not> safe (calls u)) u" if "P u"
    for e and u :: "'a aworld_scheme"
    using that assms(3) by (auto simp: after_failed_def helper_aio_def get_helper_def ptr_of_def free_leftover_def
        wp_simps x assms(7) P_def led_aio_def safe_append safe_call_def uses_msg_def)
  have sh: "wp (shield_loop L (Suc n) a False) (\<lambda>_ _. False) (\<lambda>e u. e = GeneratorExit \<and> P u \<and> helper u = helper w) w"
    using w by (auto simp: wp_bnd wp_except wp_raise intro!: await)
  have rel: "wp (release_slot L) (\<lambda>_. P) E u" if "P u" for E and u :: "'a aworld_scheme"
    using that by (auto simp: release_slot_def drop_slot_def entry_set_slot_def get_helper_def upd_helper_def
        wp_andthen wp_bnd wp_getf wp_modf wp_ret split: option.split intro!: fncall) (auto simp: P_def)
  have "wp (wait_for_aio L (Suc n)) (\<lambda>_ _. False) (\<lambda>e u. e = GeneratorExit \<and> P u) w"
  proof (cases "h_engine (helper w)")
    case True
    have "wp (bnd_some (finally_some (shield_loop L (Suc n) a False) (release_slot L)) (wait_result L a))
        (\<lambda>_ _. False) (\<lambda>e u. e = GeneratorExit \<and> P u) w"
      unfolding wp_bnd_some wp_finally_some
      by (rule wp_mono [OF sh]) (auto intro: wp_mono [OF rel])
    then show ?thesis using True assms(4)
      by (simp add: wait_for_aio_def get_helper_def helper_aio_def ptr_of_def wp_bnd wp_getf wp_ret del: shield_loop.simps)
  next
    case False
    have "wp (asyncio_wait L (Suc n) a) (\<lambda>_ _. False) (\<lambda>e u. e = GeneratorExit \<and> P u) w"
      unfolding asyncio_wait_def wp_bnd_some by (rule wp_mono [OF sh]) auto
    then show ?thesis using False assms(4,5)
      by (simp add: wait_for_aio_def get_helper_def helper_aio_def ptr_of_def wp_bnd wp_getf wp_ret)
  qed
  then have "wp (try_except (wait_for_aio L (Suc n)) (after_failed L)) (\<lambda>_ _. False)
      (\<lambda>e u. e = GeneratorExit \<and> \<not> safe (calls u)) w"
    unfolding wp_except by (rule wp_mono) (auto intro!: wp_mono [OF fail])
  then show ?thesis
    unfolding finish_send_def wp_finally_some
    by (rule wp_mono) (auto simp: upd_helper_def wp_modf)
qed

section \<open>Examples\<close>

text \<open>
  A library that finishes every operation, and raises in a wait as the argument says; a send leaves
  no message in the aio when it has finished, and its own while it runs.
\<close>

definition awaits :: "ncall \<Rightarrow> bool" where
  "awaits c = (case c of A m \<Rightarrow> (case m of Await_shield a \<Rightarrow> True | _ \<Rightarrow> False) | _ \<Rightarrow> False)"

lemma awaits_iff: "awaits c \<longleftrightarrow> (\<exists>a. c = A (Await_shield a))"
  by (auto simp: awaits_def split: ncall.splits aio_call.splits)

definition async_demo :: "(trace \<Rightarrow> pyexc option) \<Rightarrow> nng_lib" where
  "async_demo x =
     (let D = demo_lib (\<lambda>_ _. 0) (\<lambda>tr c. if awaits c then x tr else None) (\<lambda>_ _. [])
      in D\<lparr>fn := \<lambda>tr c. case c of
           A m \<Rightarrow> (case m of Aio_get_msg a \<Rightarrow>
               (case pend (led tr) a of ARecv \<Rightarrow> fn D tr c
                | ASend p \<Rightarrow> (fn D tr c)\<lparr>r_out := p\<rparr> | _ \<Rightarrow> (fn D tr c)\<lparr>r_out := 0\<rparr>)
             | _ \<Rightarrow> fn D tr c)
         | _ \<Rightarrow> fn D tr c\<rparr>)"

lemma async_demo_call:
  assumes "\<And>a. c \<noteq> A (Aio_get_msg a)"
  shows "fn (async_demo x) tr c = fn (demo_lib (\<lambda>_ _. 0) (\<lambda>tr c. if awaits c then x tr else None)
    (\<lambda>_ _. [])) tr c"
  using assms by (auto simp: async_demo_def Let_def split: ncall.split aio_call.split)

lemma async_demo_get:
  "fn (async_demo x) tr (A (Aio_get_msg a)) = (fn (demo_lib (\<lambda>_ _. 0) (\<lambda>_ _. None) (\<lambda>_ _. [])) tr (A (Aio_get_msg a)))
    \<lparr>r_out := case pend (led tr) a of ARecv \<Rightarrow> top_ptr tr + 1 | ASend p \<Rightarrow> p | _ \<Rightarrow> 0\<rparr>"
  by (simp add: async_demo_def Let_def demo_lib_def awaits_iff split: aiost.split)

lemma async_demo_values:
  "r_val (fn (async_demo x) tr c) = 0"
  "r_exn (fn (async_demo x) tr c) = (if awaits c then x tr else None)"
  by (cases "\<exists>a. c = A (Aio_get_msg a)";
      auto simp: async_demo_get async_demo_call demo_lib_def awaits_iff)+

lemma async_demo_lib:
  shows "fresh_lib (async_demo x)" and "recv_lib (async_demo x)" and "returns_unsent (async_demo x)"
    and "(\<And>tr e. x tr = Some e \<Longrightarrow> e = CancelledError) \<Longrightarrow> async_lib (async_demo x)"
proof -
  let ?D = "demo_lib (\<lambda>_ _. 0) (\<lambda>tr c. if awaits c then x tr else None) (\<lambda>_ _. [])"
  have o: "hands_out (led tr) c (fn (async_demo x) tr c) \<Longrightarrow>
      r_out (fn (async_demo x) tr c) = r_out (fn ?D tr c) \<and> hands_out (led tr) c (fn ?D tr c)" for tr c
  proof (cases "\<exists>a. c = A (Aio_get_msg a)")
    case True
    then show "hands_out (led tr) c (fn (async_demo x) tr c) \<Longrightarrow> ?thesis"
      by (auto simp: async_demo_get hands_out_def demo_lib_def split: aiost.splits)
  next
    case False
    then have "fn (async_demo x) tr c = fn ?D tr c" by (intro async_demo_call) blast
    then show "hands_out (led tr) c (fn (async_demo x) tr c) \<Longrightarrow> ?thesis" by simp
  qed
  show "fresh_lib (async_demo x)"
    using fresh_demo_lib o unfolding fresh_lib_def by metis
  show "recv_lib (async_demo x)"
    using top_ptr_nonneg by (auto simp: recv_lib_def async_demo_get led_aio_def add_nonneg_eq_0_iff)
  show "returns_unsent (async_demo x)"
    by (simp add: returns_unsent_def async_demo_get)
  show "(\<And>tr e. x tr = Some e \<Longrightarrow> e = CancelledError) \<Longrightarrow> async_lib (async_demo x)"
    by (auto simp: async_lib_def async_demo_values awaits_iff split: if_splits)
qed

definition aworld0 :: aworld where
  "aworld0 = mworld.extend mworld0
     \<lparr>helper = fresh_helper, esys = busy_engine, loop_open = True, aio_map = [], next_fut = 0\<rparr>"

text \<open>A helper without an engine, and one cancellation at the first wait.\<close>

definition one_cancel :: "trace \<Rightarrow> pyexc option" where
  "one_cancel tr = (if filter is_await tr = [] then Some CancelledError else None)"

definition plain_helper :: "nng_lib \<Rightarrow> aworld" where
  "plain_helper L = snd (helper_init L 5 Nng_recv_aio Nng_send_aio None ''asyncio'' False aworld0)"

lemma aworld0_simps [simp]:
  "calls aworld0 = []" "init_pid aworld0 = None" "is_forked_child aworld0 = False"
  "msgs aworld0 = (\<lambda>_. fresh_message)" "next_msg aworld0 = 0" "fin_v1 aworld0 = Some False"
  "helper aworld0 = fresh_helper" "esys aworld0 = busy_engine" "loop_open aworld0"
  "next_fut aworld0 = 0" "aio_map aworld0 = []"
  by (simp_all add: aworld0_def mworld.defs mworld0_def world.defs world0_def)

lemma async_demo_has [simp]: "has_attr (async_demo x) = (\<lambda>_. True)" "err (async_demo x) = nng_errno"
  by (simp_all add: async_demo_def Let_def demo_lib_def)

lemma plain_helper_made:
  "helper_init (async_demo x) 5 Nng_recv_aio Nng_send_aio None ''asyncio'' False aworld0 = (Inr (), plain_helper (async_demo x))"
  by (simp add: plain_helper_def helper_init_def backend_of_def init_callback_aio_def upd_helper_def prog_defs
      ccall_def async_demo_values awaits_iff check_err_def Let_def)

lemma plain_helper_ready:
  assumes "\<And>tr e. x tr = Some e \<Longrightarrow> e = CancelledError"
  shows "reach ainit astep (async_demo x, Resting, plain_helper (async_demo x))"
proof (rule reach_init)
  have "h_awaitable (helper (plain_helper (async_demo x))) = Some Asyncio"
    by (simp add: plain_helper_def helper_init_def backend_of_def init_callback_aio_def upd_helper_def prog_defs
      ccall_def async_demo_values awaits_iff check_err_def Let_def)
  moreover have "async_lib (async_demo x)" by (rule async_demo_lib(4)) (rule assms)
  moreover have "\<exists>w0 ob rf sf b cur e. calls w0 = [] \<and> (\<forall>i. nng_msg (msgs w0 i) = None) \<and>
      helper_init (async_demo x) ob rf sf b cur e w0 = (Inr (), plain_helper (async_demo x))"
    by (intro exI conjI, rule aworld0_simps) (simp add: fresh_message_def, rule plain_helper_made)
  ultimately show "ainit (async_demo x, Resting, plain_helper (async_demo x))"
    by (simp add: ainit_def async_demo_lib(1-3))
qed

lemma one_cancel_cancels: "one_cancel tr = Some e \<Longrightarrow> e = CancelledError"
  by (simp add: one_cancel_def split: if_splits)

lemmas demo_run = asend_def plain_helper_def helper_init_def backend_of_def init_callback_aio_def upd_helper_def
      prog_defs ccall_def async_demo_call async_demo_get demo_lib_def awaits_def top_ptr_def ptrs_of_def
      check_err_def Let_def as_memoryview_def prepare_aio_def get_helper_def helper_aio_def ptr_of_def
      start_send_def finish_send_def wait_for_aio_def asyncio_wait_def wait_result_def one_cancel_def is_await_def
      fresh_helper_def numeral_2_eq_2 after_failed_def free_leftover_def cnt_def is_stop_def led_def ledger0_def
      led_msg_def led_aio_def after_wait_def

theorem async_memory_safe_witness:
  "let L = async_demo one_cancel; w = snd (asend L 2 (DBuf (bytes_buf [1])) (plain_helper L))
   in safe (calls w) \<and> cnt is_stop w = 1"
proof -
  let ?L = "async_demo one_cancel"
  let ?r = "asend ?L 2 (DBuf (bytes_buf [1])) (plain_helper ?L)"
  have "reach ainit astep (?L, Resting, plain_helper ?L)"
    by (rule plain_helper_ready) (rule one_cancel_cancels)
  then have "reach ainit astep (used ?L ?r)" by (blast intro: reach_step as_send)
  then have "safe (calls (snd ?r))" unfolding used_def using async_memory_safe by blast
  moreover have "cnt is_stop (snd ?r) = 1"
    by (simp add: demo_run)
  ultimately show ?thesis by (simp only: Let_def simp_thms)
qed

theorem helper_at_rest_witness:
  "let L = async_demo one_cancel; w = snd (asend L 2 (DBuf (bytes_buf [1])) (plain_helper L))
   in \<not> h_sending (helper w) \<and> h_aio (helper w) = Some 1"
proof -
  let ?L = "async_demo one_cancel"
  let ?r = "asend ?L 2 (DBuf (bytes_buf [1])) (plain_helper ?L)"
  have "reach ainit astep (?L, Resting, plain_helper ?L)"
    by (rule plain_helper_ready) (rule one_cancel_cancels)
  then have "reach ainit astep (used ?L ?r)" by (blast intro: reach_step as_send)
  moreover have "fst ?r \<noteq> Inr None" by (simp add: demo_run)
  ultimately have "\<not> h_sending (helper (snd ?r))" unfolding used_def using helper_at_rest by auto
  moreover have "h_aio (helper (snd ?r)) = Some 1" by (simp add: demo_run)
  ultimately show ?thesis by (simp only: Let_def simp_thms)
qed

theorem wait_cancels_once_witness:
  "let L = async_demo one_cancel in wp (wait_for_aio L 3) (\<lambda>_ _. False)
     (\<lambda>e t. e = CancelledError \<and> asked (plain_helper L) t True) (plain_helper L)"
proof -
  let ?L = "async_demo one_cancel"
  have h: "h_aio (helper (plain_helper ?L)) = Some 1" "h_awaitable (helper (plain_helper ?L)) = Some Asyncio"
    by (simp_all add: demo_run)
  have "async_lib ?L" by (rule async_demo_lib(4)) (rule one_cancel_cancels)
  from wait_cancels_once [OF this h(1)] h(2)
  have "wp (wait_for_aio ?L 3) (waited (plain_helper ?L)) (wait_failed (plain_helper ?L)) (plain_helper ?L)" by blast
  moreover have "wp (wait_for_aio ?L 3) (\<lambda>_ _. False) (\<lambda>_ t. \<not> asked (plain_helper ?L) t False) (plain_helper ?L)"
    by (simp add: wp_def demo_run asked_def is_woken_def numeral_3_eq_3)
  ultimately have "wp (wait_for_aio ?L 3) (\<lambda>x t. waited (plain_helper ?L) x t \<and> False)
     (\<lambda>e t. wait_failed (plain_helper ?L) e t \<and> \<not> asked (plain_helper ?L) t False) (plain_helper ?L)"
    by (rule wp_conj)
  then show ?thesis unfolding Let_def by (rule wp_mono) (auto simp: wait_failed_def)
qed

theorem async_ops_end_witness:
  "ends (asend (async_demo one_cancel) 2 (DBuf (bytes_buf [1])))
     (plain_helper (async_demo one_cancel))"
  using async_ops_end [of 1 "async_demo one_cancel" "plain_helper (async_demo one_cancel)" "DBuf (bytes_buf [1])" 0]
  by (auto simp: settles_by_def async_demo_values one_cancel_def numeral_2_eq_2)

text \<open>A send that was dropped, from the first call of the helper on.\<close>

theorem dropped_send_frees_in_flight_witness:
  "let L = async_demo (\<lambda>_. Some GeneratorExit);
       w = (plain_helper L)\<lparr>calls := [(M (Msg_alloc 0), fn L [] (M (Msg_alloc 0))),
         (A (Aio_set_msg 9 1), fn L [] (Strerror 0)), (A (Aio_send Nng_send_aio 5 9), fn L [] (Strerror 0))],
         helper := (helper (plain_helper L))\<lparr>h_aio := Some 9\<rparr>\<rparr>
   in wp (finish_send L 1) (\<lambda>_ _. False) (\<lambda>e u. e = GeneratorExit \<and> \<not> safe (calls u)) w"
proof -
  let ?L = "async_demo (\<lambda>_. Some GeneratorExit)"
  let ?w = "(plain_helper ?L)\<lparr>calls := [(M (Msg_alloc 0), fn ?L [] (M (Msg_alloc 0))),
         (A (Aio_set_msg 9 1), fn ?L [] (Strerror 0)), (A (Aio_send Nng_send_aio 5 9), fn ?L [] (Strerror 0))],
         helper := (helper (plain_helper ?L))\<lparr>h_aio := Some 9\<rparr>\<rparr>"
  show ?thesis unfolding Let_def One_nat_def
  proof (rule dropped_send_frees_in_flight [of _ 9 1])
    show "r_exn (fn ?L tr c) = Some e \<longleftrightarrow> (\<exists>b. c = A (Await_shield b)) \<and> e = GeneratorExit" for tr c e
      by (auto simp: async_demo_values awaits_iff)
  qed (simp_all add: demo_run)
qed

end
