(* ===== verification/Sockets.thy ===== *)
theory Sockets
  imports SyncIO
begin

text \<open>
  The life of sockets, contexts, dialers, listeners and pipes in \<^verbatim>\<open>_base.py\<close>: creation with
  its options and the pipe callbacks, dialing and listening, closing (also from a pipe callback or a
  finalizer), the pools of asynchronous helpers, the registry \<open>_active_handles\<close>, and devices.
  \<open>L1\<close> is the default library, which \<open>check_err\<close> uses for its texts, \<open>L\<close> that of the object.
\<close>

section \<open>The socket object\<close>

text \<open>
  \<open>s_sock\<close> is the handle in \<open>_socket[0]\<close>, \<open>None\<close> as long as the attribute does not
  exist. Helpers are numbered; \<open>freed\<close> lists those whose \<open>_free\<close> was called. The pools
  are stacks, their last element first. \<open>handles\<close> is \<open>_active_handles\<close>: by version tag and
  socket id the number of a socket object, which is in \<open>dead\<close> once it was collected. The two flags
  say whether the thread is in a pipe callback or in a device section; \<open>deferred\<close> counts the
  threads started to finish a close.
\<close>

record sworld = world +
  self_no :: nat
  vtag :: nat
  s_sock :: "int option"
  dialers :: "(int \<times> int) list"
  listeners :: "(int \<times> int) list"
  sclosed :: bool
  device_aios :: "int list"
  recv_pool :: "nat list"
  send_pool :: "nat list"
  freed :: "nat list"
  handles :: "((nat \<times> int) \<times> nat) list"
  dead :: "nat list"
  in_callback :: bool
  in_section :: bool
  deferred :: nat

definition sock_id :: "('a sworld_scheme, pyexc, int) prog" where
  "sock_id = bnd (getf s_sock) (\<lambda>s. case s of None \<Rightarrow> raise_exc AttributeError | Some sk \<Rightarrow> ret sk)"

section \<open>Making a socket\<close>

text \<open>The openers of the class; an explicit one wins, then the raw one if \<open>raw\<close> was asked for.\<close>

definition opener_of :: "string option \<Rightarrow> bool \<Rightarrow> string option \<Rightarrow> string option \<Rightarrow> string option" where
  "opener_of explicit raw_mode class_raw class_opener =
     (if explicit \<noteq> None then explicit else if raw_mode \<and> class_raw \<noteq> None then class_raw else class_opener)"

text \<open>An option given to \<open>__init__\<close> is set through its descriptor unless it is \<open>None\<close>.\<close>

definition set_attr :: "nng_lib \<Rightarrow> pyobj \<Rightarrow> string \<Rightarrow> pyval \<Rightarrow> ('a world_scheme, pyexc, unit) prog" where
  "set_attr L1 ob name v =
     (case map_of base_socket_options name of
        None \<Rightarrow> ret ()
      | Some (d, n) \<Rightarrow> desc_set (\<lambda>_. raise_exc TypeError) (\<lambda>_. ret ()) L1 d ob (PBytes (map of_char n)) v)"

definition init_options :: "string list" where
  "init_options = [''recv_timeout'', ''send_timeout'', ''recv_max_size'', ''reconnect_time_min'',
     ''reconnect_time_max'', ''recv_buffer_size'', ''send_buffer_size'']"

definition apply_options ::
  "nng_lib \<Rightarrow> pyobj \<Rightarrow> (string \<Rightarrow> pyval) \<Rightarrow> ('a world_scheme, pyexc, unit) prog" where
  "apply_options L1 ob args =
     for_each (\<lambda>n. whenp (args n \<noteq> PNone) (set_attr L1 ob n (args n))) init_options"

text \<open>\<open>_setup_pipe_callbacks\<close>: the socket is registered before nng can call back.\<close>

definition notify_events :: "string list" where
  "notify_events = [''NNG_PIPE_EV_ADD_PRE'', ''NNG_PIPE_EV_ADD_POST'', ''NNG_PIPE_EV_REM_POST'']"

definition setup_pipe_callbacks :: "nng_lib \<Rightarrow> nng_lib \<Rightarrow> ('a sworld_scheme, pyexc, unit) prog" where
  "setup_pipe_callbacks L1 L =
     bnd sock_id (\<lambda>sk.
     bnd (ccall L (S (Socket_id sk))) (\<lambda>i.
     andthen (modf (\<lambda>w. w\<lparr>handles := AList.update (vtag w, r_val i) (self_no w) (handles w)\<rparr>))
       (for_each (\<lambda>ev. bnd (ccall L (S (Pipe_notify sk (const L ev)))) (\<lambda>r. check_err L1 (r_val r)))
         notify_events)))"

definition addr_string :: "carg \<Rightarrow> string" where
  "addr_string c = (case c of CStr bs \<Rightarrow> map char_of bs | _ \<Rightarrow> [])"

definition sock_dial_flags ::
  "nng_lib \<Rightarrow> nng_lib \<Rightarrow> pyval \<Rightarrow> int \<Rightarrow> ('a sworld_scheme, pyexc, int) prog" where
  "sock_dial_flags L1 L address flags =
     bnd sock_id (\<lambda>sk.
     bnd (lift (to_char False address)) (\<lambda>a.
     bnd (ccall L (S (Dial sk (addr_string a) flags))) (\<lambda>r.
     andthen (check_err L1 (r_val r)) (
     bnd (ccall L (S (Dialer_id (r_out r)))) (\<lambda>d.
     andthen (modf (\<lambda>w. w\<lparr>dialers := AList.update (r_val d) (r_out r) (dialers w)\<rparr>)) (ret (r_out r)))))))"

text \<open>
  \<open>dial\<close>: with \<open>block=None\<close> a refused blocking dial is logged and dialed again in the
  background; every other error is raised.
\<close>

definition sock_dial ::
  "nng_lib \<Rightarrow> nng_lib \<Rightarrow> pyval \<Rightarrow> bool option \<Rightarrow> ('a sworld_scheme, pyexc, int) prog" where
  "sock_dial L1 L address block =
     (let blocking = andthen check_fork (sock_dial_flags L1 L address 0);
          background = andthen check_fork (sock_dial_flags L1 L address (flag_nonblock L))
      in case block of
        Some True \<Rightarrow> blocking
      | Some False \<Rightarrow> background
      | None \<Rightarrow> andthen check_fork
          (try_except blocking (\<lambda>e. if is_nng ConnectionRefused e then background else raise_exc e)))"

definition sock_listen :: "nng_lib \<Rightarrow> nng_lib \<Rightarrow> pyval \<Rightarrow> int \<Rightarrow> ('a sworld_scheme, pyexc, int) prog" where
  "sock_listen L1 L address flags =
     andthen check_fork (
     bnd sock_id (\<lambda>sk.
     bnd (lift (to_char False address)) (\<lambda>a.
     bnd (ccall L (S (Listen sk (addr_string a) flags))) (\<lambda>r.
     andthen (check_err L1 (r_val r)) (
     bnd (ccall L (S (Listener_id (r_out r)))) (\<lambda>d.
     andthen (modf (\<lambda>w. w\<lparr>listeners := AList.update (r_val d) (r_out r) (listeners w)\<rparr>))
       (ret (r_out r))))))))"

text \<open>
  \<open>__init__\<close>. \<open>configure\<close> is \<open>_configure_protocol_options\<close>, \<open>mk\<close> the socket as an
  object of the options module.
\<close>

definition socket_init ::
  "nng_lib \<Rightarrow> nng_lib \<Rightarrow> string option \<Rightarrow> (int \<Rightarrow> pyobj) \<Rightarrow> ('a sworld_scheme, pyexc, unit) prog
     \<Rightarrow> (string \<Rightarrow> pyval) \<Rightarrow> bool option \<Rightarrow> ('a sworld_scheme, pyexc, unit) prog" where
  "socket_init L1 L opener mk configure args block_on_dial =
     andthen check_fork (
     andthen mark_nng_initialized (
     andthen (modf (\<lambda>w. w\<lparr>dialers := [], listeners := [], sclosed := False, device_aios := [],
       recv_pool := [], send_pool := [], s_sock := Some 0\<rparr>)) (
     case opener of None \<Rightarrow> raise_exc TypeError | Some f \<Rightarrow>
     bnd (ccall L (S (Open f))) (\<lambda>r.
     andthen (modf (\<lambda>w. w\<lparr>s_sock := Some (r_out r)\<rparr>)) (
     andthen (check_err L1 (r_val r)) (
     andthen (apply_options L1 (mk (r_out r)) args) (
     andthen (setup_pipe_callbacks L1 L) (
     andthen configure (
     andthen (whenp (args ''listen'' \<noteq> PNone) (bnd (sock_listen L1 L (args ''listen'') 0) (\<lambda>_. ret ())))
       (whenp (args ''dial'' \<noteq> PNone)
         (bnd (sock_dial L1 L (args ''dial'') block_on_dial) (\<lambda>_. ret ()))))))))))))"

section \<open>Closing\<close>

text \<open>A pool is emptied from its end, and each helper is freed.\<close>

definition free_pools :: "('a sworld_scheme, pyexc, unit) prog" where
  "free_pools = modf (\<lambda>w. w\<lparr>freed := freed w @ recv_pool w @ send_pool w, recv_pool := [], send_pool := []\<rparr>)"

definition end_devices :: "nng_lib \<Rightarrow> ('a sworld_scheme, pyexc, unit) prog" where
  "end_devices L =
     bnd (getf device_aios) (\<lambda>aios.
     andthen (for_each (\<lambda>a. bnd (ccall L (A (Aio_abort a (err L ECLOSED)))) (\<lambda>_. ret ())) aios)
       (for_each (\<lambda>a. bnd (ccall L (A (Aio_wait a))) (\<lambda>_. ret ())) aios))"

text \<open>The entry of the registry goes unless it is that of another live socket.\<close>

definition drop_key ::
  "nat \<times> int \<Rightarrow> nat \<Rightarrow> nat list \<Rightarrow> ((nat \<times> int) \<times> nat) list \<Rightarrow> ((nat \<times> int) \<times> nat) list" where
  "drop_key key me dd hs =
     (case map_of hs key of None \<Rightarrow> hs | Some r \<Rightarrow> if r = me \<or> r \<in> set dd then AList.delete key hs else hs)"

definition drop_handle :: "int \<Rightarrow> 'a sworld_scheme \<Rightarrow> 'a sworld_scheme" where
  "drop_handle i w = w\<lparr>handles := drop_key (vtag w, i) (self_no w) (dead w) (handles w)\<rparr>"

definition finish_close :: "nng_lib \<Rightarrow> ('a sworld_scheme, pyexc, unit) prog" where
  "finish_close L =
     andthen (end_devices L) (
     bnd sock_id (\<lambda>sk.
     bnd (ccall L (S (Socket_id sk))) (\<lambda>i.
     andthen (modf (drop_handle (r_val i))) (
     bnd (ccall L (S (Socket_close sk))) (\<lambda>_.
     andthen (modf (\<lambda>w. w\<lparr>listeners := [], dialers := []\<rparr>)) free_pools)))))"

definition do_close :: "nng_lib \<Rightarrow> ('a sworld_scheme, pyexc, unit) prog" where
  "do_close L =
     bnd (getf s_sock) (\<lambda>s. whenp (s \<noteq> None)
       (bnd (getf sclosed) (\<lambda>c. whenp (\<not> c)
         (andthen (modf (\<lambda>w. w\<lparr>sclosed := True\<rparr>))
           (bnd (getf (\<lambda>w. in_callback w \<or> in_section w)) (\<lambda>d.
              if d then modf (\<lambda>w. w\<lparr>deferred := Suc (deferred w)\<rparr>) else finish_close L))))))"

definition socket_del :: "nng_lib \<Rightarrow> ('a sworld_scheme, pyexc, unit) prog" where
  "socket_del L = bnd (getf is_nng_finalized) (\<lambda>fin. whenp (\<not> fin)
     (try_except (do_close L) (\<lambda>e. if e = TypeError \<or> e = AttributeError then ret () else raise_exc e)))"

section \<open>Dialers, listeners and pipes\<close>

definition dialer_close :: "nng_lib \<Rightarrow> int \<Rightarrow> ('a sworld_scheme, pyexc, unit) prog" where
  "dialer_close L d =
     bnd (ccall L (S (Dialer_close d))) (\<lambda>_.
     bnd (ccall L (S (Dialer_id d))) (\<lambda>i. modf (\<lambda>w. w\<lparr>dialers := AList.delete (r_val i) (dialers w)\<rparr>)))"

definition listener_close :: "nng_lib \<Rightarrow> int \<Rightarrow> ('a sworld_scheme, pyexc, unit) prog" where
  "listener_close L l =
     bnd (ccall L (S (Listener_close l))) (\<lambda>_.
     bnd (ccall L (S (Listener_id l))) (\<lambda>i. modf (\<lambda>w. w\<lparr>listeners := AList.delete (r_val i) (listeners w)\<rparr>)))"

definition pipe_dialer :: "nng_lib \<Rightarrow> int \<Rightarrow> ('a sworld_scheme, pyexc, int) prog" where
  "pipe_dialer L p =
     bnd (ccall L (S (Pipe_dialer p))) (\<lambda>d.
     bnd (ccall L (S (Dialer_id (r_out d)))) (\<lambda>i.
     if r_val i < 0 then raise_exc TypeError
     else bnd (getf (\<lambda>w. map_of (dialers w) (r_val i)))
       (\<lambda>x. case x of None \<Rightarrow> raise_exc KeyError | Some h \<Rightarrow> ret h)))"

definition pipe_listener :: "nng_lib \<Rightarrow> int \<Rightarrow> ('a sworld_scheme, pyexc, int) prog" where
  "pipe_listener L p =
     bnd (ccall L (S (Pipe_listener p))) (\<lambda>d.
     bnd (ccall L (S (Listener_id (r_out d)))) (\<lambda>i.
     if r_val i < 0 then raise_exc TypeError
     else bnd (getf (\<lambda>w. map_of (listeners w) (r_val i)))
       (\<lambda>x. case x of None \<Rightarrow> raise_exc KeyError | Some h \<Rightarrow> ret h)))"

text \<open>\<open>Pipe.close\<close>; \<open>mark\<close> sets \<open>_closed\<close> of the pipe object.\<close>

definition pipe_close ::
  "nng_lib \<Rightarrow> nng_lib \<Rightarrow> ('a world_scheme, pyexc, unit) prog \<Rightarrow> int \<Rightarrow> ('a world_scheme, pyexc, unit) prog" where
  "pipe_close L1 L mark p =
     bnd (ccall L (S (Pipe_close p))) (\<lambda>r. andthen (check_err L1 (r_val r)) mark)"

section \<open>The pools of helpers\<close>

definition MAX_POOL_SIZE :: nat where "MAX_POOL_SIZE = 32"

text \<open>
  \<open>_acquire_recv_helper\<close> and its three siblings: the last valid helper of the pool, the ones
  above it are freed; \<open>None\<close> if there is no valid one, then a new helper is made. The result is
  the rest of the pool, the helpers freed and the helper found.
\<close>

fun acquire_helper :: "(nat \<Rightarrow> bool) \<Rightarrow> nat list \<Rightarrow> nat list \<times> nat list \<times> nat option" where
  "acquire_helper valid [] = ([], [], None)"
| "acquire_helper valid (h # pool) =
     (if valid h then (pool, [], Some h)
      else case acquire_helper valid pool of (rest, bad, found) \<Rightarrow> (rest, h # bad, found))"

text \<open>\<open>_release_recv_helper\<close>: back into the pool, or freed.\<close>

definition release_helper :: "bool \<Rightarrow> (nat \<Rightarrow> bool) \<Rightarrow> nat list \<Rightarrow> nat \<Rightarrow> nat list \<times> nat list" where
  "release_helper open' valid pool h =
     (if open' \<and> length pool < MAX_POOL_SIZE \<and> valid h then (h # pool, []) else (pool, [h]))"

section \<open>Contexts\<close>

text \<open>
  \<open>c_ctx\<close> is \<open>_context\<close>; the pools do not exist before the context was opened.
\<close>

record cworld = world +
  c_ctx :: "int option"
  c_pools :: "(nat list \<times> nat list) option"
  c_freed :: "nat list"

definition context_init :: "nng_lib \<Rightarrow> nng_lib \<Rightarrow> int \<Rightarrow> ('a cworld_scheme, pyexc, unit) prog" where
  "context_init L1 L sk =
     andthen check_fork (
     andthen mark_nng_initialized (
     andthen (modf (\<lambda>w. w\<lparr>c_ctx := Some 0, c_pools := None\<rparr>)) (
     bnd (ccall L (S (Ctx_open sk))) (\<lambda>r.
     andthen (modf (\<lambda>w. w\<lparr>c_ctx := Some (r_out r)\<rparr>)) (
     andthen (check_err L1 (r_val r)) (
     andthen (modf (\<lambda>w. w\<lparr>c_pools := Some ([], [])\<rparr>)) (
     bnd (ccall L (S (Ctx_id (r_out r)))) (\<lambda>i.
     whenp (r_val i = - 1) (raise_exc AssertionError)))))))))"

definition context_close :: "nng_lib \<Rightarrow> nng_lib \<Rightarrow> ('a cworld_scheme, pyexc, unit) prog" where
  "context_close L1 L =
     bnd (getf c_pools) (\<lambda>ps. case ps of None \<Rightarrow> raise_exc AttributeError | Some (rp, sp) \<Rightarrow>
     andthen (modf (\<lambda>w. w\<lparr>c_freed := c_freed w @ rp @ sp, c_pools := Some ([], [])\<rparr>)) (
     bnd (getf c_ctx) (\<lambda>c. case c of None \<Rightarrow> ret () | Some k \<Rightarrow>
     bnd (ccall L (S (Ctx_id k))) (\<lambda>i.
     whenp (r_val i \<noteq> - 1)
       (bnd (ccall L (S (Ctx_close k))) (\<lambda>e.
        andthen (modf (\<lambda>w. w\<lparr>c_ctx := None\<rparr>)) (check_err L1 (r_val e))))))))"

definition context_del :: "nng_lib \<Rightarrow> nng_lib \<Rightarrow> ('a cworld_scheme, pyexc, unit) prog" where
  "context_del L1 L = bnd (getf is_nng_finalized) (\<lambda>fin. whenp (\<not> fin)
     (try_except (context_close L1 L)
       (\<lambda>e. if e = TypeError \<or> e = AttributeError \<or> is_nng NNGException e then ret () else raise_exc e)))"

section \<open>Methods that end in another\<close>

definition socket_recv_nowait ::
  "nng_lib \<Rightarrow> nng_lib \<Rightarrow> nat \<Rightarrow> endpoint \<Rightarrow> ('a mworld_scheme, pyexc, byte list option) prog" where
  "socket_recv_nowait L1 L n ep = recv_with L (socket_recv_msg L1 L n ep False)"

definition socket_recv_msg_nowait ::
  "nng_lib \<Rightarrow> nng_lib \<Rightarrow> nat \<Rightarrow> endpoint \<Rightarrow> ('a mworld_scheme, pyexc, nat option) prog" where
  "socket_recv_msg_nowait L1 L n ep = socket_recv_msg L1 L n ep False"

definition socket_send_nowait :: "nng_lib \<Rightarrow> int \<Rightarrow> py_data \<Rightarrow> ('a world_scheme, pyexc, unit) prog" where
  "socket_send_nowait L sk d = socket_send L sk d False"

definition socket_send_msg_nowait :: "nng_lib \<Rightarrow> int \<Rightarrow> nat \<Rightarrow> ('a mworld_scheme, pyexc, unit) prog" where
  "socket_send_msg_nowait L sk i = socket_send_msg L sk i False"

definition socket_recv_into_nowait ::
  "nng_lib \<Rightarrow> nng_lib \<Rightarrow> nat \<Rightarrow> endpoint \<Rightarrow> bool \<Rightarrow> buffer
     \<Rightarrow> ('a mworld_scheme, pyexc, (nat \<times> byte list) option) prog" where
  "socket_recv_into_nowait L1 L n ep readonly buf = recv_into L (socket_recv_msg L1 L n ep False) readonly buf"

definition context_recv_nowait ::
  "nng_lib \<Rightarrow> nng_lib \<Rightarrow> nat \<Rightarrow> endpoint \<Rightarrow> ('a mworld_scheme, pyexc, byte list option) prog" where
  "context_recv_nowait L1 L n ep = recv_with L (context_recv_msg L1 L n ep False)"

definition context_recv_msg_nowait ::
  "nng_lib \<Rightarrow> nng_lib \<Rightarrow> nat \<Rightarrow> endpoint \<Rightarrow> ('a mworld_scheme, pyexc, nat option) prog" where
  "context_recv_msg_nowait L1 L n ep = context_recv_msg L1 L n ep False"

definition context_send_nowait :: "nng_lib \<Rightarrow> int \<Rightarrow> py_data \<Rightarrow> ('a mworld_scheme, pyexc, unit) prog" where
  "context_send_nowait L ctx d = context_send L ctx d False"

definition context_send_msg_nowait :: "nng_lib \<Rightarrow> int \<Rightarrow> nat \<Rightarrow> ('a mworld_scheme, pyexc, unit) prog" where
  "context_send_msg_nowait L ctx i = context_send_msg L ctx i False"

definition context_recv_into_nowait ::
  "nng_lib \<Rightarrow> nng_lib \<Rightarrow> nat \<Rightarrow> endpoint \<Rightarrow> bool \<Rightarrow> buffer
     \<Rightarrow> ('a mworld_scheme, pyexc, (nat \<times> byte list) option) prog" where
  "context_recv_into_nowait L1 L n ep readonly buf = recv_into L (context_recv_msg L1 L n ep False) readonly buf"

text \<open>\<open>__anext__\<close>: a receive on a closed socket or context ends the iteration.\<close>

definition anext :: "('s, pyexc, 'b) prog \<Rightarrow> ('s, pyexc, 'b) prog" where
  "anext m = try_except m (\<lambda>e. if is_nng Closed e then raise_exc StopAsyncIteration else raise_exc e)"

section \<open>Who has a helper\<close>

text \<open>
  The helpers of one pool: in the pool, in use, or freed. Tasks acquire and release them in any
  order, whether a helper is valid for the running loop is open, and a close marks the owner and
  empties the pool, in this order for a socket and in the other for a context.
\<close>

record pool_state =
  p_open :: bool
  p_drained :: bool
  p_pool :: "nat list"
  p_used :: "nat list"
  p_freed :: "nat list"
  p_next :: nat

inductive pool_step :: "pool_state \<Rightarrow> pool_state \<Rightarrow> bool" where
  pool_reuse: "acquire_helper valid (p_pool s) = (rest, bad, Some h) \<Longrightarrow>
    pool_step s (s\<lparr>p_pool := rest, p_freed := bad @ p_freed s, p_used := h # p_used s\<rparr>)"
| pool_new: "acquire_helper valid (p_pool s) = (rest, bad, None) \<Longrightarrow>
    pool_step s (s\<lparr>p_pool := rest, p_freed := bad @ p_freed s, p_used := p_next s # p_used s,
      p_next := Suc (p_next s)\<rparr>)"
| pool_release: "h \<in> set (p_used s) \<Longrightarrow> release_helper (p_open s) valid (p_pool s) h = (pool, bad) \<Longrightarrow>
    pool_step s (s\<lparr>p_pool := pool, p_freed := bad @ p_freed s, p_used := remove1 h (p_used s)\<rparr>)"
| pool_shut: "pool_step s (s\<lparr>p_open := False\<rparr>)"
| pool_drain: "pool_step s (s\<lparr>p_pool := [], p_freed := p_pool s @ p_freed s, p_drained := \<not> p_open s\<rparr>)"

definition pool_start :: "pool_state \<Rightarrow> bool" where
  "pool_start s \<longleftrightarrow> s = \<lparr>p_open = True, p_drained = False, p_pool = [], p_used = [], p_freed = [], p_next = 0\<rparr>"

definition pool_inv :: "pool_state \<Rightarrow> bool" where
  "pool_inv s \<longleftrightarrow> distinct (p_pool s @ p_used s @ p_freed s) \<and>
     (\<forall>h\<in>set (p_pool s @ p_used s @ p_freed s). h < p_next s) \<and>
     length (p_pool s) \<le> MAX_POOL_SIZE \<and> (p_drained s \<longrightarrow> \<not> p_open s \<and> p_pool s = [])"

lemma acquire_helper_parts:
  "acquire_helper valid pool = (rest, bad, found) \<Longrightarrow>
     pool = bad @ (case found of None \<Rightarrow> [] | Some h \<Rightarrow> [h]) @ rest \<and> (found = None \<longrightarrow> rest = []) \<and>
     list_all (\<lambda>h. \<not> valid h) bad \<and> (\<forall>h. found = Some h \<longrightarrow> valid h)"
proof (induction valid pool arbitrary: bad rule: acquire_helper.induct)
  case (2 valid h pool)
  then show ?case by (cases "acquire_helper valid pool") (auto split: if_splits)
qed auto

lemma pool_inv_step: "pool_inv s \<Longrightarrow> pool_step s t \<Longrightarrow> pool_inv t"
proof (erule pool_step.cases, goal_cases)
  case (1 valid s' rest bad h)
  with acquire_helper_parts [OF 1(4)] show ?case by (auto simp: pool_inv_def)
next
  case (2 valid s' rest bad)
  with acquire_helper_parts [OF 2(4)] show ?case by (auto simp: pool_inv_def less_Suc_eq)
next
  case (3 h s' valid pool bad)
  then have "distinct (p_used s')" by (simp add: pool_inv_def)
  then have "set (remove1 h (p_used s')) = set (p_used s') - {h}" "distinct (remove1 h (p_used s'))" by simp_all
  with 3 show ?case by (auto simp: pool_inv_def release_helper_def MAX_POOL_SIZE_def split: if_splits)
next
  case (4 s')
  then show ?case by (simp add: pool_inv_def)
next
  case (5 s')
  then show ?case by (auto simp: pool_inv_def)
qed

interpretation pools: step_invariant pool_start pool_step pool_inv
proof
  show "pool_start s \<Longrightarrow> pool_inv s" for s by (simp add: pool_start_def pool_inv_def)
  show "pool_inv s \<Longrightarrow> pool_step s t \<Longrightarrow> pool_inv t" for s t by (rule pool_inv_step)
qed

text \<open>A helper has one user. However the tasks of a socket or context acquire and release helpers,
  and whenever it is closed, a helper is in the pool, in use by one operation, or freed, never in two
  of these and never freed twice; the pool keeps at most 32, and once a closed socket has emptied
  it no helper comes back, so each is freed when its operation ends.\<close>

theorem pool_exclusive:
  assumes "reach pool_start pool_step s"
  shows "distinct (p_pool s @ p_used s @ p_freed s) \<and> length (p_pool s) \<le> 32 \<and>
    (p_drained s \<longrightarrow> p_pool s = [])"
  using pools.reach_inv [OF assms] by (simp add: pool_inv_def MAX_POOL_SIZE_def)

theorem pool_exclusive_witness:
  "\<exists>s. reach pool_start pool_step s \<and> p_used s = [0] \<and> p_freed s = [1] \<and> 0 \<notin> set (p_freed s)"
proof -
  let ?s0 = "\<lparr>p_open = True, p_drained = False, p_pool = [], p_used = [], p_freed = [], p_next = 0\<rparr>"
  let ?s1 = "?s0\<lparr>p_used := [0], p_next := 1\<rparr>"
  let ?s2 = "?s0\<lparr>p_used := [1, 0], p_next := 2\<rparr>"
  let ?s3 = "?s0\<lparr>p_used := [0], p_freed := [1], p_next := 2\<rparr>"
  have a: "acquire_helper (\<lambda>_. True) [] = ([], [], None)" by simp
  have "pool_step ?s0 ?s1" using pool_new [of "\<lambda>_. True" ?s0] by simp
  moreover have "pool_step ?s1 ?s2" using pool_new [of "\<lambda>_. True" ?s1] by (simp add: numeral_2_eq_2)
  moreover have "pool_step ?s2 ?s3" using pool_release [of 1 ?s2 "\<lambda>_. False" "[]" "[1]"] by (simp add: release_helper_def)
  moreover have "reach pool_start pool_step ?s0" by (rule reach_init) (simp add: pool_start_def)
  ultimately have r: "reach pool_start pool_step ?s3" by (blast intro: reach_step)
  from pool_exclusive [OF r] have "0 \<notin> set (p_freed ?s3)" by simp
  with r show ?thesis by (intro exI [of _ ?s3]) simp
qed

section \<open>A socket starts only with its callbacks\<close>

text \<open>
  The calls that start connections, and what must come before them: all three pipe callbacks of the
  socket are registered.
\<close>

definition starts_connection :: "ncall \<Rightarrow> int option" where
  "starts_connection c = (case c of S x \<Rightarrow>
     (case x of Dial sk a f \<Rightarrow> Some sk | Listen sk a f \<Rightarrow> Some sk | _ \<Rightarrow> None) | _ \<Rightarrow> None)"

definition notified :: "nng_lib \<Rightarrow> trace \<Rightarrow> int \<Rightarrow> bool" where
  "notified L tr sk \<longleftrightarrow> (\<forall>ev\<in>set notify_events.
     \<exists>r. (S (Pipe_notify sk (const L ev)), r) \<in> set tr \<and> r_val r = 0)"

definition start_ok :: "nng_lib \<Rightarrow> trace \<Rightarrow> ncall \<Rightarrow> bool" where
  "start_ok L tr c = (case starts_connection c of None \<Rightarrow> True | Some sk \<Rightarrow> notified L tr sk)"

lemma start_ok_None: "starts_connection c = None \<Longrightarrow> start_ok L tr c"
  by (simp add: start_ok_def)

fun ready_first :: "nng_lib \<Rightarrow> trace \<Rightarrow> trace \<Rightarrow> bool" where
  "ready_first L before [] = True"
| "ready_first L before (x # xs) = (start_ok L before (fst x) \<and> ready_first L (before @ [x]) xs)"

lemma ready_first_append: "ready_first L b (xs @ ys) \<longleftrightarrow> ready_first L b xs \<and> ready_first L (b @ xs) ys"
  by (induction xs arbitrary: b) simp_all

definition orderly :: "nng_lib \<Rightarrow> 'a world_scheme \<Rightarrow> 'b world_scheme \<Rightarrow> bool" where
  "orderly L w t \<longleftrightarrow> (\<exists>new. calls t = calls w @ new \<and> ready_first L (calls w) new)"

lemma orderly_call:
  assumes "orderly L w t" and "start_ok L (calls t) c"
    and "calls u = calls t @ [(c, r)]"
  shows "orderly L w u"
  using assms by (auto simp: orderly_def ready_first_append)

text \<open>A program that starts no connection keeps the order and what was notified.\<close>

definition no_start :: "'a world_scheme \<Rightarrow> 'a world_scheme \<Rightarrow> bool" where
  "no_start t u \<longleftrightarrow> (\<exists>new. calls u = calls t @ new \<and> list_all (\<lambda>x. starts_connection (fst x) = None) new)"

definition quiet_prog :: "('a world_scheme, pyexc, 'b) prog \<Rightarrow> bool" where
  "quiet_prog m \<longleftrightarrow> (\<forall>t. wp m (\<lambda>_. no_start t) (\<lambda>_. no_start t) t)"

lemma no_start_same: "calls u = calls t \<Longrightarrow> no_start t u"
  by (simp add: no_start_def)

lemma no_start_call: "starts_connection c = None \<Longrightarrow> no_start t (t\<lparr>calls := calls t @ [(c, r)]\<rparr>)"
  by (simp add: no_start_def)

lemma no_start_trans: "no_start t u \<Longrightarrow> no_start u v \<Longrightarrow> no_start t v"
  by (auto simp: no_start_def)

lemma ready_first_quiet: "list_all (\<lambda>x. starts_connection (fst x) = None) new \<Longrightarrow> ready_first L b new"
  by (induction new arbitrary: b) (simp_all add: start_ok_None)

lemma orderly_no_start: "orderly L w t \<Longrightarrow> no_start t u \<Longrightarrow> orderly L w u"
  by (auto simp: orderly_def no_start_def ready_first_append ready_first_quiet)

lemma quiet_ret [intro]: "quiet_prog (ret x)"
  by (simp add: quiet_prog_def wp_ret no_start_same)

lemma quiet_raise [intro]: "quiet_prog (raise_exc e)"
  by (simp add: quiet_prog_def wp_raise no_start_same)

lemma quiet_ccall: "starts_connection c = None \<Longrightarrow> quiet_prog (ccall L c)"
  by (simp add: quiet_prog_def wp_ccall no_start_call)

lemma quiet_calls [intro]: "quiet_prog (ccall L (Strerror e))" "quiet_prog (ccall L (Fn f xs))"
  "quiet_prog (ccall L (S (Open x)))" "quiet_prog (ccall L (S (Socket_id s)))"
  "quiet_prog (ccall L (S (Pipe_notify s ev)))"
  by (simp_all add: quiet_ccall starts_connection_def)

lemma quiet_modf [intro]: "(\<And>w. calls (f w) = calls w) \<Longrightarrow> quiet_prog (modf f)"
  by (simp add: quiet_prog_def wp_modf no_start_same)

lemma quiet_getf [intro]: "quiet_prog (getf f)"
  by (simp add: quiet_prog_def wp_getf no_start_same)

lemma quiet_bnd [intro]:
  assumes "quiet_prog m" and "\<And>x. quiet_prog (f x)"
  shows "quiet_prog (bnd m f)"
  unfolding quiet_prog_def wp_bnd
proof
  fix t
  have f: "wp (f x) (\<lambda>_. no_start t) (\<lambda>_. no_start t) u" if "no_start t u" for x u
  proof -
    have "wp (f x) (\<lambda>_. no_start u) (\<lambda>_. no_start u) u" using assms(2) by (simp add: quiet_prog_def)
    then show ?thesis by (rule wp_mono) (rule no_start_trans [OF that], assumption)+
  qed
  have "wp m (\<lambda>_. no_start t) (\<lambda>_. no_start t) t" using assms(1) by (simp add: quiet_prog_def)
  then show "wp m (\<lambda>x. wp (f x) (\<lambda>_. no_start t) (\<lambda>_. no_start t)) (\<lambda>_. no_start t) t"
    by (rule wp_mono) (erule f, assumption)
qed

lemma quiet_andthen [intro]: "quiet_prog m \<Longrightarrow> quiet_prog n \<Longrightarrow> quiet_prog (andthen m n)"
  unfolding andthen_def by (rule quiet_bnd)

lemma quiet_whenp [intro]: "(b \<Longrightarrow> quiet_prog m) \<Longrightarrow> quiet_prog (whenp b m)"
  unfolding whenp_def by auto

lemma quiet_for_each [intro]: "(\<And>x. quiet_prog (f x)) \<Longrightarrow> quiet_prog (for_each f xs)"
  by (induction xs) auto

lemma quiet_check_err [intro]: "quiet_prog (check_err L e)"
  unfolding check_err_def by auto

lemma quiet_lift [intro]: "quiet_prog (lift x)"
  unfolding lift_def by (cases x) auto

lemma quiet_opt_call [intro]: "quiet_prog (opt_call L1 ob opt ty dir extra)"
  unfolding opt_call_def split_def by (intro quiet_bnd quiet_andthen) auto

lemma quiet_setters [intro]:
  "quiet_prog (setopt_num ty L1 ob opt v)" "quiet_prog (setopt_string L1 ob opt v)"
  "quiet_prog (setopt_bool L1 ob opt v)" "quiet_prog (setopt_ptr (\<lambda>_. raise_exc TypeError) L1 ob opt v)"
  unfolding setopt_num_def setopt_string_def setopt_bool_def setopt_ptr_def
  by (intro quiet_bnd quiet_lift quiet_opt_call quiet_ret quiet_raise |
      auto split: pyval.split intro!: quiet_bnd)+

lemma quiet_set_attr [intro]: "quiet_prog (set_attr L1 ob n v)"
  unfolding set_attr_def desc_set_def setopt_int_def setopt_ms_def setopt_size_def
  by (auto split: option.split descriptor.split intro!: quiet_andthen)

lemma quiet_apply_options: "quiet_prog (apply_options L1 ob args)"
  unfolding apply_options_def by (intro quiet_for_each quiet_whenp quiet_set_attr)

text \<open>After the callbacks are set up, connections of this socket may start.\<close>

definition may_start :: "nng_lib \<Rightarrow> 'a world_scheme \<Rightarrow> int \<Rightarrow> 'b sworld_scheme \<Rightarrow> bool" where
  "may_start L w sk u \<longleftrightarrow> orderly L w u \<and> notified L (calls u) sk \<and> s_sock u = Some sk"

lemma may_start_upds [simp]:
  "may_start L w sk (u\<lparr>dialers := d\<rparr>) = may_start L w sk u"
  "may_start L w sk (u\<lparr>listeners := d\<rparr>) = may_start L w sk u"
  by (simp_all add: may_start_def orderly_def)

lemma notified_snoc: "notified L tr sk \<Longrightarrow> notified L (tr @ xs) sk"
  by (auto simp: notified_def)

lemma may_start_call:
  assumes "may_start L w sk t" and "starts_connection c = None \<or> starts_connection c = Some sk"
  shows "may_start L w sk (t\<lparr>calls := calls t @ [(c, r)]\<rparr>)"
  using assms by (auto simp: may_start_def orderly_def ready_first_append notified_snoc start_ok_def)

lemma wp_may_start_call:
  assumes "may_start L w sk t" and "starts_connection c = None \<or> starts_connection c = Some sk"
    and "\<And>r u. may_start L w sk u \<Longrightarrow> Q r u" and "\<And>e u. may_start L w sk u \<Longrightarrow> E e u"
  shows "wp (ccall L' c) Q E t"
  using assms(3,4) may_start_call [OF assms(1,2)] by (simp add: wp_ccall)

lemma wp_may_start_err:
  assumes "may_start L w sk t" and "Q () t" and "\<And>e u. may_start L w sk u \<Longrightarrow> E e u"
  shows "wp (check_err L' n) Q E t"
  using assms by (auto simp: wp_check_err starts_connection_def simp del: wp_ccall
      intro!: wp_may_start_call [OF assms(1)])

lemma wp_sock_id:
  "wp sock_id Q E t = ((s_sock t = None \<longrightarrow> E AttributeError t) \<and> (\<forall>sk. s_sock t = Some sk \<longrightarrow> Q sk t))"
  by (auto simp: sock_id_def wp_simps split: option.split)

lemma wp_listen_may_start:
  assumes "may_start L w sk t"
  shows "wp (sock_listen L1 L a f) (\<lambda>_. may_start L w sk) (\<lambda>_. may_start L w sk) t"
proof -
  have "s_sock t = Some sk" using assms by (simp add: may_start_def)
  with assms show ?thesis
    by (auto simp: sock_listen_def wp_sock_id wp_simps starts_connection_def simp del: wp_ccall wp_check_err
        intro!: wp_may_start_call [where w = w and sk = sk] wp_may_start_err [where w = w and sk = sk])
qed

lemma wp_dial_may_start:
  assumes "may_start L w sk t"
  shows "wp (sock_dial L1 L a b) (\<lambda>_. may_start L w sk) (\<lambda>_. may_start L w sk) t"
proof -
  have once: "wp (andthen check_fork (sock_dial_flags L1 L a f)) (\<lambda>_. may_start L w sk) (\<lambda>_. may_start L w sk) u"
    if "may_start L w sk u" for f and u :: "'b sworld_scheme"
  proof -
    have "s_sock u = Some sk" using that by (simp add: may_start_def)
    with that show ?thesis
      by (auto simp: sock_dial_flags_def wp_sock_id wp_simps starts_connection_def simp del: wp_ccall wp_check_err
          intro!: wp_may_start_call [where w = w and sk = sk] wp_may_start_err [where w = w and sk = sk])
  qed
  show ?thesis
  proof (cases b)
    case None
    have "wp (try_except (andthen check_fork (sock_dial_flags L1 L a 0))
       (\<lambda>e. if is_nng ConnectionRefused e then andthen check_fork (sock_dial_flags L1 L a (flag_nonblock L))
          else raise_exc e)) (\<lambda>_. may_start L w sk) (\<lambda>_. may_start L w sk) t"
      unfolding wp_except by (rule wp_mono [OF once [OF assms]]) (auto simp: wp_raise intro: once)
    then show ?thesis using None assms by (simp add: sock_dial_def wp_andthen [of check_fork] wp_check_fork)
  next
    case (Some c)
    then show ?thesis using once [OF assms] by (cases c) (simp_all add: sock_dial_def)
  qed
qed

lemma wp_quiet_orderly:
  assumes "quiet_prog m" and "orderly L w t" and "\<And>x u. orderly L w u \<Longrightarrow> Q x u" and "\<And>e u. orderly L w u \<Longrightarrow> E e u"
  shows "wp m Q E t"
proof -
  have "wp m (\<lambda>_. no_start t) (\<lambda>_. no_start t) t" using assms(1) by (simp add: quiet_prog_def)
  then show ?thesis by (rule wp_mono) (rule assms(3,4), rule orderly_no_start [OF assms(2)], assumption)+
qed

definition reg :: "nng_lib \<Rightarrow> 'a world_scheme \<Rightarrow> int \<Rightarrow> string list \<Rightarrow> 'b sworld_scheme \<Rightarrow> bool" where
  "reg L w sk xs u \<longleftrightarrow> orderly L w u \<and> s_sock u = Some sk \<and>
     (\<forall>ev\<in>set xs. \<exists>r. (S (Pipe_notify sk (const L ev)), r) \<in> set (calls u) \<and> r_val r = 0)"

lemma orderly_same: "orderly L w u \<Longrightarrow> calls v = calls u \<Longrightarrow> orderly L w v"
  by (simp add: orderly_def)

lemma orderly_quiet_call:
  "orderly L w u \<Longrightarrow> starts_connection c = None \<Longrightarrow> orderly L w (u\<lparr>calls := calls u @ [(c, r)]\<rparr>)"
  by (erule orderly_call [OF _ start_ok_None]) auto

lemma reg_call:
  assumes "reg L w sk xs u" and "starts_connection c = None"
  shows "reg L w sk xs (u\<lparr>calls := calls u @ [(c, r)]\<rparr>)"
  using assms orderly_quiet_call [OF _ assms(2), of L w u] by (auto simp: reg_def)

lemma reg_notify:
  assumes "reg L w sk xs u" and "r_val r = 0"
  shows "reg L w sk (xs @ [ev]) (u\<lparr>calls := calls u @ [(S (Pipe_notify sk (const L ev)), r)]\<rparr>)"
proof -
  have "starts_connection (S (Pipe_notify sk (const L ev))) = None" by (simp add: starts_connection_def)
  from reg_call [OF assms(1) this, of r] assms(2) show ?thesis by (auto simp: reg_def)
qed

lemma reg_orderly: "reg L w sk xs u \<Longrightarrow> orderly L w u"
  by (simp add: reg_def)

lemma wp_setup_orderly:
  fixes t :: "'a sworld_scheme"
  assumes "orderly L w t"
  shows "wp (setup_pipe_callbacks L1 L) (\<lambda>_ u. \<exists>sk. may_start L w sk u) (\<lambda>_. orderly L w) t"
proof -
  note oc = orderly_quiet_call
  have one: "wp (bnd (ccall L (S (Pipe_notify sk (const L ev)))) (\<lambda>r. check_err L1 (r_val r)))
     (\<lambda>_. reg L w sk (xs @ [ev])) (\<lambda>_. orderly L w) u" if "reg L w sk xs u" for sk xs ev and u :: "'a sworld_scheme"
  proof -
    let ?c = "S (Pipe_notify sk (const L ev))"
    have c: "starts_connection ?c = None" by (simp add: starts_connection_def)
    have e: "wp (check_err L1 e) Q (\<lambda>_. orderly L w) v" if "orderly L w v" "e = 0 \<Longrightarrow> Q () v"
      for e Q and v :: "'a sworld_scheme"
      using that oc [OF that(1), of "Strerror e"] by (simp add: wp_check_err wp_ccall starts_connection_def)
    show ?thesis
      using reg_orderly [OF reg_call [OF that c]] reg_notify [OF that]
      by (auto simp: wp_bnd wp_ccall [of L ?c] intro!: e)
  qed
  have loop: "wp (for_each (\<lambda>ev. bnd (ccall L (S (Pipe_notify sk (const L ev)))) (\<lambda>r. check_err L1 (r_val r))) ys)
     (\<lambda>_. reg L w sk (xs @ ys)) (\<lambda>_. orderly L w) u" if "reg L w sk xs u" for sk xs ys and u :: "'a sworld_scheme"
    using that
  proof (induction ys arbitrary: xs u)
    case (Cons y ys)
    show ?case
      unfolding for_each.simps wp_andthen
      by (rule wp_mono [OF one [OF Cons.prems]]) (use Cons.IH [of "xs @ [y]" for y] in auto)
  qed (simp add: wp_ret)
  show ?thesis
    unfolding setup_pipe_callbacks_def wp_bnd [of sock_id] wp_sock_id
  proof (intro conjI impI allI)
    show "orderly L w t" by (rule assms)
  next
    fix sk assume sk: "s_sock t = Some sk"
    let ?c = "S (Socket_id sk)"
    let ?r = "fn L (calls t) ?c"
    let ?t = "t\<lparr>calls := calls t @ [(?c, ?r)], handles := AList.update (vtag t, r_val ?r) (self_no t) (handles t)\<rparr>"
    have o: "orderly L w (t\<lparr>calls := calls t @ [(?c, ?r)]\<rparr>)" by (rule oc [OF assms]) (simp add: starts_connection_def)
    then have "reg L w sk [] ?t" using sk by (simp add: reg_def orderly_def)
    from loop [OF this, of notify_events] have "wp (for_each (\<lambda>ev. bnd (ccall L (S (Pipe_notify sk (const L ev))))
        (\<lambda>r. check_err L1 (r_val r))) notify_events) (\<lambda>_ u. \<exists>sk. may_start L w sk u) (\<lambda>_. orderly L w) ?t"
      by (rule wp_mono) (auto simp: may_start_def notified_def reg_def)
    with o show "wp (bnd (ccall L ?c) (\<lambda>i. andthen (modf (\<lambda>w. w\<lparr>handles := AList.update (vtag w, r_val i) (self_no w) (handles w)\<rparr>))
       (for_each (\<lambda>ev. bnd (ccall L (S (Pipe_notify sk (const L ev)))) (\<lambda>r. check_err L1 (r_val r)))
         notify_events))) (\<lambda>_ u. \<exists>sk. may_start L w sk u) (\<lambda>_. orderly L w) t"
      by (simp add: wp_bnd wp_ccall wp_andthen wp_modf)
  qed
qed


definition sworld0 :: sworld where
  "sworld0 = world.extend world0 \<lparr>self_no = 1, vtag = 1, s_sock = None, dialers = [], listeners = [],
      sclosed = False, device_aios = [], recv_pool = [], send_pool = [], freed = [], handles = [], dead = [],
      in_callback = False, in_section = False, deferred = 0\<rparr>"

lemma sworld0_simps [simp]:
  "calls sworld0 = []" "init_pid sworld0 = None" "is_forked_child sworld0 = False" "getpid sworld0 = 100"
  "self_no sworld0 = 1" "vtag sworld0 = 1" "s_sock sworld0 = None" "dialers sworld0 = []"
  "listeners sworld0 = []" "sclosed sworld0 = False" "device_aios sworld0 = []" "recv_pool sworld0 = []"
  "send_pool sworld0 = []" "freed sworld0 = []" "handles sworld0 = []" "dead sworld0 = []"
  "in_callback sworld0 = False" "in_section sworld0 = False"
  by (simp_all add: sworld0_def world.defs world0_def)

definition yes_lib :: nng_lib where
  "yes_lib = \<lparr>fn = (\<lambda>_ _. \<lparr>r_val = 0, r_out = 1, r_bytes = [], r_text = [], r_exn = None\<rparr>), has_attr = (\<lambda>_. True),
     const = nng_const, err = nng_errno, flag_nonblock = 2\<rparr>"

definition demo_init :: "(sworld, pyexc, unit) prog" where
  "demo_init = socket_init yes_lib yes_lib (Some ''nng_pair0_open'')
      (\<lambda>h. \<lparr>kind = KSocket, handle = h, own_lib = None, obj_id = 0\<rparr>) (ret ())
      (\<lambda>n. if n = ''listen'' then PBytes [105] else PNone) None"


section \<open>Closing completely\<close>

lemma for_each_calls:
  assumes "\<And>tr c. r_exn (fn L tr c) = None"
  obtains new where "for_each (\<lambda>a. bnd (ccall L (f a)) (\<lambda>_. ret ())) xs t = (Inr (), t\<lparr>calls := calls t @ new\<rparr>)"
    and "map fst new = map f xs"
proof (induction xs arbitrary: t thesis)
  case Nil
  show ?case by (rule Nil [of "[]"]) (simp_all add: ret_def)
next
  case (Cons x xs)
  let ?r = "fn L (calls t) (f x)"
  obtain new where "for_each (\<lambda>a. bnd (ccall L (f a)) (\<lambda>_. ret ())) xs (t\<lparr>calls := calls t @ [(f x, ?r)]\<rparr>) =
      (Inr (), t\<lparr>calls := calls t @ (f x, ?r) # new\<rparr>)" "map fst new = map f xs"
    using Cons.IH [of "t\<lparr>calls := calls t @ [(f x, ?r)]\<rparr>"] by auto
  moreover have "bnd (ccall L (f x)) (\<lambda>_. ret ()) t = (Inr (), t\<lparr>calls := calls t @ [(f x, ?r)]\<rparr>)"
    by (simp add: prog_defs ccall_def Let_def assms)
  ultimately show ?case
    by (intro Cons.prems [of "(f x, ?r) # new"]) (simp_all add: andthen_def bnd_def [of "bnd m g" for m g])
qed


definition closing :: sworld where
  "closing = sworld0\<lparr>s_sock := Some 5, dialers := [(2, 2)], device_aios := [9], recv_pool := [3], send_pool := [4],
     handles := [((1, 0), 1)]\<rparr>"


section \<open>The registry of live sockets\<close>

text \<open>
  Socket objects of one process, each in its own phase, and nng, which gives the id of a closed
  socket to another one. A key is the version tag with the socket id. The threads that make and
  close sockets interleave; \<open>reg_dead\<close> is the garbage collector clearing the weak reference of an
  object, which it may do before the finalizer closes the socket.
\<close>

datatype sock_phase = Unopened | Opened "nat \<times> int" | Registered "nat \<times> int" | Closing "nat \<times> int"
  | Dropped_key "nat \<times> int" | Gone_socket

record reg_sys =
  nng_open :: "(nat \<times> int) list"
  phase_of :: "nat \<Rightarrow> sock_phase"
  reg_handles :: "((nat \<times> int) \<times> nat) list"
  reg_deads :: "nat list"

definition key_of :: "sock_phase \<Rightarrow> (nat \<times> int) option" where
  "key_of p = (case p of Opened k \<Rightarrow> Some k | Registered k \<Rightarrow> Some k | Closing k \<Rightarrow> Some k
     | Dropped_key k \<Rightarrow> Some k | _ \<Rightarrow> None)"

definition set_phase :: "nat \<Rightarrow> sock_phase \<Rightarrow> reg_sys \<Rightarrow> reg_sys" where
  "set_phase n p s = s\<lparr>phase_of := (phase_of s)(n := p)\<rparr>"

inductive reg_move :: "reg_sys \<Rightarrow> reg_sys \<Rightarrow> bool" where
  reg_open: "phase_of s n = Unopened \<Longrightarrow> k \<notin> set (nng_open s) \<Longrightarrow>
    reg_move s (set_phase n (Opened k) (s\<lparr>nng_open := k # nng_open s\<rparr>))"
| reg_register: "phase_of s n = Opened k \<Longrightarrow>
    reg_move s (set_phase n (Registered k) (s\<lparr>reg_handles := AList.update k n (reg_handles s)\<rparr>))"
| reg_close: "phase_of s n = Opened k \<or> phase_of s n = Registered k \<Longrightarrow> reg_move s (set_phase n (Closing k) s)"
| reg_drop: "phase_of s n = Closing k \<Longrightarrow>
    reg_move s (set_phase n (Dropped_key k) (s\<lparr>reg_handles := drop_key k n (reg_deads s) (reg_handles s)\<rparr>))"
| reg_nng_close: "phase_of s n = Dropped_key k \<Longrightarrow>
    reg_move s (set_phase n Gone_socket (s\<lparr>nng_open := removeAll k (nng_open s)\<rparr>))"
| reg_dead: "reg_move s (s\<lparr>reg_deads := n # reg_deads s\<rparr>)"

definition reg_start :: "reg_sys \<Rightarrow> bool" where
  "reg_start s \<longleftrightarrow> nng_open s = [] \<and> (\<forall>n. phase_of s n = Unopened) \<and> reg_handles s = []"

definition handles_ok :: "reg_sys \<Rightarrow> bool" where
  "handles_ok s \<longleftrightarrow>
     (\<forall>n k. key_of (phase_of s n) = Some k \<longrightarrow> k \<in> set (nng_open s)) \<and>
     (\<forall>m n k. key_of (phase_of s m) = Some k \<longrightarrow> key_of (phase_of s n) = Some k \<longrightarrow> m = n) \<and>
     (\<forall>n k. phase_of s n = Registered k \<longrightarrow> map_of (reg_handles s) k = Some n) \<and>
     (\<forall>n k. map_of (reg_handles s) k = Some n \<longrightarrow> phase_of s n = Registered k \<or> phase_of s n = Closing k)"

lemma handles_okD:
  assumes "handles_ok s"
  shows "key_of (phase_of s n) = Some k \<Longrightarrow> k \<in> set (nng_open s)"
    and "key_of (phase_of s m) = Some k \<Longrightarrow> key_of (phase_of s n) = Some k \<Longrightarrow> m = n"
    and "phase_of s n = Registered k \<Longrightarrow> map_of (reg_handles s) k = Some n"
    and "map_of (reg_handles s) k = Some n \<Longrightarrow> phase_of s n = Registered k \<or> phase_of s n = Closing k"
  using assms unfolding handles_ok_def by blast+

lemma handles_okI:
  assumes "\<And>n k. key_of (phase_of s n) = Some k \<Longrightarrow> k \<in> set (nng_open s)"
    and "\<And>m n k. key_of (phase_of s m) = Some k \<Longrightarrow> key_of (phase_of s n) = Some k \<Longrightarrow> m = n"
    and "\<And>n k. phase_of s n = Registered k \<Longrightarrow> map_of (reg_handles s) k = Some n"
    and "\<And>n k. map_of (reg_handles s) k = Some n \<Longrightarrow> phase_of s n = Registered k \<or> phase_of s n = Closing k"
  shows "handles_ok s"
  unfolding handles_ok_def using assms by blast

lemma set_phase_simps [simp]:
  "phase_of (set_phase n p s) m = (if m = n then p else phase_of s m)"
  "nng_open (set_phase n p s) = nng_open s" "reg_handles (set_phase n p s) = reg_handles s"
  by (simp_all add: set_phase_def)

lemma key_of_simps [simp]:
  "key_of Unopened = None" "key_of Gone_socket = None" "key_of (Opened k) = Some k"
  "key_of (Registered k) = Some k" "key_of (Closing k) = Some k" "key_of (Dropped_key k) = Some k"
  by (simp_all add: key_of_def)

lemma drop_key_get: "map_of (drop_key k n dd hs) j =
    (if j = k \<and> (\<exists>x. map_of hs k = Some x \<and> (x = n \<or> x \<in> set dd)) then None else map_of hs j)"
  by (auto simp: drop_key_def dict_simps split: option.split)

text \<open>A step of one socket that touches only its own key \<open>k\<close>.\<close>

lemma handles_ok_change:
  assumes ok: "handles_ok s" and ph: "\<And>m. phase_of t m = (if m = n then p else phase_of s m)"
    and p: "key_of p = None \<or> key_of p = Some k \<and> k \<in> set (nng_open t)"
    and others: "\<And>m. key_of (phase_of s m) = Some k \<Longrightarrow> m = n"
    and mine: "key_of (phase_of s n) = None \<or> key_of (phase_of s n) = Some k"
    and rest: "\<And>j. j \<noteq> k \<Longrightarrow> j \<in> set (nng_open s) \<Longrightarrow> j \<in> set (nng_open t)"
      "\<And>j. j \<noteq> k \<Longrightarrow> map_of (reg_handles t) j = map_of (reg_handles s) j"
    and reg: "p = Registered k \<Longrightarrow> map_of (reg_handles t) k = Some n"
      "\<And>m. map_of (reg_handles t) k = Some m \<Longrightarrow> m = n \<and> (p = Registered k \<or> p = Closing k)"
  shows "handles_ok t"
proof (rule handles_okI)
  have other: "m \<noteq> n \<Longrightarrow> key_of (phase_of s m) = Some j \<Longrightarrow> j \<noteq> k" for m j using others by blast
  fix m j
  show "j \<in> set (nng_open t)" if "key_of (phase_of t m) = Some j"
  proof (cases "m = n")
    case True
    with that ph p show ?thesis by simp
  next
    case False
    with that ph have "key_of (phase_of s m) = Some j" by simp
    with other [OF False] rest(1) handles_okD(1) [OF ok] show ?thesis by blast
  qed
  show "map_of (reg_handles t) j = Some m" if "phase_of t m = Registered j"
  proof (cases "m = n")
    case True
    then have "p = Registered j" using that ph by simp
    moreover from this have "j = k" using p by simp
    ultimately show ?thesis using reg(1) True by simp
  next
    case False
    with that ph have r: "phase_of s m = Registered j" by simp
    then have "j \<noteq> k" using other [OF False] by simp
    with rest(2) handles_okD(3) [OF ok r] show ?thesis by simp
  qed
  show "phase_of t m = Registered j \<or> phase_of t m = Closing j" if "map_of (reg_handles t) j = Some m"
  proof (cases "j = k")
    case True
    with reg(2) that ph show ?thesis by auto
  next
    case False
    with rest(2) that have "phase_of s m = Registered j \<or> phase_of s m = Closing j" using handles_okD(4) [OF ok] by simp
    moreover from this False mine have "m \<noteq> n" by auto
    ultimately show ?thesis using ph by simp
  qed
next
  fix l m j
  assume a: "key_of (phase_of t l) = Some j" "key_of (phase_of t m) = Some j"
  have key: "x \<noteq> n \<Longrightarrow> key_of (phase_of t x) = key_of (phase_of s x)" for x using ph by simp
  have n: "key_of (phase_of t n) = Some j \<Longrightarrow> j = k" using ph p by auto
  show "l = m"
  proof (cases "l = n"; cases "m = n")
    assume x: "l = n" "m \<noteq> n"
    with a n have "j = k" by simp
    with a(2) key [OF x(2)] others [of m] x(2) show ?thesis by simp
  next
    assume x: "l \<noteq> n" "m = n"
    with a n have "j = k" by simp
    with a(1) key [OF x(1)] others [of l] x(1) show ?thesis by simp
  next
    assume x: "l \<noteq> n" "m \<noteq> n"
    with a key have "key_of (phase_of s l) = Some j" "key_of (phase_of s m) = Some j" by simp_all
    then show ?thesis by (rule handles_okD(2) [OF ok])
  qed simp
qed

lemma handles_ok_move:
  assumes "handles_ok s" and "reg_move s t"
  shows "handles_ok t"
  using assms(2)
proof cases
  case (reg_open n k)
  have new: "key_of (phase_of s m) \<noteq> Some k" for m using handles_okD(1) [OF assms(1)] reg_open(3) by blast
  have hk: "map_of (reg_handles s) k = None"
  proof (cases "map_of (reg_handles s) k")
    case (Some a)
    with handles_okD(4) [OF assms(1), of k a] new [of a] show ?thesis by auto
  qed simp
  show ?thesis unfolding reg_open(1)
    by (rule handles_ok_change [OF assms(1), where n = n and k = k and p = "Opened k"])
      (use new hk reg_open(2) in auto)
next
  case (reg_register n k)
  then have u: "key_of (phase_of s m) = Some k \<Longrightarrow> m = n" for m using handles_okD(2) [OF assms(1), of m k n] by simp
  show ?thesis unfolding reg_register(1)
    by (rule handles_ok_change [OF assms(1), where n = n and k = k and p = "Registered k"])
      (use u reg_register(2) handles_okD(1) [OF assms(1), of n k] in \<open>auto simp: dict_simps\<close>)
next
  case (reg_close n k)
  then have u: "key_of (phase_of s m) = Some k \<Longrightarrow> m = n" for m using handles_okD(2) [OF assms(1), of m k n] by auto
  have "map_of (reg_handles s) k = Some m \<Longrightarrow> m = n" for m using handles_okD(4) [OF assms(1), of k m] u [of m] by auto
  then show ?thesis unfolding reg_close(1)
    by (intro handles_ok_change [OF assms(1), where n = n and k = k and p = "Closing k"])
      (use u reg_close(2) handles_okD(1) [OF assms(1), of n k] in auto)
next
  case (reg_drop n k)
  then have u: "key_of (phase_of s m) = Some k \<Longrightarrow> m = n" for m using handles_okD(2) [OF assms(1), of m k n] by auto
  have "map_of (reg_handles s) k = Some m \<Longrightarrow> m = n" for m using handles_okD(4) [OF assms(1), of k m] u [of m] by auto
  then show ?thesis unfolding reg_drop(1)
    by (intro handles_ok_change [OF assms(1), where n = n and k = k and p = "Dropped_key k"])
      (use u reg_drop(2) handles_okD(1) [OF assms(1), of n k] in \<open>auto simp: drop_key_get split: if_splits\<close>)
next
  case (reg_nng_close n k)
  then have u: "key_of (phase_of s m) = Some k \<Longrightarrow> m = n" for m using handles_okD(2) [OF assms(1), of m k n] by auto
  have "map_of (reg_handles s) k \<noteq> Some m" for m
    using handles_okD(4) [OF assms(1), of k m] u [of m] reg_nng_close(2) by auto
  then show ?thesis unfolding reg_nng_close(1)
    by (intro handles_ok_change [OF assms(1), where n = n and k = k and p = Gone_socket])
      (use u reg_nng_close(2) in auto)
next
  case (reg_dead n)
  show ?thesis unfolding reg_dead by (rule handles_okI; insert handles_okD [OF assms(1)]; simp)
qed

interpretation registry_run: step_invariant reg_start reg_move handles_ok
proof
  show "reg_start s \<Longrightarrow> handles_ok s" for s by (rule handles_okI) (simp_all add: reg_start_def)
  show "handles_ok s \<Longrightarrow> reg_move s t \<Longrightarrow> handles_ok t" for s t by (rule handles_ok_move)
qed



end
