(* ===== verification/Devices.thy ===== *)
theory Devices
  imports AsyncIO Sockets
begin

text \<open>
  Devices: \<open>_device_sockets\<close>, \<open>_start_device\<close> and \<open>_stop_device\<close> of
  \<^verbatim>\<open>_base.py\<close>, the synchronous \<open>_device\<close> of \<^verbatim>\<open>nng.py\<close> and
  \<open>DeviceAIO\<close> of \<^verbatim>\<open>_aio.py\<close>; and what closing a socket and running devices may do to
  each other when their threads interleave.
\<close>

section \<open>The sockets of a device\<close>

text \<open>
  A \<open>Socket\<close> by its number, with the number of its library and its handle, or a bare
  \<open>nng_socket\<close>, whose cffi type tells its library.
\<close>

datatype dev_arg = ASocket nat nat int | ABare nat int

definition resolve_socket :: "dev_arg \<Rightarrow> nat \<Rightarrow> pyexc + nat \<times> int" where
  "resolve_socket a dflt =
     (case a of ASocket n l k \<Rightarrow> Inr (l, k)
      | ABare ty k \<Rightarrow> if ty \<noteq> dflt then Inl ValueError else Inr (dflt, k))"

definition device_sockets :: "dev_arg \<Rightarrow> dev_arg option \<Rightarrow> nat \<Rightarrow> pyexc + nat \<times> int \<times> int" where
  "device_sockets s1 s2 dflt =
     (case resolve_socket s1 dflt of Inl e \<Rightarrow> Inl e
      | Inr (l1, k1) \<Rightarrow> (case s2 of None \<Rightarrow> Inr (l1, k1, 0)
        | Some a \<Rightarrow> (case resolve_socket a l1 of Inl e \<Rightarrow> Inl e
          | Inr (l2, k2) \<Rightarrow> if l2 \<noteq> l1 then Inl ValueError else Inr (l1, k1, k2))))"

definition owners_of :: "dev_arg \<Rightarrow> dev_arg option \<Rightarrow> nat list" where
  "owners_of s1 s2 = concat (map (\<lambda>a. case a of Some (ASocket n l k) \<Rightarrow> [n] | _ \<Rightarrow> []) [Some s1, s2])"

lemma device_sockets_one_library:
  "device_sockets s1 (Some s2) d = Inr (l, k1, k2) \<Longrightarrow> \<exists>d'. resolve_socket s1 d = Inr (l, k1) \<and> resolve_socket s2 d' = Inr (l, k2)"
  by (auto simp: device_sockets_def split: sum.splits prod.splits if_splits)

section \<open>Running a device\<close>

text \<open>
  \<open>dev_sets\<close> pairs sockets with the aios in their \<open>_device_aios\<close>; \<open>closed_socks\<close> are the
  sockets whose \<open>_socket_closed\<close> is set.
\<close>

record dworld = aworld +
  dev_sets :: "(nat \<times> int) list"
  closed_socks :: "nat list"

definition start_device ::
  "nng_lib \<Rightarrow> nat list \<Rightarrow> int \<Rightarrow> int \<Rightarrow> int \<Rightarrow> ('a dworld_scheme, pyexc, unit) prog" where
  "start_device L owners aio k1 k2 =
     bnd (getf closed_socks) (\<lambda>c.
     if list_ex (\<lambda>n. n \<in> set c) owners then raise_exc (NNGErr Closed ''Object closed'' (err L ECLOSED))
     else bnd (ccall L (A (Device_aio aio k1 k2))) (\<lambda>_.
       modf (\<lambda>w. w\<lparr>dev_sets := map (\<lambda>n. (n, aio)) owners @ dev_sets w\<rparr>)))"

definition stop_device :: "nat list \<Rightarrow> int \<Rightarrow> ('a dworld_scheme, pyexc, unit) prog" where
  "stop_device owners aio =
     modf (\<lambda>w. w\<lparr>dev_sets := filter (\<lambda>(n, a). \<not> (n \<in> set owners \<and> a = aio)) (dev_sets w)\<rparr>)"

text \<open>\<open>_device\<close>: the device runs until nng ends it, and its aio is freed in any case.\<close>

definition device_sync ::
  "(nat \<Rightarrow> nng_lib) \<Rightarrow> nat \<Rightarrow> dev_arg \<Rightarrow> dev_arg option \<Rightarrow> ('a dworld_scheme, pyexc, unit) prog" where
  "device_sync libs dflt s1 s2 =
     andthen check_fork (
     andthen mark_nng_initialized (
     bnd (lift (device_sockets s1 s2 dflt)) (\<lambda>(l, k1, k2).
     let L = libs l; owners = owners_of s1 s2 in
     bnd (ccall L (A (Aio_alloc 0))) (\<lambda>r.
     andthen (check_err L (r_val r)) (
     let aio = r_out r in
     try_finally
       (andthen (start_device L owners aio k1 k2) (
        andthen (try_finally (bnd (ccall L (A (Aio_wait aio))) (\<lambda>_. ret ())) (stop_device owners aio)) (
        bnd (ccall L (A (Aio_result aio))) (\<lambda>x. check_err L (r_val x)))))
       (bnd (ccall L (A (Aio_free aio))) (\<lambda>_. ret ())))))))"

text \<open>\<open>DeviceAIO.__init__\<close>: the backend is that of the first socket, or the running one.\<close>

definition device_init ::
  "nng_lib \<Rightarrow> string option \<Rightarrow> string option \<Rightarrow> string \<Rightarrow> bool \<Rightarrow> ('a dworld_scheme, pyexc, unit) prog" where
  "device_init L async_backend of_socket current got_engine =
     andthen (upd_helper (\<lambda>_. fresh_helper))
       (case backend_of (case async_backend of Some b \<Rightarrow> b
           | None \<Rightarrow> (case of_socket of Some b \<Rightarrow> b | None \<Rightarrow> current)) of
          None \<Rightarrow> raise_exc ValueError
        | Some b \<Rightarrow>
            if b = Asyncio \<and> has_attr L ''pynng_native_aio_complete'' \<and> got_engine
            then init_engine_aio L else init_callback_aio L b)"

definition free_device_aio :: "nng_lib \<Rightarrow> nat list \<Rightarrow> int \<Rightarrow> ('a dworld_scheme, pyexc, unit) prog" where
  "free_device_aio L owners a =
     bnd (ccall L (A (Aio_cancel a))) (\<lambda>_.
     bnd (ccall L (A (Aio_wait a))) (\<lambda>_.
     andthen (stop_device owners a) (
     bnd (ccall L (A (Aio_free a))) (\<lambda>_. upd_helper (h_aio_update (\<lambda>_. None))))))"

definition device_free :: "nng_lib \<Rightarrow> nat list \<Rightarrow> ('a dworld_scheme, pyexc, unit) prog" where
  "device_free L owners = bnd (getf is_nng_finalized) (\<lambda>fin.
     if fin then andthen (upd_helper (\<lambda>h. h\<lparr>h_aio := None, h_entry := None\<rparr>)) pop_callback
     else
       andthen (bnd (get_helper h_engine) (\<lambda>e. whenp e drop_slot)) (
       andthen (bnd (get_helper h_aio) (\<lambda>a. case a of None \<Rightarrow> ret () | Some a \<Rightarrow> free_device_aio L owners a)) (
       andthen (bnd (get_helper h_entry) (\<lambda>en. case en of None \<Rightarrow> ret ()
         | Some e \<Rightarrow> bnd (ccall L (Fn ''pynng_aio_entry_free'' [CInt e]))
             (\<lambda>_. upd_helper (h_entry_update (\<lambda>_. None))))) (
       andthen close_dead_engine (
       andthen pop_callback (upd_helper (\<lambda>h. h\<lparr>h_cb := None, h_awaitable := None\<rparr>)))))))"

text \<open>\<open>DeviceAIO.run\<close>; as in theory \<open>AsyncIO\<close>, \<open>None\<close> is a device that still runs.\<close>

definition device_prepare :: "nng_lib \<Rightarrow> ('a dworld_scheme, pyexc, unit) prog" where
  "device_prepare L =
     bnd (getf loop_open) (\<lambda>o'. if \<not> o' then raise_exc RuntimeError else
      bnd new_slot (\<lambda>(s, f).
      andthen (upd_helper (\<lambda>h. h\<lparr>h_slot := Some s\<rparr>))
      (bnd (get_helper h_entry) (\<lambda>en. bnd (ptr_of en) (\<lambda>e. entry_set_slot L e s)))))"

definition device_release :: "nng_lib \<Rightarrow> ('a dworld_scheme, pyexc, unit) prog" where
  "device_release L = andthen drop_slot
     (bnd (get_helper h_entry) (\<lambda>en. case en of None \<Rightarrow> ret () | Some e \<Rightarrow> entry_set_slot L e 0))"

definition device_body ::
  "nng_lib \<Rightarrow> nat \<Rightarrow> nat list \<Rightarrow> int \<Rightarrow> int \<Rightarrow> ('a dworld_scheme, pyexc, unit option) prog" where
  "device_body L n owners k1 k2 =
     bnd (get_helper (\<lambda>h. (h_engine h, h_awaitable h))) (\<lambda>(e, aw).
     if e then
       andthen (device_prepare L) (
       bnd helper_aio (\<lambda>a.
       andthen (start_device L owners a k1 k2)
         (bnd_some (finally_some (shield_loop L n a False) (device_release L)) (wait_result L a))))
     else
       bnd helper_aio (\<lambda>a.
       andthen (start_device L owners a k1 k2)
         (case aw of Some Asyncio \<Rightarrow> asyncio_wait L n a | Some Trio \<Rightarrow> trio_wait L a
          | None \<Rightarrow> raise_exc TypeError)))"

definition device_run ::
  "nng_lib \<Rightarrow> nat \<Rightarrow> nat list \<Rightarrow> int \<Rightarrow> int \<Rightarrow> ('a dworld_scheme, pyexc, unit option) prog" where
  "device_run L n owners k1 k2 = finally_some (device_body L n owners k1 k2) (device_free L owners)"

text \<open>\<open>_adevice\<close>: the coroutine with the context manager of the device around it.\<close>

definition adevice ::
  "(nat \<Rightarrow> nng_lib) \<Rightarrow> nat \<Rightarrow> nat \<Rightarrow> dev_arg \<Rightarrow> dev_arg option \<Rightarrow> string option \<Rightarrow> string option \<Rightarrow> string
     \<Rightarrow> bool \<Rightarrow> ('a dworld_scheme, pyexc, unit option) prog" where
  "adevice libs n dflt s1 s2 async_backend of_socket current got_engine =
     andthen check_fork (
     andthen mark_nng_initialized (
     bnd (lift (device_sockets s1 s2 dflt)) (\<lambda>(l, k1, k2).
     let L = libs l; owners = owners_of s1 s2 in
     andthen (device_init L async_backend of_socket current got_engine)
       (finally_some (device_run L n owners k1 k2) (device_free L owners)))))"

text \<open>\<open>DeviceAIO.__del__\<close>: in a device section, which holds the lock, another thread frees it.\<close>

definition device_del :: "nng_lib \<Rightarrow> bool \<Rightarrow> nat list \<Rightarrow> nat \<Rightarrow> ('a dworld_scheme, pyexc, nat) prog" where
  "device_del L section owners threads =
     (if section then ret (Suc threads) else andthen (device_free L owners) (ret threads))"

section \<open>Devices and closing sockets\<close>

text \<open>
  The threads that run devices and close sockets. A device is not started, running, done or
  stopped (its aio removed from the sets of its sockets), and its aio is freed in the end; a
  socket is open, closing, past \<open>_end_devices\<close>, or closed in nng. Each step is one critical section
  or one call: \<open>dm_done\<close> is nng ending a device by itself.
\<close>

datatype dev_phase = DNew | DRunning | DDone | DStopped | DFreed
datatype close_phase = SOpen | SFlagged | SEnded | SClosed

record dev_sys =
  dphase :: "nat \<Rightarrow> dev_phase"
  dsets :: "nat \<Rightarrow> nat set"
  sphase :: "nat \<Rightarrow> close_phase"

definition end_all :: "nat set \<Rightarrow> (nat \<Rightarrow> dev_phase) \<Rightarrow> nat \<Rightarrow> dev_phase" where
  "end_all ds ph d = (if d \<in> ds \<and> ph d = DRunning then DDone else ph d)"

inductive dev_move :: "(nat \<Rightarrow> nat list) \<Rightarrow> dev_sys \<Rightarrow> dev_sys \<Rightarrow> bool" for owners :: "nat \<Rightarrow> nat list" where
  dm_start: "dphase s d = DNew \<Longrightarrow> \<forall>n\<in>set (owners d). sphase s n = SOpen \<Longrightarrow>
    dev_move owners s (s\<lparr>dphase := (dphase s)(d := DRunning),
      dsets := (\<lambda>n. if n \<in> set (owners d) then insert d (dsets s n) else dsets s n)\<rparr>)"
| dm_done: "dphase s d = DRunning \<Longrightarrow> dev_move owners s (s\<lparr>dphase := (dphase s)(d := DDone)\<rparr>)"
| dm_stop: "dphase s d = DDone \<Longrightarrow>
    dev_move owners s (s\<lparr>dphase := (dphase s)(d := DStopped), dsets := (\<lambda>n. dsets s n - {d})\<rparr>)"
| dm_free: "dphase s d = DNew \<or> dphase s d = DStopped \<Longrightarrow> dev_move owners s (s\<lparr>dphase := (dphase s)(d := DFreed)\<rparr>)"
| dm_flag: "sphase s n = SOpen \<Longrightarrow> dev_move owners s (s\<lparr>sphase := (sphase s)(n := SFlagged)\<rparr>)"
| dm_end: "sphase s n = SFlagged \<Longrightarrow>
    dev_move owners s (s\<lparr>dphase := end_all (dsets s n) (dphase s), sphase := (sphase s)(n := SEnded)\<rparr>)"
| dm_close: "sphase s n = SEnded \<Longrightarrow> dev_move owners s (s\<lparr>sphase := (sphase s)(n := SClosed)\<rparr>)"

definition dev_start :: "dev_sys \<Rightarrow> bool" where
  "dev_start s \<longleftrightarrow> (\<forall>d. dphase s d = DNew) \<and> (\<forall>n. dsets s n = {} \<and> sphase s n = SOpen)"

definition dev_ok :: "(nat \<Rightarrow> nat list) \<Rightarrow> dev_sys \<Rightarrow> bool" where
  "dev_ok owners s \<longleftrightarrow>
     (\<forall>n d. d \<in> dsets s n \<longleftrightarrow> n \<in> set (owners d) \<and> (dphase s d = DRunning \<or> dphase s d = DDone)) \<and>
     (\<forall>n d. sphase s n = SEnded \<or> sphase s n = SClosed \<longrightarrow> n \<in> set (owners d) \<longrightarrow> dphase s d \<noteq> DRunning)"

lemma dev_ok_move:
  assumes "dev_ok owners s" and "dev_move owners s t"
  shows "dev_ok owners t"
  using assms(2,1)
proof cases
  case (dm_start d)
  then show ?thesis using assms(1) unfolding dev_ok_def by (auto split: if_splits)
next
  case (dm_done d)
  then show ?thesis using assms(1) unfolding dev_ok_def by auto
next
  case (dm_stop d)
  then show ?thesis using assms(1) unfolding dev_ok_def by auto
next
  case (dm_free d)
  then show ?thesis using assms(1) unfolding dev_ok_def by auto
next
  case (dm_flag n)
  then show ?thesis using assms(1) unfolding dev_ok_def by (auto split: if_splits)
next
  case (dm_end n)
  then show ?thesis using assms(1) unfolding dev_ok_def by (auto simp: end_all_def split: if_splits)
next
  case (dm_close n)
  then show ?thesis using assms(1) unfolding dev_ok_def by (auto split: if_splits)
qed

interpretation dev_run: step_invariant dev_start "dev_move owners" "dev_ok owners" for owners
proof
  show "dev_start s \<Longrightarrow> dev_ok owners s" for s by (simp add: dev_start_def dev_ok_def)
  show "dev_ok owners s \<Longrightarrow> dev_move owners s t \<Longrightarrow> dev_ok owners t" for s t by (rule dev_ok_move)
qed



end
