(* ===== verification/PyStr.thy ===== *)
theory PyStr
  imports Text
begin

text \<open>
  What the build and maintenance scripts use of Python's \<open>str\<close> and \<open>re\<close>: \<open>split\<close>,
  \<open>splitlines\<close>, \<open>strip\<close>, \<open>replace\<close>, \<open>startswith\<close>, \<open>endswith\<close>,
  \<open>removeprefix\<close>, and a backtracking matcher for the regular expressions of the code with
  \<open>search\<close>, \<open>sub\<close> and \<open>finditer\<close>. A matcher returns its results in the order in
  which Python's engine tries them, so the first is the match Python reports.
\<close>

lemma find_append: "find P (xs @ ys) = (case find P xs of None \<Rightarrow> find P ys | Some x \<Rightarrow> Some x)"
  by (induction xs) auto

section \<open>Characters\<close>

text \<open>\<open>str.isspace\<close>, which is also what \<open>\\s\<close> matches.\<close>

definition is_space :: "nat \<Rightarrow> bool" where
  "is_space c \<longleftrightarrow> (9 \<le> c \<and> c \<le> 13) \<or> (28 \<le> c \<and> c \<le> 32) \<or> c = 0x85 \<or> c = 0xA0 \<or> c = 0x1680
     \<or> (0x2000 \<le> c \<and> c \<le> 0x200A) \<or> c = 0x2028 \<or> c = 0x2029 \<or> c = 0x202F \<or> c = 0x205F
     \<or> c = 0x3000"

text \<open>The line boundaries of \<open>str.splitlines\<close>.\<close>

definition is_eol :: "nat \<Rightarrow> bool" where
  "is_eol c \<longleftrightarrow> (10 \<le> c \<and> c \<le> 13) \<or> (28 \<le> c \<and> c \<le> 30) \<or> c = 0x85 \<or> c = 0x2028 \<or> c = 0x2029"

lemma is_eol_space: "is_eol c \<Longrightarrow> is_space c"
  by (auto simp: is_eol_def is_space_def)

section \<open>Prefixes, suffixes and replacement\<close>

fun strip_prefix :: "'a list \<Rightarrow> 'a list \<Rightarrow> 'a list option" where
  "strip_prefix [] s = Some s"
| "strip_prefix (p # ps) [] = None"
| "strip_prefix (p # ps) (c # cs) = (if p = c then strip_prefix ps cs else None)"

lemma strip_prefix_append [simp]: "strip_prefix p (p @ s) = Some s"
  by (induction p) auto

lemma strip_prefix_self [simp]: "strip_prefix p p = Some []"
  using strip_prefix_append [of p "[]"] by simp

lemma strip_prefix_Some: "strip_prefix p s = Some r \<longleftrightarrow> s = p @ r"
  by (induction p s rule: strip_prefix.induct) auto

definition startswith :: "'a list \<Rightarrow> 'a list \<Rightarrow> bool" where
  "startswith s p \<longleftrightarrow> strip_prefix p s \<noteq> None"

definition endswith :: "'a list \<Rightarrow> 'a list \<Rightarrow> bool" where
  "endswith s p \<longleftrightarrow> strip_prefix (rev p) (rev s) \<noteq> None"

definition removeprefix :: "'a list \<Rightarrow> 'a list \<Rightarrow> 'a list" where
  "removeprefix p s = (case strip_prefix p s of None \<Rightarrow> s | Some r \<Rightarrow> r)"

lemma startswith_iff: "startswith s p \<longleftrightarrow> (\<exists>r. s = p @ r)"
  by (auto simp: startswith_def strip_prefix_Some)

lemma endswith_iff: "endswith s p \<longleftrightarrow> (\<exists>r. s = r @ p)"
proof -
  have "rev s = rev p @ r \<longleftrightarrow> s = rev r @ p" for r
    by (metis rev_append rev_rev_ident)
  then show ?thesis
    by (auto simp: endswith_def strip_prefix_Some) (metis rev_rev_ident)
qed

lemma set_removeprefix: "set (removeprefix p s) \<subseteq> set s"
  by (auto simp: removeprefix_def strip_prefix_Some split: option.splits)

text \<open>\<open>str.replace\<close> with a non-empty pattern: left to right, without overlaps.\<close>

function replace_all :: "'a list \<Rightarrow> 'a list \<Rightarrow> 'a list \<Rightarrow> 'a list" where
  "replace_all p q s =
     (case strip_prefix p s of
        Some r \<Rightarrow> if p = [] then s else q @ replace_all p q r
      | None \<Rightarrow> (case s of [] \<Rightarrow> [] | c # cs \<Rightarrow> c # replace_all p q cs))"
  by pat_completeness auto
termination
  by (relation "measure (\<lambda>(p, q, s). length s)") (auto simp: strip_prefix_Some)

declare replace_all.simps [simp del]

lemma replace_all_hit: "p \<noteq> [] \<Longrightarrow> replace_all p q (p @ r) = q @ replace_all p q r"
  by (subst replace_all.simps) simp

lemma replace_all_miss:
  "strip_prefix p (c # cs) = None \<Longrightarrow> replace_all p q (c # cs) = c # replace_all p q cs"
  by (subst replace_all.simps) simp

lemma replace_all_Nil: "p \<noteq> [] \<Longrightarrow> replace_all p q [] = []"
  by (subst replace_all.simps) (cases p; simp)

lemma set_replace_all: "set (replace_all p q s) \<subseteq> set s \<union> set q"
proof (induction p q s rule: replace_all.induct)
  case (1 p q s)
  show ?case
  proof (cases "strip_prefix p s")
    case None
    then show ?thesis
      using "1.IH"(1) [OF None] by (subst replace_all.simps) (cases s; force)
  next
    case (Some r)
    then have "s = p @ r" by (simp add: strip_prefix_Some)
    then show ?thesis
      using "1.IH"(2) [OF Some] by (subst replace_all.simps) auto
  qed
qed

text \<open>A text that does not contain the pattern is left alone.\<close>

fun contains :: "'a list \<Rightarrow> 'a list \<Rightarrow> bool" where
  "contains p [] = (p = [])"
| "contains p (c # cs) = (startswith (c # cs) p \<or> contains p cs)"

lemma replace_all_id: "p \<noteq> [] \<Longrightarrow> \<not> contains p s \<Longrightarrow> replace_all p q s = s"
  by (induction s) (auto simp: replace_all_Nil startswith_def intro: replace_all_miss [THEN trans])

lemma contains_iff: "contains p s \<longleftrightarrow> (\<exists>a b. s = a @ p @ b)"
proof (induction s)
  case (Cons c cs)
  show ?case
  proof
    assume "contains p (c # cs)"
    then show "\<exists>a b. c # cs = a @ p @ b"
    proof (cases "startswith (c # cs) p")
      case True
      then show ?thesis by (metis append_Nil startswith_iff)
    next
      case False
      with \<open>contains p (c # cs)\<close> Cons show ?thesis by (metis append_Cons contains.simps(2))
    qed
  next
    assume "\<exists>a b. c # cs = a @ p @ b"
    then obtain a b where ab: "c # cs = a @ p @ b" by blast
    show "contains p (c # cs)"
    proof (cases a)
      case Nil
      then have "startswith (c # cs) p" using ab by (auto simp: startswith_iff)
      then show ?thesis by simp
    next
      case (Cons d a')
      with ab \<open>contains p cs \<longleftrightarrow> _\<close> show ?thesis by auto
    qed
  qed
qed simp

section \<open>Splitting\<close>

text \<open>\<open>str.split()\<close>: the maximal runs of characters that are no whitespace.\<close>

function split_ws :: "nat list \<Rightarrow> nat list list" where
  "split_ws s =
     (case dropWhile is_space s of
        [] \<Rightarrow> []
      | c # cs \<Rightarrow> (c # takeWhile (\<lambda>x. \<not> is_space x) cs)
                    # split_ws (dropWhile (\<lambda>x. \<not> is_space x) cs))"
  by pat_completeness auto
termination
proof (relation "measure length")
  fix s c cs assume "dropWhile is_space s = c # cs"
  then have "length (c # cs) \<le> length s" by (metis length_dropWhile_le)
  moreover have "length (dropWhile (\<lambda>x. \<not> is_space x) cs) \<le> length cs"
    by (rule length_dropWhile_le)
  ultimately show "(dropWhile (\<lambda>x. \<not> is_space x) cs, s) \<in> measure length" by simp
qed simp

declare split_ws.simps [simp del]

definition word_like :: "nat list \<Rightarrow> bool" where
  "word_like w \<longleftrightarrow> w \<noteq> [] \<and> (\<forall>c\<in>set w. \<not> is_space c)"

lemma split_ws_words: "w \<in> set (split_ws s) \<Longrightarrow> word_like w"
proof (induction s rule: split_ws.induct)
  case (1 s)
  show ?case
  proof (cases "dropWhile is_space s")
    case Nil
    with 1 show ?thesis by (subst (asm) (2) split_ws.simps) simp
  next
    case (Cons c cs)
    then have "\<not> is_space c" by (metis hd_dropWhile list.distinct(1) list.sel(1))
    moreover have "w = c # takeWhile (\<lambda>x. \<not> is_space x) cs
        \<or> w \<in> set (split_ws (dropWhile (\<lambda>x. \<not> is_space x) cs))"
      using "1.prems" Cons by (subst (asm) split_ws.simps) simp
    moreover have "word_like (c # takeWhile (\<lambda>x. \<not> is_space x) cs)"
      using calculation(1) by (auto simp: word_like_def dest: set_takeWhileD)
    ultimately show ?thesis
      using "1.IH" [OF Cons] by blast
  qed
qed

lemma split_ws_Nil [simp]: "split_ws [] = []"
  by (simp add: split_ws.simps)

lemma split_ws_space: "is_space c \<Longrightarrow> split_ws (c # s) = split_ws s"
  by (subst split_ws.simps) (simp add: split_ws.simps [of s])

lemma split_ws_word:
  assumes "word_like w" and "s = [] \<or> is_space (hd s)"
  shows "split_ws (w @ s) = w # split_ws s"
proof -
  obtain c cs where w: "w = c # cs" using assms(1) by (cases w) (auto simp: word_like_def)
  have ns: "\<not> is_space c" "\<forall>x\<in>set cs. \<not> is_space x" using assms(1) w by (auto simp: word_like_def)
  have tw: "takeWhile (\<lambda>x. \<not> is_space x) (cs @ s) = cs"
    using ns assms(2) by (cases s) (auto simp: takeWhile_append)
  have dw: "dropWhile (\<lambda>x. \<not> is_space x) (cs @ s) = s"
    using ns assms(2) by (cases s) (auto simp: dropWhile_append)
  show ?thesis using ns tw dw by (subst split_ws.simps) (simp add: w)
qed

text \<open>\<open>str.strip()\<close> and \<open>str.splitlines()\<close>; \<open>\\r\\n\<close> is one boundary, and no empty line
  follows the last boundary.\<close>

definition strip_ws :: "nat list \<Rightarrow> nat list" where
  "strip_ws s = rev (dropWhile is_space (rev (dropWhile is_space s)))"

fun splitlines_acc :: "nat list \<Rightarrow> nat list \<Rightarrow> nat list list" where
  "splitlines_acc acc [] = (if acc = [] then [] else [rev acc])"
| "splitlines_acc acc [c] = (if is_eol c then [rev acc] else [rev (c # acc)])"
| "splitlines_acc acc (c # d # s) =
     (if c = 13 \<and> d = 10 then rev acc # splitlines_acc [] s
      else if is_eol c then rev acc # splitlines_acc [] (d # s)
      else splitlines_acc (c # acc) (d # s))"

definition splitlines :: "nat list \<Rightarrow> nat list list" where
  "splitlines s = splitlines_acc [] s"

lemma splitlines_acc_line:
  assumes "\<forall>c\<in>set l. \<not> is_eol c"
  shows "splitlines_acc acc (l @ [10]) = [rev acc @ l]"
    and "s \<noteq> [] \<Longrightarrow> splitlines_acc acc (l @ 10 # s) = (rev acc @ l) # splitlines_acc [] s"
    and "acc @ l \<noteq> [] \<Longrightarrow> splitlines_acc acc l = [rev acc @ l]"
proof -
  have nl: "is_eol 10" "\<not> is_eol c \<Longrightarrow> c \<noteq> 13 \<and> c \<noteq> 10" for c by (auto simp: is_eol_def)
  show "splitlines_acc acc (l @ [10]) = [rev acc @ l]"
    using assms
  proof (induction l arbitrary: acc)
    case (Cons c l)
    then show ?case by (cases l) (auto simp: nl)
  qed (simp add: nl)
  show "splitlines_acc acc (l @ 10 # s) = (rev acc @ l) # splitlines_acc [] s" if "s \<noteq> []"
    using assms
  proof (induction l arbitrary: acc)
    case Nil
    with that show ?case by (cases s) (simp_all add: nl)
  next
    case (Cons c l)
    then show ?case by (cases l) (auto simp: nl)
  qed
  show "splitlines_acc acc l = [rev acc @ l]" if "acc @ l \<noteq> []"
    using assms that
  proof (induction l arbitrary: acc)
    case (Cons c l)
    then show ?case by (cases l) (auto simp: nl)
  qed simp
qed

section \<open>Regular expressions\<close>

text \<open>
  The constructs the code uses: a character class, greedy \<open>+\<close> of a class, alternatives,
  optional parts, one group, \<open>\\b\<close>, \<open>^\<close> of a multi-line pattern and \<open>$\<close>.
  A position is the character before it and the text after it; a result is the captured group
  and the position where the match ends. Word characters are those of \<open>str.isalnum\<close>, a
  table of the Unicode database and so the parameter \<open>al\<close>, and the underscore.
\<close>

datatype re =
    Eps | Cls "nat \<Rightarrow> bool" | PlusC "nat \<Rightarrow> bool" | Cat re re | Alt re re | Grp re
  | WordB | LineStart | AtEnd

type_synonym rpos = "nat option \<times> pystr"

definition wordc :: "(nat \<Rightarrow> bool) \<Rightarrow> nat \<Rightarrow> bool" where
  "wordc al c \<longleftrightarrow> al c \<or> c = 95"

definition head_opt :: "'a list \<Rightarrow> 'a option" where
  "head_opt s = (case s of [] \<Rightarrow> None | c # _ \<Rightarrow> Some c)"

definition holds_opt :: "('a \<Rightarrow> bool) \<Rightarrow> 'a option \<Rightarrow> bool" where
  "holds_opt f x = (case x of None \<Rightarrow> False | Some c \<Rightarrow> f c)"

text \<open>The ends of a greedy run, the longest first.\<close>

fun plus_ends :: "(nat \<Rightarrow> bool) \<Rightarrow> pystr \<Rightarrow> rpos list" where
  "plus_ends f [] = []"
| "plus_ends f (c # s) = (if f c then plus_ends f s @ [(Some c, s)] else [])"

fun rmatch :: "(nat \<Rightarrow> bool) \<Rightarrow> re \<Rightarrow> rpos \<Rightarrow> (pystr option \<times> rpos) list" where
  "rmatch al Eps p = [(None, p)]"
| "rmatch al (Cls f) p =
     (case snd p of [] \<Rightarrow> [] | c # s \<Rightarrow> if f c then [(None, Some c, s)] else [])"
| "rmatch al (PlusC f) p = map (Pair None) (plus_ends f (snd p))"
| "rmatch al (Cat a b) p =
     concat (map (\<lambda>(g, q). map (\<lambda>(h, r). (if h = None then g else h, r)) (rmatch al b q))
               (rmatch al a p))"
| "rmatch al (Alt a b) p = rmatch al a p @ rmatch al b p"
| "rmatch al (Grp a) p =
     map (\<lambda>(g, q). (Some (take (length (snd p) - length (snd q)) (snd p)), q)) (rmatch al a p)"
| "rmatch al WordB p =
     (if holds_opt (wordc al) (fst p) \<noteq> holds_opt (wordc al) (head_opt (snd p))
      then [(None, p)] else [])"
| "rmatch al LineStart p = (if fst p = None \<or> fst p = Some 10 then [(None, p)] else [])"
| "rmatch al AtEnd p = (if snd p = [] \<or> snd p = [10] then [(None, p)] else [])"

definition Opt :: "re \<Rightarrow> re" where "Opt r = Alt r Eps"

definition StarC :: "(nat \<Rightarrow> bool) \<Rightarrow> re" where "StarC f = Alt (PlusC f) Eps"

fun lit :: "pystr \<Rightarrow> re" where
  "lit [] = Eps"
| "lit (c # cs) = Cat (Cls (\<lambda>x. x = c)) (lit cs)"

text \<open>
  A literal under \<open>IGNORECASE\<close>, for lower-case letters other than k and s: the letter i
  also matches U+0130 and U+0131.
\<close>

definition fold_case :: "nat \<Rightarrow> nat" where
  "fold_case c = (if 65 \<le> c \<and> c \<le> 90 then c + 32 else if c = 0x130 \<or> c = 0x131 then 105 else c)"

fun lit_ci :: "pystr \<Rightarrow> re" where
  "lit_ci [] = Eps"
| "lit_ci (c # cs) = Cat (Cls (\<lambda>x. fold_case x = c)) (lit_ci cs)"

text \<open>\<open>re.search\<close>: the first start at which the pattern matches.\<close>

fun search_from :: "(nat \<Rightarrow> bool) \<Rightarrow> re \<Rightarrow> nat option \<Rightarrow> pystr \<Rightarrow> (pystr option \<times> rpos) option" where
  "search_from al r q [] = head_opt (rmatch al r (q, []))"
| "search_from al r q (c # s) =
     (case head_opt (rmatch al r (q, c # s)) of
        Some m \<Rightarrow> Some m
      | None \<Rightarrow> search_from al r (Some c) s)"

definition re_search :: "(nat \<Rightarrow> bool) \<Rightarrow> re \<Rightarrow> pystr \<Rightarrow> pystr option option" where
  "re_search al r s = map_option fst (search_from al r None s)"

text \<open>\<open>re.sub\<close> and the groups of \<open>re.finditer\<close>, for patterns with no empty match.\<close>

function sub_from :: "(nat \<Rightarrow> bool) \<Rightarrow> re \<Rightarrow> pystr \<Rightarrow> nat option \<Rightarrow> pystr \<Rightarrow> pystr" where
  "sub_from al r new q s =
     (case s of [] \<Rightarrow> []
      | c # cs \<Rightarrow>
        (case head_opt (rmatch al r (q, s)) of
           Some (g, q', s') \<Rightarrow>
             if length s' < length s then new @ sub_from al r new q' s'
             else c # sub_from al r new (Some c) cs
         | None \<Rightarrow> c # sub_from al r new (Some c) cs))"
  by pat_completeness auto
termination
  by (relation "measure (\<lambda>(al, r, new, q, s). length s)") auto

declare sub_from.simps [simp del]

definition re_sub :: "(nat \<Rightarrow> bool) \<Rightarrow> re \<Rightarrow> pystr \<Rightarrow> pystr \<Rightarrow> pystr" where
  "re_sub al r new s = sub_from al r new None s"

function groups_from :: "(nat \<Rightarrow> bool) \<Rightarrow> re \<Rightarrow> nat option \<Rightarrow> pystr \<Rightarrow> pystr option list" where
  "groups_from al r q s =
     (case s of [] \<Rightarrow> []
      | c # cs \<Rightarrow>
        (case head_opt (rmatch al r (q, s)) of
           Some (g, q', s') \<Rightarrow>
             if length s' < length s then g # groups_from al r q' s'
             else groups_from al r (Some c) cs
         | None \<Rightarrow> groups_from al r (Some c) cs))"
  by pat_completeness auto
termination
  by (relation "measure (\<lambda>(al, r, q, s). length s)") auto

declare groups_from.simps [simp del]

definition re_find_groups :: "(nat \<Rightarrow> bool) \<Rightarrow> re \<Rightarrow> pystr \<Rightarrow> pystr option list" where
  "re_find_groups al r s = groups_from al r None s"

end
