(* ===== verification/Updates.thy ===== *)
theory Updates
  imports PyStr SockAddr
begin

text \<open>
  \<^verbatim>\<open>scripts/check_nng_updates.py\<close>: reading the tracked revisions, listing the upstream tags,
  choosing the target release of each track, closing superseded pre-release issues, skipping
  releases that an issue or a pull request already announces, and the outputs of a run.
  \<open>packaging.version\<close> is the parameter \<open>V\<close>: its parser and the attributes of a version,
  whose order is the linear order of the type. What \<open>git\<close> and \<open>gh\<close> answer is input.
\<close>

section \<open>Versions and tags\<close>

record 'v vlib =
  vparse :: "pystr \<Rightarrow> 'v option"
  is_prerelease :: "'v \<Rightarrow> bool"
  major :: "'v \<Rightarrow> nat"
  minor :: "'v \<Rightarrow> nat"
  micro :: "'v \<Rightarrow> nat"

record 'v tag =
  version :: 'v
  raw_tag :: pystr

text \<open>\<open>get_current_tracking_rev\<close>: the first \<open>set(VAR "...")\<close> of the file, if it exists.\<close>

definition rev_re :: "pystr \<Rightarrow> re" where
  "rev_re var_name =
     Cat (lit (codes ''set('' @ var_name))
       (Cat (PlusC is_space) (Cat (lit [34]) (Cat (Grp (PlusC (\<lambda>c. c \<noteq> 34))) (lit [34]))))"

definition get_current_tracking_rev :: "(nat \<Rightarrow> bool) \<Rightarrow> pystr option \<Rightarrow> pystr \<Rightarrow> pystr option" where
  "get_current_tracking_rev al content var_name =
     (case content of
        None \<Rightarrow> None
      | Some text \<Rightarrow> (case re_search al (rev_re var_name) text of None \<Rightarrow> None | Some g \<Rightarrow> g))"

text \<open>One line of \<open>git ls-remote\<close>; \<open>None\<close> for the lines the loop skips.\<close>

definition tag_name :: "pystr \<Rightarrow> pystr" where
  "tag_name ref = replace_all (codes ''refs/tags/'') [] ref"

definition parse_tag_line :: "'v vlib \<Rightarrow> pystr \<Rightarrow> 'v tag option" where
  "parse_tag_line V line =
     (if line = [] then None
      else let parts = split_ws line in
        if length parts < 2 then None
        else let tag = tag_name (parts ! 1) in
          if endswith tag (codes ''^{}'') then None
          else (case vparse V (removeprefix (codes ''v'') tag) of
                  None \<Rightarrow> None
                | Some v \<Rightarrow> Some \<lparr>version = v, raw_tag = tag\<rparr>))"

definition listed_tags :: "'v vlib \<Rightarrow> pystr \<Rightarrow> 'v tag list" where
  "listed_tags V output =
     List.map_filter (parse_tag_line V) (splitlines (strip_ws output))"

text \<open>\<open>sort(key=..., reverse=True)\<close> keeps the order of equal elements.\<close>

definition sort_reverse :: "('a \<Rightarrow> 'k::linorder) \<Rightarrow> 'a list \<Rightarrow> 'a list" where
  "sort_reverse f xs = rev (sort_key f (rev xs))"

definition fetch_tags :: "('v::linorder) vlib \<Rightarrow> pystr option \<Rightarrow> 'v tag list" where
  "fetch_tags V output =
     (case output of None \<Rightarrow> [] | Some out \<Rightarrow> sort_reverse version (listed_tags V out))"

section \<open>Choosing a release\<close>

definition find_target_release ::
  "('v::linorder) vlib \<Rightarrow> 'v tag list \<Rightarrow> 'v tag option \<times> 'v tag option" where
  "find_target_release V tags =
     (case tags of
        [] \<Rightarrow> (None, None)
      | latest_tag # _ \<Rightarrow>
        (let latest_stable = head_opt (filter (\<lambda>t. \<not> is_prerelease V (version t)) tags)
         in case latest_stable of
              Some st \<Rightarrow>
                if is_prerelease V (version latest_tag) \<and> version latest_tag \<le> version st
                then (Some st, Some st) else (Some latest_tag, latest_stable)
            | None \<Rightarrow> (Some latest_tag, None)))"

record 'v track_info =
  track_name :: pystr
  target_var :: pystr
  current_rev :: "pystr option"
  target_tag :: "'v tag option"
  latest_stable :: "'v tag option"
  is_update_available :: bool
  is_patch_update :: bool

text \<open>\<open>if current_rev\<close> is false for \<open>None\<close> and for the empty string.\<close>

definition rev_version :: "'v vlib \<Rightarrow> pystr option \<Rightarrow> 'v option" where
  "rev_version V cur =
     (case cur of
        None \<Rightarrow> None
      | Some r \<Rightarrow> if r = [] then None else vparse V (removeprefix (codes ''v'') r))"

definition evaluate_track ::
  "('v::linorder) vlib \<Rightarrow> pystr \<Rightarrow> pystr \<Rightarrow> pystr option \<Rightarrow> 'v tag list \<Rightarrow> 'v track_info" where
  "evaluate_track V name var cur track_tags =
     (case find_target_release V track_tags of
        (None, st) \<Rightarrow>
          \<lparr>track_name = name, target_var = var, current_rev = cur, target_tag = None,
           latest_stable = None, is_update_available = False, is_patch_update = False\<rparr>
      | (Some target, st) \<Rightarrow>
          (let (upd, patch) =
             (case rev_version V cur of
                None \<Rightarrow> (True, False)
              | Some c \<Rightarrow>
                if version target \<le> c then (False, False)
                else (True,
                  \<not> is_prerelease V (version target)
                  \<and> major V (version target) = major V c \<and> minor V (version target) = minor V c
                  \<and> micro V c < micro V (version target)))
           in \<lparr>track_name = name, target_var = var, current_rev = cur, target_tag = Some target,
               latest_stable = st, is_update_available = upd, is_patch_update = patch\<rparr>))"

section \<open>Issues and pull requests\<close>

record issue =
  inumber :: nat
  ititle :: pystr
  istate :: pystr

record pull =
  pnumber :: nat
  ptitle :: pystr
  pstate :: pystr
  head_ref :: pystr

text \<open>
  The issues and pull requests that exist, as \<open>gh\<close> lists them; a run of \<open>gh\<close> that fails, or
  prints no JSON, counts as an empty list. \<open>gh\<close> is given the arguments of the command.
\<close>

definition list_command :: "string \<Rightarrow> pystr \<Rightarrow> string \<Rightarrow> pystr list" where
  "list_command what repo columns =
     [codes ''gh'', codes what, codes ''list'', codes ''--repo'', repo, codes ''--state'', codes ''all'',
      codes ''--limit'', codes ''200'', codes ''--json'', codes columns]"

definition get_existing_issues :: "(pystr list \<Rightarrow> issue list option) \<Rightarrow> pystr \<Rightarrow> issue list" where
  "get_existing_issues gh repo =
     (case gh (list_command ''issue'' repo ''number,title,state'') of None \<Rightarrow> [] | Some xs \<Rightarrow> xs)"

definition get_existing_prs :: "(pystr list \<Rightarrow> pull list option) \<Rightarrow> pystr \<Rightarrow> pull list" where
  "get_existing_prs gh repo =
     (case gh (list_command ''pr'' repo ''number,title,state,headRefName'') of None \<Rightarrow> [] | Some xs \<Rightarrow> xs)"

text \<open>The pattern of the issue titles, matched without case.\<close>

definition title_re :: re where
  "title_re =
     Cat (lit_ci (codes ''nng'')) (Cat (PlusC is_space) (Cat (lit_ci (codes ''update''))
       (Cat (PlusC is_space) (Cat (lit_ci (codes ''available:'')) (Cat (PlusC is_space)
         (Grp (PlusC (\<lambda>c. \<not> is_space c))))))))"

definition announced_tag :: "(nat \<Rightarrow> bool) \<Rightarrow> pystr \<Rightarrow> pystr option" where
  "announced_tag al title =
     (case re_search al title_re title of None \<Rightarrow> None | Some g \<Rightarrow> g)"

text \<open>The pattern of the titles of pull requests that bump to a tag.\<close>

definition bump_re :: "pystr \<Rightarrow> re" where
  "bump_re tag =
     Cat WordB (Cat (lit (codes ''to'')) (Cat (PlusC is_space) (Cat (Opt (lit [96]))
       (Cat (lit tag) (Cat (Opt (lit [96])) (Alt (Cls is_space) AtEnd))))))"

definition is_already_handled ::
  "(nat \<Rightarrow> bool) \<Rightarrow> pystr \<Rightarrow> issue list \<Rightarrow> pull list \<Rightarrow> bool" where
  "is_already_handled al tag issues prs \<longleftrightarrow>
     list_ex (\<lambda>i. announced_tag al (ititle i) = Some tag) issues
     \<or> list_ex (\<lambda>p. head_ref p = codes ''chore/bump-nng-'' @ tag
                    \<or> re_search al (bump_re tag) (ptitle p) \<noteq> None) prs"

definition superseded ::
  "(nat \<Rightarrow> bool) \<Rightarrow> ('v::linorder) vlib \<Rightarrow> 'v tag \<Rightarrow> issue \<Rightarrow> bool" where
  "superseded al V stable_tag i \<longleftrightarrow>
     istate i = codes ''OPEN'' \<and>
     (case announced_tag al (ititle i) of
        None \<Rightarrow> False
      | Some t \<Rightarrow>
        (case vparse V (removeprefix (codes ''v'') t) of
           None \<Rightarrow> False
         | Some v \<Rightarrow> major V v = major V (version stable_tag) \<and> is_prerelease V v
                     \<and> v \<le> version stable_tag))"

text \<open>
  The numbers passed to \<open>gh issue close\<close>, none in a dry run, and the numbers reported as
  closed: a failing command is reported on stderr and the loop goes on.
\<close>

definition close_superseded_pre_releases ::
  "(nat \<Rightarrow> bool) \<Rightarrow> ('v::linorder) vlib \<Rightarrow> (nat \<Rightarrow> bool) \<Rightarrow> 'v tag \<Rightarrow> issue list \<Rightarrow> bool
     \<Rightarrow> nat list \<times> nat list" where
  "close_superseded_pre_releases al V gh_ok stable_tag issues dry_run =
     (let nums = map inumber (filter (superseded al V stable_tag) issues)
      in if dry_run then ([], nums) else (nums, filter gh_ok nums))"

section \<open>Outputs\<close>

text \<open>\<open>json.dumps\<close> of a list of dictionaries of strings, with its ASCII escapes.\<close>

definition u4 :: "nat \<Rightarrow> pystr" where
  "u4 n = [92, 117] @ map (\<lambda>k. lohex (n div 16 ^ k mod 16)) [3, 2, 1, 0]"

definition json_char :: "nat \<Rightarrow> pystr" where
  "json_char c =
     (if c = 34 then [92, 34] else if c = 92 then [92, 92]
      else if c = 10 then [92, 110] else if c = 13 then [92, 114] else if c = 9 then [92, 116]
      else if c = 12 then [92, 102] else if c = 8 then [92, 98]
      else if 32 \<le> c \<and> c \<le> 126 then [c]
      else if c < 0x10000 then u4 c
      else u4 (0xD800 + (c - 0x10000) div 1024) @ u4 (0xDC00 + (c - 0x10000) mod 1024))"

definition json_str :: "pystr \<Rightarrow> pystr" where
  "json_str s = [34] @ concat (map json_char s) @ [34]"

definition comma_sep :: "pystr list \<Rightarrow> pystr" where
  "comma_sep xs = (case xs of [] \<Rightarrow> [] | y # ys \<Rightarrow> y @ concat (map (\<lambda>z. codes '', '' @ z) ys))"

definition json_dict :: "(pystr \<times> pystr) list \<Rightarrow> pystr" where
  "json_dict d =
     codes ''{'' @ comma_sep (map (\<lambda>(k, v). json_str k @ codes '': '' @ json_str v) d) @ codes ''}''"

definition json_dumps :: "(pystr \<times> pystr) list list \<Rightarrow> pystr" where
  "json_dumps ds = codes ''['' @ comma_sep (map json_dict ds) @ codes '']''"

text \<open>What is appended to the file named by \<open>GITHUB_OUTPUT\<close>, when it is set.\<close>

definition write_github_output :: "(pystr \<times> pystr) list \<Rightarrow> pystr" where
  "write_github_output outputs = concat (map (\<lambda>(k, v). k @ codes ''='' @ v @ [10]) outputs)"

section \<open>A run of the script\<close>

text \<open>The answers a run gets from its surroundings.\<close>

record inputs =
  cmakelists :: "pystr option"
  upstream :: "pystr option"
  fork :: "pystr option"
  issues :: "issue list"
  prs :: "pull list"
  gh_ok :: "nat \<Rightarrow> bool"
  dry_run :: bool

definition or_empty :: "pystr option \<Rightarrow> pystr" where
  "or_empty x = (case x of None \<Rightarrow> [] | Some s \<Rightarrow> s)"

definition truthy :: "pystr option \<Rightarrow> bool" where
  "truthy x \<longleftrightarrow> or_empty x \<noteq> []"

definition bool_text :: "bool \<Rightarrow> pystr" where
  "bool_text b = (if b then codes ''true'' else codes ''false'')"

text \<open>One track of the loop: the issues it closes and the update it announces.\<close>

definition update_dict :: "pystr \<Rightarrow> 'v track_info \<Rightarrow> 'v tag \<Rightarrow> (pystr \<times> pystr) list" where
  "update_dict fork_latest info t =
     [(codes ''track'', track_name info), (codes ''target_var'', target_var info),
      (codes ''current_rev'', or_empty (current_rev info)), (codes ''latest_tag'', raw_tag t),
      (codes ''is_patch'', bool_text (is_patch_update info)),
      (codes ''fork_latest_tag'',
         if track_name info = codes ''v1'' then fork_latest else codes ''N/A (tracks upstream)'')]"

definition track_closes ::
  "(nat \<Rightarrow> bool) \<Rightarrow> ('v::linorder) vlib \<Rightarrow> inputs \<Rightarrow> 'v track_info \<Rightarrow> nat list" where
  "track_closes al V I info =
     (case latest_stable info of
        None \<Rightarrow> []
      | Some st \<Rightarrow>
          fst (close_superseded_pre_releases al V (gh_ok I) st (issues I) (dry_run I)))"

definition track_pending ::
  "(nat \<Rightarrow> bool) \<Rightarrow> inputs \<Rightarrow> pystr \<Rightarrow> 'v track_info \<Rightarrow> (pystr \<times> pystr) list list" where
  "track_pending al I fork_latest info =
     (case target_tag info of
        None \<Rightarrow> []
      | Some t \<Rightarrow>
        if \<not> is_update_available info then []
        else if is_already_handled al (raw_tag t) (issues I) (prs I) then []
        else [update_dict fork_latest info t])"

record run =
  closes :: "nat list"
  pending :: "(pystr \<times> pystr) list list"
  outputs :: "(pystr \<times> pystr) list"

definition field :: "string \<Rightarrow> (pystr \<times> pystr) list \<Rightarrow> pystr" where
  "field k d = or_empty (map_of d (codes k))"

definition v1_track :: "'v vlib \<Rightarrow> 'v tag \<Rightarrow> bool" where
  "v1_track V t \<longleftrightarrow> major V (version t) = 1"

definition v2_track :: "'v vlib \<Rightarrow> 'v tag \<Rightarrow> bool" where
  "v2_track V t \<longleftrightarrow> 2 \<le> major V (version t)"

definition final_outputs ::
  "pystr option \<Rightarrow> pystr option \<Rightarrow> pystr \<Rightarrow> (pystr \<times> pystr) list list
     \<Rightarrow> (pystr \<times> pystr) list" where
  "final_outputs cur1 cur2 fork_latest pend =
     [(codes ''should_notify'', bool_text (pend \<noteq> [])),
      (codes ''current_rev'',
         case pend of p # _ \<Rightarrow> field ''current_rev'' p
         | [] \<Rightarrow> if truthy cur2 then or_empty cur2 else or_empty cur1),
      (codes ''target_var'', case pend of p # _ \<Rightarrow> field ''target_var'' p | [] \<Rightarrow> codes ''NNG_REV''),
      (codes ''latest_tag'', case pend of p # _ \<Rightarrow> field ''latest_tag'' p | [] \<Rightarrow> []),
      (codes ''is_patch'', case pend of p # _ \<Rightarrow> field ''is_patch'' p | [] \<Rightarrow> codes ''false''),
      (codes ''fork_latest_tag'',
         case pend of p # _ \<Rightarrow> field ''fork_latest_tag'' p | [] \<Rightarrow> fork_latest),
      (codes ''updates_json'', json_dumps pend)]"

definition v2_info ::
  "(nat \<Rightarrow> bool) \<Rightarrow> ('v::linorder) vlib \<Rightarrow> inputs \<Rightarrow> 'v track_info" where
  "v2_info al V I =
     evaluate_track V (codes ''v2'') (codes ''NNG_V2_REV'')
       (get_current_tracking_rev al (cmakelists I) (codes ''NNG_V2_REV''))
       (filter (v2_track V) (fetch_tags V (upstream I)))"

definition v1_info ::
  "(nat \<Rightarrow> bool) \<Rightarrow> ('v::linorder) vlib \<Rightarrow> inputs \<Rightarrow> 'v track_info" where
  "v1_info al V I =
     evaluate_track V (codes ''v1'') (codes ''NNG_REV'')
       (get_current_tracking_rev al (cmakelists I) (codes ''NNG_REV''))
       (filter (v1_track V) (fetch_tags V (upstream I)))"

definition fork_latest_tag :: "('v::linorder) vlib \<Rightarrow> inputs \<Rightarrow> pystr" where
  "fork_latest_tag V I = (case fetch_tags V (fork I) of [] \<Rightarrow> [] | t # _ \<Rightarrow> raw_tag t)"

definition main :: "(nat \<Rightarrow> bool) \<Rightarrow> ('v::linorder) vlib \<Rightarrow> inputs \<Rightarrow> run" where
  "main al V I =
     (if fetch_tags V (upstream I) = []
      then \<lparr>closes = [], pending = [],
            outputs = [(codes ''should_notify'', codes ''false''),
                       (codes ''updates_json'', codes ''[]'')]\<rparr>
      else
        (let infos = [v2_info al V I, v1_info al V I];
             pend = concat (map (track_pending al I (fork_latest_tag V I)) infos)
         in \<lparr>closes = concat (map (track_closes al V I) infos), pending = pend,
             outputs = final_outputs
               (get_current_tracking_rev al (cmakelists I) (codes ''NNG_REV''))
               (get_current_tracking_rev al (cmakelists I) (codes ''NNG_V2_REV''))
               (fork_latest_tag V I) pend\<rparr>))"

section \<open>The newest release\<close>

text \<open>The reference: the first listed tag that no other exceeds.\<close>

definition newest :: "('v::linorder) tag list \<Rightarrow> 'v tag option" where
  "newest ts = find (\<lambda>t. list_all (\<lambda>u. version u \<le> version t) ts) ts"

lemma find_filter: "find P xs = head_opt (filter P xs)"
  by (induction xs) (auto simp: head_opt_def)

lemma sort_reverse_filter: "filter P (sort_reverse f xs) = sort_reverse f (filter P xs)"
  by (simp add: sort_reverse_def filter_sort rev_filter [symmetric])

lemma set_sort_reverse [simp]: "set (sort_reverse f xs) = set xs"
  by (simp add: sort_reverse_def)

lemma sort_reverse_of_Nil [simp]: "sort_reverse f [] = []"
  by (simp add: sort_reverse_def)

lemma sort_reverse_Nil [simp]: "sort_reverse f xs = [] \<longleftrightarrow> xs = []"
  by (metis set_empty set_sort_reverse)

lemma sort_reverse_stable: "filter (\<lambda>x. f x = k) (sort_reverse f xs) = filter (\<lambda>x. f x = k) xs"
  using sort_key_stable [of f k "rev xs"]
  by (simp add: sort_reverse_def rev_filter [symmetric])

lemma sort_reverse_head_max:
  "sort_reverse f xs = y # ys \<Longrightarrow> x \<in> set xs \<Longrightarrow> f x \<le> f y"
proof -
  assume s: "sort_reverse f xs = y # ys" and x: "x \<in> set xs"
  have eq: "map f (sort_key f (rev xs)) = map f (rev ys) @ [f y]"
    using s by (metis sort_reverse_def map_append list.simps(8,9) rev.simps(2) rev_rev_ident)
  have "sorted (map f (sort_key f (rev xs)))" by simp
  then have "\<forall>k\<in>set (map f (rev ys)). k \<le> f y"
    unfolding eq by (simp add: sorted_append)
  moreover have "x \<in> set (y # ys)" using s x by (metis set_sort_reverse)
  ultimately show ?thesis by auto
qed

lemma head_sort_reverse:
  "head_opt (sort_reverse f xs) = find (\<lambda>t. list_all (\<lambda>u. f u \<le> f t) xs) xs"
proof (cases "sort_reverse f xs")
  case Nil
  then show ?thesis by (simp add: head_opt_def [of "[]"])
next
  case (Cons y ys)
  have y: "y \<in> set xs" using Cons by (metis list.set_intros(1) set_sort_reverse)
  have max: "f u \<le> f y" if "u \<in> set xs" for u by (rule sort_reverse_head_max [OF Cons that])
  have "list_all (\<lambda>u. f u \<le> f t) xs \<longleftrightarrow> f t = f y" if "t \<in> set xs" for t
    using max [OF that] y max by (auto simp: list_all_iff)
  then have "filter (\<lambda>t. list_all (\<lambda>u. f u \<le> f t) xs) xs = filter (\<lambda>t. f t = f y) xs"
    by (auto intro: filter_cong)
  also have "\<dots> = filter (\<lambda>t. f t = f y) (y # ys)"
    by (simp only: sort_reverse_stable [of f "f y" xs, symmetric] Cons)
  finally show ?thesis by (simp add: find_filter Cons head_opt_def)
qed

lemma find_target_release_reference:
  fixes V :: "('v::linorder) vlib"
  shows "find_target_release V (sort_reverse version ts) =
     (newest ts, newest (filter (\<lambda>t. \<not> is_prerelease V (version t)) ts))"
proof -
  let ?st = "\<lambda>t. \<not> is_prerelease V (version t)"
  let ?s = "sort_reverse version ts"
  have n1: "newest ts = head_opt ?s" by (simp add: newest_def head_sort_reverse)
  have n2: "newest (filter ?st ts) = head_opt (filter ?st ?s)"
    by (simp add: newest_def head_sort_reverse [symmetric] sort_reverse_filter)
  show ?thesis
  proof (cases ?s)
    case Nil
    then show ?thesis by (simp add: newest_def find_target_release_def)
  next
    case (Cons l ls)
    have dead: "\<not> (is_prerelease V (version l) \<and> version l \<le> version st)"
      if "head_opt (filter ?st (l # ls)) = Some st" for st
    proof
      assume a: "is_prerelease V (version l) \<and> version l \<le> version st"
      have "st \<in> set (filter ?st (l # ls))"
        using that by (cases "filter ?st (l # ls)") (auto simp: head_opt_def)
      then have st: "st \<in> set (l # ls)" "\<not> is_prerelease V (version st)"
        unfolding set_filter by blast+
      have "set (l # ls) = set ts" using Cons by (metis set_sort_reverse)
      with st(1) have "st \<in> set ts" by (simp only:)
      then have "version st \<le> version l" by (intro sort_reverse_head_max [OF Cons])
      with a st(2) show False by (metis antisym)
    qed
    show ?thesis
      using dead
      by (auto simp: n1 n2 Cons find_target_release_def head_opt_def [of "l # ls"] Let_def
          split: option.split)
  qed
qed

lemma newest_Some:
  "newest ts = Some t \<Longrightarrow> t \<in> set ts \<and> (\<forall>u\<in>set ts. version u \<le> version t)"
  by (auto simp: newest_def find_Some_iff list_all_iff)

lemma newest_exists: "ts \<noteq> [] \<Longrightarrow> newest ts \<noteq> None"
  by (simp add: newest_def head_sort_reverse [symmetric] head_opt_def split: list.split)

text \<open>C38. The release chosen for a track is the newest of it. Whatever \<open>git ls-remote\<close>
  printed and however a track selects its tags, \<open>find_target_release\<close> on the sorted and
  filtered list agrees with the reference that looks for a maximum in the unsorted list: the first
  listed tag that no tag of the track exceeds, and likewise among the stable ones. So sorting, the
  stable order of equal versions and the early exits lose nothing; in particular the branch for a
  superseded pre-release is never the one taken.\<close>

theorem target_release_newest:
  fixes V :: "('v::linorder) vlib"
  shows "find_target_release V (filter P (fetch_tags V (Some out))) =
     (newest (filter P (listed_tags V out)),
      newest (filter (\<lambda>t. P t \<and> \<not> is_prerelease V (version t)) (listed_tags V out)))"
proof -
  have "filter P (fetch_tags V (Some out)) = sort_reverse version (filter P (listed_tags V out))"
    by (simp add: fetch_tags_def sort_reverse_filter)
  then show ?thesis by (simp add: find_target_release_reference conj_commute)
qed

section \<open>Announcing a release once\<close>

lemma head_opt_append: "head_opt (xs @ ys) = (if xs = [] then head_opt ys else head_opt xs)"
  by (simp add: head_opt_def split: list.split)

lemma plus_ends_Nil: "plus_ends f s = [] \<longleftrightarrow> s = [] \<or> \<not> f (hd s)"
  by (cases s) auto

lemma plus_ends_all: "s \<noteq> [] \<Longrightarrow> \<forall>c\<in>set s. f c \<Longrightarrow> head_opt (plus_ends f s) = Some (Some (last s), [])"
proof (induction s)
  case (Cons c s)
  then show ?case
    by (cases "s = []")
      (auto simp: head_opt_append plus_ends_Nil head_opt_def [of "[(a, b)]" for a b])
qed simp

lemma head_opt_map: "head_opt (map f xs) = map_option f (head_opt xs)"
  by (simp add: head_opt_def split: list.split)

lemma announced_prefix:
  "codes ''nng update available: '' =
     [110, 110, 103, 32, 117, 112, 100, 97, 116, 101, 32, 97, 118, 97, 105, 108, 97, 98, 108, 101,
      58, 32]"
  by code_simp

lemma title_words:
  "codes ''nng'' = [110, 110, 103]"
  "codes ''update'' = [117, 112, 100, 97, 116, 101]"
  "codes ''available:'' = [97, 118, 97, 105, 108, 97, 98, 108, 101, 58]"
  by code_simp+

lemma announced_tag_title:
  assumes "word_like t"
  shows "announced_tag al (codes ''nng update available: '' @ t) = Some t"
proof -
  let ?title = "codes ''nng update available: '' @ t"
  obtain c cs where t: "t = c # cs" "\<not> is_space c"
    using assms by (cases t) (auto simp: word_like_def)
  have sp: "is_space 32" "\<not> is_space 117" "\<not> is_space 97" by (simp_all add: is_space_def)
  have "rmatch al title_re (None, ?title) =
      rmatch al (Grp (PlusC (\<lambda>c. \<not> is_space c))) (Some 32, t)"
    using t(2) sp
    by (simp add: title_re_def title_words announced_prefix t(1) fold_case_def comp_def
        case_prod_unfold)
  also have "head_opt \<dots> = Some (Some t, Some (last t), [])"
    using assms plus_ends_all [of t "\<lambda>c. \<not> is_space c"] by (simp add: head_opt_map word_like_def)
  finally have "search_from al title_re None ?title = Some (Some t, Some (last t), [])"
    by (simp add: announced_prefix)
  then show ?thesis by (simp add: announced_tag_def re_search_def)
qed

lemma parse_tag_line_word:
  assumes "parse_tag_line V line = Some t" and "vparse V [] = None"
  shows "word_like (raw_tag t)"
proof -
  define ps where "ps = split_ws line"
  from assms(1) have len: "2 \<le> length ps" and tag: "raw_tag t = tag_name (ps ! 1)"
    and v: "vparse V (removeprefix (codes ''v'') (raw_tag t)) \<noteq> None"
    by (auto simp: parse_tag_line_def Let_def ps_def split: if_splits option.splits)
  have "ps ! 1 \<in> set (split_ws line)" unfolding ps_def [symmetric] using len by simp
  then have "word_like (ps ! 1)" by (rule split_ws_words)
  moreover have "set (tag_name (ps ! 1)) \<subseteq> set (ps ! 1)"
    unfolding tag_name_def using set_replace_all [of _ "[]"] by fastforce
  moreover have "raw_tag t \<noteq> []"
  proof
    assume e: "raw_tag t = []"
    have "removeprefix (codes ''v'') ([] :: pystr) = []"
      using set_removeprefix [of "codes ''v''" "[] :: pystr"] by auto
    with v e assms(2) show False by simp
  qed
  ultimately show ?thesis using tag by (auto simp: word_like_def)
qed

lemma fetch_tags_word:
  "t \<in> set (fetch_tags V output) \<Longrightarrow> vparse V [] = None \<Longrightarrow> word_like (raw_tag t)"
  by (auto simp: fetch_tags_def listed_tags_def List.map_filter_def split: option.splits
      intro: parse_tag_line_word)

lemma is_already_handled_mono:
  "is_already_handled al t is ps \<Longrightarrow> set is \<subseteq> set is' \<Longrightarrow> set ps \<subseteq> set ps' \<Longrightarrow>
   is_already_handled al t is' ps'"
  by (auto simp: is_already_handled_def list_ex_iff)

lemma is_already_handled_issue:
  assumes "word_like t" and "i \<in> set is" and "ititle i = codes ''nng update available: '' @ t"
  shows "is_already_handled al t is ps"
proof -
  have "announced_tag al (ititle i) = Some t" unfolding assms(3) by (rule announced_tag_title [OF assms(1)])
  with assms(2) show ?thesis by (auto simp: is_already_handled_def list_ex_iff)
qed

lemma is_already_handled_pull:
  "p \<in> set ps \<Longrightarrow> head_ref p = codes ''chore/bump-nng-'' @ t \<Longrightarrow> is_already_handled al t is ps"
  by (auto simp: is_already_handled_def list_ex_iff)

lemma evaluate_target: "target_tag (evaluate_track V n v c ts) = fst (find_target_release V ts)"
  by (auto simp: evaluate_track_def Let_def split: prod.split option.split)

lemma find_target_release_mem: "fst (find_target_release V ts) = Some t \<Longrightarrow> t \<in> set ts"
  by (cases ts)
    (auto simp: find_target_release_def head_opt_def Let_def filter_eq_Cons_iff
      split: option.splits if_splits list.splits)

lemma codes_eq_iff: "codes a = codes b \<longleftrightarrow> a = b"
proof -
  have "inj (of_char :: char \<Rightarrow> nat)" by (rule injI) (simp add: of_char_eq_iff)
  then show ?thesis by (simp add: codes_def inj_map_eq_map)
qed

lemma latest_tag_update_dict: "field ''latest_tag'' (update_dict fl info t) = raw_tag t"
  by (simp add: field_def update_dict_def or_empty_def codes_eq_iff)

lemma track_pending_cases:
  assumes "p \<in> set (track_pending al I fl info)"
  obtains t where "target_tag info = Some t" "p = update_dict fl info t"
    "is_update_available info" "\<not> is_already_handled al (raw_tag t) (issues I) (prs I)"
proof -
  obtain t where "target_tag info = Some t"
    using assms by (cases "target_tag info") (simp_all add: track_pending_def)
  with assms that [of t] show ?thesis by (simp add: track_pending_def split: if_splits)
qed

text \<open>The two tracks, and what a run leaves unannounced.\<close>

definition infos ::
  "(nat \<Rightarrow> bool) \<Rightarrow> ('v::linorder) vlib \<Rightarrow> inputs \<Rightarrow> 'v track_info list" where
  "infos al V I = [v2_info al V I, v1_info al V I]"

lemma pending_main:
  "pending (main al V I) =
     (if fetch_tags V (upstream I) = [] then []
      else concat (map (track_pending al I (fork_latest_tag V I)) (infos al V I)))"
  by (simp add: main_def infos_def Let_def)

lemma infos_target:
  assumes "info \<in> set (infos al V I)" and "target_tag info = Some t"
  shows "t \<in> set (fetch_tags V (upstream I))"
  using assms
  by (auto simp: infos_def v1_info_def v2_info_def evaluate_target dest!: find_target_release_mem)

definition announces :: "inputs \<Rightarrow> pystr \<Rightarrow> bool" where
  "announces I t \<longleftrightarrow>
     (\<exists>i\<in>set (issues I). ititle i = codes ''nng update available: '' @ t)
     \<or> (\<exists>p\<in>set (prs I). head_ref p = codes ''chore/bump-nng-'' @ t)"

lemma announces_handled:
  "announces I t \<Longrightarrow> word_like t \<Longrightarrow> is_already_handled al t (issues I) (prs I)"
  by (auto simp: announces_def intro: is_already_handled_issue is_already_handled_pull)

text \<open>C32. A release is announced once. Take a run of the script and a later run that sees the
  same \<open>CMakeLists.txt\<close> and the same upstream tags; between them the workflow has opened, for every
  pending update, an issue with its title or a pull request from its branch, and nothing was
  deleted (closing is allowed: all states are searched). Then the later run announces nothing. The
  title is found by the search of the regular expression, whatever the tag, and the issue or pull
  request that made the first run skip a track makes the second run skip it too. \<open>packaging\<close>
  parses no empty version.\<close>

theorem announced_once:
  assumes "vparse V [] = None"
    and "cmakelists J = cmakelists I" and "upstream J = upstream I"
    and "set (issues I) \<subseteq> set (issues J)" and "set (prs I) \<subseteq> set (prs J)"
    and "\<forall>p\<in>set (pending (main al V I)). announces J (field ''latest_tag'' p)"
  shows "pending (main al V J) = []"
proof (rule ccontr)
  assume "pending (main al V J) \<noteq> []"
  then obtain p where p: "p \<in> set (pending (main al V J))" by (meson ex_in_conv set_empty)
  have same: "infos al V J = infos al V I"
    using assms(2,3) by (simp add: infos_def v1_info_def v2_info_def)
  from p obtain info where ne: "fetch_tags V (upstream I) \<noteq> []"
    and info: "info \<in> set (infos al V I)" and tp: "p \<in> set (track_pending al J (fork_latest_tag V J) info)"
    using assms(3) by (auto simp: pending_main same split: if_splits)
  from tp obtain t where t: "target_tag info = Some t" "is_update_available info"
    and no: "\<not> is_already_handled al (raw_tag t) (issues J) (prs J)"
    by (rule track_pending_cases)
  have w: "word_like (raw_tag t)" by (rule fetch_tags_word [OF infos_target [OF info t(1)] assms(1)])
  have "\<not> is_already_handled al (raw_tag t) (issues I) (prs I)"
    using no is_already_handled_mono [OF _ assms(4,5)] by blast
  with t have "update_dict (fork_latest_tag V I) info t
      \<in> set (track_pending al I (fork_latest_tag V I) info)"
    by (simp add: track_pending_def)
  with ne info have "update_dict (fork_latest_tag V I) info t \<in> set (pending (main al V I))"
    by (auto simp: pending_main)
  with assms(6) have "announces J (raw_tag t)" using latest_tag_update_dict by metis
  with no w show False using announces_handled by blast
qed

definition V0 :: "nat vlib" where
  "V0 = \<lparr>vparse = (\<lambda>s. if s = [] then None else Some (dec_val s)), is_prerelease = (\<lambda>v. False),
         major = id, minor = (\<lambda>v. 0), micro = (\<lambda>v. 0)\<rparr>"

definition inputs0 :: "issue list \<Rightarrow> inputs" where
  "inputs0 is =
     \<lparr>cmakelists = None, upstream = Some (codes ''a refs/tags/v3''), fork = None,
      issues = is, prs = [], gh_ok = (\<lambda>n. True), dry_run = False\<rparr>"

definition issue0 :: issue where
  "issue0 = \<lparr>inumber = 7, ititle = codes ''nng update available: v3'', istate = codes ''CLOSED''\<rparr>"

lemma V0_sel [simp]:
  "major V0 = id" "is_prerelease V0 = (\<lambda>v. False)" "vparse V0 [] = None"
  by (simp_all add: V0_def)

lemma fetch_tags_inputs0:
  "fetch_tags V0 (Some (codes ''a refs/tags/v3'')) = [\<lparr>version = 3, raw_tag = codes ''v3''\<rparr>]"
  by (simp add: fetch_tags_def listed_tags_def splitlines_def codes_def is_eol_def strip_ws_def
      split_ws.simps is_space_def parse_tag_line_def tag_name_def replace_all.simps V0_def
      endswith_def removeprefix_def dec_val_def sort_reverse_def List.map_filter_def)

lemma pending_inputs0:
  "pending (main (\<lambda>c. False) V0 (inputs0 [])) =
     [update_dict [] (v2_info (\<lambda>c. False) V0 (inputs0 []))
        \<lparr>version = 3, raw_tag = codes ''v3''\<rparr>]"
  by (simp add: pending_main infos_def track_pending_def v1_info_def v2_info_def inputs0_def
      fetch_tags_inputs0 v1_track_def v2_track_def evaluate_track_def find_target_release_def
      head_opt_def rev_version_def get_current_tracking_rev_def is_already_handled_def
      fork_latest_tag_def Let_def fetch_tags_def [of _ None])

theorem announced_once_witness:
  "pending (main (\<lambda>c. False) V0 (inputs0 [])) \<noteq> []
   \<and> pending (main (\<lambda>c. False) V0 (inputs0 [issue0])) = []"
proof -
  have "ititle issue0 = codes ''nng update available: '' @ codes ''v3''"
    by (simp add: issue0_def codes_def)
  then have "announces (inputs0 [issue0]) (codes ''v3'')"
    by (simp add: announces_def inputs0_def)
  then have "pending (main (\<lambda>c. False) V0 (inputs0 [issue0])) = []"
    by (intro announced_once [of V0 "inputs0 [issue0]" "inputs0 []"])
      (simp_all add: pending_inputs0 latest_tag_update_dict, simp_all add: inputs0_def)
  then show ?thesis using pending_inputs0 by simp
qed

text \<open>When the listing fails, the update is announced, whatever issues there are.\<close>

lemma failed_listing_announces:
  "pending (main (\<lambda>c. False) V0 (inputs0 (get_existing_issues (\<lambda>_. None) repo))) \<noteq> []"
  using pending_inputs0 by (simp add: get_existing_issues_def)

end
