(* ===== verification/Build.thy ===== *)
theory Build
  imports PyStr
begin

text \<open>
  \<^verbatim>\<open>build_pynng.py\<close>: the cascade that finds the nng headers, the generation of the CFFI
  declarations with its two caches (a memo of the process and a file beside the script), the text
  clean-ups by regular expressions, and the arguments of the CFFI builder. What the environment
  answers (files, environment variables, \<open>pkg-config\<close>, \<open>brew\<close>) is input; the package
  \<open>headerkit\<close>, which is not in the repository, is a parameter.
\<close>

section \<open>Paths\<close>

text \<open>\<open>os.path.join\<close> of two components.\<close>

definition path_join :: "pystr \<Rightarrow> pystr \<Rightarrow> pystr" where
  "path_join a b =
     (if startswith b [47] then b else if a = [] \<or> endswith a [47] then a @ b else a @ [47] @ b)"

section \<open>Finding the headers\<close>

text \<open>What \<open>subprocess.run\<close> does: the program is missing, it times out, some other exception
  is raised, or it ends with a return code and its output.\<close>

datatype proc = NotFound | TimedOut | Raised pyexc | Done int pystr

record env =
  isfile :: "pystr \<Rightarrow> bool"
  include_var :: "pystr option"
  build_tree :: "pystr list"
  pkg_config :: proc
  darwin :: bool
  brew :: proc

definition has_nng_h :: "env \<Rightarrow> pystr \<Rightarrow> bool" where
  "has_nng_h E path =
     isfile E (path_join (path_join path (codes ''nng'')) (codes ''nng.h''))"

definition validate_nng_include_dir :: "env \<Rightarrow> pystr \<Rightarrow> pystr option" where
  "validate_nng_include_dir E path = (if has_nng_h E path then Some path else None)"

text \<open>A loop that returns the first candidate whose validation is true: \<open>None\<close> and the empty
  string are not.\<close>

fun first_valid :: "env \<Rightarrow> pystr list \<Rightarrow> pystr option" where
  "first_valid E [] = None"
| "first_valid E (p # ps) =
     (case validate_nng_include_dir E p of
        Some r \<Rightarrow> if r \<noteq> [] then Some r else first_valid E ps
      | None \<Rightarrow> first_valid E ps)"

definition detect_env_var :: "env \<Rightarrow> pyexc + pystr option" where
  "detect_env_var E =
     Inr (case include_var E of
            None \<Rightarrow> None
          | Some val \<Rightarrow> if val \<noteq> [] then validate_nng_include_dir E val else None)"

definition detect_build_tree :: "env \<Rightarrow> pyexc + pystr option" where
  "detect_build_tree E = Inr (first_valid E (build_tree E))"

text \<open>The paths of the \<open>-I\<close> flags.\<close>

definition include_flags :: "pystr \<Rightarrow> pystr list" where
  "include_flags out =
     List.map_filter (strip_prefix (codes ''-I'')) (split_ws (strip_ws out))"

definition detect_pkg_config :: "env \<Rightarrow> pyexc + pystr option" where
  "detect_pkg_config E =
     (case pkg_config E of
        Raised e \<Rightarrow> Inl e
      | Done rc out \<Rightarrow> Inr (if rc = 0 then first_valid E (include_flags out) else None)
      | _ \<Rightarrow> Inr None)"

definition system_paths :: "pystr list" where
  "system_paths = [codes ''/usr/include'', codes ''/usr/local/include'']"

definition detect_system_paths :: "env \<Rightarrow> pyexc + pystr option" where
  "detect_system_paths E = Inr (first_valid E system_paths)"

definition homebrew_prefixes :: "pystr list" where
  "homebrew_prefixes = [codes ''/opt/homebrew'', codes ''/usr/local'']"

definition brew_include :: "pystr \<Rightarrow> pystr" where
  "brew_include prefix = path_join prefix (codes ''include'')"

definition detect_homebrew :: "env \<Rightarrow> pyexc + pystr option" where
  "detect_homebrew E =
     (if \<not> darwin E then Inr None
      else
        (let fallback = first_valid E (map brew_include homebrew_prefixes)
         in case brew E of
              Raised e \<Rightarrow> Inl e
            | Done rc out \<Rightarrow>
                (case if rc = 0 then first_valid E [brew_include (strip_ws out)] else None of
                   Some r \<Rightarrow> Inr (Some r)
                 | None \<Rightarrow> Inr fallback)
            | _ \<Rightarrow> Inr fallback))"

definition macports_dir :: pystr where
  "macports_dir = codes ''/opt/local/include''"

definition detect_macports :: "env \<Rightarrow> pyexc + pystr option" where
  "detect_macports E =
     Inr (if darwin E then validate_nng_include_dir E macports_dir else None)"

fun first_strategy :: "(env \<Rightarrow> pyexc + pystr option) list \<Rightarrow> env \<Rightarrow> pyexc + pystr option" where
  "first_strategy [] E = Inr None"
| "first_strategy (d # ds) E =
     (case d E of
        Inl e \<Rightarrow> Inl e
      | Inr (Some r) \<Rightarrow> Inr (Some r)
      | Inr None \<Rightarrow> first_strategy ds E)"

definition strategies :: "(env \<Rightarrow> pyexc + pystr option) list" where
  "strategies =
     [detect_env_var, detect_build_tree, detect_pkg_config, detect_system_paths,
      detect_homebrew, detect_macports]"

definition find_nng_include_dir :: "env \<Rightarrow> pyexc + pystr option" where
  "find_nng_include_dir E = first_strategy strategies E"

definition get_nng_include_dir :: "env \<Rightarrow> pyexc + pystr" where
  "get_nng_include_dir E =
     (case find_nng_include_dir E of
        Inl e \<Rightarrow> Inl e
      | Inr None \<Rightarrow> Inl RuntimeError
      | Inr (Some d) \<Rightarrow> Inr d)"

text \<open>The reference: all candidates in the order of the documentation, and the first one, other
  than the empty string, that contains the header.\<close>

definition candidates :: "env \<Rightarrow> pystr list" where
  "candidates E =
     (case include_var E of None \<Rightarrow> [] | Some v \<Rightarrow> [v])
     @ build_tree E
     @ (case pkg_config E of Done rc out \<Rightarrow> if rc = 0 then include_flags out else [] | _ \<Rightarrow> [])
     @ system_paths
     @ (if darwin E
        then (case brew E of Done rc out \<Rightarrow> if rc = 0 then [brew_include (strip_ws out)] else []
              | _ \<Rightarrow> [])
             @ map brew_include homebrew_prefixes @ [macports_dir]
        else [])"

definition proc_raises :: "proc \<Rightarrow> bool" where
  "proc_raises p = (case p of Raised e \<Rightarrow> True | _ \<Rightarrow> False)"

definition usable :: "env \<Rightarrow> pystr \<Rightarrow> bool" where
  "usable E p \<longleftrightarrow> p \<noteq> [] \<and> has_nng_h E p"

lemma first_valid_find: "first_valid E ps = find (usable E) ps"
  by (induction ps) (auto simp: validate_nng_include_dir_def usable_def)

lemma macports_dir_nonempty: "macports_dir \<noteq> []"
  by (simp add: macports_dir_def codes_def)

text \<open>Each strategy is a search of its part of the candidates.\<close>

lemma detect_as_find:
  "detect_env_var E = Inr (find (usable E) (case include_var E of None \<Rightarrow> [] | Some v \<Rightarrow> [v]))"
  "detect_build_tree E = Inr (find (usable E) (build_tree E))"
  "\<not> proc_raises (pkg_config E) \<Longrightarrow> detect_pkg_config E = Inr (find (usable E)
     (case pkg_config E of Done rc out \<Rightarrow> if rc = 0 then include_flags out else [] | _ \<Rightarrow> []))"
  "detect_system_paths E = Inr (find (usable E) system_paths)"
  "\<not> proc_raises (brew E) \<Longrightarrow> detect_homebrew E = Inr (find (usable E)
     (if darwin E
      then (case brew E of Done rc out \<Rightarrow> if rc = 0 then [brew_include (strip_ws out)] else []
            | _ \<Rightarrow> []) @ map brew_include homebrew_prefixes
      else []))"
  "detect_macports E = Inr (find (usable E) (if darwin E then [macports_dir] else []))"
  by (auto simp: detect_env_var_def detect_build_tree_def detect_pkg_config_def
      detect_system_paths_def detect_homebrew_def detect_macports_def first_valid_find find_append
      validate_nng_include_dir_def usable_def proc_raises_def Let_def macports_dir_nonempty
      split: option.splits proc.splits)

text \<open>C31. The cascade finds the headers exactly when some candidate has them. When neither
  \<open>pkg-config\<close> nor \<open>brew\<close> makes \<open>subprocess.run\<close> raise anything but the two exceptions
  the code handles, \<open>find_nng_include_dir\<close> returns the first usable directory of the list of all
  candidates in the documented order, and \<open>None\<close> if and only if no candidate is usable: an early
  strategy never hides a directory of a later one, and no directory without the header is returned.
  \<open>_get_nng_include_dir\<close> raises \<open>RuntimeError\<close> exactly in the second case.\<close>

theorem include_dir_first_usable:
  assumes "\<not> proc_raises (pkg_config E)" and "\<not> proc_raises (brew E)"
  shows "find_nng_include_dir E = Inr (find (usable E) (candidates E)) \<and>
    get_nng_include_dir E =
      (case find (usable E) (candidates E) of None \<Rightarrow> Inl RuntimeError | Some d \<Rightarrow> Inr d)"
proof
  show "find_nng_include_dir E = Inr (find (usable E) (candidates E))"
    using assms
    by (simp add: find_nng_include_dir_def strategies_def detect_as_find candidates_def find_append
        split: option.split)
  then show "get_nng_include_dir E =
      (case find (usable E) (candidates E) of None \<Rightarrow> Inl RuntimeError | Some d \<Rightarrow> Inr d)"
    by (simp add: get_nng_include_dir_def split: option.split)
qed

text \<open>The environment variable names a directory without the header, and the headers are in
  \<^verbatim>\<open>/usr/local/include\<close>.\<close>

definition env0 :: env where
  "env0 =
     \<lparr>isfile = (\<lambda>p. p = codes ''/usr/local/include/nng/nng.h''), include_var = Some (codes ''/wrong''),
      build_tree = [], pkg_config = Done 1 [], darwin = False, brew = NotFound\<rparr>"

theorem include_dir_first_usable_witness:
  "find_nng_include_dir env0 = Inr (Some (codes ''/usr/local/include''))"
proof -
  have "find (usable env0) (candidates env0) = Some (codes ''/usr/local/include'')"
    by (simp add: candidates_def env0_def usable_def has_nng_h_def path_join_def system_paths_def
        codes_def startswith_def endswith_def)
  moreover have "\<not> proc_raises (pkg_config env0)" "\<not> proc_raises (brew env0)"
    by (simp_all add: env0_def proc_raises_def)
  ultimately show ?thesis using include_dir_first_usable [of env0] by simp
qed

section \<open>Clean-ups of the generated text\<close>

definition opt_struct :: re where
  "opt_struct = Opt (Cat (lit (codes ''struct'')) (PlusC is_space))"

definition params_re :: re where
  "params_re =
     Cat opt_struct (Cat (lit (codes ''nng_init_params'')) (Cat (StarC is_space) (lit (codes ''*''))))"

definition enum_re :: "string \<Rightarrow> re" where
  "enum_re name =
     Cat WordB (Cat (lit (codes ''enum'')) (Cat (PlusC is_space) (Cat (lit (codes name)) WordB)))"

definition const_params_re :: re where
  "const_params_re =
     Cat WordB (Cat (lit (codes ''const'')) (Cat (PlusC is_space) params_re))"

definition bare_params_re :: re where
  "bare_params_re = Cat WordB params_re"

text \<open>The four substitutions of \<open>generate_cdef\<close>, in order.\<close>

definition fix_cdef :: "(nat \<Rightarrow> bool) \<Rightarrow> pystr \<Rightarrow> pystr" where
  "fix_cdef al cdef =
     re_sub al bare_params_re (codes ''void *'')
       (re_sub al const_params_re (codes ''void *'')
         (re_sub al (enum_re ''nng_err'') (codes ''nng_err'')
           (re_sub al (enum_re ''nng_pipe_ev'') (codes ''nng_pipe_ev'') cdef)))"

definition define_re :: "(nat \<Rightarrow> bool) \<Rightarrow> re" where
  "define_re al =
     Cat LineStart (Cat (lit (codes ''#define'')) (Cat (PlusC is_space)
       (Cat (Grp (Alt (Cat (lit (codes ''NNG_FLAG_'')) (PlusC (wordc al)))
               (Alt (Cat (lit (codes ''NNG_'')) (Cat (PlusC (wordc al)) (lit (codes ''_VERSION''))))
                 (lit (codes ''NNG_MAXADDRLEN'')))))
         WordB)))"

definition join_lines :: "pystr list \<Rightarrow> pystr" where
  "join_lines xs = (case xs of [] \<Rightarrow> [] | y # ys \<Rightarrow> y @ concat (map (\<lambda>z. 10 # z) ys))"

definition extract_defines :: "(nat \<Rightarrow> bool) \<Rightarrow> pystr \<Rightarrow> pystr" where
  "extract_defines al content =
     join_lines (map (\<lambda>g. codes ''#define '' @ the g @ codes '' ...'')
       (re_find_groups al (define_re al) content))"

text \<open>The definitions of a header of three lines.\<close>

lemma extract_defines_example:
  "extract_defines (\<lambda>c. (48 \<le> c \<and> c \<le> 57) \<or> (65 \<le> c \<and> c \<le> 90))
     (codes ''#define NNG_FLAG_ALLOC 1'' @ [10] @ codes ''#define NNG_X_VERSION_Y 2'' @ [10]
       @ codes ''#define NNG_OTHER'')
   = codes ''#define NNG_FLAG_ALLOC ...''"
  by (simp add: extract_defines_def re_find_groups_def groups_from.simps define_re_def codes_def
      head_opt_def holds_opt_def wordc_def is_space_def join_lines_def)

section \<open>Header lists and exclusions\<close>

definition NNG_V1_HEADERS :: "pystr list" where
  "NNG_V1_HEADERS = map codes
     [''nng/nng.h'', ''nng/protocol/bus0/bus.h'', ''nng/protocol/pair0/pair.h'',
      ''nng/protocol/pair1/pair.h'', ''nng/protocol/pipeline0/push.h'',
      ''nng/protocol/pipeline0/pull.h'', ''nng/protocol/pubsub0/pub.h'',
      ''nng/protocol/pubsub0/sub.h'', ''nng/protocol/reqrep0/req.h'',
      ''nng/protocol/reqrep0/rep.h'', ''nng/protocol/survey0/survey.h'',
      ''nng/protocol/survey0/respond.h'', ''nng/supplemental/tls/tls.h'',
      ''nng/transport/tls/tls.h'']"

definition NNG_V2_HEADERS :: "pystr list" where
  "NNG_V2_HEADERS = [codes ''nng/nng.h'']"

definition EXCLUDE_PATTERNS :: "pystr list" where
  "EXCLUDE_PATTERNS = map codes [''nng_tls_config_(pass|key)'', ''NNG_PROTOCOL_NUMBER'']"

definition EXCLUDE_PATTERNS_NO_TLS :: "pystr list" where
  "EXCLUDE_PATTERNS_NO_TLS = [codes ''nng_tls_config_psk'']"

definition EXCLUDE_PATTERNS_V2 :: "pystr list" where
  "EXCLUDE_PATTERNS_V2 = map codes
     [''nng_tls_config_(pass|key)'', ''NNG_PROTOCOL_NUMBER'', ''nng_id_map'',
      ''nng_id_(get|set|alloc|remove|visit)'', ''nng_tls_cert'', ''nng_pipe_peer_cert'',
      ''nng_stream_peer_cert'', ''nng_ctx_set$'', ''nng_dialer_get_addr$'', ''_uint64$'']"

section \<open>Generating the declarations\<close>

text \<open>
  The state of the process and of the file system: the text of a file if it exists, modification
  times, what \<open>headerkit\<close> stored about cache files, and the memo. A key of the memo holds the
  existing headers with their times, the include directory and the exclusions.
\<close>

type_synonym memo_key = "(pystr \<times> int) list \<times> pystr \<times> pystr list"
type_synonym cdef_result = "pystr \<times> pystr list"
type_synonym files = "pystr \<Rightarrow> pystr option"

record 'h bstate =
  file_text :: files
  mtimes :: "pystr \<Rightarrow> int"
  stored :: 'h
  memo :: "(memo_key \<times> cdef_result) list"

text \<open>
  \<open>headerkit\<close>: parsing an umbrella header, writing CFFI declarations, and its cache functions,
  each of which may raise. \<open>cache_available\<close> is whether the cache modules could be imported,
  \<open>writable\<close> whether the cache file can be written.
\<close>

record ('h, 'ir) headerkit =
  parse_headers :: "files \<Rightarrow> pystr \<Rightarrow> pystr \<Rightarrow> pyexc + 'ir"
  header_to_cffi :: "'ir \<Rightarrow> pystr list \<Rightarrow> pyexc + pystr"
  is_up_to_date :: "'h \<Rightarrow> files \<Rightarrow> pystr \<Rightarrow> pystr list \<Rightarrow> pyexc + bool"
  save_hash :: "'h \<Rightarrow> files \<Rightarrow> pystr \<Rightarrow> pystr list \<Rightarrow> pyexc + 'h"
  cache_available :: bool
  writable :: "pystr \<Rightarrow> bool"

text \<open>The cache file of the two standard configurations.\<close>

definition cache_path :: "pystr \<Rightarrow> pystr list \<Rightarrow> pystr list \<Rightarrow> pystr option" where
  "cache_path script_dir headers excludes =
     (if headers = NNG_V1_HEADERS \<and> excludes = EXCLUDE_PATTERNS
      then Some (path_join script_dir (codes ''_nng_cdef_cache.txt''))
      else if headers = NNG_V2_HEADERS \<and> excludes = EXCLUDE_PATTERNS_V2
      then Some (path_join script_dir (codes ''_nng_v2_cdef_cache.txt''))
      else None)"

definition umbrella :: "pystr list \<Rightarrow> pystr" where
  "umbrella existing =
     codes ''#define NNG_DECL'' @ [10] @ codes ''#define NNG_STATIC_LIB'' @ [10]
     @ codes ''#define NNG_DEPRECATED'' @ [10]
     @ join_lines (map (\<lambda>h. codes ''#include <'' @ h @ codes ''>'') existing) @ [10]"

definition existing_headers :: "files \<Rightarrow> pystr \<Rightarrow> pystr list \<Rightarrow> pystr list" where
  "existing_headers fs dir headers = filter (\<lambda>h. fs (path_join dir h) \<noteq> None) headers"

definition make_memo_key :: "'h bstate \<Rightarrow> pystr \<Rightarrow> pystr list \<Rightarrow> pystr list \<Rightarrow> memo_key" where
  "make_memo_key s dir existing excludes =
     (map (\<lambda>h. (h, mtimes s (path_join dir h))) existing, dir, excludes)"

text \<open>The text generated from the headers, without any cache: \<open>open\<close> of a missing
  \<^verbatim>\<open>nng/nng.h\<close> raises.\<close>

definition fresh_cdef ::
  "(nat \<Rightarrow> bool) \<Rightarrow> ('h, 'ir) headerkit \<Rightarrow> files \<Rightarrow> pystr \<Rightarrow> pystr list \<Rightarrow> pystr list
     \<Rightarrow> pyexc + pystr" where
  "fresh_cdef al H fs dir existing excludes =
     (case parse_headers H fs (umbrella existing) dir of
        Inl e \<Rightarrow> Inl e
      | Inr ir \<Rightarrow>
        (case header_to_cffi H ir excludes of
           Inl e \<Rightarrow> Inl e
         | Inr text \<Rightarrow>
           (case fs (path_join dir (codes ''nng/nng.h'')) of
              None \<Rightarrow> Inl OSError
            | Some content \<Rightarrow>
              (let extra = extract_defines al content
               in Inr (if extra = [] then fix_cdef al text
                       else fix_cdef al text @ [10] @ extra)))))"

text \<open>Reading the cache file when it is fresh. An exception of the freshness test counts as not
  fresh.\<close>

definition cached_cdef ::
  "('h, 'ir) headerkit \<Rightarrow> 'h bstate \<Rightarrow> pystr option \<Rightarrow> pystr list \<Rightarrow> pystr option" where
  "cached_cdef H s cache paths =
     (case cache of
        None \<Rightarrow> None
      | Some p \<Rightarrow>
        if cache_available H \<and> is_up_to_date H (stored s) (file_text s) p paths = Inr True
        then file_text s p else None)"

text \<open>Writing the cache file and its hash. A failure of either is only logged; the file stays
  written when the hash cannot be saved.\<close>

definition save_cache ::
  "('h, 'ir) headerkit \<Rightarrow> pystr option \<Rightarrow> pystr list \<Rightarrow> pystr \<Rightarrow> 'h bstate \<Rightarrow> 'h bstate" where
  "save_cache H cache paths cdef s =
     (case cache of
        None \<Rightarrow> s
      | Some p \<Rightarrow>
        if \<not> cache_available H \<or> \<not> writable H p then s
        else
          (let s1 = s\<lparr>file_text := (file_text s)(p := Some cdef)\<rparr>
           in case save_hash H (stored s1) (file_text s1) p paths of
                Inl e \<Rightarrow> s1
              | Inr h \<Rightarrow> s1\<lparr>stored := h\<rparr>))"

definition generate_cdef ::
  "(nat \<Rightarrow> bool) \<Rightarrow> ('h, 'ir) headerkit \<Rightarrow> pystr \<Rightarrow> pystr list \<Rightarrow> pystr \<Rightarrow> pystr list
     \<Rightarrow> ('h bstate, pyexc, cdef_result) prog" where
  "generate_cdef al H script_dir headers dir excludes s =
     (let existing = existing_headers (file_text s) dir headers;
          paths = map (path_join dir) existing;
          key = make_memo_key s dir existing excludes;
          cache = cache_path script_dir headers excludes
      in case map_of (memo s) key of
           Some r \<Rightarrow> (Inr r, s)
         | None \<Rightarrow>
           (case cached_cdef H s cache paths of
              Some cdef \<Rightarrow> (Inr (cdef, existing), s)
            | None \<Rightarrow>
              (case fresh_cdef al H (file_text s) dir existing excludes of
                 Inl e \<Rightarrow> (Inl e, s)
               | Inr cdef \<Rightarrow>
                 (Inr (cdef, existing),
                  (save_cache H cache paths cdef s)
                    \<lparr>memo := AList.update key (cdef, existing) (memo s)\<rparr>))))"

text \<open>The defaults of the arguments.\<close>

definition generate_cdef_default ::
  "(nat \<Rightarrow> bool) \<Rightarrow> ('h, 'ir) headerkit \<Rightarrow> env \<Rightarrow> pystr \<Rightarrow> pystr list option \<Rightarrow> pystr option
     \<Rightarrow> pystr list option \<Rightarrow> ('h bstate, pyexc, cdef_result) prog" where
  "generate_cdef_default al H E script_dir headers dir excludes =
     (let hs = (case headers of None \<Rightarrow> NNG_V1_HEADERS | Some h \<Rightarrow> h);
          ex = (case excludes of None \<Rightarrow> EXCLUDE_PATTERNS | Some x \<Rightarrow> x)
      in case (case dir of Some d \<Rightarrow> Inr d | None \<Rightarrow> get_nng_include_dir E) of
           Inl e \<Rightarrow> raise_exc e
         | Inr d \<Rightarrow> generate_cdef al H script_dir hs d ex)"

section \<open>The caches are transparent\<close>

text \<open>The two standard configurations with their cache files.\<close>

definition std_configs :: "pystr \<Rightarrow> (pystr list \<times> pystr list \<times> pystr) list" where
  "std_configs sd =
     [(NNG_V1_HEADERS, EXCLUDE_PATTERNS, path_join sd (codes ''_nng_cdef_cache.txt'')),
      (NNG_V2_HEADERS, EXCLUDE_PATTERNS_V2, path_join sd (codes ''_nng_v2_cdef_cache.txt''))]"

definition cache_files :: "pystr \<Rightarrow> pystr set" where
  "cache_files sd = (\<lambda>(hs, ex, p). p) ` set (std_configs sd)"

lemma cache_path_std:
  "cache_path sd hs ex = Some p \<Longrightarrow> (hs, ex, p) \<in> set (std_configs sd)"
  by (auto simp: cache_path_def std_configs_def split: if_splits)

lemma path_join_suffix: "h \<noteq> [] \<Longrightarrow> \<exists>a. path_join d h = a @ h"
  by (auto simp: path_join_def)

lemma last_path_join: "h \<noteq> [] \<Longrightarrow> last (path_join d h) = last h"
  by (metis last_appendR path_join_suffix)

lemma cache_file_last: "p \<in> cache_files sd \<Longrightarrow> last p = 116"
  by (auto simp: cache_files_def std_configs_def last_path_join codes_def)

lemma std_header_last: "(hs, ex, p) \<in> set (std_configs sd) \<Longrightarrow> h \<in> set hs \<Longrightarrow> h \<noteq> [] \<and> last h = 104"
  by (auto simp: std_configs_def NNG_V1_HEADERS_def NNG_V2_HEADERS_def codes_def)

lemma header_not_cache:
  "(hs, ex, p) \<in> set (std_configs sd) \<Longrightarrow> h \<in> set hs \<Longrightarrow> path_join d h \<notin> cache_files sd"
  using cache_file_last [of "path_join d h" sd] std_header_last [of hs ex p sd h]
  by (auto simp: last_path_join)

lemma nng_h_not_cache: "path_join d (codes ''nng/nng.h'') \<notin> cache_files sd"
  by (rule header_not_cache [of NNG_V2_HEADERS EXCLUDE_PATTERNS_V2
        "path_join sd (codes ''_nng_v2_cdef_cache.txt'')"])
    (simp_all add: std_configs_def NNG_V2_HEADERS_def)

lemma cache_files_distinct:
  assumes "(hs, ex, p) \<in> set (std_configs sd)" and "(hs', ex', p) \<in> set (std_configs sd)"
  shows "hs' = hs \<and> ex' = ex"
proof -
  have "length (path_join sd (codes ''_nng_cdef_cache.txt''))
      \<noteq> length (path_join sd (codes ''_nng_v2_cdef_cache.txt''))"
    by (simp add: path_join_def codes_def startswith_def)
  with assms show ?thesis by (auto simp: std_configs_def)
qed

text \<open>
  What is assumed of \<open>headerkit\<close>, with \<open>fp\<close> the fingerprint it stores: parsing does not read
  the cache files; after a hash is saved, the cache file counts as fresh only for headers with the
  saved fingerprint, and other cache files are not affected; writing one cache file does not make
  another one fresh; saving succeeds; and in the include directories \<open>D\<close> that are used, headers
  with one fingerprint give one text.
\<close>

definition headerkit_ok ::
  "(nat \<Rightarrow> bool) \<Rightarrow> ('h, 'ir) headerkit \<Rightarrow> pystr \<Rightarrow> pystr set \<Rightarrow> (files \<Rightarrow> pystr list \<Rightarrow> 'f) \<Rightarrow> bool" where
  "headerkit_ok al H sd D fp \<longleftrightarrow>
     (\<forall>fs p x. p \<in> cache_files sd \<longrightarrow> parse_headers H (fs(p := x)) = parse_headers H fs)
   \<and> (\<forall>h fs p paths h' paths'. save_hash H h fs p paths = Inr h' \<longrightarrow>
        is_up_to_date H h' fs p paths' = Inr True \<longrightarrow> fp fs paths' = fp fs paths)
   \<and> (\<forall>h fs p paths h' q paths'. save_hash H h fs p paths = Inr h' \<longrightarrow>
        is_up_to_date H h' fs q paths' = Inr True \<longrightarrow> q \<noteq> p \<longrightarrow>
        is_up_to_date H h fs q paths' = Inr True)
   \<and> (\<forall>h fs p x q paths. p \<in> cache_files sd \<longrightarrow> q \<noteq> p \<longrightarrow>
        is_up_to_date H h (fs(p := x)) q paths = Inr True \<longrightarrow> is_up_to_date H h fs q paths = Inr True)
   \<and> (\<forall>h fs p paths. \<exists>h'. save_hash H h fs p paths = Inr h')
   \<and> (\<forall>fs hs ex p d d'. (hs, ex, p) \<in> set (std_configs sd) \<longrightarrow> d \<in> D \<longrightarrow> d' \<in> D \<longrightarrow>
        fp fs (map (path_join d) (existing_headers fs d hs))
          = fp fs (map (path_join d') (existing_headers fs d' hs)) \<longrightarrow>
        fresh_cdef al H fs d (existing_headers fs d hs) ex
          = fresh_cdef al H fs d' (existing_headers fs d' hs) ex)"

lemma headerkit_okD:
  assumes "headerkit_ok al H sd D fp"
  shows "p \<in> cache_files sd \<Longrightarrow> parse_headers H (fs(p := x)) = parse_headers H fs"
    and "save_hash H h fs q paths = Inr h' \<Longrightarrow> is_up_to_date H h' fs q paths' = Inr True \<Longrightarrow>
      fp fs paths' = fp fs paths"
    and "save_hash H h fs p paths = Inr h' \<Longrightarrow> is_up_to_date H h' fs q paths' = Inr True \<Longrightarrow>
      q \<noteq> p \<Longrightarrow> is_up_to_date H h fs q paths' = Inr True"
    and "p \<in> cache_files sd \<Longrightarrow> q \<noteq> p \<Longrightarrow>
      is_up_to_date H h (fs(p := x)) q paths = Inr True \<Longrightarrow> is_up_to_date H h fs q paths = Inr True"
    and "\<exists>h'. save_hash H h fs p paths = Inr h'"
    and "(hs, ex, p) \<in> set (std_configs sd) \<Longrightarrow> d \<in> D \<Longrightarrow> d' \<in> D \<Longrightarrow>
      fp fs (map (path_join d) (existing_headers fs d hs))
        = fp fs (map (path_join d') (existing_headers fs d' hs)) \<Longrightarrow>
      fresh_cdef al H fs d (existing_headers fs d hs) ex
        = fresh_cdef al H fs d' (existing_headers fs d' hs) ex"
proof -
  note ok = assms [unfolded headerkit_ok_def]
  show "p \<in> cache_files sd \<Longrightarrow> parse_headers H (fs(p := x)) = parse_headers H fs"
    by (rule ok [THEN conjunct1, rule_format])
  show "save_hash H h fs q paths = Inr h' \<Longrightarrow> is_up_to_date H h' fs q paths' = Inr True \<Longrightarrow>
      fp fs paths' = fp fs paths"
    by (rule ok [THEN conjunct2, THEN conjunct1, rule_format])
  show "save_hash H h fs p paths = Inr h' \<Longrightarrow> is_up_to_date H h' fs q paths' = Inr True \<Longrightarrow>
      q \<noteq> p \<Longrightarrow> is_up_to_date H h fs q paths' = Inr True"
    by (rule ok [THEN conjunct2, THEN conjunct2, THEN conjunct1, rule_format])
  show "p \<in> cache_files sd \<Longrightarrow> q \<noteq> p \<Longrightarrow>
      is_up_to_date H h (fs(p := x)) q paths = Inr True \<Longrightarrow> is_up_to_date H h fs q paths = Inr True"
    by (rule ok [THEN conjunct2, THEN conjunct2, THEN conjunct2, THEN conjunct1, rule_format])
  show "\<exists>h'. save_hash H h fs p paths = Inr h'" using ok by blast
  show "(hs, ex, p) \<in> set (std_configs sd) \<Longrightarrow> d \<in> D \<Longrightarrow> d' \<in> D \<Longrightarrow>
      fp fs (map (path_join d) (existing_headers fs d hs))
        = fp fs (map (path_join d') (existing_headers fs d' hs)) \<Longrightarrow>
      fresh_cdef al H fs d (existing_headers fs d hs) ex
        = fresh_cdef al H fs d' (existing_headers fs d' hs) ex"
    by (rule ok [THEN conjunct2, THEN conjunct2, THEN conjunct2, THEN conjunct2, THEN conjunct2,
        rule_format])
qed

text \<open>Every memo entry and every fresh cache file holds the text that would be generated.\<close>

definition memo_ok :: "(nat \<Rightarrow> bool) \<Rightarrow> ('h, 'ir) headerkit \<Rightarrow> 'h bstate \<Rightarrow> bool" where
  "memo_ok al H s \<longleftrightarrow>
     (\<forall>k c ex. map_of (memo s) k = Some (c, ex) \<longrightarrow>
        ex = map fst (fst k) \<and> fresh_cdef al H (file_text s) (fst (snd k)) ex (snd (snd k)) = Inr c)"

definition file_ok ::
  "(nat \<Rightarrow> bool) \<Rightarrow> ('h, 'ir) headerkit \<Rightarrow> pystr \<Rightarrow> pystr set \<Rightarrow> 'h bstate \<Rightarrow> bool" where
  "file_ok al H sd D s \<longleftrightarrow>
     (\<forall>hs ex p d c. (hs, ex, p) \<in> set (std_configs sd) \<longrightarrow> d \<in> D \<longrightarrow>
        is_up_to_date H (stored s) (file_text s) p
          (map (path_join d) (existing_headers (file_text s) d hs)) = Inr True \<longrightarrow>
        file_text s p = Some c \<longrightarrow>
        fresh_cdef al H (file_text s) d (existing_headers (file_text s) d hs) ex = Inr c)"

lemma fresh_cdef_cache_write:
  assumes "headerkit_ok al H sd D fp" and "p \<in> cache_files sd"
  shows "fresh_cdef al H (fs(p := x)) d existing ex = fresh_cdef al H fs d existing ex"
proof -
  have "path_join d (codes ''nng/nng.h'') \<noteq> p" using assms(2) nng_h_not_cache by metis
  moreover have "parse_headers H (fs(p := x)) = parse_headers H fs"
    by (rule headerkit_okD(1) [OF assms])
  ultimately show ?thesis by (auto simp: fresh_cdef_def split: sum.split)
qed

lemma existing_headers_cache_write:
  assumes "p \<in> cache_files sd" and "(hs, ex, q) \<in> set (std_configs sd)"
  shows "existing_headers (fs(p := x)) d hs = existing_headers fs d hs"
proof -
  have "path_join d h \<noteq> p" if "h \<in> set hs" for h
    using header_not_cache [OF assms(2) that, of d] assms(1) by metis
  then show ?thesis by (auto simp: existing_headers_def intro: filter_cong)
qed

lemma memo_ok_cong:
  "memo_ok al H s \<Longrightarrow> memo t = memo s \<Longrightarrow>
   (\<And>d existing ex. fresh_cdef al H (file_text t) d existing ex
      = fresh_cdef al H (file_text s) d existing ex) \<Longrightarrow> memo_ok al H t"
  by (simp add: memo_ok_def)

lemma memo_ok_update:
  "memo_ok al H s \<Longrightarrow> fresh_cdef al H (file_text s) d existing ex = Inr c \<Longrightarrow>
   memo_ok al H (s\<lparr>memo := AList.update (make_memo_key s' d existing ex) (c, existing) (memo s)\<rparr>)"
  by (auto simp: memo_ok_def dict_simps make_memo_key_def comp_def split: if_splits)

lemma save_cache_cases:
  assumes "headerkit_ok al H sd D fp" and "\<And>p. cache = Some p \<Longrightarrow> p \<in> cache_files sd"
  obtains "save_cache H cache paths c s = s"
  | p h' where "cache = Some p" "p \<in> cache_files sd"
      "save_hash H (stored s) ((file_text s)(p := Some c)) p paths = Inr h'"
      "save_cache H cache paths c s
         = s\<lparr>file_text := (file_text s)(p := Some c), stored := h'\<rparr>"
proof (cases "save_cache H cache paths c s = s")
  case False
  then obtain p where p: "cache = Some p" "cache_available H" "writable H p"
    by (auto simp: save_cache_def split: option.splits if_splits)
  obtain h' where h: "save_hash H (stored s) ((file_text s)(p := Some c)) p paths = Inr h'"
    using headerkit_okD(5) [OF assms(1)] by blast
  with p show ?thesis by (intro that(2) [OF p(1) _ h]) (simp_all add: save_cache_def assms(2))
qed (rule that(1))

lemma file_ok_save:
  assumes H: "headerkit_ok al H sd D fp" and ok: "file_ok al H sd D s"
    and D: "d \<in> D" and cfg: "(hs, ex, p) \<in> set (std_configs sd)"
    and fresh: "fresh_cdef al H (file_text s) d (existing_headers (file_text s) d hs) ex = Inr c"
    and save: "save_hash H (stored s) ((file_text s)(p := Some c)) p
        (map (path_join d) (existing_headers (file_text s) d hs)) = Inr h'"
  shows "file_ok al H sd D (s\<lparr>file_text := (file_text s)(p := Some c), stored := h'\<rparr>)"
proof -
  let ?fs = "(file_text s)(p := Some c)"
  have pc: "p \<in> cache_files sd" using cfg by (force simp: cache_files_def)
  note same = fresh_cdef_cache_write [OF H pc]
  have ex_same: "existing_headers ?fs d' hs' = existing_headers (file_text s) d' hs'"
    if "(hs', ex', q) \<in> set (std_configs sd)" for hs' ex' q d'
    by (rule existing_headers_cache_write [OF pc that])
  have "fresh_cdef al H (file_text s) d' (existing_headers (file_text s) d' hs') ex' = Inr c'"
    if q: "(hs', ex', q) \<in> set (std_configs sd)" and D': "d' \<in> D" and tx: "?fs q = Some c'"
      and up: "is_up_to_date H h' ?fs q
        (map (path_join d') (existing_headers (file_text s) d' hs')) = Inr True"
    for hs' ex' q d' c'
  proof (cases "q = p")
    case True
    with cache_files_distinct [of hs ex p sd hs' ex'] cfg q have cfg': "hs' = hs" "ex' = ex" by auto
    have "fp ?fs (map (path_join d') (existing_headers ?fs d' hs))
        = fp ?fs (map (path_join d) (existing_headers ?fs d hs))"
      using headerkit_okD(2) [OF H save] up True by (simp add: ex_same [OF cfg] cfg')
    note eq = headerkit_okD(6) [OF H cfg D' D this]
    have "fresh_cdef al H (file_text s) d' (existing_headers (file_text s) d' hs) ex
        = fresh_cdef al H (file_text s) d (existing_headers (file_text s) d hs) ex"
      using eq by (simp only: ex_same [OF cfg] same)
    with fresh tx True show ?thesis by (simp add: cfg')
  next
    case False
    have "is_up_to_date H (stored s) ?fs q
        (map (path_join d') (existing_headers (file_text s) d' hs')) = Inr True"
      by (rule headerkit_okD(3) [OF H save up False])
    then have "is_up_to_date H (stored s) (file_text s) q
        (map (path_join d') (existing_headers (file_text s) d' hs')) = Inr True"
      by (rule headerkit_okD(4) [OF H pc False])
    with ok q D' tx False show ?thesis by (auto simp: file_ok_def)
  qed
  then show ?thesis unfolding file_ok_def by (auto simp: ex_same same)
qed

lemma save_cache_ok:
  assumes D: "d \<in> D" and H: "headerkit_ok al H sd D fp" and m: "memo_ok al H s" and f: "file_ok al H sd D s"
    and fresh: "fresh_cdef al H (file_text s) d (existing_headers (file_text s) d hs) ex = Inr c"
  defines "t \<equiv> save_cache H (cache_path sd hs ex)
      (map (path_join d) (existing_headers (file_text s) d hs)) c s"
  shows "memo t = memo s" and "memo_ok al H t" and "file_ok al H sd D t"
    and "fresh_cdef al H (file_text t) d' existing ex' = fresh_cdef al H (file_text s) d' existing ex'"
proof -
  have cache: "p \<in> cache_files sd" if "cache_path sd hs ex = Some p" for p
    using cache_path_std [OF that] by (force simp: cache_files_def)
  consider "t = s"
    | p h' where "cache_path sd hs ex = Some p" "p \<in> cache_files sd"
      "save_hash H (stored s) ((file_text s)(p := Some c)) p
          (map (path_join d) (existing_headers (file_text s) d hs)) = Inr h'"
      "t = s\<lparr>file_text := (file_text s)(p := Some c), stored := h'\<rparr>"
    unfolding t_def
    by (rule save_cache_cases [where cache = "cache_path sd hs ex" and c = c and s = s
          and paths = "map (path_join d) (existing_headers (file_text s) d hs)", OF H])
      (auto dest: cache)
  then have "memo t = memo s \<and> memo_ok al H t \<and> file_ok al H sd D t \<and>
      (\<forall>d' e' x'. fresh_cdef al H (file_text t) d' e' x' = fresh_cdef al H (file_text s) d' e' x')"
  proof cases
    case 1
    then show ?thesis using m f by simp
  next
    case (2 p h')
    note p = 2(1,2) and save = 2(3) and t = 2(4)
    have same: "fresh_cdef al H (file_text t) d' e' x' = fresh_cdef al H (file_text s) d' e' x'"
      for d' e' x' using fresh_cdef_cache_write [OF H p(2)] by (simp add: t)
    moreover have memo_t: "memo t = memo s" by (simp add: t)
    moreover have "memo_ok al H t" using m by (rule memo_ok_cong) (simp_all add: same memo_t)
    moreover have "file_ok al H sd D t"
      unfolding t by (rule file_ok_save [OF H f D cache_path_std [OF p(1)] fresh save])
    ultimately show ?thesis by blast
  qed
  then show "memo t = memo s" and "memo_ok al H t" and "file_ok al H sd D t"
    and "fresh_cdef al H (file_text t) d' existing ex' = fresh_cdef al H (file_text s) d' existing ex'"
    by blast+
qed

lemma generate_cdef_ok:
  fixes hs :: "pystr list" and d :: pystr
  assumes D: "d \<in> D" and H: "headerkit_ok al H sd D fp" and m: "memo_ok al H s"
    and f: "file_ok al H sd D s"
  defines "existing \<equiv> existing_headers (file_text s) d hs"
  shows "fst (generate_cdef al H sd hs d ex s)
      = map_sum id (\<lambda>c. (c, existing)) (fresh_cdef al H (file_text s) d existing ex)
    \<and> memo_ok al H (snd (generate_cdef al H sd hs d ex s))
    \<and> file_ok al H sd D (snd (generate_cdef al H sd hs d ex s))"
proof -
  let ?key = "make_memo_key s d existing ex" and ?cache = "cache_path sd hs ex"
    and ?paths = "map (path_join d) existing"
  let ?fresh = "fresh_cdef al H (file_text s) d existing ex"
  have key: "map fst (fst ?key) = existing" "fst (snd ?key) = d" "snd (snd ?key) = ex"
    by (simp_all add: make_memo_key_def comp_def)
  have cache: "p \<in> cache_files sd" if "?cache = Some p" for p
    using cache_path_std [OF that] by (force simp: cache_files_def)
  show ?thesis
  proof (cases "map_of (memo s) ?key")
    case (Some r)
    then obtain c e where r: "map_of (memo s) ?key = Some (c, e)" by (cases r) auto
    from m [unfolded memo_ok_def, rule_format, OF r] have "e = existing \<and> ?fresh = Inr c" by (auto simp: key)
    with r show ?thesis using m f by (simp add: generate_cdef_def Let_def existing_def)
  next
    case miss: None
    show ?thesis
    proof (cases "cached_cdef H s ?cache ?paths")
      case (Some c)
      then obtain p where p: "?cache = Some p"
        and up: "is_up_to_date H (stored s) (file_text s) p ?paths = Inr True"
        and tx: "file_text s p = Some c"
        by (auto simp: cached_cdef_def split: option.splits if_splits)
      have "?fresh = Inr c"
        using f [unfolded file_ok_def, rule_format, OF cache_path_std [OF p] D] up tx
        by (simp add: existing_def)
      with miss Some show ?thesis using m f
        by (simp add: generate_cdef_def Let_def existing_def [symmetric])
    next
      case uncached: None
      show ?thesis
      proof (cases ?fresh)
        case (Inl e)
        with miss uncached show ?thesis using m f
          by (simp add: generate_cdef_def Let_def existing_def [symmetric])
      next
        case (Inr c)
        let ?t = "save_cache H ?cache ?paths c s"
        have run: "generate_cdef al H sd hs d ex s
            = (Inr (c, existing), ?t\<lparr>memo := AList.update ?key (c, existing) (memo s)\<rparr>)"
          using miss uncached Inr by (simp add: generate_cdef_def Let_def existing_def [symmetric])
        have t: "memo ?t = memo s" "memo_ok al H ?t" "file_ok al H sd D ?t"
          "fresh_cdef al H (file_text ?t) d existing ex = Inr c"
          using save_cache_ok [OF D H m f Inr [unfolded existing_def]] Inr
          by (simp_all add: existing_def)
        have "memo_ok al H (?t\<lparr>memo := AList.update ?key (c, existing) (memo s)\<rparr>)"
          using memo_ok_update [OF t(2) t(4), of s] t(1) by simp
        moreover have "file_ok al H sd D (?t\<lparr>memo := AList.update ?key (c, existing) (memo s)\<rparr>)"
          using t(3) by (simp add: file_ok_def)
        ultimately show ?thesis by (simp add: run Inr)
      qed
    qed
  qed
qed

text \<open>Repeated calls in one run of the build or of the tests.\<close>

type_synonym cdef_call = "pystr list \<times> pystr \<times> pystr list"

fun generate_all ::
  "(nat \<Rightarrow> bool) \<Rightarrow> ('h, 'ir) headerkit \<Rightarrow> pystr \<Rightarrow> cdef_call list \<Rightarrow> 'h bstate
     \<Rightarrow> (pyexc + cdef_result) list" where
  "generate_all al H sd [] s = []"
| "generate_all al H sd ((hs, d, ex) # calls) s =
     fst (generate_cdef al H sd hs d ex s)
       # generate_all al H sd calls (snd (generate_cdef al H sd hs d ex s))"

text \<open>The result of one call without caches.\<close>

definition uncached ::
  "(nat \<Rightarrow> bool) \<Rightarrow> ('h, 'ir) headerkit \<Rightarrow> files \<Rightarrow> cdef_call \<Rightarrow> pyexc + cdef_result" where
  "uncached al H fs call =
     (case call of (hs, d, ex) \<Rightarrow>
        map_sum id (\<lambda>c. (c, existing_headers fs d hs))
          (fresh_cdef al H fs d (existing_headers fs d hs) ex))"

definition call_ok :: "pystr \<Rightarrow> pystr set \<Rightarrow> cdef_call \<Rightarrow> bool" where
  "call_ok sd D call =
     (case call of (hs, d, ex) \<Rightarrow> d \<in> D \<and> (\<forall>h\<in>set hs. path_join d h \<notin> cache_files sd))"

lemma save_cache_files:
  "\<exists>x. file_text (save_cache H cache paths c s) = file_text s
      \<or> (\<exists>p. cache = Some p \<and> file_text (save_cache H cache paths c s) = (file_text s)(p := x))"
  by (auto simp: save_cache_def Let_def split: option.splits sum.splits)

lemma generate_cdef_files:
  "file_text (snd (generate_cdef al H sd hs d ex s)) = file_text s
   \<or> (\<exists>p\<in>cache_files sd. \<exists>x. file_text (snd (generate_cdef al H sd hs d ex s))
        = (file_text s)(p := x))"
proof -
  have "p \<in> cache_files sd" if "cache_path sd hs ex = Some p" for p
    using cache_path_std [OF that] by (force simp: cache_files_def)
  then show ?thesis
    using save_cache_files [of H "cache_path sd hs ex"
        "map (path_join d) (existing_headers (file_text s) d hs)" _ s]
    by (auto simp: generate_cdef_def Let_def split: option.splits sum.splits)
qed

lemma uncached_cache_write:
  assumes "headerkit_ok al H sd D fp" and "p \<in> cache_files sd" and "call_ok sd D call"
  shows "uncached al H (fs(p := x)) call = uncached al H fs call"
proof -
  obtain hs d ex where call: "call = (hs, d, ex)" by (cases call)
  have "path_join d h \<noteq> p" if "h \<in> set hs" for h
    using assms(2,3) that by (auto simp: call_ok_def call)
  then have "existing_headers (fs(p := x)) d hs = existing_headers fs d hs"
    by (auto simp: existing_headers_def intro: filter_cong)
  with fresh_cdef_cache_write [OF assms(1,2)] show ?thesis by (simp add: uncached_def call)
qed


text \<open>A header with one flag, a cache that is fresh once it has been saved, and two calls: the
  second is answered by the memo.\<close>

definition files0 :: files where
  "files0 = (\<lambda>p. if p = codes ''/i/nng/nng.h'' then Some (codes ''#define NNG_FLAG_A 1'') else None)"

definition headerkit0 :: "(pystr \<Rightarrow> bool, unit) headerkit" where
  "headerkit0 =
     \<lparr>parse_headers = (\<lambda>fs u d. Inr ()), header_to_cffi = (\<lambda>ir ex. Inr (codes ''int x;'')),
      is_up_to_date = (\<lambda>h fs p paths. Inr (h p)), save_hash = (\<lambda>h fs p paths. Inr (h(p := True))),
      cache_available = True, writable = (\<lambda>p. True)\<rparr>"

definition bstate0 :: "(pystr \<Rightarrow> bool) bstate" where
  "bstate0 = \<lparr>file_text = files0, mtimes = (\<lambda>p. 0), stored = (\<lambda>p. False), memo = []\<rparr>"

lemma headerkit0_ok: "headerkit_ok al headerkit0 sd {d} (\<lambda>fs paths. ())"
  by (simp add: headerkit_ok_def headerkit0_def)

definition upper :: "nat \<Rightarrow> bool" where
  "upper c \<longleftrightarrow> 65 \<le> c \<and> c \<le> 90"

lemma uncached0:
  "uncached upper headerkit0 files0 (NNG_V2_HEADERS, codes ''/i'', EXCLUDE_PATTERNS_V2)
     = Inr (codes ''int x;'' @ [10] @ codes ''#define NNG_FLAG_A ...'', [codes ''nng/nng.h''])"
proof -
  have ex: "existing_headers files0 (codes ''/i'') NNG_V2_HEADERS = [codes ''nng/nng.h'']"
    by (simp add: existing_headers_def files0_def NNG_V2_HEADERS_def path_join_def codes_def
        startswith_def endswith_def)
  have nng: "files0 (path_join (codes ''/i'') (codes ''nng/nng.h''))
      = Some (codes ''#define NNG_FLAG_A 1'')"
    by (simp add: files0_def path_join_def codes_def startswith_def endswith_def)
  have defs: "extract_defines upper (codes ''#define NNG_FLAG_A 1'')
      = codes ''#define NNG_FLAG_A ...''"
    by (simp add: extract_defines_def re_find_groups_def groups_from.simps define_re_def codes_def
        head_opt_def holds_opt_def wordc_def is_space_def join_lines_def upper_def)
  have "fix_cdef upper (codes ''int x;'') = codes ''int x;''"
    by (simp add: fix_cdef_def re_sub_def sub_from.simps enum_re_def const_params_re_def
        bare_params_re_def params_re_def opt_struct_def Opt_def codes_def head_opt_def holds_opt_def
        wordc_def is_space_def upper_def)
  moreover have "codes ''#define NNG_FLAG_A ...'' \<noteq> []" by (simp add: codes_def)
  ultimately have "fresh_cdef upper headerkit0 files0 (codes ''/i'') [codes ''nng/nng.h''] EXCLUDE_PATTERNS_V2
      = Inr (codes ''int x;'' @ [10] @ codes ''#define NNG_FLAG_A ...'')"
    by (simp add: fresh_cdef_def headerkit0_def nng defs)
  then show ?thesis by (simp add: uncached_def ex)
qed


section \<open>The arguments of the CFFI builder\<close>

definition AIO_ENGINE_CDEF :: "pystr list" where
  "AIO_ENGINE_CDEF = map codes
     [''typedef struct pynng_aio_entry pynng_aio_entry_t;'',
      ''typedef struct pynng_mpsc_queue pynng_mpsc_queue_t;'', '''',
      ''pynng_mpsc_queue_t *pynng_mpsc_queue_new(int write_fd);'',
      ''void pynng_mpsc_queue_close(pynng_mpsc_queue_t *q);'',
      ''void pynng_mpsc_queue_free(pynng_mpsc_queue_t *q);'',
      ''pynng_aio_entry_t *pynng_aio_entry_new(void *aio, uintptr_t slot_id, pynng_mpsc_queue_t *q);'',
      ''void pynng_aio_entry_set_slot_id(pynng_aio_entry_t *e, uintptr_t slot_id);'',
      ''int pynng_aio_entry_is_idle(pynng_aio_entry_t *e);'',
      ''void pynng_aio_entry_free(pynng_aio_entry_t *e);'',
      ''void pynng_native_aio_complete(void *arg);'',
      ''int pynng_mpsc_drain_batch(pynng_mpsc_queue_t *q, uintptr_t *out_slot_ids, int max_entries);'',
      '''', ''typedef struct pynng_sync_recv pynng_sync_recv_t;'', '''',
      ''int pynng_sync_recv_alloc(pynng_sync_recv_t **out);'',
      ''nng_aio *pynng_sync_recv_aio(pynng_sync_recv_t *r);'',
      ''int pynng_sync_recv_wait(pynng_sync_recv_t *r, int slice_ms);'',
      ''void pynng_sync_recv_free(pynng_sync_recv_t *r);'']"

text \<open>Lines, each indented by \<open>n\<close> spaces unless it is empty.\<close>

definition indented :: "nat \<Rightarrow> pystr list \<Rightarrow> pystr" where
  "indented n ls = join_lines (map (\<lambda>l. if l = [] then [] else replicate n 32 @ l) ls)"

definition callbacks_cdef :: pystr where
  "callbacks_cdef =
     [10] @ indented 8 (map codes
       [''extern \"Python\" void _async_complete(void *);'',
        ''extern \"Python\" void _nng_pipe_cb(nng_pipe, nng_pipe_ev, void *);'']) @ [10]
     @ [10] @ indented 8 AIO_ENGINE_CDEF @ [10]
     @ [10] @ replicate 4 32"

definition set_source_text :: "pystr list \<Rightarrow> pystr" where
  "set_source_text existing =
     [10] @ indented 12 (map codes [''#define NNG_DECL'', ''#define NNG_STATIC_LIB'']) @ [10]
     @ indented 8 (map (\<lambda>h. codes ''#include <'' @ h @ codes ''>'') existing) @ [10]
     @ indented 12 (map codes
         [''/* nng.h declares typedef enum { ... } nng_pipe_ev and nng_err anonymously'',
          ''   without tags. CFFI emits sizeof(enum ...); define tags to make them complete. */'',
          ''enum nng_pipe_ev { _nng_pipe_ev_dummy = 0 };'',
          ''enum nng_err { _nng_err_dummy = 0 };'', '''', ''#include \"aio_engine.h\"'']) @ [10]
     @ replicate 8 32"

record ffi =
  ffi_module :: pystr
  ffi_source :: pystr
  ffi_include_dirs :: "pystr list"
  ffi_cdef :: pystr

definition default_headers :: "pystr \<Rightarrow> pystr list option \<Rightarrow> pystr list" where
  "default_headers module_name headers =
     (case headers of
        Some h \<Rightarrow> h
      | None \<Rightarrow> if module_name = codes ''pynng._nng_v2'' then NNG_V2_HEADERS else NNG_V1_HEADERS)"

definition default_excludes :: "pystr option \<Rightarrow> pystr \<Rightarrow> pystr list option \<Rightarrow> pystr list" where
  "default_excludes tls_enabled module_name excludes =
     (let base = (case excludes of
         Some x \<Rightarrow> x
       | None \<Rightarrow> if module_name = codes ''pynng._nng_v2'' then EXCLUDE_PATTERNS_V2
                 else EXCLUDE_PATTERNS)
      in if tls_enabled = Some (codes ''0'') then base @ EXCLUDE_PATTERNS_NO_TLS else base)"

text \<open>\<open>src_dir\<close> is the directory of \<^verbatim>\<open>aio_engine.h\<close>, with whether it exists.\<close>

definition build_ffi ::
  "(nat \<Rightarrow> bool) \<Rightarrow> ('h, 'ir) headerkit \<Rightarrow> env \<Rightarrow> pystr \<Rightarrow> pystr \<times> bool \<Rightarrow> pystr option
     \<Rightarrow> pystr \<Rightarrow> pystr list option \<Rightarrow> pystr list option \<Rightarrow> ('h bstate, pyexc, ffi) prog" where
  "build_ffi al H E script_dir src_dir tls_enabled module_name headers excludes =
     (let hs = default_headers module_name headers;
          ex = default_excludes tls_enabled module_name excludes
      in case get_nng_include_dir E of
           Inl e \<Rightarrow> raise_exc e
         | Inr d \<Rightarrow>
             bnd (generate_cdef_default al H E script_dir (Some hs) (Some d) (Some ex))
               (\<lambda>(cdef, existing). ret
                 \<lparr>ffi_module = module_name, ffi_source = set_source_text existing,
                  ffi_include_dirs = d # (if snd src_dir then [fst src_dir] else []),
                  ffi_cdef = cdef @ callbacks_cdef\<rparr>))"

text \<open>Without TLS the cache files are neither read nor written.\<close>

lemma no_tls_uncached:
  "cache_path sd (default_headers m None) (default_excludes (Some (codes ''0'')) m None) = None"
  by (simp add: cache_path_def default_headers_def default_excludes_def EXCLUDE_PATTERNS_def
      EXCLUDE_PATTERNS_V2_def EXCLUDE_PATTERNS_NO_TLS_def NNG_V1_HEADERS_def NNG_V2_HEADERS_def)

section \<open>The loader for PyPy\<close>

text \<open>The replacements in \<^verbatim>\<open>headerkit._clang.cindex\<close>, in order.\<close>

definition clang_replacements :: "(pystr \<times> pystr) list" where
  "clang_replacements =
     [(codes ''class c_interop_string(c_char_p):'',
       codes ''from headerkit._clang import _compat_c_interop_string as c_interop_string'' @ [10]
       @ codes ''class _unused_c_interop_string:''),
      (codes ''return b.decode(\"utf8\")'',
       codes ''return (None if not (ptr := c_void_p.value.__get__(x) if isinstance(x, c_void_p)''
       @ codes '' else getattr(x, 'value', None)) else ctypes.string_at(ptr).decode('utf8'))''),
      (codes ''child._tu = self._tu'',
       codes ''child = Cursor.from_buffer_copy(child); child._tu = self._tu''),
      (codes ''field._tu = self._tu'',
       codes ''field = Cursor.from_buffer_copy(field); field._tu = self._tu''),
      (codes ''base._tu = self._tu'',
       codes ''base = Cursor.from_buffer_copy(base); base._tu = self._tu''),
      (codes ''method._tu = self._tu'',
       codes ''method = Cursor.from_buffer_copy(method); method._tu = self._tu''),
      (codes ''loc = lptr.contents'', codes ''loc = SourceLocation.from_buffer_copy(lptr.contents)''),
      (codes ''File(fobj)'', codes ''File(c_object_p.from_buffer_copy(fobj))''),
      (codes ''conf.lib.clang_equalCursors(self, other)'',
       codes ''conf.lib.clang_equalCursors(''
       @ codes ''Cursor.from_buffer_copy(self), Cursor.from_buffer_copy(other))'')]"

definition transform_headerkit_clang_source :: "pystr \<Rightarrow> pystr \<Rightarrow> pystr" where
  "transform_headerkit_clang_source path text =
     (if endswith path (codes ''cindex.py'')
      then fold (\<lambda>(old, new) t. replace_all old new t) clang_replacements text else text)"

text \<open>\<open>get_data\<close> of the loader: the bytes of the file, decoded, changed and encoded again.\<close>

definition loader_get_data :: "pystr \<Rightarrow> nat list \<Rightarrow> pyexc + nat list" where
  "loader_get_data path data =
     (case utf8_decode data of
        Inl e \<Rightarrow> Inl e
      | Inr text \<Rightarrow> utf8_encode (transform_headerkit_clang_source path text))"

text \<open>
  A finder of \<open>sys.meta_path\<close>: whether it is one of this class, whether it has
  \<open>find_spec\<close>, and its answer, a specification with its origin. The result is the
  specification with the adapted loader.
\<close>

record finder =
  is_self :: bool
  has_find_spec :: bool
  answer :: "pystr option option"

fun find_spec_in :: "finder list \<Rightarrow> pystr option" where
  "find_spec_in [] = None"
| "find_spec_in (f # fs) =
     (if is_self f \<or> \<not> has_find_spec f then find_spec_in fs
      else case answer f of
             Some (Some origin) \<Rightarrow>
               if origin \<noteq> [] \<and> endswith origin (codes ''.py'') then Some origin
               else find_spec_in fs
           | _ \<Rightarrow> find_spec_in fs)"

definition pypy_find_spec :: "pystr \<Rightarrow> finder list \<Rightarrow> pystr option" where
  "pypy_find_spec fullname meta_path =
     (if fullname = codes ''headerkit._clang'' \<or> startswith fullname (codes ''headerkit._clang.'')
      then find_spec_in meta_path else None)"

text \<open>A file that none of the patterns occurs in comes through unchanged.\<close>

lemma clang_replacements_nonempty: "(old, new) \<in> set clang_replacements \<Longrightarrow> old \<noteq> []"
  by (auto simp: clang_replacements_def codes_def)

lemma fold_replace_id:
  "\<forall>(old, new)\<in>set rs. old \<noteq> [] \<and> \<not> contains old t \<Longrightarrow>
   fold (\<lambda>(old, new) t. replace_all old new t) rs t = t"
  by (induction rs) (auto simp: replace_all_id)

lemma loader_get_data_id:
  assumes "\<forall>(old, new)\<in>set clang_replacements. \<not> contains old text" and "utf8_decode data = Inr text"
  shows "loader_get_data path data = Inr data"
proof -
  have "transform_headerkit_clang_source path text = text"
    unfolding transform_headerkit_clang_source_def
    using assms(1) clang_replacements_nonempty by (auto intro!: fold_replace_id)
  then show ?thesis using assms(2) utf8_encode_decode by (simp add: loader_get_data_def)
qed

end
