(* ===== verification/Service.thy ===== *)
theory Service
  imports Sockets
begin

text \<open>
  \<^verbatim>\<open>pynng/service.py\<close>. The first half is the concurrent protocol of \<open>Rep0Service\<close>: the
  receive loops, one per context, the requests they hand to the consumer through a queue (asyncio)
  or a bounded channel (trio), replies, requests left without one, and the shutdown. The second half
  is what the service does to its socket: creating or borrowing it, the timeouts it sets and
  restores, the listener it opens and closes.
\<close>

section \<open>Requests and workers\<close>

text \<open>
  Requests are numbered in the order of arrival. A worker is at \<open>ctx.arecv\<close>, puts a request into
  the queue, waits for the event of the request, or has ended. \<open>latest\<close> and \<open>open_req\<close> are about
  nng: the last request a context received, and the one a reply on the context would answer, which a
  send uses up (a context keeps one request at a time, and a send without one fails).
  \<open>delivered\<close> lists the replies that nng sent: by which request object, to which request.
\<close>

datatype async_library = Asyncio | Trio

datatype wstate = Receiving | Putting nat | Waiting nat | Ended

datatype item = Item nat | Sentinel

record request =
  from_ctx :: nat
  replied :: bool
  released :: bool
  held :: bool

record service =
  sv_backend :: async_library
  n_workers :: nat
  sv_running :: bool
  wstate :: "nat \<Rightarrow> wstate"
  latest :: "nat \<Rightarrow> nat option"
  open_req :: "nat \<Rightarrow> nat option"
  requests :: "request list"
  sv_queue :: "item list"
  chan_closed :: bool
  delivered :: "(nat \<times> nat) list"

text \<open>The head of the loop: \<open>while self._running\<close>.\<close>

definition loop_head :: "service \<Rightarrow> nat \<Rightarrow> service" where
  "loop_head s w =
     s\<lparr>wstate := (wstate s)(w := if sv_running s then Receiving else Ended)\<rparr>"

definition upd_req :: "nat \<Rightarrow> (request \<Rightarrow> request) \<Rightarrow> service \<Rightarrow> service" where
  "upd_req r f s = s\<lparr>requests := (requests s)[r := f (requests s ! r)]\<rparr>"

text \<open>\<open>arecv\<close> returned: a new request.\<close>

definition received :: "nat \<Rightarrow> service \<Rightarrow> service" where
  "received w s =
     (let r = length (requests s) in
      s\<lparr>requests := requests s @ [\<lparr>from_ctx = w, replied = False, released = False, held = False\<rparr>],
        latest := (latest s)(w := Some r), open_req := (open_req s)(w := Some r),
        wstate := (wstate s)(w := Putting r)\<rparr>)"

text \<open>What a handler of the loop does: \<open>Closed\<close> ends it, \<open>Timeout\<close> goes on, any other
  \<open>Exception\<close> is logged unless the service is stopping; a cancellation is not caught.\<close>

definition worker_handler :: "pyexc \<Rightarrow> nat \<Rightarrow> service \<Rightarrow> service" where
  "worker_handler e w s =
     (if is_nng Closed e \<or> \<not> is_Exception e then s\<lparr>wstate := (wstate s)(w := Ended)\<rparr>
      else if is_nng Timeout e then loop_head s w
      else if sv_running s then loop_head s w
      else s\<lparr>wstate := (wstate s)(w := Ended)\<rparr>)"

text \<open>The channel of trio holds twice as many items as there are workers.\<close>

definition room :: "service \<Rightarrow> bool" where
  "room s \<longleftrightarrow> sv_backend s = Asyncio \<or> length (sv_queue s) < 2 * n_workers s"

text \<open>
  \<open>Request.reply\<close>: \<open>RuntimeError\<close> the second time, otherwise the flag is set and the reply
  is sent on the context; the event is set when the send has ended, whatever its result.
\<close>

definition reply_raises :: "nat \<Rightarrow> service \<Rightarrow> bool" where
  "reply_raises r s \<longleftrightarrow> replied (requests s ! r)"

definition reply_start :: "nat \<Rightarrow> service \<Rightarrow> service" where
  "reply_start r s = upd_req r (replied_update (\<lambda>_. True)) s"

definition reply_sent :: "nat \<Rightarrow> service \<Rightarrow> service" where
  "reply_sent r s =
     (let w = from_ctx (requests s ! r)
      in case open_req s w of
           None \<Rightarrow> reply_start r s
         | Some q \<Rightarrow> (reply_start r s)\<lparr>open_req := (open_req s)(w := None),
                       delivered := delivered s @ [(r, q)]\<rparr>)"

definition reply_end :: "nat \<Rightarrow> service \<Rightarrow> service" where
  "reply_end r s = upd_req r (released_update (\<lambda>_. True)) s"

text \<open>\<open>__exit__\<close>, \<open>__aexit__\<close> and \<open>__del__\<close>: an unanswered request lets its worker go on.\<close>

definition request_exit :: "nat \<Rightarrow> service \<Rightarrow> service" where
  "request_exit r s =
     (if replied (requests s ! r) then s else upd_req r (released_update (\<lambda>_. True)) s)"

definition request_del :: "nat \<Rightarrow> service \<Rightarrow> service" where
  "request_del r s = upd_req r (held_update (\<lambda>_. False)) (request_exit r s)"

text \<open>\<open>__anext__\<close>: \<open>None\<close> while it waits, otherwise the result and the rest of the queue.\<close>

definition service_anext :: "service \<Rightarrow> ((pyexc + nat) \<times> item list) option" where
  "service_anext s =
     (case sv_queue s of
        [] \<Rightarrow> if sv_backend s = Trio \<and> chan_closed s then Some (Inl StopAsyncIteration, []) else None
      | Item r # q \<Rightarrow> Some (Inr r, q)
      | Sentinel # q \<Rightarrow> Some (Inl StopAsyncIteration, q))"

text \<open>
  The steps. The flag says whether the consumer is careful: it does not call \<open>reply\<close> on a request
  whose \<open>with\<close> block it has left without a reply.
\<close>

inductive sv_step :: "bool \<Rightarrow> service \<Rightarrow> service \<Rightarrow> bool" for careful :: bool where
  sv_recv: "w < n_workers s \<Longrightarrow> wstate s w = Receiving \<Longrightarrow> sv_step careful s (received w s)"
| sv_recv_fails: "w < n_workers s \<Longrightarrow> wstate s w = Receiving \<Longrightarrow>
    sv_step careful s (worker_handler e w s)"
| sv_put: "w < n_workers s \<Longrightarrow> wstate s w = Putting r \<Longrightarrow> room s \<Longrightarrow> \<not> chan_closed s \<Longrightarrow>
    sv_step careful s
      (s\<lparr>sv_queue := sv_queue s @ [Item r], wstate := (wstate s)(w := Waiting r)\<rparr>)"
| sv_put_fails: "w < n_workers s \<Longrightarrow> wstate s w = Putting r \<Longrightarrow>
    sv_step careful s (worker_handler e w (request_del r s))"
| sv_wake: "w < n_workers s \<Longrightarrow> wstate s w = Waiting r \<Longrightarrow> released (requests s ! r) \<Longrightarrow>
    sv_step careful s (loop_head s w)"
| sv_wait_fails: "w < n_workers s \<Longrightarrow> wstate s w = Waiting r \<Longrightarrow> \<not> is_Exception e \<Longrightarrow>
    sv_step careful s (worker_handler e w s)"
| sv_take: "service_anext s = Some (Inr r, q) \<Longrightarrow>
    sv_step careful s (upd_req r (held_update (\<lambda>_. True)) (s\<lparr>sv_queue := q\<rparr>))"
| sv_iter_ends: "service_anext s = Some (Inl e, q) \<Longrightarrow> sv_step careful s (s\<lparr>sv_queue := q\<rparr>)"
| sv_reply: "r < length (requests s) \<Longrightarrow> held (requests s ! r) \<Longrightarrow> \<not> reply_raises r s \<Longrightarrow>
    (careful \<longrightarrow> \<not> released (requests s ! r)) \<Longrightarrow> sv_step careful s (reply_sent r s)"
| sv_reply_refused: "r < length (requests s) \<Longrightarrow> held (requests s ! r) \<Longrightarrow> \<not> reply_raises r s \<Longrightarrow>
    (careful \<longrightarrow> \<not> released (requests s ! r)) \<Longrightarrow> sv_step careful s (reply_start r s)"
| sv_reply_ends: "r < length (requests s) \<Longrightarrow> replied (requests s ! r) \<Longrightarrow>
    sv_step careful s (reply_end r s)"
| sv_exit: "r < length (requests s) \<Longrightarrow> held (requests s ! r) \<Longrightarrow> sv_step careful s (request_exit r s)"
| sv_del: "r < length (requests s) \<Longrightarrow> held (requests s ! r) \<Longrightarrow> sv_step careful s (request_del r s)"
| sv_stop: "sv_step careful s (s\<lparr>sv_running := False\<rparr>)"
| sv_close_channel: "\<not> sv_running s \<Longrightarrow> sv_backend s = Trio \<Longrightarrow> sv_step careful s (s\<lparr>chan_closed := True\<rparr>)"
| sv_sentinel: "\<not> sv_running s \<Longrightarrow> sv_backend s = Asyncio \<Longrightarrow> \<forall>w<n_workers s. wstate s w = Ended \<Longrightarrow>
    sv_step careful s (s\<lparr>sv_queue := sv_queue s @ [Sentinel]\<rparr>)"

text \<open>\<open>_start_asyncio\<close> and \<open>_start_trio\<close>.\<close>

definition sv_start :: "service \<Rightarrow> bool" where
  "sv_start s \<longleftrightarrow> sv_running s \<and> (\<forall>w. wstate s w = Receiving) \<and> latest s = (\<lambda>_. None) \<and>
     open_req s = (\<lambda>_. None) \<and> requests s = [] \<and> sv_queue s = [] \<and> \<not> chan_closed s \<and> delivered s = []"

section \<open>The invariant\<close>

text \<open>The requests in the queue.\<close>

definition queued :: "service \<Rightarrow> nat list" where
  "queued s = concat (map (\<lambda>i. case i of Item r \<Rightarrow> [r] | Sentinel \<Rightarrow> []) (sv_queue s))"

text \<open>The request a worker is busy with.\<close>

definition busy_with :: "wstate \<Rightarrow> nat option" where
  "busy_with x = (case x of Putting r \<Rightarrow> Some r | Waiting r \<Rightarrow> Some r | _ \<Rightarrow> None)"

text \<open>
  For every request \<open>r\<close>: as long as it is not released it is the latest of its context, and its
  worker is busy with it or has ended; a request in the queue is nobody's, neither replied nor
  released; and whatever a context has open is its latest request.
\<close>

definition req_ok :: "service \<Rightarrow> nat \<Rightarrow> bool" where
  "req_ok s r \<longleftrightarrow> from_ctx (requests s ! r) < n_workers s
     \<and> (\<not> released (requests s ! r) \<longrightarrow> latest s (from_ctx (requests s ! r)) = Some r
          \<and> (busy_with (wstate s (from_ctx (requests s ! r))) = Some r
             \<or> wstate s (from_ctx (requests s ! r)) = Ended))
     \<and> (r \<in> set (queued s) \<longrightarrow> \<not> held (requests s ! r) \<and> \<not> replied (requests s ! r)
          \<and> \<not> released (requests s ! r))"

definition worker_ok :: "service \<Rightarrow> nat \<Rightarrow> bool" where
  "worker_ok s w \<longleftrightarrow>
     (\<forall>r. busy_with (wstate s w) = Some r \<longrightarrow> r < length (requests s) \<and> from_ctx (requests s ! r) = w)
     \<and> (\<forall>r. wstate s w = Putting r \<longrightarrow> r \<notin> set (queued s) \<and> \<not> held (requests s ! r)
          \<and> \<not> released (requests s ! r) \<and> \<not> replied (requests s ! r))
     \<and> (\<forall>q. open_req s w = Some q \<longrightarrow> latest s w = Some q)"

definition sv_inv :: "service \<Rightarrow> bool" where
  "sv_inv s \<longleftrightarrow> (\<forall>r<length (requests s). req_ok s r) \<and> (\<forall>w. worker_ok s w)
     \<and> distinct (queued s) \<and> set (queued s) \<subseteq> {..<length (requests s)}"

lemma sv_invD:
  assumes "sv_inv s"
  shows "r < length (requests s) \<Longrightarrow> req_ok s r" and "worker_ok s w"
    and "distinct (queued s)" and "r \<in> set (queued s) \<Longrightarrow> r < length (requests s)"
  using assms by (auto simp: sv_inv_def)

text \<open>A worker that is not busy has no unreleased request.\<close>

lemma idle_released:
  assumes "sv_inv s" and "busy_with (wstate s w) = None" and "wstate s w \<noteq> Ended"
    and "r < length (requests s)" and "from_ctx (requests s ! r) = w"
  shows "released (requests s ! r)"
  using sv_invD(1) [OF assms(1,4)] assms(2,3,5) by (auto simp: req_ok_def)

lemma busy_released:
  assumes "sv_inv s" and "busy_with (wstate s w) = Some q"
    and "r < length (requests s)" and "from_ctx (requests s ! r) = w" and "r \<noteq> q"
  shows "released (requests s ! r)"
  using sv_invD(1) [OF assms(1,3)] assms(2,4,5) by (auto simp: req_ok_def busy_with_def)

lemma busy_with_simps [simp]:
  "busy_with Receiving = None" "busy_with Ended = None"
  "busy_with (Putting r) = Some r" "busy_with (Waiting r) = Some r"
  by (simp_all add: busy_with_def)

lemma queued_simps [simp]:
  "queued (s\<lparr>wstate := f\<rparr>) = queued s" "queued (s\<lparr>requests := q\<rparr>) = queued s"
  "queued (s\<lparr>open_req := g\<rparr>) = queued s" "queued (s\<lparr>latest := g\<rparr>) = queued s"
  "queued (s\<lparr>delivered := d\<rparr>) = queued s" "queued (s\<lparr>sv_running := b\<rparr>) = queued s"
  "queued (s\<lparr>chan_closed := b\<rparr>) = queued s"
  "queued (s\<lparr>sv_queue := sv_queue s @ [Item r]\<rparr>) = queued s @ [r]"
  "queued (s\<lparr>sv_queue := sv_queue s @ [Sentinel]\<rparr>) = queued s"
  by (simp_all add: queued_def)

text \<open>Moving a worker whose requests are all released to the head of the loop or to its end.\<close>

lemma sv_inv_move:
  assumes inv: "sv_inv s" and x: "x = Receiving \<or> x = Ended"
    and rel: "x = Receiving \<Longrightarrow> \<forall>r<length (requests s). from_ctx (requests s ! r) = w \<longrightarrow> released (requests s ! r)"
  shows "sv_inv (s\<lparr>wstate := (wstate s)(w := x)\<rparr>)"
proof -
  let ?t = "s\<lparr>wstate := (wstate s)(w := x)\<rparr>"
  have "req_ok ?t r" if "r < length (requests s)" for r
    using sv_invD(1) [OF inv that] rel x that by (auto simp: req_ok_def)
  moreover have "worker_ok ?t v" for v
    using sv_invD(2) [OF inv, of v] x by (auto simp: worker_ok_def)
  ultimately show ?thesis using inv by (simp add: sv_inv_def)
qed

lemma sv_inv_handler:
  assumes "sv_inv s"
    and "\<forall>r<length (requests s). from_ctx (requests s ! r) = w \<longrightarrow> released (requests s ! r)"
  shows "sv_inv (worker_handler e w s)" and "sv_inv (loop_head s w)"
  using sv_inv_move [OF assms(1)] assms(2) by (auto simp: worker_handler_def loop_head_def)

text \<open>Changing the flags of one request that is neither in the queue nor being put there.\<close>

lemma sv_inv_upd_req:
  assumes inv: "sv_inv s" and r: "r < length (requests s)"
    and out: "r \<notin> set (queued s)" "\<forall>w. wstate s w \<noteq> Putting r"
    and f: "from_ctx (f (requests s ! r)) = from_ctx (requests s ! r)"
      "released (requests s ! r) \<Longrightarrow> released (f (requests s ! r))"
  shows "sv_inv (upd_req r f s)"
proof -
  let ?t = "upd_req r f s"
  have "req_ok ?t q" if "q < length (requests s)" for q
    using sv_invD(1) [OF inv that] out f r
    by (auto simp: req_ok_def upd_req_def nth_list_update)
  moreover have "worker_ok ?t w" for w
    using sv_invD(2) [OF inv, of w] out f r
    by (auto simp: worker_ok_def upd_req_def nth_list_update)
  ultimately show ?thesis using inv by (simp add: sv_inv_def upd_req_def)
qed

lemma held_out:
  assumes "sv_inv s" and "r < length (requests s)"
    and "held (requests s ! r) \<or> replied (requests s ! r)"
  shows "r \<notin> set (queued s)" and "\<forall>w. wstate s w \<noteq> Putting r"
  using sv_invD(1) [OF assms(1,2)] sv_invD(2) [OF assms(1)] assms(3)
  by (auto simp: req_ok_def worker_ok_def)

lemma sv_inv_received:
  assumes inv: "sv_inv s" and w: "w < n_workers s" and idle: "wstate s w = Receiving"
  shows "sv_inv (received w s)"
proof -
  let ?t = "received w s" and ?n = "length (requests s)"
  have fresh: "?n \<notin> set (queued s)" using sv_invD(4) [OF inv] by blast
  have "req_ok ?t r" if "r < Suc ?n" for r
  proof (cases "r = ?n")
    case True
    then show ?thesis using w fresh by (simp add: req_ok_def received_def Let_def)
  next
    case False
    then have r: "r < ?n" using that by simp
    with sv_invD(1) [OF inv r] idle_released [OF inv, of w r] idle show ?thesis
      by (auto simp: req_ok_def received_def Let_def nth_append)
  qed
  moreover have "worker_ok ?t v" for v
    using sv_invD(2) [OF inv, of v] fresh
    by (auto simp: worker_ok_def received_def Let_def nth_append)
  ultimately show ?thesis
    using inv by (auto simp: sv_inv_def received_def Let_def)
qed

lemma sv_inv_put:
  assumes inv: "sv_inv s" and p: "wstate s w = Putting r"
  shows "sv_inv (s\<lparr>sv_queue := sv_queue s @ [Item r], wstate := (wstate s)(w := Waiting r)\<rparr>)"
    (is "sv_inv ?t")
proof -
  have q: "queued ?t = queued s @ [r]" by (simp add: queued_def)
  have r: "r < length (requests s)" "from_ctx (requests s ! r) = w" "r \<notin> set (queued s)"
    "\<not> held (requests s ! r)" "\<not> released (requests s ! r)" "\<not> replied (requests s ! r)"
    using sv_invD(2) [OF inv, of w] p by (auto simp: worker_ok_def)
  have "req_ok ?t x" if "x < length (requests s)" for x
  proof (cases "x = r")
    case True
    with sv_invD(1) [OF inv r(1)] r show ?thesis by (simp add: req_ok_def q)
  next
    case x: False
    have ok: "req_ok s x" by (rule sv_invD(1) [OF inv that])
    show ?thesis
    proof (cases "from_ctx (requests s ! x) = w")
      case True
      then have "released (requests s ! x)" using busy_released [OF inv, of w r x] p that x by simp
      with ok x show ?thesis by (simp add: req_ok_def q)
    next
      case False
      with ok x show ?thesis by (simp add: req_ok_def q)
    qed
  qed
  moreover have "worker_ok ?t v" for v
  proof (cases "v = w")
    case True
    with sv_invD(2) [OF inv, of w] r p show ?thesis by (simp add: worker_ok_def q)
  next
    case False
    with sv_invD(2) [OF inv, of v] r(2) show ?thesis by (auto simp: worker_ok_def q)
  qed
  ultimately show ?thesis using inv r by (auto simp: sv_inv_def q)
qed

lemma service_anext_queue:
  "service_anext s = Some (Inr r, q) \<Longrightarrow> sv_queue s = Item r # q"
  "service_anext s = Some (Inl e, q) \<Longrightarrow> e = StopAsyncIteration \<and>
     (sv_queue s = Sentinel # q \<or> sv_queue s = [] \<and> q = [])"
  by (auto simp: service_anext_def split: list.splits item.splits if_splits)

lemma sv_inv_take:
  assumes inv: "sv_inv s" and q: "sv_queue s = Item r # q"
  shows "sv_inv (upd_req r (held_update (\<lambda>_. True)) (s\<lparr>sv_queue := q\<rparr>))"
proof -
  let ?u = "s\<lparr>sv_queue := q\<rparr>"
  have qs: "queued s = r # queued ?u" by (simp add: queued_def q)
  have "req_ok ?u x" if "x < length (requests s)" for x
    using sv_invD(1) [OF inv that] by (auto simp: req_ok_def qs)
  moreover have "worker_ok ?u w" for w
    using sv_invD(2) [OF inv, of w] by (auto simp: worker_ok_def qs)
  ultimately have u: "sv_inv ?u" using inv by (auto simp: sv_inv_def qs)
  have "r < length (requests s)" "r \<notin> set (queued ?u)" using inv by (auto simp: sv_inv_def qs)
  moreover have "\<forall>w. wstate s w \<noteq> Putting r"
    using sv_invD(2) [OF inv] by (auto simp: worker_ok_def qs)
  ultimately show ?thesis by (intro sv_inv_upd_req [OF u]) simp_all
qed

lemma sv_inv_queue:
  assumes "sv_inv s" and "queued t = queued s" and "requests t = requests s"
    and "wstate t = wstate s" and "latest t = latest s" and "open_req t = open_req s"
    and "n_workers t = n_workers s"
  shows "sv_inv t"
  using assms by (simp add: sv_inv_def req_ok_def worker_ok_def)

lemma sv_inv_exit:
  assumes inv: "sv_inv s" and r: "r < length (requests s)" "held (requests s ! r)"
  shows "sv_inv (request_exit r s)" and "sv_inv (request_del r s)"
proof -
  note out = held_out [OF inv r(1)]
  show e: "sv_inv (request_exit r s)"
    using inv r out by (auto simp: request_exit_def intro!: sv_inv_upd_req)
  have "length (requests (request_exit r s)) = length (requests s)"
    "queued (request_exit r s) = queued s" "wstate (request_exit r s) = wstate s"
    by (simp_all add: request_exit_def upd_req_def)
  then show "sv_inv (request_del r s)"
    unfolding request_del_def using r out by (intro sv_inv_upd_req [OF e]) auto
qed

text \<open>A request whose put failed is dropped and released at once.\<close>

lemma sv_inv_put_fails:
  assumes inv: "sv_inv s" and w: "wstate s w = Putting r"
  shows "sv_inv (worker_handler e w (request_del r s))"
proof -
  let ?t = "request_del r s"
  have r: "r < length (requests s)" "from_ctx (requests s ! r) = w" "r \<notin> set (queued s)"
    "\<not> replied (requests s ! r)"
    using sv_invD(2) [OF inv, of w] w by (auto simp: worker_ok_def)
  have t: "requests ?t ! x = (if x = r then (requests s ! r)\<lparr>released := True, held := False\<rparr>
      else requests s ! x)" "length (requests ?t) = length (requests s)"
    "queued ?t = queued s" "wstate ?t = wstate s" "latest ?t = latest s" "open_req ?t = open_req s"
    "n_workers ?t = n_workers s" "sv_running ?t = sv_running s" for x
    using r by (auto simp: request_del_def request_exit_def upd_req_def nth_list_update)
  have all: "released (requests ?t ! x)"
    if "x < length (requests s)" "from_ctx (requests ?t ! x) = w" for x
    using busy_released [OF inv, of w r x] w that by (cases "x = r") (auto simp: t)
  have rq: "req_ok ?t x" if "x < length (requests s)" for x
    using sv_invD(1) [OF inv that] r(3) by (auto simp: req_ok_def t)
  have wk: "worker_ok (?t\<lparr>wstate := (wstate s)(w := x)\<rparr>) v"
    if "x = Receiving \<or> x = Ended" for x v
    using sv_invD(2) [OF inv, of v] r(2) that by (auto simp: worker_ok_def t)
  have "sv_inv (?t\<lparr>wstate := (wstate s)(w := x)\<rparr>)" if "x = Receiving \<or> x = Ended" for x
  proof -
    have "req_ok (?t\<lparr>wstate := (wstate s)(w := x)\<rparr>) y" if "y < length (requests s)" for y
      using rq [OF that] all [OF that] by (auto simp: req_ok_def t)
    with wk [OF that] inv show ?thesis by (simp add: sv_inv_def t)
  qed
  then show ?thesis by (auto simp: worker_handler_def loop_head_def t)
qed

lemma sv_inv_reply:
  assumes inv: "sv_inv s" and r: "r < length (requests s)" "held (requests s ! r)"
  shows "sv_inv (reply_start r s)" and "sv_inv (reply_sent r s)"
proof -
  show st: "sv_inv (reply_start r s)"
    unfolding reply_start_def using held_out [OF inv r(1)] r by (intro sv_inv_upd_req [OF inv]) auto
  have "sv_inv ((reply_start r s)\<lparr>open_req := (open_req s)(w := None), delivered := d\<rparr>)" for w d
    using st by (auto simp: sv_inv_def req_ok_def worker_ok_def reply_start_def upd_req_def)
  with st show "sv_inv (reply_sent r s)" by (simp add: reply_sent_def Let_def split: option.split)
qed

lemma sv_inv_start: "sv_start s \<Longrightarrow> sv_inv s"
  by (auto simp: sv_start_def sv_inv_def queued_def worker_ok_def)

lemma sv_inv_step: "sv_step careful s t \<Longrightarrow> sv_inv s \<Longrightarrow> sv_inv t"
proof (induction rule: sv_step.induct)
  case (sv_recv w s)
  then show ?case by (intro sv_inv_received)
next
  case (sv_recv_fails w s e)
  have "released (requests s ! r)" if "r < length (requests s)" "from_ctx (requests s ! r) = w" for r
    using idle_released [OF sv_recv_fails(3), of w r] sv_recv_fails(2) that by simp
  then show ?case by (intro sv_inv_handler(1) [OF sv_recv_fails(3)]) blast
next
  case (sv_put w s r)
  then show ?case by (intro sv_inv_put)
next
  case (sv_put_fails w s r e)
  then show ?case by (intro sv_inv_put_fails)
next
  case (sv_wake w s r)
  have "released (requests s ! x)" if "x < length (requests s)" "from_ctx (requests s ! x) = w" for x
    using busy_released [OF sv_wake(4), of w r x] sv_wake(2,3) that by (cases "x = r") auto
  then show ?case by (intro sv_inv_handler(2) [OF sv_wake(4)]) blast
next
  case (sv_wait_fails w s r e)
  then show ?case by (auto simp: worker_handler_def intro: sv_inv_move)
next
  case (sv_take s r q)
  then show ?case using service_anext_queue(1) by (intro sv_inv_take) auto
next
  case (sv_iter_ends s e q)
  then have "queued (s\<lparr>sv_queue := q\<rparr>) = queued s"
    using service_anext_queue(2) [OF sv_iter_ends(1)] by (auto simp: queued_def)
  then show ?case by (intro sv_inv_queue [OF sv_iter_ends(2)]) simp_all
next
  case (sv_reply r s)
  then show ?case by (intro sv_inv_reply)
next
  case (sv_reply_refused r s)
  then show ?case by (intro sv_inv_reply)
next
  case (sv_reply_ends r s)
  then show ?case unfolding reply_end_def using held_out [OF sv_reply_ends(3,1)]
    by (intro sv_inv_upd_req) auto
next
  case (sv_exit r s)
  then show ?case by (intro sv_inv_exit)
next
  case (sv_del r s)
  then show ?case by (intro sv_inv_exit)
next
  case (sv_stop s)
  then show ?case by (intro sv_inv_queue [OF sv_stop]) simp_all
next
  case (sv_close_channel s)
  then show ?case by (intro sv_inv_queue [OF sv_close_channel(3)]) simp_all
next
  case (sv_sentinel s)
  then show ?case by (intro sv_inv_queue [OF sv_sentinel(4)]) simp_all
qed

interpretation serving: step_invariant sv_start "sv_step careful" sv_inv
  by unfold_locales (auto intro: sv_inv_start sv_inv_step)

section \<open>Replies reach their requesters\<close>

text \<open>What was delivered: at most one reply by each request object, and by a careful consumer
  always to the request of that object.\<close>

definition deliveries_ok :: "bool \<Rightarrow> service \<Rightarrow> bool" where
  "deliveries_ok careful s \<longleftrightarrow> distinct (map fst (delivered s)) \<and>
     (\<forall>(r, q)\<in>set (delivered s). r < length (requests s) \<and> replied (requests s ! r)
        \<and> (careful \<longrightarrow> q = r))"

lemma deliveries_keep:
  assumes "deliveries_ok careful s" and "delivered t = delivered s"
    and "length (requests s) \<le> length (requests t)"
    and "\<And>r. r < length (requests s) \<Longrightarrow> replied (requests s ! r) \<Longrightarrow> replied (requests t ! r)"
  shows "deliveries_ok careful t"
  using assms by (fastforce simp: deliveries_ok_def)

lemma upd_req_nth:
  "r < length (requests s) \<Longrightarrow>
   requests (upd_req x f s) ! r = (if r = x then f (requests s ! x) else requests s ! r)"
  by (auto simp: upd_req_def nth_list_update)

lemma upd_req_simps [simp]:
  "length (requests (upd_req x f s)) = length (requests s)"
  "delivered (upd_req x f s) = delivered s" "wstate (upd_req x f s) = wstate s"
  "sv_queue (upd_req x f s) = sv_queue s" "sv_backend (upd_req x f s) = sv_backend s"
  "n_workers (upd_req x f s) = n_workers s"
  by (simp_all add: upd_req_def)

lemma worker_handler_simps [simp]:
  "requests (worker_handler e w s) = requests s" "delivered (worker_handler e w s) = delivered s"
  "sv_queue (worker_handler e w s) = sv_queue s" "sv_backend (worker_handler e w s) = sv_backend s"
  "n_workers (worker_handler e w s) = n_workers s"
  by (simp_all add: worker_handler_def loop_head_def)

lemma deliveries_step:
  "sv_step careful s t \<Longrightarrow> sv_inv s \<Longrightarrow> deliveries_ok careful s \<Longrightarrow> deliveries_ok careful t"
proof (induction rule: sv_step.induct)
  case (sv_reply r s)
  let ?w = "from_ctx (requests s ! r)"
  have start: "deliveries_ok careful (reply_start r s)"
    using sv_reply(6) by (rule deliveries_keep) (auto simp: reply_start_def upd_req_nth)
  show ?case
  proof (cases "open_req s ?w")
    case None
    with start show ?thesis by (simp add: reply_sent_def)
  next
    case (Some q)
    have "q = r" if careful
    proof -
      have "latest s ?w = Some q" using sv_invD(2) [OF sv_reply(5), of ?w] Some by (simp add: worker_ok_def)
      moreover have "latest s ?w = Some r"
        using sv_invD(1) [OF sv_reply(5,1)] sv_reply(4) that by (simp add: req_ok_def)
      ultimately show ?thesis by simp
    qed
    moreover have "r \<notin> fst ` set (delivered s)"
      using sv_reply(3,6) by (auto simp: deliveries_ok_def reply_raises_def)
    moreover have "replied (requests (reply_start r s) ! r)"
      using sv_reply(1) by (simp add: reply_start_def upd_req_nth)
    moreover have "reply_sent r s = (reply_start r s)\<lparr>open_req := (open_req s)(?w := None),
        delivered := delivered s @ [(r, q)]\<rparr>"
      using Some by (simp add: reply_sent_def)
    moreover have "delivered (reply_start r s) = delivered s"
      "length (requests (reply_start r s)) = length (requests s)"
      by (simp_all add: reply_start_def)
    ultimately show ?thesis using start sv_reply(1) by (auto simp: deliveries_ok_def)
  qed
qed (erule deliveries_keep;
    auto simp: received_def Let_def nth_append loop_head_def request_del_def request_exit_def
      reply_start_def reply_end_def upd_req_nth)+

text \<open>The consumer of trio never meets a sentinel.\<close>

definition trio_ok :: "service \<Rightarrow> bool" where
  "trio_ok s \<longleftrightarrow> (sv_backend s = Trio \<longrightarrow> Sentinel \<notin> set (sv_queue s))"

lemma trio_step: "sv_step careful s t \<Longrightarrow> trio_ok s \<Longrightarrow> trio_ok t"
  by (induction rule: sv_step.induct)
    (auto simp: trio_ok_def received_def Let_def loop_head_def request_del_def request_exit_def
      reply_start_def reply_end_def reply_sent_def split: option.split dest!: service_anext_queue)

definition sv_good :: "bool \<Rightarrow> service \<Rightarrow> bool" where
  "sv_good careful s \<longleftrightarrow> sv_inv s \<and> deliveries_ok careful s \<and> trio_ok s"

interpretation delivering: step_invariant sv_start "sv_step careful" "sv_good careful"
proof
  show "sv_good careful s" if "sv_start s" for s
    using that sv_inv_start [OF that] by (simp add: sv_good_def sv_start_def deliveries_ok_def trio_ok_def)
  show "sv_good careful t" if "sv_good careful s" "sv_step careful s t" for s t
    using that sv_inv_step deliveries_step trio_step by (simp add: sv_good_def)
qed

text \<open>C16. A reply reaches the requester it is meant for. Whatever the interleaving of receive
  loops, consumers, failures, cancellations and the shutdown, every reply that nng sent for the
  request object \<open>r\<close> went to the peer whose request \<open>r\<close> is, and at most one was sent for it,
  provided that no consumer calls \<open>reply\<close> on a request whose \<open>with\<close> block it has left without
  replying. The context cannot have received another request meanwhile, because its loop waits for
  the event that only a reply or the end of the request's use sets.\<close>

theorem replies_reach_requester:
  assumes "reach sv_start (sv_step True) s"
  shows "distinct (map fst (delivered s)) \<and> (\<forall>(r, q)\<in>set (delivered s). q = r)"
  using delivering.reach_inv [OF assms] by (auto simp: sv_good_def deliveries_ok_def)

text \<open>One request through a service with one worker, up to the reply.\<close>

definition service0 :: service where
  "service0 =
     \<lparr>sv_backend = Trio, n_workers = 1, sv_running = True, wstate = (\<lambda>w. Receiving),
      latest = (\<lambda>w. None), open_req = (\<lambda>w. None), requests = [], sv_queue = [],
      chan_closed = False, delivered = []\<rparr>"

definition served :: "service \<Rightarrow> service" where
  "served s = s\<lparr>requests := [\<lparr>from_ctx = 0, replied = False, released = False, held = True\<rparr>],
     wstate := (\<lambda>w. Receiving)(0 := Waiting 0), latest := (\<lambda>w. None)(0 := Some 0),
     open_req := (\<lambda>w. None)(0 := Some 0)\<rparr>"

lemma reach_served: "reach sv_start (sv_step careful) (served service0)"
proof -
  define s1 where "s1 = received 0 service0"
  define s2 where "s2 = s1\<lparr>sv_queue := sv_queue s1 @ [Item 0], wstate := (wstate s1)(0 := Waiting 0)\<rparr>"
  define s3 where "s3 = upd_req 0 (held_update (\<lambda>_. True)) (s2\<lparr>sv_queue := []\<rparr>)"
  have r0: "reach sv_start (sv_step careful) service0"
    by (rule reach_init) (simp add: sv_start_def service0_def)
  have t1: "sv_step careful service0 s1"
    unfolding s1_def by (rule sv_recv) (simp_all add: service0_def)
  have t2: "sv_step careful s1 s2"
    unfolding s2_def by (rule sv_put) (simp_all add: s1_def service0_def received_def room_def)
  have t3: "sv_step careful s2 s3"
    unfolding s3_def
    by (rule sv_take) (simp add: s2_def s1_def service0_def received_def service_anext_def)
  have "reach sv_start (sv_step careful) s3"
    by (rule reach_step [OF reach_step [OF reach_step [OF r0 t1] t2] t3])
  moreover have "s3 = served service0"
    by (simp add: s3_def s2_def s1_def served_def service0_def received_def upd_req_def)
  ultimately show ?thesis by simp
qed

theorem replies_reach_requester_witness:
  "delivered (reply_sent 0 (served service0)) = [(0, 0)]
   \<and> distinct (map fst (delivered (reply_sent 0 (served service0))))"
proof -
  have "sv_step True (served service0) (reply_sent 0 (served service0))"
    by (rule sv_reply) (simp_all add: served_def reply_raises_def)
  with reach_served have "reach sv_start (sv_step True) (reply_sent 0 (served service0))"
    by (rule reach_step)
  from replies_reach_requester [OF this] show ?thesis
    by (simp add: reply_sent_def reply_start_def upd_req_def served_def service0_def)
qed

text \<open>A consumer that replies after it left the block answers the next requester.\<close>

lemma late_reply_misdelivered:
  "\<exists>s. reach sv_start (sv_step False) s \<and> delivered s = [(0, 1)]"
proof -
  let ?s4 = "request_exit 0 (served service0)"
  let ?s5 = "loop_head ?s4 0"
  let ?s6 = "received 0 ?s5"
  let ?s7 = "reply_sent 0 ?s6"
  have t1: "sv_step False (served service0) ?s4" by (rule sv_exit) (simp_all add: served_def)
  have t2: "sv_step False ?s4 ?s5"
    by (rule sv_wake [where r = 0])
      (simp_all add: served_def service0_def request_exit_def upd_req_def)
  have t3: "sv_step False ?s5 ?s6"
    by (rule sv_recv)
      (simp_all add: served_def service0_def request_exit_def upd_req_def loop_head_def)
  have t4: "sv_step False ?s6 ?s7"
    by (rule sv_reply)
      (simp_all add: served_def service0_def request_exit_def upd_req_def loop_head_def
        received_def reply_raises_def)
  have "reach sv_start (sv_step False) ?s7"
    by (rule reach_step [OF reach_step [OF reach_step [OF reach_step [OF reach_served t1] t2] t3] t4])
  moreover have "delivered ?s7 = [(0, 1)]"
    by (simp add: served_def service0_def request_exit_def upd_req_def loop_head_def
        received_def reply_sent_def reply_start_def)
  ultimately show ?thesis by blast
qed

text \<open>The sentinel of asyncio is queued once: a second \<open>__anext__\<close> waits for ever, while the
  closed channel of trio ends every later one.\<close>

lemma second_anext:
  "sv_backend s = Asyncio \<Longrightarrow> sv_queue s = [Sentinel] \<Longrightarrow>
     service_anext s = Some (Inl StopAsyncIteration, []) \<and> service_anext (s\<lparr>sv_queue := []\<rparr>) = None"
  "sv_backend s = Trio \<Longrightarrow> chan_closed s \<Longrightarrow> sv_queue s = [] \<Longrightarrow>
     service_anext s = Some (Inl StopAsyncIteration, [])"
  by (simp_all add: service_anext_def)

text \<open>C28. The channel of the trio service never fills up. It is opened with room for twice as many
  requests as there are workers, and in every state, with any consumers and failures, at most one
  request per worker is in it: the requests in it come from distinct contexts. So a worker that has
  received a request is never blocked in \<open>send\<close>, however slow the consumer is.\<close>

theorem channel_bounded:
  assumes "reach sv_start (sv_step careful) s" and "sv_backend s = Trio"
  shows "length (sv_queue s) \<le> n_workers s \<and> (0 < n_workers s \<longrightarrow> room s)"
proof -
  have good: "sv_inv s" "Sentinel \<notin> set (sv_queue s)"
    using delivering.reach_inv [OF assms(1)] assms(2) by (auto simp: sv_good_def trio_ok_def)
  have len: "length q = length (concat (map (\<lambda>i. case i of Item r \<Rightarrow> [r] | Sentinel \<Rightarrow> []) q))"
    if "Sentinel \<notin> set q" for q
    using that by (induction q) (auto split: item.split)
  have len: "length (sv_queue s) = length (queued s)"
    using len [OF good(2)] by (simp add: queued_def)
  let ?ctx = "\<lambda>r. from_ctx (requests s ! r)"
  have ok: "req_ok s r \<and> \<not> released (requests s ! r)" if "r \<in> set (queued s)" for r
    using sv_invD(1,4) [OF good(1)] that by (auto simp: req_ok_def)
  have lat: "latest s (?ctx r) = Some r" if "r \<in> set (queued s)" for r
    using ok [OF that] by (simp add: req_ok_def)
  have "inj_on ?ctx (set (queued s))"
  proof (rule inj_onI)
    fix x y assume x: "x \<in> set (queued s)" and y: "y \<in> set (queued s)" and eq: "?ctx x = ?ctx y"
    have "Some x = latest s (?ctx x)" by (rule sym [OF lat [OF x]])
    also have "\<dots> = latest s (?ctx y)" by (rule arg_cong [OF eq])
    also have "\<dots> = Some y" by (rule lat [OF y])
    finally show "x = y" by simp
  qed
  moreover have "?ctx ` set (queued s) \<subseteq> {..<n_workers s}"
  proof
    fix w assume "w \<in> ?ctx ` set (queued s)"
    then obtain r where "r \<in> set (queued s)" "w = ?ctx r" by (rule imageE)
    with ok [of r] show "w \<in> {..<n_workers s}" by (simp add: req_ok_def)
  qed
  ultimately have "card (set (queued s)) \<le> n_workers s"
    using card_inj_on_le [of ?ctx "set (queued s)" "{..<n_workers s}"] by simp
  then have "length (sv_queue s) \<le> n_workers s"
    using sv_invD(3) [OF good(1)] by (simp add: len distinct_card)
  then show ?thesis by (auto simp: room_def)
qed

theorem channel_bounded_witness: "room (served service0)"
  using channel_bounded [OF reach_served] by (simp add: served_def service0_def)

section \<open>The socket of a service\<close>

text \<open>
  A service either makes its own socket and closes it, or borrows one, sets its timeouts, may
  listen with it, and undoes both. \<open>sv_present\<close> is whether \<open>self._socket\<close> is not
  \<open>None\<close>; a context is its handle, its pools and the helpers it freed, as in \<open>cworld\<close>.
\<close>

type_synonym ctx_obj = "int option \<times> (nat list \<times> nat list) option \<times> nat list"

record svworld = sworld +
  sv_present :: bool
  sv_owns :: bool
  sv_listener :: "int option"
  sv_saved :: "(pyval \<times> pyval) option"
  sv_contexts :: "ctx_obj list"
  sv_active :: bool

text \<open>\<open>__init__\<close>: the argument checks; \<open>given\<close> says whether a socket was passed and whether
  it is of the expected class.\<close>

definition service_init ::
  "nng_lib \<Rightarrow> pyobj \<Rightarrow> pyval \<Rightarrow> bool option \<Rightarrow> ('a svworld_scheme, pyexc, unit) prog" where
  "service_init L1 ob address given =
     andthen (whenp (address = PNone \<and> given = None) (raise_exc ValueError)) (
     andthen (case given of
         None \<Rightarrow> ret ()
       | Some expected \<Rightarrow>
           andthen (whenp (\<not> expected) (raise_exc TypeError))
             (bnd (getopt_bool L1 ob (PBytes (map of_char ''raw'')))
               (\<lambda>r. whenp (r = PBool True) (raise_exc ValueError))))
       (modf (\<lambda>w. w\<lparr>sv_present := given \<noteq> None, sv_owns := given = None, sv_listener := None,
          sv_saved := None, sv_contexts := [], sv_active := False\<rparr>)))"

definition get_timeout :: "nng_lib \<Rightarrow> pyobj \<Rightarrow> string \<Rightarrow> ('a world_scheme, pyexc, pyval) prog" where
  "get_timeout L1 ob name =
     (case map_of base_socket_options name of
        None \<Rightarrow> raise_exc AttributeError
      | Some (d, n) \<Rightarrow> desc_get L1 d ob (PBytes (map of_char n)))"

text \<open>What \<open>__aenter__\<close> does to a borrowed socket.\<close>

definition borrow_setup ::
  "nng_lib \<Rightarrow> nng_lib \<Rightarrow> pyobj \<Rightarrow> pyval \<Rightarrow> pyval \<Rightarrow> pyval \<Rightarrow> ('a svworld_scheme, pyexc, unit) prog"
where
  "borrow_setup L1 L ob rt st address =
     andthen (whenp (rt \<noteq> PNone) (set_attr L1 ob ''recv_timeout'' rt)) (
     andthen (whenp (st \<noteq> PNone) (set_attr L1 ob ''send_timeout'' st))
       (whenp (address \<noteq> PNone)
         (bnd (sock_listen L1 L address 0) (\<lambda>l. modf (\<lambda>w. w\<lparr>sv_listener := Some l\<rparr>)))))"

definition restore_timeouts ::
  "nng_lib \<Rightarrow> pyobj \<Rightarrow> (pyval \<times> pyval) option \<Rightarrow> ('a world_scheme, pyexc, unit) prog" where
  "restore_timeouts L1 ob saved =
     (case saved of
        None \<Rightarrow> ret ()
      | Some (r, s) \<Rightarrow>
          andthen (set_attr L1 ob ''recv_timeout'' r) (set_attr L1 ob ''send_timeout'' s))"

definition release_socket ::
  "nng_lib \<Rightarrow> nng_lib \<Rightarrow> pyobj \<Rightarrow> ('a svworld_scheme, pyexc, unit) prog" where
  "release_socket L1 L ob =
     bnd (getf sv_present) (\<lambda>present. whenp present (
     bnd (getf sv_owns) (\<lambda>owns.
     if owns then andthen (do_close L) (modf (\<lambda>w. w\<lparr>sv_present := False\<rparr>))
     else
       bnd (getf sv_listener) (\<lambda>listener.
       andthen (modf (\<lambda>w. w\<lparr>sv_listener := None\<rparr>)) (
       bnd (getf sv_saved) (\<lambda>saved.
       andthen (modf (\<lambda>w. w\<lparr>sv_saved := None\<rparr>))
         (try_except
           (andthen (case listener of None \<Rightarrow> ret () | Some l \<Rightarrow> listener_close L l)
             (restore_timeouts L1 ob saved))
           (\<lambda>e. if is_nng Closed e then ret () else raise_exc e))))))))"

text \<open>Running a method of a context object inside the service: the process state is shared.\<close>

definition in_context ::
  "(cworld, pyexc, 'b) prog \<Rightarrow> ctx_obj \<Rightarrow> ('a svworld_scheme, pyexc, 'b \<times> ctx_obj) prog" where
  "in_context m cx w =
     (case cx of (c, pools, fr) \<Rightarrow>
       (case m \<lparr>calls = calls w, init_pid = init_pid w, is_forked_child = is_forked_child w,
                getpid = getpid w, fin_v1 = fin_v1 w, fin_v2 = fin_v2 w,
                c_ctx = c, c_pools = pools, c_freed = fr\<rparr> of
          (r, t) \<Rightarrow>
            (map_sum id (\<lambda>x. (x, (c_ctx t, c_pools t, c_freed t))) r,
             w\<lparr>calls := calls t, init_pid := init_pid t, is_forked_child := is_forked_child t,
               getpid := getpid t, fin_v1 := fin_v1 t, fin_v2 := fin_v2 t\<rparr>)))"

text \<open>\<open>_start_asyncio\<close> and \<open>_start_trio\<close>: one context per worker.\<close>

definition start_workers :: "nng_lib \<Rightarrow> nng_lib \<Rightarrow> nat \<Rightarrow> ('a svworld_scheme, pyexc, unit) prog" where
  "start_workers L1 L workers =
     andthen (modf (\<lambda>w. w\<lparr>sv_active := True, sv_contexts := []\<rparr>))
       (for_each (\<lambda>_. bnd sock_id (\<lambda>sk.
          bnd (in_context (context_init L1 L sk) (None, None, [])) (\<lambda>(_, cx).
          modf (\<lambda>w. w\<lparr>sv_contexts := sv_contexts w @ [cx]\<rparr>)))) [0..<workers])"

definition service_aenter ::
  "nng_lib \<Rightarrow> nng_lib \<Rightarrow> pyobj \<Rightarrow> ('a svworld_scheme, pyexc, unit) prog
     \<Rightarrow> pyval \<Rightarrow> pyval \<Rightarrow> pyval \<Rightarrow> ('a svworld_scheme, pyexc, unit) prog
     \<Rightarrow> ('a svworld_scheme, pyexc, unit) prog" where
  "service_aenter L1 L ob mk_sock rt st address start =
     andthen
       (bnd (getf sv_present) (\<lambda>present.
        if \<not> present then andthen mk_sock (modf (\<lambda>w. w\<lparr>sv_present := True, sv_owns := True\<rparr>))
        else
          bnd (get_timeout L1 ob ''recv_timeout'') (\<lambda>r.
          bnd (get_timeout L1 ob ''send_timeout'') (\<lambda>s.
          andthen (modf (\<lambda>w. w\<lparr>sv_saved := Some (r, s)\<rparr>))
            (try_except (borrow_setup L1 L ob rt st address)
              (\<lambda>e. andthen (release_socket L1 L ob) (raise_exc e)))))))
       (try_except start (\<lambda>e. andthen (release_socket L1 L ob) (raise_exc e)))"

text \<open>Making an owned socket.\<close>

definition make_socket ::
  "nng_lib \<Rightarrow> nng_lib \<Rightarrow> string option \<Rightarrow> (int \<Rightarrow> pyobj) \<Rightarrow> pyval \<Rightarrow> pyval \<Rightarrow> pyval
     \<Rightarrow> ('a svworld_scheme, pyexc, unit) prog" where
  "make_socket L1 L opener mk rt st address =
     socket_init L1 L opener mk (ret ())
       (\<lambda>n. if n = ''listen'' then address else if n = ''recv_timeout'' then rt
            else if n = ''send_timeout'' then st else PNone) None"

text \<open>\<open>_stop_asyncio\<close> and \<open>_stop_trio\<close>: an exception of a context's \<open>close\<close> is logged.\<close>

definition close_contexts :: "nng_lib \<Rightarrow> nng_lib \<Rightarrow> ('a svworld_scheme, pyexc, unit) prog" where
  "close_contexts L1 L =
     bnd (getf sv_contexts) (\<lambda>cs.
       for_each (\<lambda>cx. try_except
         (bnd (in_context (context_close L1 L) cx) (\<lambda>_. ret ()))
         (\<lambda>e. if is_Exception e then ret () else raise_exc e)) cs)"

definition service_aexit ::
  "nng_lib \<Rightarrow> nng_lib \<Rightarrow> pyobj \<Rightarrow> ('a svworld_scheme, pyexc, unit) prog" where
  "service_aexit L1 L ob =
     andthen (modf (\<lambda>w. w\<lparr>sv_active := False\<rparr>)) (
     andthen (close_contexts L1 L) (
     andthen (modf (\<lambda>w. w\<lparr>sv_contexts := []\<rparr>)) (release_socket L1 L ob)))"

section \<open>A borrowed socket gets its timeouts back\<close>

text \<open>The name of the setter of a timeout of a socket and the last value nng accepted for it.\<close>

definition ms_setter :: string where
  "ms_setter = function_name KSocket ''set'' ''ms''"

definition timeout_of :: "int \<Rightarrow> string \<Rightarrow> 'a world_scheme \<Rightarrow> int option" where
  "timeout_of h name w = last_set (calls w) ms_setter h (map of_char name) None"

text \<open>
  The socket as an object of the options module, and a library that keeps options, raises nothing
  by itself and accepts, at any time, the timeouts that the socket had.
\<close>

definition borrowed :: "nng_lib \<Rightarrow> pyobj \<Rightarrow> int \<Rightarrow> int \<Rightarrow> bool" where
  "borrowed L ob a b \<longleftrightarrow> kind ob = KSocket \<and> own_lib ob = Some L \<and> option_store L
     \<and> (\<forall>f. has_attr L f) \<and> (\<forall>tr c. r_exn (fn L tr c) = None)
     \<and> (\<forall>tr. r_val (fn L tr (Fn ms_setter [CInt (handle ob), CStr (map of_char ''recv-timeout''), CInt a])) = 0)
     \<and> (\<forall>tr. r_val (fn L tr (Fn ms_setter [CInt (handle ob), CStr (map of_char ''send-timeout''), CInt b])) = 0)"

definition has_timeouts :: "pyobj \<Rightarrow> int \<Rightarrow> int \<Rightarrow> 'a world_scheme \<Rightarrow> bool" where
  "has_timeouts ob a b w \<longleftrightarrow> timeout_of (handle ob) ''recv-timeout'' w = Some a
     \<and> timeout_of (handle ob) ''send-timeout'' w = Some b"

lemma wp_ccall_quiet:
  "r_exn (fn L (calls s) c) = None \<Longrightarrow>
   wp (ccall L c) Q E s = Q (fn L (calls s) c) (s\<lparr>calls := calls s @ [(c, fn L (calls s) c)]\<rparr>)"
  by (simp add: wp_ccall)

lemma timeout_of_other:
  "(\<forall>h n name. c \<noteq> Fn ms_setter [CInt h, CStr name, CInt n]) \<Longrightarrow>
   timeout_of h name (w\<lparr>calls := calls w @ [(c, r)]\<rparr>) = timeout_of h name w"
  by (auto simp: timeout_of_def last_set_append split: ncall.split list.split carg.split)

lemma timeout_of_set:
  "timeout_of h name (w\<lparr>calls := calls w @ [(Fn ms_setter [CInt h', CStr opt, CInt n], r)]\<rparr>)
     = (if h' = h \<and> opt = map of_char name \<and> r_val r = 0 \<and> r_exn r = None then Some n
        else timeout_of h name w)"
  by (simp add: timeout_of_def last_set_append)

lemma recv_send_codes:
  "(map of_char ''recv-timeout'' :: nat list) \<noteq> map of_char ''send-timeout''"
  by simp

lemma set_attr_timeouts:
  "set_attr L1 ob ''recv_timeout'' v = setopt_num ''ms'' L1 ob (PBytes (map of_char ''recv-timeout'')) v"
  "set_attr L1 ob ''send_timeout'' v = setopt_num ''ms'' L1 ob (PBytes (map of_char ''send-timeout'')) v"
  by (simp_all add: set_attr_def base_socket_options_def desc_set_def setopt_ms_def)

lemma wp_set_timeout:
  assumes "borrowed L ob a b" and "opt = map of_char name"
    and "\<forall>tr. r_val (fn L tr (Fn ms_setter [CInt (handle ob), CStr opt, CInt n])) = 0"
    and "\<And>r. r_val r = 0 \<Longrightarrow> r_exn r = None \<Longrightarrow>
      Q () (s\<lparr>calls := calls s @ [(Fn ms_setter [CInt (handle ob), CStr opt, CInt n], r)]\<rparr>)"
  shows "wp (setopt_num ''ms'' L1 ob (PBytes opt) (PInt n)) Q E s"
  using assms
  by (auto simp: setopt_num_def to_char_def wp_simps int_value_def get_inst_and_func_def
      resolve_lib_ffi_def borrowed_def ms_setter_def)

text \<open>Restoring sets both timeouts, from any state.\<close>

lemma wp_restore:
  assumes "borrowed L ob a b"
    and "\<And>t. has_timeouts ob a b t \<Longrightarrow> (\<exists>new. t = s\<lparr>calls := calls s @ new\<rparr>) \<Longrightarrow> Q () t"
  shows "wp (restore_timeouts L1 ob (Some (PInt a, PInt b))) Q E s"
proof -
  let ?r = "map of_char ''recv-timeout'' :: nat list" and ?s = "map of_char ''send-timeout'' :: nat list"
  have ok: "\<forall>tr. r_val (fn L tr (Fn ms_setter [CInt (handle ob), CStr ?r, CInt a])) = 0"
    "\<forall>tr. r_val (fn L tr (Fn ms_setter [CInt (handle ob), CStr ?s, CInt b])) = 0"
    using assms(1) by (simp_all add: borrowed_def)
  have Q: "Q () (s\<lparr>calls := (calls s @ [(Fn ms_setter [CInt (handle ob), CStr ?r, CInt a], x)])
      @ [(Fn ms_setter [CInt (handle ob), CStr ?s, CInt b], y)]\<rparr>)"
    if "r_val x = 0" "r_exn x = None" "r_val y = 0" "r_exn y = None" for x y
    using that recv_send_codes
    by (intro assms(2)) (auto simp: has_timeouts_def timeout_of_def last_set_append simp del: list.map
        intro: exI [of _ "[a, b]" for a b])
  show ?thesis
    unfolding restore_timeouts_def set_attr_timeouts option.case prod.case wp_andthen
    by (rule wp_set_timeout [OF assms(1) refl ok(1)], rule wp_set_timeout [OF assms(1) refl ok(2)])
      (use Q in simp)
qed

text \<open>While the service runs with a borrowed socket, its attributes hold what to restore.\<close>

definition lent :: "int \<Rightarrow> int \<Rightarrow> 'a svworld_scheme \<Rightarrow> bool" where
  "lent a b t \<longleftrightarrow> sv_present t \<and> \<not> sv_owns t \<and> sv_saved t = Some (PInt a, PInt b)"

lemma lent_simps [simp]:
  "lent a b (t\<lparr>calls := x\<rparr>) = lent a b t" "lent a b (t\<lparr>listeners := y\<rparr>) = lent a b t"
  "lent a b (t\<lparr>sv_listener := z\<rparr>) = lent a b t" "lent a b (t\<lparr>sv_contexts := cs\<rparr>) = lent a b t"
  "lent a b (t\<lparr>sv_active := q\<rparr>) = lent a b t"
  by (simp_all add: lent_def)

lemma wp_lent_call:
  assumes "lent a b t" and "\<And>r u. lent a b u \<Longrightarrow> Q r u" and "\<And>e u. lent a b u \<Longrightarrow> E e u"
  shows "wp (ccall L c) Q E t"
  using assms by (simp add: wp_ccall)

lemma wp_lent_err:
  assumes "lent a b t" and "Q () t" and "\<And>e u. lent a b u \<Longrightarrow> E e u"
  shows "wp (check_err L n) Q E t"
  using assms by (auto simp: wp_check_err simp del: wp_ccall intro!: wp_lent_call [OF assms(1)])

abbreviation keeps_lent :: "int \<Rightarrow> int \<Rightarrow> ('a svworld_scheme, pyexc, 'b) prog \<Rightarrow> bool" where
  "keeps_lent a b m \<equiv> (\<forall>t. lent a b t \<longrightarrow> wp m (\<lambda>_. lent a b) (\<lambda>_. lent a b) t)"

lemma keeps_lent_set: "keeps_lent a b (setopt_num ''ms'' L1 ob (PBytes opt) v)"
  by (auto simp: setopt_num_def to_char_def wp_simps simp del: wp_ccall wp_check_err
      intro!: wp_lent_call [where a = a and b = b] wp_lent_err [where a = a and b = b])

lemma keeps_lent_listen: "keeps_lent a b (sock_listen L1 L address flags)"
  by (auto simp: sock_listen_def wp_sock_id wp_simps simp del: wp_ccall wp_check_err
      intro!: wp_lent_call [where a = a and b = b] wp_lent_err [where a = a and b = b])

lemma keeps_lent_bnd:
  "keeps_lent a b m \<Longrightarrow> (\<And>x. keeps_lent a b (f x)) \<Longrightarrow> keeps_lent a b (bnd m f)"
  unfolding wp_bnd by (blast intro: wp_mono)

lemma keeps_lent_andthen: "keeps_lent a b m \<Longrightarrow> keeps_lent a b n \<Longrightarrow> keeps_lent a b (andthen m n)"
  unfolding andthen_def by (rule keeps_lent_bnd)

lemma keeps_lent_whenp: "keeps_lent a b m \<Longrightarrow> keeps_lent a b (whenp c m)"
  by (simp add: wp_whenp)

lemma keeps_lent_for: "(\<And>x. keeps_lent a b (f x)) \<Longrightarrow> keeps_lent a b (for_each f xs)"
  by (auto intro: wp_for_each)

lemma keeps_lent_modf: "(\<And>t. lent a b t \<Longrightarrow> lent a b (f t)) \<Longrightarrow> keeps_lent a b (modf f)"
  by (simp add: wp_modf)

lemma keeps_lent_context: "keeps_lent a b (in_context m cx)"
  by (auto simp: wp_def in_context_def lent_def split: prod.split sum.split)

lemma keeps_lent_borrow: "keeps_lent a b (borrow_setup L1 L ob rt st address)"
  unfolding borrow_setup_def set_attr_timeouts
  by (intro keeps_lent_andthen keeps_lent_whenp keeps_lent_set keeps_lent_bnd keeps_lent_listen
      keeps_lent_modf) simp

lemma keeps_lent_start: "keeps_lent a b (start_workers L1 L n)"
proof -
  have "keeps_lent a b (sock_id :: ('a svworld_scheme, pyexc, int) prog)"
    by (simp add: wp_sock_id)
  then show ?thesis
    unfolding start_workers_def
    by (intro keeps_lent_andthen keeps_lent_modf keeps_lent_for keeps_lent_bnd)
      (auto simp: split_def keeps_lent_context wp_modf intro!: keeps_lent_context)
qed

text \<open>Releasing a borrowed socket restores its timeouts and forgets the listener.\<close>

lemma wp_release_borrowed:
  assumes L: "borrowed L ob a b" and s: "lent a b s"
    and Q: "\<And>t. has_timeouts ob a b t \<Longrightarrow> sv_listener t = None \<Longrightarrow> Q () t"
  shows "wp (release_socket L1 L ob) Q E s"
proof -
  have quiet: "r_exn (fn L tr c) = None" for tr c using L by (simp add: borrowed_def)
  have restore: "wp (restore_timeouts L1 ob (Some (PInt a, PInt b))) Q E' t"
    if "sv_listener t = None" for E' and t :: "'a svworld_scheme"
    by (rule wp_restore [OF L], rule Q) (use that in auto)
  have "wp (andthen (case l of None \<Rightarrow> ret () | Some l \<Rightarrow> listener_close L l)
        (restore_timeouts L1 ob (Some (PInt a, PInt b)))) Q E' t"
    if "sv_listener t = None" for E' l and t :: "'a svworld_scheme"
    using that
    by (cases l) (simp_all add: wp_simps listener_close_def wp_ccall_quiet [OF quiet] restore
        del: wp_ccall)
  with s show ?thesis
    by (simp add: release_socket_def wp_simps lent_def)
qed

lemma wp_get_timeout:
  fixes s :: "'a world_scheme"
  assumes L: "borrowed L ob a b" and s: "has_timeouts ob a b s"
    and n: "(name, n) \<in> {(''recv_timeout'', a), (''send_timeout'', b)}"
    and Q: "\<And>t x. has_timeouts ob a b t \<Longrightarrow> t = s\<lparr>calls := x\<rparr> \<Longrightarrow> Q (PInt n) t"
    and E: "\<And>e t. has_timeouts ob a b t \<Longrightarrow> E e t"
  shows "wp (get_timeout L1 ob name) Q E s"
proof -
  obtain opt where opt: "(get_timeout L1 ob name :: ('a world_scheme, pyexc, pyval) prog) = getopt_num ''ms'' L1 ob (PBytes (map of_char opt))"
    and last: "timeout_of (handle ob) opt s = Some n"
  proof -
    have "map_of base_socket_options ''recv_timeout'' = Some (MsOption, ''recv-timeout'')"
      "map_of base_socket_options ''send_timeout'' = Some (MsOption, ''send-timeout'')"
      by (simp_all add: base_socket_options_def)
    then show ?thesis
      using n s that [of "''recv-timeout''"] that [of "''send-timeout''"]
      by (auto simp: get_timeout_def desc_get_def getopt_ms_def has_timeouts_def)
  qed
  let ?m = "getopt_num ''ms'' L1 ob (PBytes (map of_char opt))"
  have "wp ?m (\<lambda>x _. x = PInt n) (\<lambda>_ _. True) s"
    using L last by (intro getopt_num_reads) (auto simp: borrowed_def timeout_of_def ms_setter_def)
  moreover have "wp ?m (\<lambda>_ t. has_timeouts ob a b t \<and> (\<exists>x. t = s\<lparr>calls := x\<rparr>))
      (\<lambda>_. has_timeouts ob a b) s"
    using s
    by (auto simp: getopt_num_def to_char_def wp_simps has_timeouts_def timeout_of_def
        last_set_append)
  ultimately have "wp ?m (\<lambda>x t. x = PInt n \<and> has_timeouts ob a b t \<and> (\<exists>x. t = s\<lparr>calls := x\<rparr>))
      (\<lambda>_ t. True \<and> has_timeouts ob a b t) s"
    by (rule wp_conj)
  then show ?thesis unfolding opt by (rule wp_mono) (use Q E in auto)
qed

lemma wp_close_contexts:
  assumes "\<And>tr c. r_exn (fn L tr c) = None" and "\<And>tr c. r_exn (fn L1 tr c) = None"
    and "lent a b s" and "\<And>t. lent a b t \<Longrightarrow> Q () t"
  shows "wp (close_contexts L1 L) Q E s"
proof -
  have exc: "wp (context_close L1 L) (\<lambda>_ _. True) (\<lambda>e _. is_Exception e) c" for c :: cworld
    by (auto simp: context_close_def wp_simps assms(1,2) is_Exception_def split: option.split)
  have one: "wp (try_except (bnd (in_context (context_close L1 L) cx) (\<lambda>_. ret ()))
        (\<lambda>e. if is_Exception e then ret () else raise_exc e)) (\<lambda>_. lent a b) (\<lambda>_ _. False) t"
    if t: "lent a b t" for cx and t :: "'a svworld_scheme"
  proof -
    obtain c pools fr where cx: "cx = (c, pools, fr)" by (cases cx)
    have "wp (in_context (context_close L1 L) cx) (\<lambda>_. lent a b) (\<lambda>e u. lent a b u \<and> is_Exception e) t"
      using t exc [of "\<lparr>calls = calls t, init_pid = init_pid t, is_forked_child = is_forked_child t,
                getpid = getpid t, fin_v1 = fin_v1 t, fin_v2 = fin_v2 t,
                c_ctx = c, c_pools = pools, c_freed = fr\<rparr>"]
      by (auto simp: wp_def in_context_def lent_def cx split: prod.splits sum.splits)
    then show ?thesis by (auto simp: wp_except wp_bnd wp_ret wp_if elim: wp_mono)
  qed
  have "wp (for_each (\<lambda>cx. try_except (bnd (in_context (context_close L1 L) cx) (\<lambda>_. ret ()))
        (\<lambda>e. if is_Exception e then ret () else raise_exc e)) cs) (\<lambda>_. lent a b) (\<lambda>_ _. False) t"
    if "lent a b t" for cs and t :: "'a svworld_scheme"
    using that
  proof (induction cs arbitrary: t)
    case (Cons cx cs)
    then show ?case by (simp only: for_each.simps wp_andthen) (blast intro: wp_mono [OF one])
  qed (simp add: wp_ret)
  then show ?thesis
    unfolding close_contexts_def wp_bnd wp_getf
    by (rule wp_mono) (use assms(3,4) in auto)
qed

text \<open>Entering a service on a borrowed socket either fails, with the socket as it was, or lends it.\<close>

lemma wp_aenter_borrowed:
  fixes s :: "'a svworld_scheme"
  assumes L: "borrowed L ob a b" and s: "has_timeouts ob a b s" "sv_present s" "\<not> sv_owns s"
    and start: "keeps_lent a b start"
    and Q: "\<And>t. lent a b t \<Longrightarrow> Q () t" and E: "\<And>e t. has_timeouts ob a b t \<Longrightarrow> E e t"
  shows "wp (service_aenter L1 L ob mk_sock rt st address start) Q E s"
proof -
  have undo: "wp (andthen (release_socket L1 L ob) (raise_exc e)) Q' E t"
    if "lent a b t" for e Q' and t :: "'a svworld_scheme"
    unfolding wp_andthen by (rule wp_release_borrowed [OF L that]) (simp add: wp_simps E)
  have guarded: "wp (try_except m (\<lambda>e. andthen (release_socket L1 L ob) (raise_exc e))) Q' E t"
    if "keeps_lent a b m" "lent a b t" "\<And>u. lent a b u \<Longrightarrow> Q' () u"
    for m Q' and t :: "'a svworld_scheme"
    unfolding wp_except
    by (rule wp_mono [OF that(1) [rule_format, OF that(2)]]) (use that(3) undo in auto)
  have first: "wp (bnd (get_timeout L1 ob ''recv_timeout'') (\<lambda>r.
          bnd (get_timeout L1 ob ''send_timeout'') (\<lambda>q.
          andthen (modf (\<lambda>w. w\<lparr>sv_saved := Some (r, q)\<rparr>))
            (try_except (borrow_setup L1 L ob rt st address)
              (\<lambda>e. andthen (release_socket L1 L ob) (raise_exc e)))))) (\<lambda>_. lent a b) E s"
    unfolding wp_bnd wp_andthen wp_modf
    by (rule wp_get_timeout [where n = a, OF L s(1)], simp,
        rule wp_get_timeout [where n = b, OF L], assumption, simp,
        rule guarded [OF keeps_lent_borrow])
      (use s E in \<open>auto simp: lent_def\<close>)
  have "wp (service_aenter L1 L ob mk_sock rt st address start) Q E s
    = wp (bnd (get_timeout L1 ob ''recv_timeout'') (\<lambda>r.
          bnd (get_timeout L1 ob ''send_timeout'') (\<lambda>q.
          andthen (modf (\<lambda>w. w\<lparr>sv_saved := Some (r, q)\<rparr>))
            (try_except (borrow_setup L1 L ob rt st address)
              (\<lambda>e. andthen (release_socket L1 L ob) (raise_exc e))))))
        (\<lambda>_. wp (try_except start (\<lambda>e. andthen (release_socket L1 L ob) (raise_exc e))) Q E) E s"
    using s(2) by (simp add: service_aenter_def wp_bnd [of "getf _"] wp_getf wp_andthen)
  then show ?thesis
    by (simp only:) (rule wp_mono [OF first guarded [OF start]], auto intro: Q)
qed

lemma wp_aexit_borrowed:
  fixes s :: "'a svworld_scheme"
  assumes L: "borrowed L ob a b" and L1: "\<And>tr c. r_exn (fn L1 tr c) = None" and s: "lent a b s"
    and Q: "\<And>t. has_timeouts ob a b t \<Longrightarrow> Q () t"
  shows "wp (service_aexit L1 L ob) Q E s"
proof -
  have quiet: "r_exn (fn L tr c) = None" for tr c using L by (simp add: borrowed_def)
  show ?thesis
    unfolding service_aexit_def wp_andthen wp_modf
    by (rule wp_close_contexts [OF quiet L1, of a b])
      (use s in \<open>auto intro!: wp_release_borrowed [OF L] Q\<close>)
qed


text \<open>The witness: a socket with timeouts 100 and 200, given to a service that sets a receive timeout of
  50, listens and serves two contexts, while the body sets a timeout of its own.\<close>

definition borrowed_ob :: pyobj where
  "borrowed_ob = \<lparr>kind = KSocket, handle = 9, own_lib = Some store_lib, obj_id = 0\<rparr>"

definition borrowed_world :: svworld where
  "borrowed_world = (sworld.extend (sworld0\<lparr>s_sock := Some 9\<rparr>)
     (svworld.fields True False None None [] False))
   \<lparr>calls := map (\<lambda>(name, v). (Fn ms_setter [CInt 9, CStr (map of_char name), CInt v],
       fn store_lib [] (Fn ms_setter [CInt 9, CStr (map of_char name), CInt v])))
     [(''recv-timeout'', 100), (''send-timeout'', 200)]\<rparr>"

lemma store_lib_quiet: "r_val (fn store_lib tr c) = 0" "r_exn (fn store_lib tr c) = None" "has_attr store_lib f"
  by (simp_all add: store_lib_def demo_lib_def Let_def)


end
