(* ===== verification/Stats.thy ===== *)
theory Stats
  imports Devices PyStr
begin

text \<open>
  \<^verbatim>\<open>pynng/stats.py\<close>: a snapshot of nng's statistics is a tree behind pointers, which
  \<open>_build_stat_node\<close> copies into \<open>Stat\<close> objects before the snapshot is freed. The theory also
  holds the mapping interface of \<open>Stat\<close>, the searches in a tree and the \<open>stats\<close> and \<open>stat\<close>
  methods of sockets.
\<close>

section \<open>Statistics\<close>

datatype stat =
  Stat (st_name: pystr) (st_desc: pystr) (st_type: int) (st_unit: int) (st_value: pyval)
    (st_time: int) (st_type_name: pystr) (st_unit_name: pystr) (st_children: "stat list")

text \<open>The tables of names are made of the constants of v1 when the module is loaded.\<close>

definition STAT_TYPE_NAMES :: "nng_lib \<Rightarrow> (int \<times> pystr) list" where
  "STAT_TYPE_NAMES L1 = fold (\<lambda>(c, n) d. AList.update (const L1 c) (codes n) d)
     [(''NNG_STAT_SCOPE'', ''scope''), (''NNG_STAT_LEVEL'', ''level''),
      (''NNG_STAT_COUNTER'', ''counter''), (''NNG_STAT_STRING'', ''string''),
      (''NNG_STAT_BOOLEAN'', ''boolean''), (''NNG_STAT_ID'', ''id'')] []"

definition STAT_UNIT_NAMES :: "nng_lib \<Rightarrow> (int \<times> pystr) list" where
  "STAT_UNIT_NAMES L1 = fold (\<lambda>(c, n) d. AList.update (const L1 c) (codes n) d)
     [(''NNG_UNIT_NONE'', ''none''), (''NNG_UNIT_BYTES'', ''bytes''),
      (''NNG_UNIT_MESSAGES'', ''messages''), (''NNG_UNIT_MILLIS'', ''millis''),
      (''NNG_UNIT_EVENTS'', ''events'')] []"

definition name_in :: "(int \<times> pystr) list \<Rightarrow> int \<Rightarrow> pystr" where
  "name_in d n = (case map_of d n of None \<Rightarrow> codes ''unknown'' | Some x \<Rightarrow> x)"

text \<open>A C string, \<open>NULL\<close> becoming the empty string, decoded with \<open>errors="replace"\<close>.\<close>

definition text_string :: "nres \<Rightarrow> pystr" where
  "text_string r = (if r_val r = 0 then [] else utf8_decode_replace (map unat (r_bytes r)))"

text \<open>The functions of nng on a node.\<close>

definition node_call :: "nng_lib \<Rightarrow> string \<Rightarrow> int \<Rightarrow> ('a world_scheme, pyexc, nres) prog" where
  "node_call L f p = ccall L (Fn f [CInt p])"

definition extract_stat_value :: "nng_lib \<Rightarrow> int \<Rightarrow> int \<Rightarrow> ('a world_scheme, pyexc, pyval) prog" where
  "extract_stat_value L p ty =
     (if ty \<in> {const L ''NNG_STAT_LEVEL'', const L ''NNG_STAT_COUNTER'', const L ''NNG_STAT_ID''}
      then bnd (node_call L ''nng_stat_value'' p) (\<lambda>r. ret (PInt (r_val r)))
      else if ty = const L ''NNG_STAT_STRING''
      then bnd (node_call L ''nng_stat_string'' p) (\<lambda>r. ret (PStr (text_string r)))
      else if ty = const L ''NNG_STAT_BOOLEAN''
      then bnd (node_call L ''nng_stat_bool'' p) (\<lambda>r. ret (PBool (r_val r \<noteq> 0)))
      else ret PNone)"

text \<open>What is read of a node before its children.\<close>

definition stat_fields ::
  "nng_lib \<Rightarrow> nng_lib \<Rightarrow> int \<Rightarrow> ('a world_scheme, pyexc, stat list \<Rightarrow> stat) prog" where
  "stat_fields L1 L p =
     bnd (node_call L ''nng_stat_name'' p) (\<lambda>nm.
     bnd (node_call L ''nng_stat_desc'' p) (\<lambda>ds.
     bnd (node_call L ''nng_stat_type'' p) (\<lambda>ty.
     bnd (node_call L ''nng_stat_unit'' p) (\<lambda>un.
     bnd (extract_stat_value L p (r_val ty)) (\<lambda>val.
     bnd (node_call L ''nng_stat_timestamp'' p) (\<lambda>ts.
     ret (Stat (text_string nm) (text_string ds) (r_val ty) (r_val un) val (r_val ts)
       (name_in (STAT_TYPE_NAMES L1) (r_val ty)) (name_in (STAT_UNIT_NAMES L1) (r_val un)))))))))"

text \<open>
  \<open>_build_stat_node\<close> and its loop over the children. nng could hand out a cyclic list, so both
  run on fuel; \<open>None\<close> is a run that has not ended.
\<close>

fun build_stat_node :: "nat \<Rightarrow> nng_lib \<Rightarrow> nng_lib \<Rightarrow> int \<Rightarrow> ('a world_scheme, pyexc, stat option) prog"
and build_children :: "nat \<Rightarrow> nng_lib \<Rightarrow> nng_lib \<Rightarrow> int \<Rightarrow> ('a world_scheme, pyexc, stat list option) prog"
where
  "build_stat_node 0 L1 L p = ret None"
| "build_stat_node (Suc n) L1 L p =
     bnd (stat_fields L1 L p) (\<lambda>mk.
     bnd (node_call L ''nng_stat_child'' p) (\<lambda>r.
     bnd (build_children n L1 L (r_val r)) (\<lambda>cs. ret (map_option mk cs))))"
| "build_children 0 L1 L p = ret None"
| "build_children (Suc n) L1 L p =
     (if p = 0 then ret (Some [])
      else bnd (build_stat_node n L1 L p) (\<lambda>x.
        case x of
          None \<Rightarrow> ret None
        | Some c \<Rightarrow>
            bnd (node_call L ''nng_stat_next'' p) (\<lambda>r.
            bnd (build_children n L1 L (r_val r)) (\<lambda>cs. ret (map_option (Cons c) cs)))))"

text \<open>\<open>_stats\<close>: the snapshot is taken, copied and freed.\<close>

definition with_snapshot ::
  "nng_lib \<Rightarrow> (int \<Rightarrow> ('a world_scheme, pyexc, 'b) prog) \<Rightarrow> ('a world_scheme, pyexc, 'b) prog" where
  "with_snapshot L use =
     bnd (ccall L (Fn ''nng_stats_get'' [COut])) (\<lambda>r.
     andthen (check_err L (r_val r))
       (try_finally (use (r_out r))
         (bnd (ccall L (Fn ''nng_stats_free'' [CInt (r_out r)])) (\<lambda>_. ret ()))))"

definition stats :: "nat \<Rightarrow> nng_lib \<Rightarrow> nng_lib \<Rightarrow> ('a world_scheme, pyexc, stat option) prog" where
  "stats n L1 L = with_snapshot L (build_stat_node n L1 L)"

text \<open>
  \<open>_socket_stats\<close>: for a \<open>Socket\<close> or an \<open>nng_socket\<close>, in the library it belongs to.
  \<open>Some None\<close> is Python's \<open>None\<close>, when nng knows no statistics of the socket.
\<close>

definition socket_stats ::
  "nat \<Rightarrow> nng_lib \<Rightarrow> (nat \<Rightarrow> nng_lib) \<Rightarrow> dev_arg \<Rightarrow> nat
     \<Rightarrow> ('a world_scheme, pyexc, stat option option) prog" where
  "socket_stats n L1 lib_of sock dflt =
     bnd (lift (resolve_socket sock dflt)) (\<lambda>(l, k).
     with_snapshot (lib_of l) (\<lambda>root.
       bnd (ccall (lib_of l) (Fn ''nng_stat_find_socket'' [CInt root, CInt k])) (\<lambda>r.
       if r_val r = 0 then ret (Some None)
       else bnd (build_stat_node n L1 (lib_of l) (r_val r)) (\<lambda>x. ret (map_option Some x)))))"

section \<open>A statistic as a mapping\<close>

text \<open>
  \<open>__getitem__\<close> prefers attributes: the nine fields, the methods of \<open>Stat\<close> and of
  \<open>collections.abc.Mapping\<close>, and the special names of the running Python, which are the
  parameter \<open>special\<close>.
\<close>

datatype stat_item = IVal pyval | IKids "stat list" | IStat stat | IAttr pystr

definition stat_keys :: "string list" where
  "stat_keys = [''name'', ''desc'', ''type'', ''unit'', ''value'', ''timestamp'', ''type_name'',
     ''unit_name'', ''children'']"

definition stat_methods :: "string list" where
  "stat_methods = [''as_dict'', ''to_dict'', ''find'', ''find_all'', ''get'', ''keys'', ''items'', ''values'']"

definition stat_iter :: "pystr list" where
  "stat_iter = map codes stat_keys"

definition stat_len :: nat where
  "stat_len = 9"

definition field_values :: "stat \<Rightarrow> stat_item list" where
  "field_values t = (case t of Stat nm ds ty un v ts tn un_n cs \<Rightarrow>
     [IVal (PStr nm), IVal (PStr ds), IVal (PInt ty), IVal (PInt un), IVal v, IVal (PInt ts),
      IVal (PStr tn), IVal (PStr un_n), IKids cs])"

definition get_attr :: "(pystr \<Rightarrow> bool) \<Rightarrow> stat \<Rightarrow> pystr \<Rightarrow> stat_item option" where
  "get_attr special t key =
     (case map_of (zip stat_iter (field_values t)) key of
        Some v \<Rightarrow> Some v
      | None \<Rightarrow> if key \<in> set (map codes stat_methods) \<or> special key then Some (IAttr key) else None)"

definition stat_getitem :: "(pystr \<Rightarrow> bool) \<Rightarrow> stat \<Rightarrow> pystr \<Rightarrow> pyexc + stat_item" where
  "stat_getitem special t key =
     (case get_attr special t key of
        Some v \<Rightarrow> Inr v
      | None \<Rightarrow> (case find (\<lambda>c. st_name c = key) (st_children t) of
          Some c \<Rightarrow> Inr (IStat c)
        | None \<Rightarrow> Inl KeyError))"

text \<open>\<open>as_dict\<close>: nested dictionaries.\<close>

datatype dict_val = DVal pyval | DList "(string \<times> dict_val) list list"

fun as_dict :: "stat \<Rightarrow> (string \<times> dict_val) list" where
  "as_dict (Stat nm ds ty un v ts tn un_n cs) =
     [(''name'', DVal (PStr nm)), (''desc'', DVal (PStr ds)), (''type'', DVal (PInt ty)),
      (''unit'', DVal (PInt un)), (''value'', DVal v), (''timestamp'', DVal (PInt ts)),
      (''type_name'', DVal (PStr tn)), (''unit_name'', DVal (PStr un_n)),
      (''children'', DList (map as_dict cs))]"

text \<open>\<open>find\<close> and \<open>find_all\<close>.\<close>

fun stat_find :: "pystr \<Rightarrow> stat \<Rightarrow> stat option"
and stat_find_in :: "pystr \<Rightarrow> stat list \<Rightarrow> stat option" where
  "stat_find key (Stat nm ds ty un v ts tn un_n cs) =
     (if nm = key then Some (Stat nm ds ty un v ts tn un_n cs) else stat_find_in key cs)"
| "stat_find_in key [] = None"
| "stat_find_in key (c # cs) =
     (case stat_find key c of Some found \<Rightarrow> Some found | None \<Rightarrow> stat_find_in key cs)"

fun stat_find_all :: "pystr \<Rightarrow> stat \<Rightarrow> stat list" where
  "stat_find_all key (Stat nm ds ty un v ts tn un_n cs) =
     (if nm = key then [Stat nm ds ty un v ts tn un_n cs] else [])
       @ concat (map (stat_find_all key) cs)"

text \<open>\<open>Socket.stat\<close>: \<open>socket_stats(self)[name].value\<close>.\<close>

definition item_value :: "stat_item \<Rightarrow> pyexc + pyval" where
  "item_value i = (case i of IStat t \<Rightarrow> Inr (st_value t) | _ \<Rightarrow> Inl AttributeError)"

definition stat_of_name :: "(pystr \<Rightarrow> bool) \<Rightarrow> stat option \<Rightarrow> pystr \<Rightarrow> pyexc + pyval" where
  "stat_of_name special t key =
     (case t of
        None \<Rightarrow> Inl TypeError
      | Some t \<Rightarrow> (case stat_getitem special t key of Inl e \<Rightarrow> Inl e | Inr i \<Rightarrow> item_value i))"

definition sock_stat ::
  "nat \<Rightarrow> nng_lib \<Rightarrow> (nat \<Rightarrow> nng_lib) \<Rightarrow> (pystr \<Rightarrow> bool) \<Rightarrow> dev_arg \<Rightarrow> nat \<Rightarrow> pystr
     \<Rightarrow> ('a world_scheme, pyexc, pyval option) prog" where
  "sock_stat n L1 lib_of special sock dflt key =
     bnd (socket_stats n L1 lib_of sock dflt) (\<lambda>x.
     case x of
       None \<Rightarrow> ret None
     | Some t \<Rightarrow> bnd (lift (stat_of_name special t key)) (\<lambda>v. ret (Some v)))"

section \<open>Searching a tree\<close>

fun preorder :: "stat \<Rightarrow> stat list" where
  "preorder (Stat nm ds ty un v ts tn un_n cs) =
     Stat nm ds ty un v ts tn un_n cs # concat (map preorder cs)"

lemma stat_find_preorder:
  "stat_find key t = find (\<lambda>u. st_name u = key) (preorder t)"
  "stat_find_in key ts = find (\<lambda>u. st_name u = key) (concat (map preorder ts))"
  by (induction key t and key ts rule: stat_find_stat_find_in.induct)
    (auto simp: find_append split: option.split)

lemma find_case_filter: "find P xs = (case filter P xs of [] \<Rightarrow> None | x # _ \<Rightarrow> Some x)"
  by (induction xs) auto

text \<open>Searching a tree of statistics. \<open>find_all\<close> returns the statistics of the given name in
  the order of a depth-first walk, and \<open>find\<close>, which stops early, returns the first of them,
  or \<open>None\<close> when there is none.\<close>

lemma stat_searches_agree:
  "stat_find_all key t = filter (\<lambda>u. st_name u = key) (preorder t)
   \<and> stat_find key t = (case stat_find_all key t of [] \<Rightarrow> None | u # _ \<Rightarrow> Some u)"
proof -
  have all: "stat_find_all key t = filter (\<lambda>u. st_name u = key) (preorder t)"
    by (induction key t rule: stat_find_all.induct) (auto simp: filter_concat comp_def cong: map_cong)
  then show ?thesis by (simp add: stat_find_preorder find_case_filter)
qed

text \<open>A child whose name is that of an attribute is not reached by \<open>stat[name]\<close>, and
  \<open>Socket.stat\<close> raises \<open>AttributeError\<close> for the name of a field.\<close>

lemma fields_shadow_children:
  assumes "key \<in> set stat_iter"
  shows "\<exists>v. stat_getitem special t key = Inr v \<and> (\<forall>c. v \<noteq> IStat c)"
    and "stat_of_name special (Some t) key = Inl AttributeError"
proof -
  obtain nm ds ty un w ts tn un_n cs where t: "t = Stat nm ds ty un w ts tn un_n cs" by (cases t)
  obtain v where v: "map_of (zip stat_iter (field_values t)) key = Some v"
    using assms map_of_zip_is_Some [of stat_iter "field_values t" key]
    by (auto simp: t stat_iter_def stat_keys_def field_values_def simp del: map_of_zip_is_Some zip_Cons_Cons)
  then have "v \<in> set (field_values t)"
    by (auto dest!: map_of_SomeD set_zip_rightD)
  then have "\<forall>c. v \<noteq> IStat c" by (auto simp: t field_values_def)
  then show "\<exists>v. stat_getitem special t key = Inr v \<and> (\<forall>c. v \<noteq> IStat c)"
    and "stat_of_name special (Some t) key = Inl AttributeError"
    by (auto simp: stat_getitem_def get_attr_def v stat_of_name_def item_value_def split: stat_item.split)
qed

section \<open>Text is always text\<close>

lemma replace_simps [simp]:
  "utf8_decode_replace [] = []"
  "utf8_decode_replace (a # r) =
     (case utf8_dec1 (a # r) of
        Some (c, r') \<Rightarrow> c # utf8_decode_replace r'
      | None \<Rightarrow> 0xFFFD # utf8_decode_replace (drop (bad_len (a # r)) (a # r)))"
  by (simp_all add: utf8_decode_replace.simps [of "[]"] utf8_decode_replace.simps [of "a # r"])

lemma utf8_replace_scalar: "list_all scalar (utf8_decode_replace bs)"
proof (induction bs rule: utf8_decode_replace.induct)
  case (1 bs)
  have "scalar 0xFFFD" by (simp add: scalar_def)
  with 1 show ?case
    by (subst utf8_decode_replace.simps)
      (auto split: option.split dest: utf8_dec1_inv simp del: replace_simps)
qed

section \<open>Statistics are well typed\<close>

text \<open>Every result of a program satisfies \<open>P\<close>, whatever the library does.\<close>

definition yields :: "('b \<Rightarrow> bool) \<Rightarrow> ('s, pyexc, 'b) prog \<Rightarrow> bool" where
  "yields P m \<longleftrightarrow> (\<forall>s. wp m (\<lambda>x _. P x) (\<lambda>_ _. True) s)"

lemma yields_bnd:
  assumes "yields Q m" and "\<And>x. Q x \<Longrightarrow> yields P (f x)"
  shows "yields P (bnd m f)"
  unfolding yields_def wp_bnd
  using assms by (auto simp: yields_def intro: wp_mono)

lemma yields_ret: "P x \<Longrightarrow> yields P (ret x)"
  by (simp add: yields_def wp_ret)

lemma yields_any: "yields (\<lambda>_. True) m"
  by (simp add: yields_def wp_def split: prod.split sum.split)

lemma yields_if: "(c \<Longrightarrow> yields P m) \<Longrightarrow> (\<not> c \<Longrightarrow> yields P n) \<Longrightarrow> yields P (if c then m else n)"
  by simp

lemma yields_finally: "yields P m \<Longrightarrow> yields P (try_finally m f)"
  by (auto simp: yields_def wp_def try_finally_def split: prod.splits sum.splits)

lemmas yields_then = yields_bnd [OF yields_any]

definition type_consts :: "string list" where
  "type_consts = [''NNG_STAT_SCOPE'', ''NNG_STAT_LEVEL'', ''NNG_STAT_COUNTER'', ''NNG_STAT_STRING'',
     ''NNG_STAT_BOOLEAN'', ''NNG_STAT_ID'']"

definition numbered_alike :: "nng_lib \<Rightarrow> nng_lib \<Rightarrow> bool" where
  "numbered_alike L1 L \<longleftrightarrow> (\<forall>k\<in>set type_consts. const L1 k = const L k) \<and> distinct (map (const L) type_consts)"

definition value_matches :: "pystr \<Rightarrow> pyval \<Rightarrow> bool" where
  "value_matches ty v =
     (case v of
        PInt _ \<Rightarrow> ty \<in> {codes ''level'', codes ''counter'', codes ''id''}
      | PStr x \<Rightarrow> ty = codes ''string'' \<and> list_all scalar x
      | PBool _ \<Rightarrow> ty = codes ''boolean''
      | PNone \<Rightarrow> ty \<in> {codes ''scope'', codes ''unknown''}
      | _ \<Rightarrow> False)"

fun well_typed :: "stat \<Rightarrow> bool" where
  "well_typed (Stat nm ds ty un v ts tn un_n cs) =
     (list_all scalar nm \<and> list_all scalar ds \<and> value_matches tn v \<and> list_all well_typed cs)"

lemma text_string_scalar: "list_all scalar (text_string r)"
  by (simp add: text_string_def utf8_replace_scalar)

lemma type_names:
  assumes "numbered_alike L1 L"
  shows "name_in (STAT_TYPE_NAMES L1) ty =
    (if ty = const L ''NNG_STAT_SCOPE'' then codes ''scope''
     else if ty = const L ''NNG_STAT_LEVEL'' then codes ''level''
     else if ty = const L ''NNG_STAT_COUNTER'' then codes ''counter''
     else if ty = const L ''NNG_STAT_STRING'' then codes ''string''
     else if ty = const L ''NNG_STAT_BOOLEAN'' then codes ''boolean''
     else if ty = const L ''NNG_STAT_ID'' then codes ''id'' else codes ''unknown'')"
  using assms
  by (auto simp: numbered_alike_def type_consts_def name_in_def STAT_TYPE_NAMES_def dict_simps)

lemma value_matches_simps:
  "value_matches (codes ''level'') (PInt n)" "value_matches (codes ''counter'') (PInt n)"
  "value_matches (codes ''id'') (PInt n)" "list_all scalar x \<Longrightarrow> value_matches (codes ''string'') (PStr x)"
  "value_matches (codes ''boolean'') (PBool b)" "value_matches (codes ''scope'') PNone"
  "value_matches (codes ''unknown'') PNone"
  by (simp_all add: value_matches_def)

lemma kind_matches:
  fixes a b c d e f ty :: int
  assumes "distinct [a, b, c, d, e, f]"
  defines "nm \<equiv> if ty = a then codes ''scope'' else if ty = b then codes ''level''
     else if ty = c then codes ''counter'' else if ty = d then codes ''string''
     else if ty = e then codes ''boolean'' else if ty = f then codes ''id'' else codes ''unknown''"
  shows "ty = b \<or> ty = c \<or> ty = f \<Longrightarrow> value_matches nm (PInt n)"
    and "ty = d \<Longrightarrow> list_all scalar x \<Longrightarrow> value_matches nm (PStr x)"
    and "ty = e \<Longrightarrow> value_matches nm (PBool q)"
    and "ty \<noteq> b \<Longrightarrow> ty \<noteq> c \<Longrightarrow> ty \<noteq> f \<Longrightarrow> ty \<noteq> d \<Longrightarrow> ty \<noteq> e \<Longrightarrow> value_matches nm PNone"
  using assms(1) unfolding nm_def by (auto simp: value_matches_simps)

lemma extract_matches:
  assumes "numbered_alike L1 L"
  shows "yields (value_matches (name_in (STAT_TYPE_NAMES L1) ty)) (extract_stat_value L p ty)"
proof -
  have "distinct (map (const L) type_consts)" using assms by (simp add: numbered_alike_def)
  note kinds = kind_matches [OF this [unfolded type_consts_def list.map]]
  show ?thesis
    unfolding type_names [OF assms] extract_stat_value_def
    by (intro yields_if yields_then yields_ret kinds) (simp_all only: insert_iff empty_iff text_string_scalar de_Morgan_disj simp_thms)
qed

lemma fields_typed:
  assumes "numbered_alike L1 L"
  shows "yields (\<lambda>mk. \<forall>cs. list_all well_typed cs \<longrightarrow> well_typed (mk cs)) (stat_fields L1 L p)"
  unfolding stat_fields_def
  by (intro yields_then yields_bnd [OF extract_matches [OF assms]] yields_ret)
    (auto simp: text_string_scalar)

lemma build_typed:
  assumes "numbered_alike L1 L"
  shows "yields (\<lambda>x. \<forall>t. x = Some t \<longrightarrow> well_typed t)
      (build_stat_node n L1 L p :: ('a world_scheme, pyexc, stat option) prog)"
    and "yields (\<lambda>x. \<forall>ts. x = Some ts \<longrightarrow> list_all well_typed ts)
      (build_children n L1 L p :: ('a world_scheme, pyexc, stat list option) prog)"
proof (induction n arbitrary: p)
  case 0
  { case 1 show ?case by (simp add: yields_ret) next case 2 show ?case by (simp add: yields_ret) }
next
  case (Suc n)
  { case 1
    show ?case
      by (simp, rule yields_bnd [OF fields_typed [OF assms]], rule yields_then,
          rule yields_bnd [OF Suc(2)], rule yields_ret) auto
  next
    case 2
    show ?case
      unfolding build_children.simps
      by (rule yields_if, simp add: yields_ret, rule yields_bnd [OF Suc(1)], split option.split,
          intro conjI allI impI, simp add: yields_ret, rule yields_then, rule yields_bnd [OF Suc(2)],
          rule yields_ret) auto }
qed

text \<open>C33. The type of a statistic tells what its value is. If the two versions of nng number the kinds of
  statistics alike, then in every tree that \<open>stats\<close> returns, whatever nng answers, the value of each
  node is an \<open>int\<close> exactly for the type names \<open>level\<close>, \<open>counter\<close> and \<open>id\<close>, a \<open>str\<close> for
  \<open>string\<close>, a \<open>bool\<close> for \<open>boolean\<close> and \<open>None\<close> for the others, and every name,
  description and string is valid Unicode even when nng's bytes are not UTF-8.\<close>

theorem stats_well_typed:
  assumes "numbered_alike L1 L" and "stats n L1 L s = (Inr (Some t), s')"
  shows "well_typed t"
proof -
  have "yields (\<lambda>x. \<forall>t. x = Some t \<longrightarrow> well_typed t) (stats n L1 L :: ('a world_scheme, pyexc, stat option) prog)"
    unfolding stats_def with_snapshot_def andthen_def
    by (intro yields_then yields_finally build_typed [OF assms(1)])
  then show ?thesis
    using assms(2) by (auto simp: yields_def wp_def dest!: spec [of _ s])
qed

section \<open>The snapshot is read while it is there, and freed\<close>

text \<open>
  What a trace does to the snapshot: \<open>None\<close> if it reads a node or frees a snapshot that is not
  there, takes one while it holds one, or frees another pointer; otherwise what is held at the end.
\<close>

definition stat_reads :: "string list" where
  "stat_reads = [''nng_stat_name'', ''nng_stat_desc'', ''nng_stat_type'', ''nng_stat_unit'',
     ''nng_stat_value'', ''nng_stat_string'', ''nng_stat_bool'', ''nng_stat_timestamp'',
     ''nng_stat_child'', ''nng_stat_next'', ''nng_stat_find_socket'']"

definition held_step :: "int option \<Rightarrow> ncall \<times> nres \<Rightarrow> int option option" where
  "held_step h x =
     (case x of (c, r) \<Rightarrow> (case c of
        Fn f args \<Rightarrow>
          if f = ''nng_stats_get''
          then if h = None then Some (if r_val r = 0 then Some (r_out r) else None) else None
          else if f = ''nng_stats_free''
          then (case h of None \<Rightarrow> None | Some root \<Rightarrow> if args = [CInt root] then Some None else None)
          else if f \<in> set stat_reads then if h = None then None else Some h
          else Some h
      | _ \<Rightarrow> Some h))"

fun held_after :: "int option \<Rightarrow> trace \<Rightarrow> int option option" where
  "held_after h [] = Some h"
| "held_after h (x # tr) = (case held_step h x of None \<Rightarrow> None | Some h' \<Rightarrow> held_after h' tr)"

lemma held_after_append:
  "held_after h (tr @ tr') = (case held_after h tr of None \<Rightarrow> None | Some h' \<Rightarrow> held_after h' tr')"
  by (induction tr arbitrary: h) (auto split: option.split)

text \<open>A program that only reads nodes.\<close>

definition is_read :: "ncall \<times> nres \<Rightarrow> bool" where
  "is_read x \<longleftrightarrow> (\<exists>f args. fst x = Fn f args \<and> f \<in> set stat_reads)"

definition only_reads :: "('a world_scheme, pyexc, 'b) prog \<Rightarrow> bool" where
  "only_reads m \<longleftrightarrow> (\<forall>s. let I = (\<lambda>t. \<exists>new. calls t = calls s @ new \<and> list_all is_read new)
     in wp m (\<lambda>_. I) (\<lambda>_. I) s)"

lemma only_reads_ret: "only_reads (ret x)"
  by (simp add: only_reads_def wp_ret)

lemma only_reads_bnd:
  assumes "only_reads m" and "\<And>x. only_reads (f x)"
  shows "only_reads (bnd m f)"
  unfolding only_reads_def Let_def wp_bnd
proof
  fix s :: "'a world_scheme"
  let ?I = "\<lambda>s t. \<exists>new. calls t = calls (s :: 'a world_scheme) @ new \<and> list_all is_read new"
  have "?I s u" if t: "?I s t" "?I t u" for t u :: "'a world_scheme"
  proof -
    obtain a b where "calls t = calls s @ a" "list_all is_read a" "calls u = calls t @ b" "list_all is_read b"
      using t by blast
    then show ?thesis by (intro exI [of _ "a @ b"]) simp
  qed
  note trans = this
  have "wp (f x) (\<lambda>_. ?I s) (\<lambda>_. ?I s) t" if "?I s t" for x t
    by (rule wp_mono [OF assms(2) [of x, unfolded only_reads_def Let_def, rule_format, of t]])
      (rule trans [OF that], assumption)+
  moreover have "wp m (\<lambda>_. ?I s) (\<lambda>_. ?I s) s"
    using assms(1) by (simp add: only_reads_def Let_def)
  ultimately show "wp m (\<lambda>x. wp (f x) (\<lambda>_. ?I s) (\<lambda>_. ?I s)) (\<lambda>_. ?I s) s"
    by (auto intro: wp_mono)
qed

lemma only_reads_call: "f \<in> set stat_reads \<Longrightarrow> only_reads (ccall L (Fn f args))"
  by (simp add: only_reads_def Let_def wp_ccall is_read_def)

lemma only_reads_node: "f \<in> set stat_reads \<Longrightarrow> only_reads (node_call L f p)"
  unfolding node_call_def by (rule only_reads_call)

lemma only_reads_if: "only_reads m \<Longrightarrow> only_reads n \<Longrightarrow> only_reads (if c then m else n)"
  by simp

lemma only_reads_option:
  "only_reads m \<Longrightarrow> (\<And>x. only_reads (f x)) \<Longrightarrow> only_reads (case y of None \<Rightarrow> m | Some x \<Rightarrow> f x)"
  by (cases y) simp_all

lemmas only_reads_intros = only_reads_ret only_reads_bnd only_reads_node only_reads_if only_reads_option

lemma only_reads_fields: "only_reads (stat_fields L1 L p)"
  unfolding stat_fields_def extract_stat_value_def
  by (intro only_reads_intros) (simp_all add: stat_reads_def)

lemma only_reads_build:
  shows "only_reads (build_stat_node n L1 L p :: ('a world_scheme, pyexc, stat option) prog)"
    and "only_reads (build_children n L1 L p :: ('a world_scheme, pyexc, stat list option) prog)"
proof (induction n arbitrary: p)
  case 0
  { case 1 show ?case by (simp add: only_reads_ret) next case 2 show ?case by (simp add: only_reads_ret) }
next
  case (Suc n)
  have child: "''nng_stat_child'' \<in> set stat_reads" "''nng_stat_next'' \<in> set stat_reads"
    by (simp_all add: stat_reads_def)
  { case 1
    show ?case unfolding build_stat_node.simps by (intro only_reads_intros only_reads_fields child Suc)
  next
    case 2
    show ?case unfolding build_children.simps by (intro only_reads_intros child Suc) }
qed

text \<open>The new calls of a run leave no snapshot behind, except when taking it was itself
  interrupted by an exception.\<close>

definition released :: "trace \<Rightarrow> trace \<Rightarrow> bool" where
  "released before after \<longleftrightarrow> (\<exists>new. after = before @ new \<and>
     (held_after None new = Some None
      \<or> (\<exists>r e. new = [(Fn ''nng_stats_get'' [COut], r)] \<and> r_exn r = Some e)))"

lemma held_reads: "list_all is_read tr \<Longrightarrow> held_after (Some p) tr = Some (Some p)"
proof (induction tr)
  case (Cons x tr)
  then obtain f args r where "x = (Fn f args, r)" "f \<in> set stat_reads"
    by (auto simp: is_read_def) (metis prod.collapse)
  moreover have "''nng_stats_get'' \<notin> set stat_reads" "''nng_stats_free'' \<notin> set stat_reads"
    by (simp_all add: stat_reads_def)
  ultimately show ?case using Cons by (auto simp: held_step_def)
qed simp

lemma with_snapshot_released:
  fixes s :: "'a world_scheme"
  assumes "\<And>p. only_reads (use p :: ('a world_scheme, pyexc, 'b) prog)"
  shows "released (calls s) (calls (snd (with_snapshot L use s)))"
proof (rule wp_stateI [where I = "\<lambda>t. released (calls s) (calls t)"])
  let ?I = "\<lambda>t. released (calls s) (calls t)" and ?get = "Fn ''nng_stats_get'' [COut]"
  let ?r = "fn L (calls s) ?get"
  let ?p = "r_out ?r" and ?t = "s\<lparr>calls := calls s @ [(?get, ?r)]\<rparr>"
  have err: "?I (?t\<lparr>calls := calls ?t @ [(Strerror (r_val ?r), x)]\<rparr>)" if "r_val ?r \<noteq> 0" for x
    using that by (auto simp: released_def held_step_def intro!: exI [of _ "[(?get, ?r), (Strerror (r_val ?r), x)]"])
  have finished: "?I (u\<lparr>calls := calls u @ [(Fn ''nng_stats_free'' [CInt ?p], x)]\<rparr>)"
    if z: "r_val ?r = 0" and w: "\<exists>new. calls u = calls ?t @ new \<and> list_all is_read new" for u :: "'a world_scheme" and x
  proof -
    obtain new where new: "calls u = calls s @ (?get, ?r) # new" "list_all is_read new"
      using w by auto
    then show ?thesis
      using z held_reads [OF new(2), of ?p]
      by (auto simp: released_def held_step_def held_after_append
          intro!: exI [of _ "(?get, ?r) # new @ [(Fn ''nng_stats_free'' [CInt ?p], x)]"])
  qed
  have body: "wp (use ?p) (\<lambda>_ u. \<exists>new. calls u = calls ?t @ new \<and> list_all is_read new)
      (\<lambda>_ u. \<exists>new. calls u = calls ?t @ new \<and> list_all is_read new) ?t"
    using assms [of ?p] unfolding only_reads_def Let_def by blast
  have free: "wp (bnd (ccall L (Fn ''nng_stats_free'' [CInt ?p])) (\<lambda>_. ret ())) (\<lambda>_. ?I) (\<lambda>_. ?I) u"
    if "r_val ?r = 0" "\<exists>new. calls u = calls ?t @ new \<and> list_all is_read new" for u :: "'a world_scheme"
    using finished [OF that] by (simp add: wp_simps)
  have fine: "wp (try_finally (use ?p) (bnd (ccall L (Fn ''nng_stats_free'' [CInt ?p])) (\<lambda>_. ret ()))) (\<lambda>_. ?I) (\<lambda>_. ?I) ?t"
    if "r_val ?r = 0"
    unfolding wp_finally by (rule wp_mono [OF body]; rule free [OF that]; assumption)
  have failed: "?I ?t" if "r_exn ?r = Some e" for e
    using that by (auto simp: released_def)
  show "wp (with_snapshot L use) (\<lambda>_. ?I) (\<lambda>_. ?I) s"
    unfolding with_snapshot_def wp_bnd [of "ccall _ _"] wp_ccall wp_andthen wp_check_err
    using err fine failed by (auto simp: wp_ccall)
qed

text \<open>C34. No snapshot of the statistics is leaked or used after it was freed. In every run of \<open>stats\<close>
  and of \<open>socket_stats\<close>, whatever nng answers and wherever an exception is raised in between, every
  function that reads a node is called while the snapshot is held, and the snapshot is freed exactly once,
  unless \<open>nng_stats_get\<close> fails or is itself interrupted.\<close>

theorem snapshots_released:
  "released (calls s) (calls (snd (stats n L1 L s)))
   \<and> released (calls s) (calls (snd (socket_stats n L1 lib_of sock dflt s)))"
proof (rule conjI)
  show "released (calls s) (calls (snd (stats n L1 L s)))"
    unfolding stats_def by (rule with_snapshot_released [OF only_reads_build(1)])
  have use: "only_reads (bnd (ccall L (Fn ''nng_stat_find_socket'' [CInt root, CInt k])) (\<lambda>r.
       if r_val r = 0 then ret (Some None)
       else bnd (build_stat_node n L1 L (r_val r)) (\<lambda>x. ret (map_option Some x))) :: ('b world_scheme, _, _) prog)"
    for L root k
    by (intro only_reads_intros only_reads_call only_reads_build) (simp add: stat_reads_def)
  show "released (calls s) (calls (snd (socket_stats n L1 lib_of sock dflt s)))"
  proof (cases "resolve_socket sock dflt")
    case (Inl e)
    then show ?thesis
      by (simp add: socket_stats_def lift_def bnd_def raise_exc_def released_def split: sum.split)
  next
    case (Inr x)
    then obtain l k where "resolve_socket sock dflt = Inr (l, k)" by (cases x) auto
    then have "socket_stats n L1 lib_of sock dflt s = with_snapshot (lib_of l) (\<lambda>root.
       bnd (ccall (lib_of l) (Fn ''nng_stat_find_socket'' [CInt root, CInt k])) (\<lambda>r.
       if r_val r = 0 then ret (Some None)
       else bnd (build_stat_node n L1 (lib_of l) (r_val r)) (\<lambda>x. ret (map_option Some x)))) s"
      by (simp add: socket_stats_def lift_def bnd_def ret_def)
    then show ?thesis by (simp only:) (rule with_snapshot_released [OF use])
  qed
qed

section \<open>The copy is the snapshot\<close>

text \<open>
  A snapshot as nng documents it: a finite tree of nodes with pointers, each with a name, a
  description, a kind, a unit, a number, a string, a truth value and a time; strings may be missing.
  As long as the snapshot has not been freed, nng's functions tell about a node what the tree says,
  its first child and its next sibling included (\<open>NULL\<close> after the last).
\<close>

datatype nstat =
  NStat (ns_ptr: int) (ns_name: "byte list option") (ns_desc: "byte list option") (ns_type: int)
    (ns_unit: int) (ns_num: int) (ns_str: "byte list option") (ns_bool: bool) (ns_time: int)
    (ns_kids: "nstat list")

definition alive :: "int \<Rightarrow> trace \<Rightarrow> bool" where
  "alive root tr \<longleftrightarrow> (\<exists>before r after. tr = before @ (Fn ''nng_stats_get'' [COut], r) # after
     \<and> r_val r = 0 \<and> r_out r = root \<and> (\<forall>x\<in>set after. fst x \<noteq> Fn ''nng_stats_free'' [CInt root]))"

definition answers :: "nng_lib \<Rightarrow> int \<Rightarrow> string \<Rightarrow> int \<Rightarrow> (nres \<Rightarrow> bool) \<Rightarrow> bool" where
  "answers L root f p P \<longleftrightarrow> (\<forall>tr. alive root tr \<longrightarrow>
     r_exn (fn L tr (Fn f [CInt p])) = None \<and> P (fn L tr (Fn f [CInt p])))"

definition says_text :: "byte list option \<Rightarrow> nres \<Rightarrow> bool" where
  "says_text x r \<longleftrightarrow> (case x of None \<Rightarrow> r_val r = 0 | Some b \<Rightarrow> r_val r \<noteq> 0 \<and> r_bytes r = b)"

fun head_ptr :: "nstat list \<Rightarrow> int" where
  "head_ptr [] = 0"
| "head_ptr (t # ts) = ns_ptr t"

fun presents :: "nng_lib \<Rightarrow> int \<Rightarrow> nstat \<Rightarrow> bool"
and presents_list :: "nng_lib \<Rightarrow> int \<Rightarrow> nstat list \<Rightarrow> bool" where
  "presents L root (NStat p nm ds ty un num str b ts kids) \<longleftrightarrow>
     p \<noteq> 0 \<and> answers L root ''nng_stat_name'' p (says_text nm)
     \<and> answers L root ''nng_stat_desc'' p (says_text ds)
     \<and> answers L root ''nng_stat_type'' p (\<lambda>r. r_val r = ty)
     \<and> answers L root ''nng_stat_unit'' p (\<lambda>r. r_val r = un)
     \<and> answers L root ''nng_stat_value'' p (\<lambda>r. r_val r = num)
     \<and> answers L root ''nng_stat_string'' p (says_text str)
     \<and> answers L root ''nng_stat_bool'' p (\<lambda>r. r_val r = of_bool b)
     \<and> answers L root ''nng_stat_timestamp'' p (\<lambda>r. r_val r = ts)
     \<and> answers L root ''nng_stat_child'' p (\<lambda>r. r_val r = head_ptr kids)
     \<and> presents_list L root kids"
| "presents_list L root [] \<longleftrightarrow> True"
| "presents_list L root (t # ts) \<longleftrightarrow>
     presents L root t \<and> answers L root ''nng_stat_next'' (ns_ptr t) (\<lambda>r. r_val r = head_ptr ts)
     \<and> presents_list L root ts"

text \<open>The tree of \<open>Stat\<close> objects that corresponds to a snapshot.\<close>

definition text_of :: "byte list option \<Rightarrow> pystr" where
  "text_of x = (case x of None \<Rightarrow> [] | Some b \<Rightarrow> utf8_decode_replace (map unat b))"

definition copy_value :: "nng_lib \<Rightarrow> int \<Rightarrow> int \<Rightarrow> byte list option \<Rightarrow> bool \<Rightarrow> pyval" where
  "copy_value L ty num str b =
     (if ty \<in> {const L ''NNG_STAT_LEVEL'', const L ''NNG_STAT_COUNTER'', const L ''NNG_STAT_ID''} then PInt num
      else if ty = const L ''NNG_STAT_STRING'' then PStr (text_of str)
      else if ty = const L ''NNG_STAT_BOOLEAN'' then PBool b else PNone)"

fun copy_of :: "nng_lib \<Rightarrow> nng_lib \<Rightarrow> nstat \<Rightarrow> stat" where
  "copy_of L1 L (NStat p nm ds ty un num str b ts kids) =
     Stat (text_of nm) (text_of ds) ty un
       (copy_value L ty num str b) ts (name_in (STAT_TYPE_NAMES L1) ty) (name_in (STAT_UNIT_NAMES L1) un)
       (map (copy_of L1 L) kids)"

fun fuel_for :: "nstat \<Rightarrow> nat" and fuel_list :: "nstat list \<Rightarrow> nat" where
  "fuel_for (NStat p nm ds ty un num str b ts kids) = Suc (fuel_list kids)"
| "fuel_list [] = 1"
| "fuel_list (t # ts) = Suc (max (fuel_for t) (fuel_list ts))"

lemma says_text_string: "says_text x r \<Longrightarrow> text_string r = text_of x"
  by (auto simp: says_text_def text_string_def text_of_def split: option.splits)

lemma alive_append: "alive root tr \<Longrightarrow> fst x \<noteq> Fn ''nng_stats_free'' [CInt root] \<Longrightarrow> alive root (tr @ [x])"
  by (force simp: alive_def)

text \<open>Asking about a node of a snapshot that is there.\<close>

lemma wp_node_call:
  assumes "alive root (calls s)" and "answers L root f p P" and "f \<noteq> ''nng_stats_free''"
    and "\<And>r t. P r \<Longrightarrow> alive root (calls t) \<Longrightarrow> Q r t"
  shows "wp (node_call L f p) Q E s"
proof -
  have "r_exn (fn L (calls s) (Fn f [CInt p])) = None" "P (fn L (calls s) (Fn f [CInt p]))"
    using assms(1,2) by (auto simp: answers_def)
  moreover have "alive root (calls s @ [(Fn f [CInt p], r)])" for r
    using assms(1,3) by (simp add: alive_append)
  ultimately show ?thesis using assms(4) by (simp add: node_call_def wp_ccall)
qed

lemma wp_stat_fields:
  assumes "alive root (calls s)" and t: "presents L root t"
    and Q: "\<And>mk u. mk (map (copy_of L1 L) (ns_kids t)) = copy_of L1 L t \<Longrightarrow> alive root (calls u) \<Longrightarrow> Q mk u"
  shows "wp (stat_fields L1 L (ns_ptr t)) Q E s"
proof -
  obtain p nm ds ty un num str b ts kids where tree: "t = NStat p nm ds ty un num str b ts kids" by (cases t)
  note node = wp_node_call [where root = root]
  have val: "wp (extract_stat_value L p k) Q' E' u"
    if "k = ty" "alive root (calls u)" "\<And>w. alive root (calls w) \<Longrightarrow> Q' (copy_value L ty num str b) w" for Q' E' k u
    unfolding extract_stat_value_def that(1)
    using t that(2,3)
    by (auto simp: tree wp_simps says_text_string copy_value_def intro!: node [of u])
  show ?thesis
    using t assms(1) unfolding stat_fields_def tree nstat.sel wp_bnd
    by (auto simp: says_text_string wp_ret tree intro!: node val Q)
qed

lemma wp_build:
  shows "alive root (calls s) \<Longrightarrow> presents L root t \<Longrightarrow> fuel_for t \<le> n \<Longrightarrow>
      wp (build_stat_node n L1 L (ns_ptr t)) (\<lambda>x u. x = Some (copy_of L1 L t) \<and> alive root (calls u)) (\<lambda>_ _. False)
        (s :: 'a world_scheme)"
    and "alive root (calls s) \<Longrightarrow> presents_list L root ts \<Longrightarrow> fuel_list ts \<le> n \<Longrightarrow>
      wp (build_children n L1 L (head_ptr ts)) (\<lambda>x u. x = Some (map (copy_of L1 L) ts) \<and> alive root (calls u)) (\<lambda>_ _. False)
        (s :: 'a world_scheme)"
proof (induction t and ts arbitrary: s n and s n rule: fuel_for_fuel_list.induct)
  case (1 p nm ds ty un num str b ts kids)
  let ?t = "NStat p nm ds ty un num str b ts kids"
  from "1.prems" obtain m where n: "n = Suc m" "fuel_list kids \<le> m" by (cases n) auto
  have kids: "presents_list L root kids" and child: "answers L root ''nng_stat_child'' p (\<lambda>r. r_val r = head_ptr kids)"
    using "1.prems" by simp_all
  show ?case
    unfolding n(1) build_stat_node.simps wp_bnd
  proof (rule wp_stat_fields [OF "1.prems"(1,2)])
    fix mk and u :: "'a world_scheme"
    assume mk: "mk (map (copy_of L1 L) (ns_kids ?t)) = copy_of L1 L ?t" and u: "alive root (calls u)"
    show "wp (node_call L ''nng_stat_child'' (ns_ptr ?t)) (\<lambda>r. wp (build_children m L1 L (r_val r))
        (\<lambda>cs. wp (ret (map_option mk cs)) (\<lambda>x u. x = Some (copy_of L1 L ?t) \<and> alive root (calls u)) (\<lambda>_ _. False)) (\<lambda>_ _. False)) (\<lambda>_ _. False) u"
      unfolding nstat.sel
      by (rule wp_node_call [OF u child], simp)
        (use mk in \<open>auto simp: wp_ret intro!: wp_mono [OF "1.IH" [OF _ kids n(2)]]\<close>)
  qed
next
  case 2
  then obtain m where "n = Suc m" by (cases n) auto
  with 2 show ?case by (simp add: wp_ret)
next
  case (3 t ts)
  from "3.prems" obtain m where n: "n = Suc m" "fuel_for t \<le> m" "fuel_list ts \<le> m" by (cases n) auto
  have t: "presents L root t" and ts: "presents_list L root ts" and p: "ns_ptr t \<noteq> 0"
    and sib: "answers L root ''nng_stat_next'' (ns_ptr t) (\<lambda>r. r_val r = head_ptr ts)"
    using "3.prems" by (auto, cases t, auto)
  show ?case
    unfolding n(1) head_ptr.simps build_children.simps
    using p by (auto simp: wp_bnd wp_ret intro!: wp_mono [OF "3.IH"(1) [OF "3.prems"(1) t n(2)]]
        wp_node_call [OF _ sib] wp_mono [OF "3.IH"(2) [OF _ ts n(3)]])
qed

lemma wp_stats:
  assumes "presents L (ns_ptr t) t" and "fuel_for t \<le> n"
    and "let r = fn L (calls s) (Fn ''nng_stats_get'' [COut])
         in r_exn r = None \<and> r_val r = 0 \<and> r_out r = ns_ptr t"
    and "\<forall>tr. r_exn (fn L tr (Fn ''nng_stats_free'' [CInt (ns_ptr t)])) = None"
  shows "wp (stats n L1 L) (\<lambda>x _. x = Some (copy_of L1 L t)) (\<lambda>_ _. False) s"
proof -
  let ?get = "Fn ''nng_stats_get'' [COut]"
  let ?u = "s\<lparr>calls := calls s @ [(?get, fn L (calls s) ?get)]\<rparr>"
  have "alive (ns_ptr t) (calls ?u)"
    using assms(3) by (force simp: alive_def Let_def)
  note built = wp_build(1) [OF this assms(1,2), where ?L1.0 = L1]
  show ?thesis
    using assms(3,4)
    by (auto simp: stats_def with_snapshot_def wp_simps Let_def intro!: wp_mono [OF built])
qed

text \<open>C35. \<open>stats\<close> returns the statistics. If nng takes a snapshot that is a finite tree, \<open>stats\<close>
  returns, and what it returns is the tree of \<open>Stat\<close> objects of the same shape whose names,
  texts, numbers, kinds and units are those of the snapshot; no read comes after the snapshot was freed,
  when nng could answer anything.\<close>

theorem stats_copies_snapshot:
  assumes "presents L (ns_ptr t) t" and "fuel_for t \<le> n"
    and "let r = fn L (calls s) (Fn ''nng_stats_get'' [COut])
         in r_exn r = None \<and> r_val r = 0 \<and> r_out r = ns_ptr t"
    and "\<forall>tr. r_exn (fn L tr (Fn ''nng_stats_free'' [CInt (ns_ptr t)])) = None"
  shows "fst (stats n L1 L s) = Inr (Some (copy_of L1 L t))"
  using wp_stats [OF assms, of L1] by (auto simp: wp_def split: prod.splits sum.splits)

text \<open>A snapshot of two nodes, the second with a string that is not UTF-8.\<close>

definition stat_lib :: nng_lib where
  "stat_lib =
     \<lparr>fn = (\<lambda>_ c. \<lparr>r_val = (case c of
           Fn f args \<Rightarrow>
             if f = ''nng_stat_child'' then (if args = [CInt 10] then 11 else 0)
             else if f = ''nng_stat_type'' then (if args = [CInt 10] then 0 else 3)
             else if f \<in> {''nng_stat_name'', ''nng_stat_string''} then 1 else 0
         | _ \<Rightarrow> 0),
         r_out = 10,
         r_bytes = (case c of Fn f args \<Rightarrow> if f = ''nng_stat_name'' then [107] else [255] | _ \<Rightarrow> []),
         r_text = [], r_exn = None\<rparr>),
      has_attr = (\<lambda>_. True),
      const = (\<lambda>n. case map_of (zip type_consts [0..5]) n of None \<Rightarrow> -1 | Some v \<Rightarrow> v),
      err = nng_errno, flag_nonblock = 2\<rparr>"

definition stat_tree :: nstat where
  "stat_tree = NStat 10 (Some [107]) None 0 0 0 (Some [255]) False 0
     [NStat 11 (Some [107]) None 3 0 0 (Some [255]) False 0 []]"

lemma stat_lib_presents: "presents stat_lib (ns_ptr stat_tree) stat_tree" "fuel_for stat_tree \<le> 9"
  "let r = fn stat_lib tr (Fn ''nng_stats_get'' [COut]) in r_exn r = None \<and> r_val r = 0 \<and> r_out r = ns_ptr stat_tree"
  "\<forall>tr. r_exn (fn stat_lib tr (Fn ''nng_stats_free'' [CInt (ns_ptr stat_tree)])) = None"
  by (simp_all add: stat_tree_def stat_lib_def answers_def says_text_def)

theorem stats_copies_snapshot_witness:
  "\<exists>t. fst (stats 9 stat_lib stat_lib world0) = Inr (Some t) \<and> map st_value (st_children t) = [PStr [0xFFFD]]"
proof (intro exI conjI)
  show "fst (stats 9 stat_lib stat_lib world0) = Inr (Some (copy_of stat_lib stat_lib stat_tree))"
    by (rule stats_copies_snapshot [OF stat_lib_presents])
  show "map st_value (st_children (copy_of stat_lib stat_lib stat_tree)) = [PStr [0xFFFD]]"
    by (simp add: stat_tree_def stat_lib_def copy_value_def type_consts_def text_of_def utf8_dec1_def
        bad_len_def upto.simps)
qed

theorem stats_well_typed_witness:
  "\<exists>t s'. stats 9 stat_lib stat_lib world0 = (Inr (Some t), s') \<and> well_typed t"
proof -
  obtain t s' where t: "stats 9 stat_lib stat_lib world0 = (Inr (Some t), s')"
    using wp_stats [OF stat_lib_presents, of stat_lib world0]
    by (auto simp: wp_def split: prod.splits sum.splits)
  have "numbered_alike stat_lib stat_lib"
    by (simp add: numbered_alike_def stat_lib_def type_consts_def upto.simps)
  then have "well_typed t" using t by (rule stats_well_typed)
  with t show ?thesis by blast
qed

end
