(* ===== verification/Protocols.thy ===== *)
theory Protocols
  imports Sockets Stats
begin

text \<open>
  The protocol classes of \<^verbatim>\<open>pynng/nng.py\<close> and \<^verbatim>\<open>pynng/v2/nng.py\<close>: which function opens
  the socket of a class, what the constructors do after that, the topics of a \<open>Sub0\<close> and the surveys of
  a \<open>Surveyor0\<close>.
\<close>

section \<open>Opening\<close>

datatype protocol =
    Bus0 | Pair0 | Pair1 | Push0 | Pull0 | Pub0 | Sub0 | Req0 | Rep0 | Surveyor0 | Respondent0

text \<open>
  A class: \<open>_opener\<close>, \<open>_raw_opener\<close>, the option descriptors it adds to those of \<open>Socket\<close>,
  and \<open>_nonblock_recv_first\<close>. \<open>Pair1\<close> has no \<open>_opener\<close>, and in v2 no \<open>_raw_opener\<close>
  either.
\<close>

record sock_class =
  class_opener :: "string option"
  class_raw_opener :: "string option"
  class_options :: "(string \<times> descriptor \<times> string) list"
  nonblock_recv_first :: bool

definition class_Bus0 :: sock_class where
  "class_Bus0 =
     \<lparr>class_opener = Some ''nng_bus0_open'', class_raw_opener = Some ''nng_bus0_open_raw'',
      class_options = [], nonblock_recv_first = True\<rparr>"

definition class_Pair0 :: sock_class where
  "class_Pair0 =
     \<lparr>class_opener = Some ''nng_pair0_open'', class_raw_opener = Some ''nng_pair0_open_raw'',
      class_options = [], nonblock_recv_first = True\<rparr>"

definition class_Pair1 :: sock_class where
  "class_Pair1 =
     \<lparr>class_opener = None, class_raw_opener = Some ''nng_pair1_open_raw'',
      class_options = [(''polyamorous'', BooleanOption, ''pair1:polyamorous'')], nonblock_recv_first = True\<rparr>"

definition class_Push0 :: sock_class where
  "class_Push0 =
     \<lparr>class_opener = Some ''nng_push0_open'', class_raw_opener = Some ''nng_push0_open_raw'',
      class_options = [], nonblock_recv_first = True\<rparr>"

definition class_Pull0 :: sock_class where
  "class_Pull0 =
     \<lparr>class_opener = Some ''nng_pull0_open'', class_raw_opener = Some ''nng_pull0_open_raw'',
      class_options = [], nonblock_recv_first = True\<rparr>"

definition class_Pub0 :: sock_class where
  "class_Pub0 =
     \<lparr>class_opener = Some ''nng_pub0_open'', class_raw_opener = Some ''nng_pub0_open_raw'',
      class_options = [], nonblock_recv_first = True\<rparr>"

definition class_Sub0 :: sock_class where
  "class_Sub0 =
     \<lparr>class_opener = Some ''nng_sub0_open'', class_raw_opener = Some ''nng_sub0_open_raw'',
      class_options = [], nonblock_recv_first = True\<rparr>"

definition class_Req0 :: sock_class where
  "class_Req0 =
     \<lparr>class_opener = Some ''nng_req0_open'', class_raw_opener = Some ''nng_req0_open_raw'',
      class_options = [(''resend_time'', MsOption, ''req:resend-time'')], nonblock_recv_first = True\<rparr>"

definition class_Rep0 :: sock_class where
  "class_Rep0 =
     \<lparr>class_opener = Some ''nng_rep0_open'', class_raw_opener = Some ''nng_rep0_open_raw'',
      class_options = [], nonblock_recv_first = True\<rparr>"

definition class_Surveyor0 :: sock_class where
  "class_Surveyor0 =
     \<lparr>class_opener = Some ''nng_surveyor0_open'', class_raw_opener = Some ''nng_surveyor0_open_raw'',
      class_options = [(''survey_time'', MsOption, ''surveyor:survey-time'')], nonblock_recv_first = False\<rparr>"

definition class_Respondent0 :: sock_class where
  "class_Respondent0 =
     \<lparr>class_opener = Some ''nng_respondent0_open'', class_raw_opener = Some ''nng_respondent0_open_raw'',
      class_options = [], nonblock_recv_first = True\<rparr>"

fun sock_class_of :: "protocol \<Rightarrow> sock_class" where
  "sock_class_of Bus0 = class_Bus0"
| "sock_class_of Pair0 = class_Pair0"
| "sock_class_of Pair1 = class_Pair1"
| "sock_class_of Push0 = class_Push0"
| "sock_class_of Pull0 = class_Pull0"
| "sock_class_of Pub0 = class_Pub0"
| "sock_class_of Sub0 = class_Sub0"
| "sock_class_of Req0 = class_Req0"
| "sock_class_of Rep0 = class_Rep0"
| "sock_class_of Surveyor0 = class_Surveyor0"
| "sock_class_of Respondent0 = class_Respondent0"

lemmas class_defs =
  class_Bus0_def class_Pair0_def class_Pair1_def class_Push0_def class_Pull0_def class_Pub0_def class_Sub0_def class_Req0_def class_Rep0_def class_Surveyor0_def class_Respondent0_def

definition v2_class_Bus0 :: sock_class where
  "v2_class_Bus0 =
     \<lparr>class_opener = Some ''nng_bus0_open'', class_raw_opener = Some ''nng_bus0_open_raw'',
      class_options = [], nonblock_recv_first = True\<rparr>"

definition v2_class_Pair0 :: sock_class where
  "v2_class_Pair0 =
     \<lparr>class_opener = Some ''nng_pair0_open'', class_raw_opener = Some ''nng_pair0_open_raw'',
      class_options = [], nonblock_recv_first = True\<rparr>"

definition v2_class_Pair1 :: sock_class where
  "v2_class_Pair1 =
     \<lparr>class_opener = None, class_raw_opener = None,
      class_options = [(''polyamorous'', BooleanOption, ''pair1:polyamorous'')], nonblock_recv_first = True\<rparr>"

definition v2_class_Push0 :: sock_class where
  "v2_class_Push0 =
     \<lparr>class_opener = Some ''nng_push0_open'', class_raw_opener = Some ''nng_push0_open_raw'',
      class_options = [], nonblock_recv_first = True\<rparr>"

definition v2_class_Pull0 :: sock_class where
  "v2_class_Pull0 =
     \<lparr>class_opener = Some ''nng_pull0_open'', class_raw_opener = Some ''nng_pull0_open_raw'',
      class_options = [], nonblock_recv_first = True\<rparr>"

definition v2_class_Pub0 :: sock_class where
  "v2_class_Pub0 =
     \<lparr>class_opener = Some ''nng_pub0_open'', class_raw_opener = Some ''nng_pub0_open_raw'',
      class_options = [], nonblock_recv_first = True\<rparr>"

definition v2_class_Sub0 :: sock_class where
  "v2_class_Sub0 =
     \<lparr>class_opener = Some ''nng_sub0_open'', class_raw_opener = Some ''nng_sub0_open_raw'',
      class_options = [], nonblock_recv_first = True\<rparr>"

definition v2_class_Req0 :: sock_class where
  "v2_class_Req0 =
     \<lparr>class_opener = Some ''nng_req0_open'', class_raw_opener = Some ''nng_req0_open_raw'',
      class_options = [(''resend_time'', MsOption, ''req:resend-time'')], nonblock_recv_first = True\<rparr>"

definition v2_class_Rep0 :: sock_class where
  "v2_class_Rep0 =
     \<lparr>class_opener = Some ''nng_rep0_open'', class_raw_opener = Some ''nng_rep0_open_raw'',
      class_options = [], nonblock_recv_first = True\<rparr>"

definition v2_class_Surveyor0 :: sock_class where
  "v2_class_Surveyor0 =
     \<lparr>class_opener = Some ''nng_surveyor0_open'', class_raw_opener = Some ''nng_surveyor0_open_raw'',
      class_options = [(''survey_time'', MsOption, ''surveyor:survey-time'')], nonblock_recv_first = False\<rparr>"

definition v2_class_Respondent0 :: sock_class where
  "v2_class_Respondent0 =
     \<lparr>class_opener = Some ''nng_respondent0_open'', class_raw_opener = Some ''nng_respondent0_open_raw'',
      class_options = [], nonblock_recv_first = True\<rparr>"

fun v2_sock_class_of :: "protocol \<Rightarrow> sock_class" where
  "v2_sock_class_of Bus0 = v2_class_Bus0"
| "v2_sock_class_of Pair0 = v2_class_Pair0"
| "v2_sock_class_of Pair1 = v2_class_Pair1"
| "v2_sock_class_of Push0 = v2_class_Push0"
| "v2_sock_class_of Pull0 = v2_class_Pull0"
| "v2_sock_class_of Pub0 = v2_class_Pub0"
| "v2_sock_class_of Sub0 = v2_class_Sub0"
| "v2_sock_class_of Req0 = v2_class_Req0"
| "v2_sock_class_of Rep0 = v2_class_Rep0"
| "v2_sock_class_of Surveyor0 = v2_class_Surveyor0"
| "v2_sock_class_of Respondent0 = v2_class_Respondent0"

lemmas v2_class_defs =
  v2_class_Bus0_def v2_class_Pair0_def v2_class_Pair1_def v2_class_Push0_def v2_class_Pull0_def v2_class_Pub0_def v2_class_Sub0_def v2_class_Req0_def v2_class_Rep0_def v2_class_Surveyor0_def v2_class_Respondent0_def

text \<open>\<open>Pair1.__init__\<close> chooses an opener itself, over one that was passed.\<close>

definition explicit_opener :: "protocol \<Rightarrow> bool \<Rightarrow> bool \<Rightarrow> string option \<Rightarrow> string option" where
  "explicit_opener p is_raw polyamorous opener =
     (if p = Pair1 then
        Some (if is_raw then ''nng_pair1_open_raw''
              else if polyamorous then ''nng_pair1_open_poly'' else ''nng_pair1_open'')
      else opener)"

text \<open>The \<open>Raw\<close> classes: \<open>kwargs.setdefault("raw", True)\<close>.\<close>

definition raw_kwarg :: "bool \<Rightarrow> bool option \<Rightarrow> bool" where
  "raw_kwarg raw_class given = (case given of Some b \<Rightarrow> b | None \<Rightarrow> raw_class)"

definition v2_explicit_opener :: "protocol \<Rightarrow> bool \<Rightarrow> bool \<Rightarrow> string option \<Rightarrow> string option" where
  "v2_explicit_opener = explicit_opener"

definition v2_raw_kwarg :: "bool \<Rightarrow> bool option \<Rightarrow> bool" where
  "v2_raw_kwarg = raw_kwarg"

definition protocol_opener ::
  "protocol \<Rightarrow> bool \<Rightarrow> bool option \<Rightarrow> bool \<Rightarrow> string option \<Rightarrow> string option" where
  "protocol_opener p raw_class given polyamorous opener =
     (let r = raw_kwarg raw_class given; c = sock_class_of p
      in opener_of (explicit_opener p r polyamorous opener) r (class_raw_opener c) (class_opener c))"

definition v2_protocol_opener ::
  "protocol \<Rightarrow> bool \<Rightarrow> bool option \<Rightarrow> bool \<Rightarrow> string option \<Rightarrow> string option" where
  "v2_protocol_opener p raw_class given polyamorous opener =
     (let r = v2_raw_kwarg raw_class given; c = v2_sock_class_of p
      in opener_of (v2_explicit_opener p r polyamorous opener) r (class_raw_opener c) (class_opener c))"

section \<open>Constructors\<close>

text \<open>
  v1: the base class opens the socket and registers the pipe callbacks, then come TLS and the name,
  then \<open>listen\<close> and \<open>dial\<close>. \<open>config_for\<close> and \<open>keep\<close> are those of \<open>desc_set\<close>.
\<close>

definition set_option ::
  "(nat \<Rightarrow> ('a world_scheme, pyexc, int) prog) \<Rightarrow> (pyval \<Rightarrow> ('a world_scheme, pyexc, unit) prog)
     \<Rightarrow> nng_lib \<Rightarrow> descriptor \<Rightarrow> pyobj \<Rightarrow> string \<Rightarrow> pyval \<Rightarrow> ('a world_scheme, pyexc, unit) prog" where
  "set_option config_for keep L1 d ob option value =
     whenp (value \<noteq> PNone) (desc_set config_for keep L1 d ob (PBytes (map of_char option)) value)"

definition v1_socket_init ::
  "nng_lib \<Rightarrow> string option \<Rightarrow> (int \<Rightarrow> pyobj) \<Rightarrow> (nat \<Rightarrow> ('a sworld_scheme, pyexc, int) prog)
     \<Rightarrow> (pyval \<Rightarrow> ('a sworld_scheme, pyexc, unit) prog) \<Rightarrow> ('a sworld_scheme, pyexc, unit) prog
     \<Rightarrow> (string \<Rightarrow> pyval) \<Rightarrow> bool option \<Rightarrow> ('a sworld_scheme, pyexc, unit) prog" where
  "v1_socket_init L1 opener mk config_for keep configure args block_on_dial =
     andthen (socket_init L1 L1 opener mk configure (args(''listen'' := PNone, ''dial'' := PNone)) block_on_dial) (
     bnd sock_id (\<lambda>sk.
     andthen (set_option config_for keep L1 PointerOption (mk sk) ''tls-config'' (args ''tls_config'')) (
     andthen (set_option config_for keep L1 StringOption (mk sk) ''socket-name'' (args ''name'')) (
     andthen (whenp (args ''listen'' \<noteq> PNone) (bnd (sock_listen L1 L1 (args ''listen'') 0) (\<lambda>_. ret ())))
       (whenp (args ''dial'' \<noteq> PNone)
         (bnd (sock_dial L1 L1 (args ''dial'') block_on_dial) (\<lambda>_. ret ())))))))"

text \<open>\<open>Req0\<close> and \<open>Surveyor0\<close> of both versions set an option of their own after all that.\<close>

definition req0_init ::
  "nng_lib \<Rightarrow> (int \<Rightarrow> pyobj) \<Rightarrow> ('a sworld_scheme, pyexc, unit) prog \<Rightarrow> pyval
     \<Rightarrow> ('a sworld_scheme, pyexc, unit) prog" where
  "req0_init L1 mk init resend_time =
     andthen init (whenp (resend_time \<noteq> PNone)
       (bnd sock_id (\<lambda>sk. setopt_ms L1 (mk sk) (PBytes (map of_char ''req:resend-time'')) resend_time)))"

definition surveyor0_init ::
  "nng_lib \<Rightarrow> (int \<Rightarrow> pyobj) \<Rightarrow> ('a sworld_scheme, pyexc, unit) prog \<Rightarrow> pyval
     \<Rightarrow> ('a sworld_scheme, pyexc, unit) prog" where
  "surveyor0_init L1 mk init survey_time =
     andthen init (whenp (survey_time \<noteq> PNone)
       (bnd sock_id (\<lambda>sk. setopt_ms L1 (mk sk) (PBytes (map of_char ''surveyor:survey-time'')) survey_time)))"

section \<open>Subscribers\<close>

text \<open>
  A \<open>Sub0\<close> keeps the topics it subscribed to, as bytes. \<open>v2\<close> says which version it is: v1 sets
  an option, v2 has functions.
\<close>

datatype topics = One pyval | Many "pyval list"

record subworld = sworld +
  subs :: "nat list set"
  start_topics :: "topics option"

definition topic_value :: "pyval \<Rightarrow> pyexc + pyval" where
  "topic_value topic =
     (case topic of PStr s \<Rightarrow> (case utf8_encode s of Inl e \<Rightarrow> Inl e | Inr b \<Rightarrow> Inr (PBytes b)) | _ \<Rightarrow> Inr topic)"

definition topic_bytes :: "pyval \<Rightarrow> nat list" where
  "topic_bytes topic = (case topic of PBytes b \<Rightarrow> b | _ \<Rightarrow> [])"

definition v1_topic_option :: "bool \<Rightarrow> string" where
  "v1_topic_option on = (if on then ''sub:subscribe'' else ''sub:unsubscribe'')"

definition v2_topic_function :: "bool \<Rightarrow> string" where
  "v2_topic_function on = (if on then ''nng_sub0_socket_subscribe'' else ''nng_sub0_socket_unsubscribe'')"

definition topic_call ::
  "nng_lib \<Rightarrow> nng_lib \<Rightarrow> bool \<Rightarrow> pyobj \<Rightarrow> bool \<Rightarrow> pyval \<Rightarrow> ('a world_scheme, pyexc, unit) prog" where
  "topic_call L1 L v2 ob on topic =
     (if v2 then
        (case topic of
           PBytes b \<Rightarrow>
             bnd (ccall L (Fn (v2_topic_function on) [CInt (handle ob), CStr b, CInt (int (length b))])) (\<lambda>r.
             check_err L1 (r_val r))
         | _ \<Rightarrow> raise_exc TypeError)
      else setopt_string_nonnull L1 ob (PBytes (map of_char (v1_topic_option on))) topic)"

definition subscribe ::
  "nng_lib \<Rightarrow> nng_lib \<Rightarrow> bool \<Rightarrow> pyobj \<Rightarrow> pyval \<Rightarrow> ('a subworld_scheme, pyexc, unit) prog" where
  "subscribe L1 L v2 ob topic =
     bnd (lift (topic_value topic)) (\<lambda>t.
     andthen (topic_call L1 L v2 ob True t) (modf (\<lambda>w. w\<lparr>subs := insert (topic_bytes t) (subs w)\<rparr>)))"

definition unsubscribe ::
  "nng_lib \<Rightarrow> nng_lib \<Rightarrow> bool \<Rightarrow> pyobj \<Rightarrow> pyval \<Rightarrow> ('a subworld_scheme, pyexc, unit) prog" where
  "unsubscribe L1 L v2 ob topic =
     bnd (lift (topic_value topic)) (\<lambda>t.
     andthen (topic_call L1 L v2 ob False t) (modf (\<lambda>w. w\<lparr>subs := subs w - {topic_bytes t}\<rparr>)))"

definition subscribe_all ::
  "nng_lib \<Rightarrow> nng_lib \<Rightarrow> bool \<Rightarrow> pyobj \<Rightarrow> pyval list \<Rightarrow> ('a subworld_scheme, pyexc, unit) prog" where
  "subscribe_all L1 L v2 ob ts = for_each (subscribe L1 L v2 ob) ts"

text \<open>\<open>unsubscribe_all\<close> goes through a list of the set, in some order; v1 ignores \<open>NoEntry\<close>.\<close>

definition unsubscribe_all ::
  "nng_lib \<Rightarrow> nng_lib \<Rightarrow> bool \<Rightarrow> (nat list set \<Rightarrow> nat list list) \<Rightarrow> pyobj
     \<Rightarrow> ('a subworld_scheme, pyexc, unit) prog" where
  "unsubscribe_all L1 L v2 order ob =
     bnd (getf subs) (\<lambda>S.
     for_each (\<lambda>b.
       try_except (unsubscribe L1 L v2 ob (PBytes b))
         (\<lambda>e. if \<not> v2 \<and> is_nng NoEntry e then ret () else raise_exc e)) (order S))"

definition v2_unsubscribe_all ::
  "nng_lib \<Rightarrow> nng_lib \<Rightarrow> (nat list set \<Rightarrow> nat list list) \<Rightarrow> pyobj
     \<Rightarrow> ('a subworld_scheme, pyexc, unit) prog" where
  "v2_unsubscribe_all L1 L = unsubscribe_all L1 L True"

definition subscriptions :: "('a subworld_scheme, pyexc, nat list set) prog" where
  "subscriptions = getf subs"

text \<open>\<open>__init__\<close> notes the topics, which \<open>_configure_protocol_options\<close> subscribes to before the
  socket listens or dials.\<close>

definition sub0_note_topics :: "topics option \<Rightarrow> ('a subworld_scheme, pyexc, unit) prog" where
  "sub0_note_topics topics = modf (\<lambda>w. w\<lparr>subs := {}, start_topics := topics\<rparr>)"

definition configure_topics ::
  "nng_lib \<Rightarrow> nng_lib \<Rightarrow> bool \<Rightarrow> (int \<Rightarrow> pyobj) \<Rightarrow> ('a subworld_scheme, pyexc, unit) prog" where
  "configure_topics L1 L v2 mk =
     bnd (getf start_topics) (\<lambda>topics.
     andthen (modf (\<lambda>w. w\<lparr>start_topics := None\<rparr>))
       (case topics of
          None \<Rightarrow> ret ()
        | Some (One t) \<Rightarrow> bnd sock_id (\<lambda>sk. subscribe_all L1 L v2 (mk sk) [t])
        | Some (Many ts) \<Rightarrow> bnd sock_id (\<lambda>sk. subscribe_all L1 L v2 (mk sk) ts)))"

definition v2_configure_topics ::
  "nng_lib \<Rightarrow> nng_lib \<Rightarrow> (int \<Rightarrow> pyobj) \<Rightarrow> ('a subworld_scheme, pyexc, unit) prog" where
  "v2_configure_topics L1 L = configure_topics L1 L True"

definition sub0_init ::
  "topics option \<Rightarrow> ('a subworld_scheme, pyexc, unit) prog \<Rightarrow> ('a subworld_scheme, pyexc, unit) prog" where
  "sub0_init topics init = andthen (sub0_note_topics topics) init"

section \<open>Surveys\<close>

text \<open>
  \<open>asurvey\<close>. The socket's own \<open>asend\<close> and \<open>arecv\<close> are arguments; they and the loop run on fuel,
  and \<open>None\<close> is a survey that has not ended. \<open>max_responses\<close> may be \<open>None\<close>.
\<close>

definition ends_survey :: "pyexc \<Rightarrow> bool" where
  "ends_survey e \<longleftrightarrow> is_nng Timeout e \<or> is_nng BadState e"

datatype 'b response = Response 'b | Over | Pending

definition next_response :: "('s, pyexc, 'b option) prog \<Rightarrow> ('s, pyexc, 'b response) prog" where
  "next_response recv_one =
     try_except (bnd recv_one (\<lambda>x. ret (case x of None \<Rightarrow> Pending | Some b \<Rightarrow> Response b)))
       (\<lambda>e. if ends_survey e then ret Over else raise_exc e)"

fun collect ::
  "nat \<Rightarrow> int option \<Rightarrow> ('s, pyexc, 'b option) prog \<Rightarrow> 'b list \<Rightarrow> ('s, pyexc, 'b list option) prog" where
  "collect 0 max_responses recv_one responses = ret None"
| "collect (Suc n) max_responses recv_one responses =
     (if (case max_responses of None \<Rightarrow> False | Some m \<Rightarrow> m \<le> int (length responses)) then ret (Some responses)
      else bnd (next_response recv_one) (\<lambda>x.
        case x of
          Response b \<Rightarrow> collect n max_responses recv_one (responses @ [b])
        | Over \<Rightarrow> ret (Some responses)
        | Pending \<Rightarrow> ret None))"

definition survey_time_option :: pyval where
  "survey_time_option = PBytes (map of_char ''surveyor:survey-time'')"

definition recv_timeout_option :: pyval where
  "recv_timeout_option = PBytes (map of_char ''recv-timeout'')"

definition set_survey_times ::
  "nng_lib \<Rightarrow> pyobj \<Rightarrow> pyval \<Rightarrow> pyval \<Rightarrow> ('a world_scheme, pyexc, unit) prog" where
  "set_survey_times L1 ob r s =
     andthen (setopt_ms L1 ob recv_timeout_option r) (setopt_ms L1 ob survey_time_option s)"

definition asurvey ::
  "nng_lib \<Rightarrow> pyobj \<Rightarrow> ('a world_scheme, pyexc, unit option) prog \<Rightarrow> ('a world_scheme, pyexc, 'b option) prog
     \<Rightarrow> nat \<Rightarrow> pyval \<Rightarrow> int option \<Rightarrow> ('a world_scheme, pyexc, 'b list option) prog" where
  "asurvey L1 ob send_one recv_one n timeout max_responses =
     bnd (getopt_ms L1 ob recv_timeout_option) (\<lambda>old_recv_timeout.
     bnd (getopt_ms L1 ob survey_time_option) (\<lambda>old_survey_time.
     andthen (whenp (timeout \<noteq> PNone) (set_survey_times L1 ob timeout timeout))
       (try_finally
         (bnd send_one (\<lambda>x. case x of None \<Rightarrow> ret None | Some _ \<Rightarrow> collect n max_responses recv_one []))
         (try_except
           (whenp (timeout \<noteq> PNone) (set_survey_times L1 ob old_recv_timeout old_survey_time))
           (\<lambda>e. if is_nng Closed e then ret () else raise_exc e)))))"

text \<open>That of v2 is the same, word by word, but sends and receives with v2's \<open>asend\<close> and \<open>arecv\<close>.\<close>

definition v2_asurvey ::
  "nng_lib \<Rightarrow> pyobj \<Rightarrow> ('a world_scheme, pyexc, unit option) prog \<Rightarrow> ('a world_scheme, pyexc, 'b option) prog
     \<Rightarrow> nat \<Rightarrow> pyval \<Rightarrow> int option \<Rightarrow> ('a world_scheme, pyexc, 'b list option) prog" where
  "v2_asurvey = asurvey"

text \<open>\<open>Surveyor0.recv_msg\<close> of v1: the end of the survey is a timeout.\<close>

definition surveyor_recv_msg :: "('s, pyexc, 'b) prog \<Rightarrow> ('s, pyexc, 'b) prog" where
  "surveyor_recv_msg recv_msg =
     try_except recv_msg
       (\<lambda>e. if is_nng BadState e then raise_exc (NNGErr Timeout ''Timed out'' 5) else raise_exc e)"

section \<open>Properties\<close>

text \<open>Every class opens the socket of its protocol, raw exactly if its keyword says so.\<close>

definition protocol_name :: "protocol \<Rightarrow> string" where
  "protocol_name p = (case p of Bus0 \<Rightarrow> ''bus0'' | Pair0 \<Rightarrow> ''pair0'' | Pair1 \<Rightarrow> ''pair1'' | Push0 \<Rightarrow> ''push0''
     | Pull0 \<Rightarrow> ''pull0'' | Pub0 \<Rightarrow> ''pub0'' | Sub0 \<Rightarrow> ''sub0'' | Req0 \<Rightarrow> ''req0'' | Rep0 \<Rightarrow> ''rep0''
     | Surveyor0 \<Rightarrow> ''surveyor0'' | Respondent0 \<Rightarrow> ''respondent0'')"

lemma protocol_opener_named:
  assumes "opener_for \<in> {protocol_opener, v2_protocol_opener}"
  shows "opener_for p raw_class given polyamorous None =
    Some (''nng_'' @ protocol_name p @ ''_open'' @
      (if raw_kwarg raw_class given then ''_raw'' else if p = Pair1 \<and> polyamorous then ''_poly'' else ''''))"
  using assms
  by (cases p) (auto simp: protocol_opener_def v2_protocol_opener_def v2_explicit_opener_def v2_raw_kwarg_def
      class_defs v2_class_defs protocol_name_def explicit_opener_def opener_of_def Let_def)

text \<open>The topics nng knows: those of the successful calls on this socket.\<close>

definition topic_event :: "bool \<Rightarrow> int \<Rightarrow> ncall \<Rightarrow> (bool \<times> nat list) option" where
  "topic_event v2 h c =
     (case c of
        Fn f [CInt k, CStr b, CInt n] \<Rightarrow>
          if v2 \<and> k = h \<and> f = v2_topic_function True then Some (True, b)
          else if v2 \<and> k = h \<and> f = v2_topic_function False then Some (False, b) else None
      | Fn f [CInt k, CStr opt, CStr b, CInt n] \<Rightarrow>
          if \<not> v2 \<and> k = h \<and> f = ''nng_socket_set'' \<and> opt = map of_char (v1_topic_option True) then Some (True, b)
          else if \<not> v2 \<and> k = h \<and> f = ''nng_socket_set'' \<and> opt = map of_char (v1_topic_option False)
          then Some (False, b) else None
      | _ \<Rightarrow> None)"

definition nng_topic_step :: "bool \<Rightarrow> int \<Rightarrow> nat list set \<Rightarrow> ncall \<times> nres \<Rightarrow> nat list set" where
  "nng_topic_step v2 h topics x =
     (if r_val (snd x) = 0 \<and> r_exn (snd x) = None then
        (case topic_event v2 h (fst x) of
           None \<Rightarrow> topics
         | Some (on, b) \<Rightarrow> if on then insert b topics else topics - {b})
      else topics)"

definition nng_topics :: "bool \<Rightarrow> int \<Rightarrow> trace \<Rightarrow> nat list set" where
  "nng_topics v2 h tr = foldl (nng_topic_step v2 h) {} tr"

definition mirrors :: "bool \<Rightarrow> pyobj \<Rightarrow> 'a subworld_scheme \<Rightarrow> bool" where
  "mirrors v2 ob w \<longleftrightarrow> subs w = nng_topics v2 (handle ob) (calls w)"

lemma nng_topics_snoc: "nng_topics v2 h (tr @ [x]) = nng_topic_step v2 h (nng_topics v2 h tr) x"
  "nng_topics v2 h (tr @ [x, y]) = nng_topic_step v2 h (nng_topic_step v2 h (nng_topics v2 h tr) x) y"
  by (simp_all add: nng_topics_def)

lemma topic_event_Strerror [simp]: "topic_event v2 h (Strerror n) = None"
  by (simp add: topic_event_def)

lemma topic_names:
  "v2_topic_function True \<noteq> v2_topic_function False"
  "(map of_char (v1_topic_option True) :: nat list) \<noteq> map of_char (v1_topic_option False)"
  by (simp_all add: v2_topic_function_def v1_topic_option_def)

lemma bnd_ret: "bnd (ret x) f = f x"
  by (simp add: bnd_def ret_def fun_eq_iff)

lemma bnd_raise: "bnd (raise_exc e) f = raise_exc e"
  by (simp add: bnd_def raise_exc_def fun_eq_iff)

text \<open>The call that is made for a topic, and what it is to the topics nng knows.\<close>

definition topic_msg :: "bool \<Rightarrow> int \<Rightarrow> bool \<Rightarrow> nat list \<Rightarrow> ncall" where
  "topic_msg v2 h on b =
     (if v2 then Fn (v2_topic_function on) [CInt h, CStr b, CInt (int (length b))]
      else Fn ''nng_socket_set'' [CInt h, CStr (map of_char (v1_topic_option on)), CStr b, CInt (int (length b))])"

lemma topic_event_msg: "topic_event v2 h (topic_msg v2 h on b) = Some (on, b)"
  using topic_names by (cases on) (auto simp: topic_msg_def topic_event_def)

lemma topic_call_bytes:
  assumes "kind ob = KSocket" and "own_lib ob = Some L"
  shows "topic_call L1 L v2 ob on (PBytes b) =
    (if v2 \<or> has_attr L ''nng_socket_set''
     then bnd (ccall L (topic_msg v2 (handle ob) on b)) (\<lambda>r. check_err L1 (r_val r))
     else raise_exc AttributeError)"
  using assms
  by (auto simp: topic_call_def topic_msg_def setopt_string_nonnull_def to_char_def py_len_def lift_def prog_defs
      get_inst_and_func_def resolve_lib_ffi_def opt_call_def function_name_def kind_name_def fun_eq_iff
      split: prod.split sum.split)

lemma topic_call_other:
  assumes "kind ob = KSocket" and "own_lib ob = Some L" and "\<And>b. t \<noteq> PBytes b" and "\<And>x. t \<noteq> PStr x"
  shows "\<exists>e. topic_call L1 L v2 ob on t = raise_exc e"
  using assms
  by (cases t; cases v2; cases "has_attr L ''nng_socket_set''")
    (auto simp: topic_call_def setopt_string_nonnull_def to_char_def py_len_def lift_def bnd_raise bnd_ret
      get_inst_and_func_def resolve_lib_ffi_def function_name_def kind_name_def)

text \<open>The call changes nng's topics exactly when it succeeds.\<close>

lemma wp_topic_call:
  fixes s :: "'a subworld_scheme"
  assumes ob: "kind ob = KSocket" "own_lib ob = Some L" and s: "mirrors v2 ob s" and t: "\<And>x. t \<noteq> PStr x"
  shows "wp (topic_call L1 L v2 ob on t)
    (\<lambda>_ u. subs u = subs s \<and> nng_topics v2 (handle ob) (calls u)
       = (if on then insert (topic_bytes t) (subs s) else subs s - {topic_bytes t}))
    (\<lambda>_. mirrors v2 ob) s"
proof (cases "\<exists>b. t = PBytes b")
  case True
  then show ?thesis
    using s
    by (auto simp: topic_call_bytes [OF ob] wp_simps mirrors_def nng_topics_snoc nng_topic_step_def
        topic_event_msg topic_bytes_def)
next
  case False
  with t have "\<exists>e. (topic_call L1 L v2 ob on t :: ('a subworld_scheme, pyexc, unit) prog) = raise_exc e"
    by (intro topic_call_other [OF ob]) auto
  then obtain e where "(topic_call L1 L v2 ob on t :: ('a subworld_scheme, pyexc, unit) prog) = raise_exc e" ..
  with s show ?thesis by (simp only: wp_raise)
qed

lemma topic_value_no_str: "topic_value t = Inr v \<Longrightarrow> v \<noteq> PStr x"
  by (auto simp: topic_value_def split: pyval.splits sum.splits)

lemma mirrors_subscribe:
  assumes ob: "kind ob = KSocket" "own_lib ob = Some L" and s: "mirrors v2 ob s"
  shows "wp (subscribe L1 L v2 ob t) (\<lambda>_. mirrors v2 ob) (\<lambda>_. mirrors v2 ob) s"
    and "wp (unsubscribe L1 L v2 ob t) (\<lambda>_. mirrors v2 ob) (\<lambda>_. mirrors v2 ob) s"
proof -
  have call: "wp (andthen (topic_call L1 L v2 ob on v) (modf f)) (\<lambda>_. mirrors v2 ob) (\<lambda>_. mirrors v2 ob) s"
    if "\<And>x. v \<noteq> PStr x" and f: "\<And>u. calls (f u) = calls u"
      "\<And>u. subs (f u) = (if on then insert (topic_bytes v) (subs u) else subs u - {topic_bytes v})"
    for on v and f :: "'a subworld_scheme \<Rightarrow> 'a subworld_scheme"
    unfolding wp_andthen wp_modf
    by (rule wp_mono [OF wp_topic_call [OF ob s that(1)]]) (simp_all add: mirrors_def f)
  show "wp (subscribe L1 L v2 ob t) (\<lambda>_. mirrors v2 ob) (\<lambda>_. mirrors v2 ob) s"
    unfolding subscribe_def wp_bnd wp_lift
    using s topic_value_no_str by (auto intro!: call)
  show "wp (unsubscribe L1 L v2 ob t) (\<lambda>_. mirrors v2 ob) (\<lambda>_. mirrors v2 ob) s"
    unfolding unsubscribe_def wp_bnd wp_lift
    using s topic_value_no_str by (auto intro!: call)
qed

text \<open>The operations of a subscriber, in any order, each of which may raise.\<close>

datatype sub_op = Subscribe pyval | Unsubscribe pyval | Subscribe_all "pyval list" | Unsubscribe_all

definition sub_op ::
  "nng_lib \<Rightarrow> nng_lib \<Rightarrow> bool \<Rightarrow> (nat list set \<Rightarrow> nat list list) \<Rightarrow> pyobj \<Rightarrow> sub_op
     \<Rightarrow> ('a subworld_scheme, pyexc, unit) prog" where
  "sub_op L1 L v2 order ob x =
     (case x of
        Subscribe t \<Rightarrow> subscribe L1 L v2 ob t
      | Unsubscribe t \<Rightarrow> unsubscribe L1 L v2 ob t
      | Subscribe_all ts \<Rightarrow> subscribe_all L1 L v2 ob ts
      | Unsubscribe_all \<Rightarrow> unsubscribe_all L1 L v2 order ob)"

lemma mirrors_op:
  assumes ob: "kind ob = KSocket" "own_lib ob = Some L" and s: "mirrors v2 ob s"
  shows "wp (sub_op L1 L v2 order ob x) (\<lambda>_. mirrors v2 ob) (\<lambda>_. mirrors v2 ob) s"
proof (cases x)
  case (Subscribe_all ts)
  then show ?thesis
    using s by (auto simp: sub_op_def subscribe_all_def intro!: wp_for_each mirrors_subscribe ob)
next
  case Unsubscribe_all
  have "wp (try_except (unsubscribe L1 L v2 ob (PBytes b))
         (\<lambda>e. if \<not> v2 \<and> is_nng NoEntry e then ret () else raise_exc e)) (\<lambda>_. mirrors v2 ob) (\<lambda>_. mirrors v2 ob) t"
    if "mirrors v2 ob t" for b and t :: "'a subworld_scheme"
    unfolding wp_except
    by (rule wp_mono [OF mirrors_subscribe(2) [OF ob that]]) (auto simp: wp_ret wp_raise)
  then show ?thesis
    using s Unsubscribe_all
    by (auto simp: sub_op_def unsubscribe_all_def wp_bnd wp_getf intro!: wp_for_each)
qed (use s in \<open>auto simp: sub_op_def intro!: mirrors_subscribe ob\<close>)

text \<open>C26. The topics a subscriber reports are those nng delivers. After any sequence of
  \<open>subscribe\<close>, \<open>unsubscribe\<close>, \<open>subscribe_all\<close> and \<open>unsubscribe_all\<close> on a \<open>Sub0\<close> of either
  version, on topics of any type, called one after the other, where each may raise because nng refuses
  or an argument is wrong, \<open>subscriptions\<close> is the set of topics that nng was successfully
  told to deliver and not told to drop since.\<close>

theorem subscriptions_mirror:
  assumes "kind ob = KSocket" and "own_lib ob = Some L" and "mirrors v2 ob s"
  shows "mirrors v2 ob (snd (for_each (\<lambda>x. try_except (sub_op L1 L v2 order ob x) (\<lambda>_. ret ())) ops s))"
proof (rule wp_stateI, rule wp_for_each)
  fix x and t :: "'a subworld_scheme"
  assume "mirrors v2 ob t"
  then show "wp (try_except (sub_op L1 L v2 order ob x) (\<lambda>_. ret ())) (\<lambda>_. mirrors v2 ob) (\<lambda>_. mirrors v2 ob) t"
    unfolding wp_except wp_ret by (intro mirrors_op [OF assms(1,2)])
qed (rule assms(3))

definition sub_world0 :: subworld where
  "sub_world0 = sworld.extend (sworld0\<lparr>s_sock := Some 9\<rparr>) \<lparr>subs = {}, start_topics = None\<rparr>"

definition sub_ob :: pyobj where
  "sub_ob = \<lparr>kind = KSocket, handle = 9, own_lib = Some yes_lib, obj_id = 0\<rparr>"

theorem subscriptions_mirror_witness:
  "mirrors False sub_ob (snd (for_each (\<lambda>x. try_except (sub_op yes_lib yes_lib False (\<lambda>_. []) sub_ob x) (\<lambda>_. ret ()))
     [Subscribe (PStr [97]), Subscribe (PBytes [98]), Subscribe (PInt 3), Unsubscribe (PBytes [97])] sub_world0))"
  by (rule subscriptions_mirror)
    (simp_all add: sub_ob_def mirrors_def nng_topics_def sub_world0_def sworld0_def sworld.defs world.defs world0_def)

text \<open>
  Two threads: nng is told outside \<open>_sub_lock\<close>, so the set can end up different. A thread is
  between the call and the update of the set, or not.
\<close>

datatype sub_thread = Free | Between bool "nat list"

record sub_sys =
  in_nng :: "nat list set"
  in_set :: "nat list set"
  sub_threads :: "nat \<Rightarrow> sub_thread"

inductive sub_step :: "sub_sys \<Rightarrow> sub_sys \<Rightarrow> bool" where
  sub_tells: "sub_threads s i = Free \<Longrightarrow>
    sub_step s (s\<lparr>in_nng := (if on then insert b (in_nng s) else in_nng s - {b}),
      sub_threads := (sub_threads s)(i := Between on b)\<rparr>)"
| sub_notes: "sub_threads s i = Between on b \<Longrightarrow>
    sub_step s (s\<lparr>in_set := (if on then insert b (in_set s) else in_set s - {b}),
      sub_threads := (sub_threads s)(i := Free)\<rparr>)"

definition sub_start :: "sub_sys \<Rightarrow> bool" where
  "sub_start s \<longleftrightarrow> in_nng s = {} \<and> in_set s = {} \<and> sub_threads s = (\<lambda>_. Free)"

lemma subscriptions_race:
  "\<exists>s. reach sub_start sub_step s \<and> (\<forall>i. sub_threads s i = Free) \<and> in_nng s = {} \<and> in_set s = {b}"
proof -
  define s0 where "s0 = \<lparr>in_nng = {}, in_set = {}, sub_threads = (\<lambda>_. Free)\<rparr>"
  define s1 where "s1 = s0\<lparr>in_nng := {b}, sub_threads := (\<lambda>_. Free)(0 := Between True b)\<rparr>"
  define s2 where "s2 = s1\<lparr>in_nng := {}, sub_threads := (sub_threads s1)(1 := Between False b)\<rparr>"
  define s3 where "s3 = s2\<lparr>in_set := {}, sub_threads := (sub_threads s2)(1 := Free)\<rparr>"
  define s4 where "s4 = s3\<lparr>in_set := {b}, sub_threads := (sub_threads s3)(0 := Free)\<rparr>"
  have r0: "reach sub_start sub_step s0" by (rule reach_init) (simp add: sub_start_def s0_def)
  have t1: "sub_step s0 s1" using sub_tells [of s0 0 True b] by (simp add: s1_def s0_def)
  have t2: "sub_step s1 s2" using sub_tells [of s1 1 False b] by (simp add: s2_def s1_def s0_def)
  have t3: "sub_step s2 s3" using sub_notes [of s2 1 False b] by (simp add: s3_def s2_def s1_def s0_def)
  have t4: "sub_step s3 s4" using sub_notes [of s3 0 True b] by (simp add: s4_def s3_def s2_def s1_def s0_def)
  have "reach sub_start sub_step s4"
    by (rule reach_step [OF reach_step [OF reach_step [OF reach_step [OF r0 t1] t2] t3] t4])
  then show ?thesis by (intro exI [of _ s4]) (simp add: s4_def s3_def s2_def s1_def s0_def)
qed

text \<open>A topic that nng does not know stays in the set of v1: \<open>unsubscribe_all\<close> ignores the error but
  does not drop the topic.\<close>

lemma unsubscribe_all_keeps:
  assumes ob: "kind ob = KSocket" "own_lib ob = Some L" "has_attr L ''nng_socket_set''"
    and no_entry: "\<And>tr c. r_exn (fn L tr c) = None" "\<And>tr c. r_val (fn L tr c) = err L1 ENOENT"
    and strerror: "\<And>tr c. r_exn (fn L1 tr c) = None"
    and errs: "exc_for (err L1) (err L1 ENOENT) = NoEntry" "err L1 ENOENT \<noteq> 0"
    and s: "subs s = {b}"
  shows "wp (unsubscribe_all L1 L False (\<lambda>_. [b]) ob) (\<lambda>_ t. subs t = {b}) (\<lambda>_ _. False) s"
  using assms
  by (simp add: unsubscribe_all_def wp_simps unsubscribe_def topic_value_def topic_call_bytes [OF ob(1,2)])

section \<open>The result of a survey\<close>

text \<open>What consecutive calls of \<open>arecv\<close> return.\<close>

fun responses_of :: "('s, pyexc, 'b option) prog \<Rightarrow> 's \<Rightarrow> 'b list \<Rightarrow> 's \<Rightarrow> bool" where
  "responses_of m s [] t \<longleftrightarrow> t = s"
| "responses_of m s (b # bs) t \<longleftrightarrow> (\<exists>u. m s = (Inr (Some b), u) \<and> responses_of m u bs t)"

definition at_most :: "int option \<Rightarrow> 'b list \<Rightarrow> 'b list" where
  "at_most max_responses bs = (case max_responses of None \<Rightarrow> bs | Some m \<Rightarrow> take (nat m) bs)"

lemma collect_responses:
  assumes "responses_of m s bs u" and "m u = (Inl e, t)" and "ends_survey e" and "length bs < n"
  shows "fst (collect n mx m acc s) =
    Inr (Some (case mx of None \<Rightarrow> acc @ bs | Some k \<Rightarrow> acc @ take (nat k - length acc) bs))"
  using assms
proof (induction bs arbitrary: s acc n)
  case Nil
  then obtain k where "n = Suc k" by (cases n) auto
  with Nil show ?case
    by (auto simp: next_response_def prog_defs split: option.split)
next
  case (Cons b bs)
  then obtain k v where n: "n = Suc k" "length bs < k" and v: "m s = (Inr (Some b), v)" "responses_of m v bs u"
    by (cases n) auto
  note IH = Cons.IH [OF v(2) Cons.prems(2,3) n(2), of "acc @ [b]"]
  have step: "next_response m s = (Inr (Response b), v)"
    using v(1) by (simp add: next_response_def prog_defs)
  show ?case
  proof (cases mx)
    case None
    with IH step show ?thesis by (simp add: n(1) bnd_def)
  next
    case (Some j)
    show ?thesis
    proof (cases "j \<le> int (length acc)")
      case True
      with Some show ?thesis by (simp add: n(1) ret_def)
    next
      case False
      then have "nat j - length acc = Suc (nat j - length (acc @ [b]))" by simp
      with False Some IH step show ?thesis by (simp add: n(1) bnd_def)
    qed
  qed
qed

text \<open>C27. A survey returns every response it received, in order. When \<open>arecv\<close> returns the
  responses \<open>bs\<close> one after the other and then raises \<open>Timeout\<close> or \<open>BadState\<close>, because the
  survey has expired, the loop of \<open>asurvey\<close> ends within one round more than there are responses and
  returns \<open>bs\<close>, cut off at \<open>max_responses\<close> if one was given (nothing for zero or less); the
  expiry itself is not an error.\<close>

theorem survey_collects:
  assumes "responses_of recv_one s bs u" and "recv_one u = (Inl e, t)" and "ends_survey e" and "length bs < n"
  shows "fst (collect n max_responses recv_one [] s) = Inr (Some (at_most max_responses bs))"
  using collect_responses [OF assms, of max_responses "[]"]
  by (simp add: at_most_def split: option.split_asm option.split)

definition list_recv :: "(nat list, pyexc, nat option) prog" where
  "list_recv s = (case s of [] \<Rightarrow> (Inl (NNGErr Timeout '''' 5), []) | x # xs \<Rightarrow> (Inr (Some x), xs))"

theorem survey_collects_witness:
  "fst (collect 4 (Some 2) list_recv [] [7, 8, 9]) = Inr (Some (at_most (Some 2) [7, 8, 9]))"
  by (rule survey_collects [where u = "[]" and t = "[]" and e = "NNGErr Timeout '''' 5"])
    (simp_all add: list_recv_def ends_survey_def is_nng_def)

end
