(* ===== verification/V2.thy ===== *)
theory V2
  imports Sockets Tls Stats
begin

text \<open>
  \<^verbatim>\<open>pynng/v2/nng.py\<close>: what version 2 does its own way. TLS is configured per endpoint: a
  dialer or listener is created, given its configuration and only then started, and is closed again
  when one of these steps fails. The library of v2 has number 1; \<open>L1\<close> is v1's, which some calls of
  \<open>check_err\<close> use for the text of an error.
\<close>

section \<open>State\<close>

text \<open>The number of v2's library.\<close>

definition V2_LIB :: nat where
  "V2_LIB = 1"

text \<open>
  A socket of v2: \<open>default_tls\<close> is \<open>_tls_config\<close>, \<open>tls_refs\<close> holds \<open>_tls_config_ref\<close> of the
  endpoint objects (whether a dialer, and its handle), and the last five fields are the state of
  the TLS objects of the process.
\<close>

record v2world = sworld +
  default_tls :: "nat option"
  tls_refs :: "((bool \<times> int) \<times> nat) list"
  v_tls :: "nat \<Rightarrow> tls_config"
  v_next :: nat
  v_libs :: "nat list"
  v_retained :: "nat list"
  v_refs :: "nat \<Rightarrow> (pyval \<times> pyval) list"

definition in_tls :: "(tworld, pyexc, 'b) prog \<Rightarrow> ('a v2world_scheme, pyexc, 'b) prog" where
  "in_tls m w =
     (case m \<lparr>calls = calls w, init_pid = init_pid w, is_forked_child = is_forked_child w,
              getpid = getpid w, fin_v1 = fin_v1 w, fin_v2 = fin_v2 w,
              tls = v_tls w, next_tls = v_next w, libs = v_libs w, retained = v_retained w,
              pointer_refs = v_refs w\<rparr> of
        (r, t) \<Rightarrow>
          (r, w\<lparr>calls := calls t, init_pid := init_pid t, is_forked_child := is_forked_child t,
                getpid := getpid t, fin_v1 := fin_v1 t, fin_v2 := fin_v2 t,
                v_tls := tls t, v_next := next_tls t, v_libs := libs t, v_retained := retained t,
                v_refs := pointer_refs t\<rparr>))"

definition retain_tls :: "nat \<Rightarrow> ('a v2world_scheme, pyexc, unit) prog" where
  "retain_tls i = modf (\<lambda>w. w\<lparr>v_retained := retain_closed (Some i) (v_retained w)\<rparr>)"

section \<open>The socket's default configuration\<close>

definition set_default_tls :: "pyval \<Rightarrow> ('a v2world_scheme, pyexc, unit) prog" where
  "set_default_tls value = (case value of
     PNone \<Rightarrow> modf (\<lambda>w. w\<lparr>default_tls := None\<rparr>)
   | PTls i \<Rightarrow> andthen (modf (\<lambda>w. w\<lparr>default_tls := Some i\<rparr>)) (retain_tls i)
   | _ \<Rightarrow> raise_exc ValueError)"

text \<open>\<open>_endpoint_tls\<close>: the configuration of a new endpoint and whether it was given for it.\<close>

definition endpoint_tls :: "pyval \<Rightarrow> ('a v2world_scheme, pyexc, nat option \<times> bool) prog" where
  "endpoint_tls cfg = (case cfg of
     PNone \<Rightarrow> bnd (getf default_tls) (\<lambda>d. ret (d, False))
   | PTls i \<Rightarrow> ret (Some i, True)
   | _ \<Rightarrow> raise_exc ValueError)"

section \<open>Dialing and listening\<close>

definition set_endpoint_tls ::
  "nng_lib \<Rightarrow> bool \<Rightarrow> int \<Rightarrow> nat \<Rightarrow> bool \<Rightarrow> ('a v2world_scheme, pyexc, bool) prog" where
  "set_endpoint_tls L d ep i explicit =
     bnd (in_tls (config_for V2_LIB i)) (\<lambda>p.
     bnd (ccall L (T (Ep_set_tls d ep p))) (\<lambda>r.
     if r_val r = err L ENOTSUP \<and> \<not> explicit then ret False
     else andthen (check_err L (r_val r)) (ret True)))"

definition ep_close :: "bool \<Rightarrow> int \<Rightarrow> ncall" where
  "ep_close d ep = S (if d then Dialer_close ep else Listener_close ep)"

definition ep_id :: "bool \<Rightarrow> int \<Rightarrow> ncall" where
  "ep_id d ep = S (if d then Dialer_id ep else Listener_id ep)"

definition ep_direct :: "bool \<Rightarrow> int \<Rightarrow> string \<Rightarrow> int \<Rightarrow> ncall" where
  "ep_direct d sk a flags = S (if d then Dial sk a flags else Listen sk a flags)"

text \<open>
  \<open>_dial\<close> and the body of \<open>listen\<close>, which are the same but for the functions of nng they
  call (\<open>d\<close> is true for a dialer). First the endpoint, and whether it got a configuration.
\<close>

definition configure_endpoint ::
  "nng_lib \<Rightarrow> bool \<Rightarrow> int \<Rightarrow> nat option \<times> bool \<Rightarrow> bool \<Rightarrow> int \<Rightarrow> ('a v2world_scheme, pyexc, bool) prog" where
  "configure_endpoint L d ep cfg start flags =
     try_except
       (bnd (case fst cfg of None \<Rightarrow> ret False | Some i \<Rightarrow> set_endpoint_tls L d ep i (snd cfg)) (\<lambda>applied.
        andthen (whenp start (bnd (ccall L (T (Ep_start d ep flags))) (\<lambda>r. check_err L (r_val r))))
          (ret applied)))
       (\<lambda>e. bnd (ccall L (ep_close d ep)) (\<lambda>_. raise_exc e))"

definition make_endpoint ::
  "nng_lib \<Rightarrow> bool \<Rightarrow> pyval \<Rightarrow> int \<Rightarrow> nat option \<times> bool \<Rightarrow> bool
     \<Rightarrow> ('a v2world_scheme, pyexc, int \<times> bool) prog" where
  "make_endpoint L d address flags cfg start =
     bnd sock_id (\<lambda>sk.
     bnd (lift (to_char False address)) (\<lambda>a.
     if fst cfg \<noteq> None \<or> \<not> start then
       bnd (ccall L (T (Ep_create d sk (addr_string a)))) (\<lambda>r.
       andthen (check_err L (r_val r)) (
       bnd (configure_endpoint L d (r_out r) cfg start flags) (\<lambda>applied. ret (r_out r, applied))))
     else
       bnd (ccall L (ep_direct d sk (addr_string a) flags)) (\<lambda>r.
       andthen (check_err L (r_val r)) (ret (r_out r, False)))))"

text \<open>Then the Python object, which keeps its configuration referenced, and the socket's table.\<close>

definition register_endpoint :: "bool \<Rightarrow> int \<Rightarrow> int \<Rightarrow> 'a v2world_scheme \<Rightarrow> 'a v2world_scheme" where
  "register_endpoint d i ep w =
     (if d then w\<lparr>dialers := AList.update i ep (dialers w)\<rparr>
      else w\<lparr>listeners := AList.update i ep (listeners w)\<rparr>)"

definition keep_tls :: "bool \<Rightarrow> int \<Rightarrow> nat \<Rightarrow> ('a v2world_scheme, pyexc, unit) prog" where
  "keep_tls d ep i =
     andthen (modf (\<lambda>w. w\<lparr>tls_refs := AList.update (d, ep) i (tls_refs w)\<rparr>)) (retain_tls i)"

definition open_endpoint ::
  "nng_lib \<Rightarrow> bool \<Rightarrow> pyval \<Rightarrow> int \<Rightarrow> pyval \<Rightarrow> bool \<Rightarrow> ('a v2world_scheme, pyexc, int) prog" where
  "open_endpoint L d address flags tls_config start =
     bnd (endpoint_tls tls_config) (\<lambda>cfg.
     bnd (make_endpoint L d address flags cfg start) (\<lambda>(ep, applied).
     bnd (ccall L (ep_id d ep)) (\<lambda>i.
     andthen (case fst cfg of None \<Rightarrow> ret () | Some c \<Rightarrow> whenp applied (keep_tls d ep c))
       (andthen (modf (register_endpoint d (r_val i) ep)) (ret ep)))))"

definition v2_dial_flags ::
  "nng_lib \<Rightarrow> pyval \<Rightarrow> int \<Rightarrow> pyval \<Rightarrow> bool \<Rightarrow> ('a v2world_scheme, pyexc, int) prog" where
  "v2_dial_flags L address flags tls_config start = open_endpoint L True address flags tls_config start"

definition v2_listen ::
  "nng_lib \<Rightarrow> pyval \<Rightarrow> int \<Rightarrow> pyval \<Rightarrow> bool \<Rightarrow> ('a v2world_scheme, pyexc, int) prog" where
  "v2_listen L address flags tls_config start =
     andthen check_fork (open_endpoint L False address flags tls_config start)"

text \<open>\<open>dial\<close>: without \<open>start\<close> the blocking mode does not matter.\<close>

definition v2_dial ::
  "nng_lib \<Rightarrow> pyval \<Rightarrow> bool option \<Rightarrow> pyval \<Rightarrow> bool \<Rightarrow> ('a v2world_scheme, pyexc, int) prog" where
  "v2_dial L address block tls_config start =
     (let blocking = v2_dial_flags L address 0 tls_config True;
          background = v2_dial_flags L address (flag_nonblock L) tls_config True
      in andthen check_fork (
         if \<not> start then v2_dial_flags L address 0 tls_config False
         else case block of
           Some True \<Rightarrow> blocking
         | Some False \<Rightarrow> background
         | None \<Rightarrow>
             try_except (andthen check_fork blocking)
               (\<lambda>e. if is_nng ConnectionRefused e then andthen check_fork background else raise_exc e)))"

text \<open>\<open>Dialer.start\<close>, \<open>Listener.start\<close> and the \<open>tls_config\<close> setters of both.\<close>

definition endpoint_start :: "nng_lib \<Rightarrow> bool \<Rightarrow> int \<Rightarrow> int \<Rightarrow> ('a world_scheme, pyexc, unit) prog" where
  "endpoint_start L d ep flags =
     bnd (ccall L (T (Ep_start d ep flags))) (\<lambda>r. check_err L (r_val r))"

definition dialer_start :: "nng_lib \<Rightarrow> int \<Rightarrow> bool \<Rightarrow> ('a world_scheme, pyexc, unit) prog" where
  "dialer_start L ep block = endpoint_start L True ep (if block then 0 else flag_nonblock L)"

definition listener_start :: "nng_lib \<Rightarrow> int \<Rightarrow> int \<Rightarrow> ('a world_scheme, pyexc, unit) prog" where
  "listener_start L ep flags = endpoint_start L False ep flags"

definition set_ep_tls_attr :: "nng_lib \<Rightarrow> bool \<Rightarrow> int \<Rightarrow> pyval \<Rightarrow> ('a v2world_scheme, pyexc, unit) prog" where
  "set_ep_tls_attr L d ep value = (case value of
     PTls i \<Rightarrow>
       bnd (in_tls (config_for V2_LIB i)) (\<lambda>p.
       bnd (ccall L (T (Ep_set_tls d ep p))) (\<lambda>r.
       andthen (check_err L (r_val r)) (keep_tls d ep i)))
   | _ \<Rightarrow> raise_exc ValueError)"

definition get_ep_tls :: "bool \<Rightarrow> int \<Rightarrow> 'a v2world_scheme \<Rightarrow> nat option" where
  "get_ep_tls d ep w = map_of (tls_refs w) (d, ep)"

text \<open>\<open>__init__\<close>: the base class opens the socket, and only then v2's own \<open>listen\<close> and
  \<open>dial\<close> are called.\<close>

definition v2_socket_init ::
  "nng_lib \<Rightarrow> nng_lib \<Rightarrow> string option \<Rightarrow> (int \<Rightarrow> pyobj) \<Rightarrow> ('a v2world_scheme, pyexc, unit) prog
     \<Rightarrow> (string \<Rightarrow> pyval) \<Rightarrow> pyval \<Rightarrow> bool option \<Rightarrow> ('a v2world_scheme, pyexc, unit) prog" where
  "v2_socket_init L1 L opener mk configure args tls_config block_on_dial =
     andthen (modf (\<lambda>w. w\<lparr>default_tls := None\<rparr>)) (
     andthen (whenp (tls_config \<noteq> PNone) (set_default_tls tls_config)) (
     andthen (socket_init L1 L opener mk configure (args(''listen'' := PNone, ''dial'' := PNone)) block_on_dial) (
     andthen (whenp (args ''listen'' \<noteq> PNone)
       (bnd (v2_listen L (args ''listen'') 0 PNone True) (\<lambda>_. ret ())))
       (whenp (args ''dial'' \<noteq> PNone)
         (bnd (v2_dial L (args ''dial'') block_on_dial PNone True) (\<lambda>_. ret ()))))))"

section \<open>Attributes with functions of their own\<close>

text \<open>The properties of a socket; \<open>check_err\<close> is called with v1's library.\<close>

definition socket_call :: "nng_lib \<Rightarrow> nng_lib \<Rightarrow> string \<Rightarrow> ('a sworld_scheme, pyexc, nres) prog" where
  "socket_call L1 L f =
     bnd sock_id (\<lambda>sk. bnd (ccall L (Fn f [CInt sk, COut])) (\<lambda>r. andthen (check_err L1 (r_val r)) (ret r)))"

definition v2_protocol where
  "v2_protocol L1 L = bnd (socket_call L1 L ''nng_socket_proto_id'') (\<lambda>r. ret (PInt (r_out r)))"

definition v2_peer where
  "v2_peer L1 L = bnd (socket_call L1 L ''nng_socket_peer_id'') (\<lambda>r. ret (PInt (r_out r)))"

definition v2_recv_fd where
  "v2_recv_fd L1 L = bnd (socket_call L1 L ''nng_socket_get_recv_poll_fd'') (\<lambda>r. ret (PInt (r_out r)))"

definition v2_send_fd where
  "v2_send_fd L1 L = bnd (socket_call L1 L ''nng_socket_get_send_poll_fd'') (\<lambda>r. ret (PInt (r_out r)))"

definition v2_raw where
  "v2_raw L1 L = bnd (socket_call L1 L ''nng_socket_raw'') (\<lambda>r. ret (PBool (r_out r \<noteq> 0)))"

definition string_of :: "nres \<Rightarrow> ('s, pyexc, pyval) prog" where
  "string_of r = bnd (lift (utf8_decode (map unat (r_bytes r)))) (\<lambda>x. ret (PStr x))"

definition v2_protocol_name where
  "v2_protocol_name L1 L = bnd (socket_call L1 L ''nng_socket_proto_name'') string_of"

definition v2_peer_name where
  "v2_peer_name L1 L = bnd (socket_call L1 L ''nng_socket_peer_name'') string_of"

text \<open>\<open>_url_string\<close> measures, allocates and formats.\<close>

definition url_string :: "nng_lib \<Rightarrow> int \<Rightarrow> ('a world_scheme, pyexc, pyval) prog" where
  "url_string L urlp =
     bnd (ccall L (Fn ''nng_url_sprintf'' [CInt 0, CInt 0, CInt urlp])) (\<lambda>n.
     let size = r_val n + 1 in
     if size < 0 then raise_exc ValueError
     else bnd (ccall L (Fn ''nng_url_sprintf'' [COut, CInt size, CInt urlp])) string_of)"

definition endpoint_url :: "nng_lib \<Rightarrow> bool \<Rightarrow> int \<Rightarrow> ('a world_scheme, pyexc, pyval) prog" where
  "endpoint_url L d ep =
     bnd (ccall L (Fn (if d then ''nng_dialer_get_url'' else ''nng_listener_get_url'') [CInt ep, COut])) (\<lambda>r.
     andthen (check_err L (r_val r)) (url_string L (r_out r)))"

text \<open>The addresses and the scheme of a pipe; \<open>sa_of\<close> and \<open>conv\<close> are the address a call filled
  in and \<open>_nng_sockaddr\<close>.\<close>

definition pipe_address ::
  "(nres \<Rightarrow> 'sa) \<Rightarrow> ('sa \<Rightarrow> (pyexc + 'pa)) \<Rightarrow> nng_lib \<Rightarrow> nng_lib \<Rightarrow> string \<Rightarrow> int
     \<Rightarrow> ('a world_scheme, pyexc, 'pa) prog" where
  "pipe_address sa_of conv L1 L f p =
     bnd (ccall L (Fn f [CInt p, COut])) (\<lambda>r. andthen (check_err L1 (r_val r)) (lift (conv (sa_of r))))"

definition pipe_local where "pipe_local sa_of conv L1 L = pipe_address sa_of conv L1 L ''nng_pipe_self_addr''"
definition pipe_remote where "pipe_remote sa_of conv L1 L = pipe_address sa_of conv L1 L ''nng_pipe_peer_addr''"

definition pipe_scheme :: "nng_lib \<Rightarrow> nng_lib \<Rightarrow> int \<Rightarrow> ('a world_scheme, pyexc, pyval) prog" where
  "pipe_scheme L1 L p =
     bnd (ccall L (Fn ''nng_pipe_get_scheme'' [CInt p, COut])) (\<lambda>r. andthen (check_err L1 (r_val r)) (string_of r))"

text \<open>
  \<open>local_address\<close> and \<open>remote_address\<close> of an endpoint: the address of the first of the
  socket's pipes (\<open>ps\<close>) that belongs to it. A pipe of an endpoint that the socket does not know raises
  \<open>TypeError\<close> or \<open>KeyError\<close> and is passed over. A listener has no remote address.
\<close>

fun endpoint_address ::
  "nng_lib \<Rightarrow> bool \<Rightarrow> int \<Rightarrow> (int \<Rightarrow> ('a sworld_scheme, pyexc, 'pa) prog) \<Rightarrow> int list
     \<Rightarrow> ('a sworld_scheme, pyexc, 'pa option) prog" where
  "endpoint_address L d ep address [] = ret None"
| "endpoint_address L d ep address (p # ps) =
     bnd (try_except
       (bnd (if d then pipe_dialer L p else pipe_listener L p) (\<lambda>owner.
        if owner = ep then bnd (address p) (\<lambda>a. ret (Some a)) else ret None))
       (\<lambda>e. if e = TypeError \<or> e = KeyError then ret None else raise_exc e)) (\<lambda>x.
     case x of None \<Rightarrow> endpoint_address L d ep address ps | Some a \<Rightarrow> ret (Some a))"

definition listener_remote :: "('s, pyexc, 'pa option) prog" where
  "listener_remote = ret None"

section \<open>Statistics of v2\<close>

definition v2_stats where "v2_stats n L1 lib_of = stats n L1 (lib_of V2_LIB)"
definition v2_socket_stats where "v2_socket_stats n L1 lib_of sock = socket_stats n L1 lib_of sock V2_LIB"

section \<open>No endpoint runs without its configuration\<close>

text \<open>
  The configuration that a call of \<open>dial\<close> or \<open>listen\<close> is about, as in \<open>endpoint_tls\<close>, and the
  pointer that stands for it in v2's library.
\<close>

definition effective_tls :: "pyval \<Rightarrow> 'a v2world_scheme \<Rightarrow> nat option \<times> bool" where
  "effective_tls cfg w = (case cfg of PNone \<Rightarrow> (default_tls w, False) | PTls i \<Rightarrow> (Some i, True) | _ \<Rightarrow> (None, False))"

definition wanted :: "nat option \<Rightarrow> 'a v2world_scheme \<Rightarrow> int option" where
  "wanted i w = (case i of None \<Rightarrow> None
     | Some k \<Rightarrow> (case fst (in_tls (config_for V2_LIB k) w) of Inl e \<Rightarrow> None | Inr p \<Rightarrow> Some p))"

text \<open>
  The life of an endpoint as nng sees it: not there, made, made with its configuration, made for a
  transport that has no TLS, running, and closed. A call that must not happen gives \<open>None\<close>: starting an
  endpoint that should have a configuration and was not given it, giving it another one, and using
  it after it was closed. \<open>want\<close> is the pointer of the configuration, \<open>cfg\<close> whether there is one and
  whether it was given for this endpoint.
\<close>

datatype ep_state = NoEp | Made int | Secured int | Plain int | Running int | Gone

definition ep_of :: "ep_state \<Rightarrow> int option" where
  "ep_of q = (case q of Made e \<Rightarrow> Some e | Secured e \<Rightarrow> Some e | Plain e \<Rightarrow> Some e | Running e \<Rightarrow> Some e | _ \<Rightarrow> None)"

definition ep_step ::
  "nng_lib \<Rightarrow> bool \<Rightarrow> nat option \<times> bool \<Rightarrow> int option \<Rightarrow> ep_state \<Rightarrow> ncall \<times> nres \<Rightarrow> ep_state option" where
  "ep_step L d cfg want q x =
     (case x of (c, r) \<Rightarrow> (case c of
        T (Ep_create d' sk a) \<Rightarrow>
          if d' = d \<and> q = NoEp then Some (if r_val r = 0 then Made (r_out r) else NoEp) else None
      | T (Ep_set_tls d' ep p) \<Rightarrow>
          if d' = d \<and> q = Made ep \<and> want = Some p
          then Some (if r_val r = 0 then Secured ep
                     else if r_val r = err L ENOTSUP \<and> \<not> snd cfg then Plain ep else Made ep)
          else None
      | T (Ep_start d' ep flags) \<Rightarrow>
          if d' = d \<and> (q = Secured ep \<or> q = Plain ep \<or> (q = Made ep \<and> fst cfg = None))
          then Some (if r_val r = 0 then Running ep else q) else None
      | S (Dial sk a flags) \<Rightarrow>
          if d \<and> q = NoEp \<and> fst cfg = None then Some (if r_val r = 0 then Running (r_out r) else NoEp) else None
      | S (Listen sk a flags) \<Rightarrow>
          if \<not> d \<and> q = NoEp \<and> fst cfg = None then Some (if r_val r = 0 then Running (r_out r) else NoEp) else None
      | S (Dialer_close ep) \<Rightarrow> if d \<and> ep_of q = Some ep then Some Gone else None
      | S (Listener_close ep) \<Rightarrow> if \<not> d \<and> ep_of q = Some ep then Some Gone else None
      | S (Dialer_id ep) \<Rightarrow> if d \<and> ep_of q = Some ep then Some q else None
      | S (Listener_id ep) \<Rightarrow> if \<not> d \<and> ep_of q = Some ep then Some q else None
      | _ \<Rightarrow> Some q))"

fun ep_run ::
  "nng_lib \<Rightarrow> bool \<Rightarrow> nat option \<times> bool \<Rightarrow> int option \<Rightarrow> ep_state \<Rightarrow> trace \<Rightarrow> ep_state option" where
  "ep_run L d cfg want q [] = Some q"
| "ep_run L d cfg want q (x # tr) =
     (case ep_step L d cfg want q x of None \<Rightarrow> None | Some q' \<Rightarrow> ep_run L d cfg want q' tr)"

lemma ep_run_snoc:
  "ep_run L d cfg want q (tr @ [x]) =
     (case ep_run L d cfg want q tr of None \<Rightarrow> None | Some q' \<Rightarrow> ep_step L d cfg want q' x)"
  by (induction tr arbitrary: q) (auto split: option.split)

text \<open>The new calls lead to a state of the endpoint.\<close>

definition leads ::
  "nng_lib \<Rightarrow> bool \<Rightarrow> nat option \<times> bool \<Rightarrow> int option \<Rightarrow> trace \<Rightarrow> ep_state \<Rightarrow> 'a world_scheme \<Rightarrow> bool" where
  "leads L d cfg want old q t \<longleftrightarrow> (\<exists>new. calls t = old @ new \<and> ep_run L d cfg want NoEp new = Some q)"

lemma leads_start: "calls t = old \<Longrightarrow> leads L d cfg want old NoEp t"
  by (simp add: leads_def)

lemma leads_call:
  "leads L d cfg want old q t \<Longrightarrow> ep_step L d cfg want q (c, r) = Some q' \<Longrightarrow>
   leads L d cfg want old q' (t\<lparr>calls := calls t @ [(c, r)]\<rparr>)"
  unfolding leads_def
proof (elim exE conjE)
  fix new assume "ep_step L d cfg want q (c, r) = Some q'" "calls t = old @ new"
    "ep_run L d cfg want NoEp new = Some q"
  then show "\<exists>new. calls (t\<lparr>calls := calls t @ [(c, r)]\<rparr>) = old @ new \<and> ep_run L d cfg want NoEp new = Some q'"
    by (intro exI [of _ "new @ [(c, r)]"]) (simp add: ep_run_snoc)
qed

lemma leads_same: "leads L d cfg want old q t \<Longrightarrow> calls u = calls t \<Longrightarrow> leads L d cfg want old q u"
  by (simp add: leads_def)

text \<open>An exception raised as the call that makes or starts an endpoint returns, or as its id is
  asked for, finds no handler.\<close>

definition interrupted :: "bool \<Rightarrow> 'a world_scheme \<Rightarrow> bool" where
  "interrupted d t \<longleftrightarrow> (\<exists>before c r e. calls t = before @ [(c, r)] \<and> r_exn r = Some e
     \<and> ((\<exists>sk a. c = T (Ep_create d sk a)) \<or> (\<exists>sk a f. c = ep_direct d sk a f) \<or> (\<exists>ep. c = ep_id d ep)))"

definition abandoned ::
  "nng_lib \<Rightarrow> bool \<Rightarrow> nat option \<times> bool \<Rightarrow> int option \<Rightarrow> trace \<Rightarrow> 'a world_scheme \<Rightarrow> bool" where
  "abandoned L d cfg want old t \<longleftrightarrow>
     leads L d cfg want old NoEp t \<or> leads L d cfg want old Gone t
     \<or> (\<exists>q. leads L d cfg want old q t) \<and> interrupted d t"

text \<open>The state an endpoint is to be in when the call returns it.\<close>

definition ready :: "nat option \<times> bool \<Rightarrow> bool \<Rightarrow> int \<Rightarrow> ep_state \<Rightarrow> bool" where
  "ready cfg start ep q \<longleftrightarrow>
     (if start then q = Running ep
      else if fst cfg = None then q = Made ep else q = Secured ep \<or> q = Plain ep \<and> \<not> snd cfg)"

lemma wp_leads_err:
  assumes "leads L d cfg want old q t" and "n = 0 \<Longrightarrow> Q () t"
    and "\<And>e u. n \<noteq> 0 \<Longrightarrow> leads L d cfg want old q u \<Longrightarrow> E e u"
  shows "wp (check_err L' n) Q E (t :: 'a world_scheme)"
  using assms(2,3) leads_call [OF assms(1), of "Strerror n" _ q]
  by (auto simp: wp_check_err wp_ccall ep_step_def)

lemma leads_close:
  "leads L d cfg want old q t \<Longrightarrow> ep_of q = Some ep \<Longrightarrow>
   leads L d cfg want old Gone (t\<lparr>calls := calls t @ [(ep_close d ep, r)]\<rparr>)"
  by (rule leads_call) (auto simp: ep_step_def ep_close_def)

text \<open>Asking for the pointer of a configuration changes nothing.\<close>

lemma wp_config:
  "wp (in_tls (config_for V2_LIB k)) Q E (w :: 'a v2world_scheme) =
     (case fst (in_tls (config_for V2_LIB k) w) of Inl e \<Rightarrow> E e w | Inr p \<Rightarrow> Q p w)"
proof -
  obtain r w' where run: "in_tls (config_for V2_LIB k) w = (r, w')" by (cases "in_tls (config_for V2_LIB k) w")
  then have "w' = w"
    by (cases w) (auto simp: in_tls_def config_for_def prog_defs lift_def split: if_splits option.splits
        alt_config.splits)
  with run show ?thesis by (simp add: wp_def split: sum.split)
qed

lemma wanted_calls [simp]: "wanted i (t\<lparr>calls := x\<rparr>) = wanted i t"
  by (auto simp: wanted_def in_tls_def config_for_def prog_defs lift_def split: option.splits alt_config.splits)

lemma wp_set_endpoint:
  fixes t :: "'a v2world_scheme"
  assumes t: "leads L d cfg want old (Made ep) t" and cfg: "fst cfg = Some i" "want = wanted (Some i) t"
    and Q: "\<And>b q u. leads L d cfg want old q u \<Longrightarrow> q = Secured ep \<or> q = Plain ep \<and> \<not> snd cfg \<Longrightarrow> Q b u"
    and E: "\<And>e q u. leads L d cfg want old q u \<Longrightarrow> ep_of q = Some ep \<Longrightarrow> E e u"
  shows "wp (set_endpoint_tls L d ep i (snd cfg)) Q E t"
proof (cases "fst (in_tls (config_for V2_LIB i) t)")
  case (Inl e)
  then show ?thesis by (simp add: set_endpoint_tls_def wp_bnd wp_config ep_of_def E [OF t])
next
  case (Inr p)
  then have want: "want = Some p" by (simp add: cfg(2) wanted_def)
  have sets: "leads L d cfg want old (if r_val r = 0 then Secured ep
      else if r_val r = err L ENOTSUP \<and> \<not> snd cfg then Plain ep else Made ep)
      (t\<lparr>calls := calls t @ [(T (Ep_set_tls d ep p), r)]\<rparr>)" for r
    by (rule leads_call [OF t]) (simp add: ep_step_def want)
  have alive: "ep_of (if a then Secured ep else if b then Plain ep else Made ep) = Some ep" for a b
    by (simp add: ep_of_def)
  show ?thesis
    using Inr
    by (auto simp: set_endpoint_tls_def wp_simps wp_config simp del: wp_check_err
        intro!: E [OF sets alive] Q [OF sets] wp_leads_err [OF sets] E [OF _ alive] split: if_splits)
qed

lemma wp_configure:
  fixes t :: "'a v2world_scheme"
  assumes t: "leads L d cfg want old (Made ep) t" "want = wanted (fst cfg) t"
    and Q: "\<And>b q u. leads L d cfg want old q u \<Longrightarrow> ready cfg start ep q \<Longrightarrow> Q b u"
    and E: "\<And>e u. leads L d cfg want old Gone u \<Longrightarrow> E e u"
  shows "wp (configure_endpoint L d ep cfg start flags) Q E t"
proof -
  let ?set = "case fst cfg of None \<Rightarrow> ret False | Some i \<Rightarrow> set_endpoint_tls L d ep i (snd cfg)"
  let ?H = "\<lambda>e. wp (bnd (ccall L (ep_close d ep)) (\<lambda>_. raise_exc e)) Q E"
  have closing: "?H e u" if "leads L d cfg want old q u" "ep_of q = Some ep" for e q and u :: "'a v2world_scheme"
    using leads_close [OF that] by (simp add: wp_simps E)
  have start: "wp (whenp start (bnd (ccall L (T (Ep_start d ep flags))) (\<lambda>r. check_err L (r_val r)))) (\<lambda>_. Q b) ?H u"
    if u: "leads L d cfg want old q u" "ready cfg False ep q" for b q and u :: "'a v2world_scheme"
  proof (cases start)
    case False
    with u Q show ?thesis by (simp add: wp_simps)
  next
    case True
    have alive: "ep_of (if a then Running ep else q) = Some ep" for a
      using u(2) by (auto simp: ready_def ep_of_def split: if_splits)
    have started: "leads L d cfg want old (if r_val r = 0 then Running ep else q)
        (u\<lparr>calls := calls u @ [(T (Ep_start d ep flags), r)]\<rparr>)" for r
      using u(2) by (intro leads_call [OF u(1)]) (auto simp: ep_step_def ready_def split: if_splits)
    let ?c = "T (Ep_start d ep flags)"
    let ?r = "fn L (calls u) ?c"
    let ?v = "u\<lparr>calls := calls u @ [(?c, ?r)]\<rparr>"
    have ok: "Q b ?v" if "r_val ?r = 0"
      using Q [OF started [of ?r]] that True by (simp add: ready_def)
    have checked: "wp (check_err L (r_val ?r)) (\<lambda>_. Q b) ?H ?v"
      by (rule wp_leads_err [OF started [of ?r]]) (use ok closing [OF _ alive] in blast)+
    have raised: "?H e ?v" for e
      by (rule closing [OF started [of ?r] alive])
    from True checked raised show ?thesis
      by (simp add: wp_whenp wp_bnd wp_ccall del: wp_check_err)
  qed
  have set: "wp ?set (\<lambda>b u. \<exists>q. leads L d cfg want old q u \<and> ready cfg False ep q) ?H t"
  proof (cases "fst cfg")
    case None
    with t show ?thesis by (auto simp: wp_ret ready_def)
  next
    case (Some i)
    with t show ?thesis
      by (auto intro!: wp_set_endpoint [OF t(1) Some] closing simp: ready_def)
  qed
  show ?thesis
    unfolding configure_endpoint_def wp_except wp_bnd [of ?set]
    by (rule wp_mono [OF set]) (auto simp: wp_andthen wp_ret intro: start)
qed

lemma wp_make_endpoint:
  fixes s :: "'a v2world_scheme"
  assumes want: "want = wanted (fst cfg) s"
    and Q: "\<And>ep b q u. leads L d cfg want (calls s) q u \<Longrightarrow> ready cfg start ep q \<Longrightarrow> Q (ep, b) u"
    and E: "\<And>e u. abandoned L d cfg want (calls s) u \<Longrightarrow> E e u"
  shows "wp (make_endpoint L d address flags cfg start) Q E s"
proof -
  have absent: "leads L d cfg want (calls s) NoEp s" by (rule leads_start) simp
  have early: "E e s" for e by (rule E) (simp add: abandoned_def leads_start)
  have made: "wp (bnd (ccall L (T (Ep_create d sk a))) (\<lambda>r.
       andthen (check_err L (r_val r)) (
       bnd (configure_endpoint L d (r_out r) cfg start flags) (\<lambda>applied. ret (r_out r, applied))))) Q E s" for sk a
  proof -
    let ?c = "T (Ep_create d sk a)"
    let ?r = "fn L (calls s) ?c"
    let ?t = "s\<lparr>calls := calls s @ [(?c, ?r)]\<rparr>"
    have t: "leads L d cfg want (calls s) (if r_val ?r = 0 then Made (r_out ?r) else NoEp) ?t"
      by (rule leads_call [OF absent]) (simp add: ep_step_def)
    have "wp (configure_endpoint L d (r_out ?r) cfg start flags) (\<lambda>b. Q (r_out ?r, b)) E ?t" if "r_val ?r = 0"
      using t that by (intro wp_configure) (auto simp: want intro: Q E simp: abandoned_def)
    then have "wp (check_err L (r_val ?r)) (\<lambda>_. wp (configure_endpoint L d (r_out ?r) cfg start flags) (\<lambda>b. Q (r_out ?r, b)) E) E ?t"
      using t by (intro wp_leads_err [OF t]) (auto intro!: E simp: abandoned_def)
    moreover have "E e ?t" if "r_exn ?r = Some e" for e
      using t that by (intro E) (auto simp: abandoned_def interrupted_def)
    ultimately show ?thesis by (simp add: wp_bnd wp_ccall wp_andthen wp_ret del: wp_check_err)
  qed
  have direct: "wp (bnd (ccall L (ep_direct d sk a flags)) (\<lambda>r. andthen (check_err L (r_val r)) (ret (r_out r, False)))) Q E s"
    if "fst cfg = None" start for sk a
  proof -
    let ?c = "ep_direct d sk a flags"
    let ?r = "fn L (calls s) ?c"
    let ?t = "s\<lparr>calls := calls s @ [(?c, ?r)]\<rparr>"
    have t: "leads L d cfg want (calls s) (if r_val ?r = 0 then Running (r_out ?r) else NoEp) ?t"
      by (rule leads_call [OF absent]) (simp add: ep_step_def ep_direct_def that)
    have "Q (r_out ?r, False) ?t" if "r_val ?r = 0"
      using t that \<open>start\<close> by (intro Q [where q = "Running (r_out ?r)"]) (simp_all add: ready_def)
    then have "wp (check_err L (r_val ?r)) (\<lambda>_. Q (r_out ?r, False)) E ?t"
      using t by (intro wp_leads_err [OF t]) (auto intro!: E simp: abandoned_def)
    moreover have "E e ?t" if "r_exn ?r = Some e" for e
      using t that by (intro E) (auto simp: abandoned_def interrupted_def)
    ultimately show ?thesis by (simp add: wp_bnd wp_ccall wp_andthen wp_ret del: wp_check_err)
  qed
  show ?thesis
    unfolding make_endpoint_def
    using made direct by (auto simp: wp_bnd wp_sock_id wp_lift early)
qed

definition in_table :: "bool \<Rightarrow> int \<Rightarrow> 'a sworld_scheme \<Rightarrow> bool" where
  "in_table d ep w \<longleftrightarrow> ep \<in> snd ` set (if d then dialers w else listeners w)"

lemma wp_open_endpoint:
  fixes s :: "'a v2world_scheme" and tls_config :: pyval
  defines "cfg \<equiv> effective_tls tls_config s"
  defines "want \<equiv> wanted (fst cfg) s"
  shows "wp (open_endpoint L d address flags tls_config start)
    (\<lambda>ep t. \<exists>q. leads L d cfg want (calls s) q t \<and> ready cfg start ep q
       \<and> in_table d ep t)
    (\<lambda>_. abandoned L d cfg want (calls s)) s" (is "wp _ ?Q ?E s")
proof -
  have tls: "wp (endpoint_tls tls_config) (\<lambda>c u. c = cfg \<and> u = s) ?E s"
    by (auto simp: endpoint_tls_def cfg_def effective_tls_def wp_bnd wp_getf wp_ret wp_raise abandoned_def
        leads_start split: pyval.split)
  have want: "want = wanted (fst cfg) s" by (simp add: want_def)
  have finish: "wp (bnd (ccall L (ep_id d ep)) (\<lambda>i.
       andthen (case fst cfg of None \<Rightarrow> ret () | Some c \<Rightarrow> whenp b (keep_tls d ep c))
         (andthen (modf (register_endpoint d (r_val i) ep)) (ret ep)))) ?Q ?E u"
    if u: "leads L d cfg want (calls s) q u" and q: "ready cfg start ep q"
    for ep b q and u :: "'a v2world_scheme"
  proof -
    have "ep_of q = Some ep"
      using q by (auto simp: ready_def ep_of_def split: if_splits)
    then have v: "leads L d cfg want (calls s) q (u\<lparr>calls := calls u @ [(ep_id d ep, r)]\<rparr>)" for r
      by (intro leads_call [OF u]) (simp add: ep_step_def ep_id_def)
    have "?E e (u\<lparr>calls := calls u @ [(ep_id d ep, r)]\<rparr>)" if "r_exn r = Some e" for e r
      using v that by (auto simp: abandoned_def interrupted_def)
    moreover have "?Q ep w" if "calls w = calls u @ [(ep_id d ep, r)]" "in_table d ep w"
      for r and w :: "'a v2world_scheme"
      using leads_same [OF v [of r], of w] q that by auto
    moreover have "ep \<in> snd ` set (AList.update i ep xs)" for i :: int and xs
      by (induction xs) auto
    ultimately show ?thesis
      by (auto simp: wp_simps keep_tls_def retain_tls_def register_endpoint_def in_table_def simp del: wp_check_err split: option.split)
  qed
  show ?thesis
    unfolding open_endpoint_def wp_bnd [of "endpoint_tls _"]
  proof (rule wp_mono [OF tls])
    fix c and u :: "'a v2world_scheme"
    assume "c = cfg \<and> u = s"
    then show "wp (bnd (make_endpoint L d address flags c start) (\<lambda>(ep, applied).
     bnd (ccall L (ep_id d ep)) (\<lambda>i.
     andthen (case fst c of None \<Rightarrow> ret () | Some c \<Rightarrow> whenp applied (keep_tls d ep c))
       (andthen (modf (register_endpoint d (r_val i) ep)) (ret ep))))) ?Q ?E u"
      unfolding wp_bnd [of "make_endpoint _ _ _ _ _ _"]
      by (auto intro!: wp_make_endpoint [OF want] finish)
  qed
qed

text \<open>C11. No endpoint of v2 runs without the TLS configuration that it should have. Let \<open>dial\<close> or
  \<open>listen\<close> be called with any \<open>tls_config\<close>, or none, on a socket with or without a default one, whatever
  nng answers and wherever an exception is raised. An endpoint that should have a configuration is
  created, given the pointer of this configuration and no other, and started only if nng took it or, for
  the socket's default only, said that the transport has no TLS. If the call returns, the endpoint is
  running (or ready to be started) and in the socket's table; if it raises, there is no endpoint or it
  was closed, once, after which nothing is done with it, unless the exception struck as the endpoint was
  made or its id was asked for.\<close>

theorem v2_endpoint_secured:
  "let cfg = effective_tls tls_config s; want = wanted (fst cfg) s in
   case open_endpoint L d address flags tls_config start s of
     (Inr ep, t) \<Rightarrow> (\<exists>q. leads L d cfg want (calls s) q t \<and> ready cfg start ep q \<and> in_table d ep t)
   | (Inl e, t) \<Rightarrow> abandoned L d cfg want (calls s) t"
  using wp_open_endpoint [of L d address flags tls_config start s]
  by (auto simp: wp_def Let_def split: prod.splits sum.splits)

end
