(* ===== verification/Streams.thy ===== *)
theory Streams
  imports AsyncIO
begin

text \<open>
  \<open>PipeEventStream\<close> of \<^verbatim>\<open>pynng/_base.py\<close>: the pipe events of a socket as an asynchronous
  iterator. Pipe callbacks on nng threads hand events to the event loop, tasks take them from a queue, and
  any thread may close the stream. The statements between which another thread can run are steps of
  their own.
\<close>

section \<open>State\<close>

text \<open>
  The queue holds events, and for asyncio the sentinel that stands for the end. \<open>scheduled\<close> is what
  \<open>call_soon_threadsafe\<close> or \<open>run_sync_soon\<close> was given and the loop has not run yet; both run
  it in order. \<open>channel_closed\<close> is the state of trio's send channel. \<open>handed\<close> and \<open>taken\<close>
  are the events handed to the loop and the events that tasks got, in these orders.
\<close>

datatype stream_item = Event nat | Sentinel

datatype stream_cb = Pre_add | Post_add | Remove

datatype stream_thread =
    Elsewhere
  | Putting nat
  | Closing_checked
  | Unregistering "stream_cb list"
  | Signalling

datatype reader = Outside | Entering | Getting | Ended

record stream =
  s_closed :: bool
  scheduled :: "stream_item list"
  queued :: "stream_item list"
  channel_closed :: bool
  loop_alive :: bool
  callbacks :: "stream_cb set"
  threads :: "nat \<Rightarrow> stream_thread"
  readers :: "nat \<Rightarrow> reader"
  handed :: "nat list"
  taken :: "nat list"

text \<open>\<open>__init__\<close>: the backend is the socket's or the current one; an unknown one is a
  \<open>ValueError\<close>. Then the three callbacks are registered.\<close>

definition stream_init :: "string option \<Rightarrow> string \<Rightarrow> pyexc + (backend \<times> stream)" where
  "stream_init async_backend current =
     (case backend_of (case async_backend of None \<Rightarrow> current | Some b \<Rightarrow> b) of
        None \<Rightarrow> Inl ValueError
      | Some b \<Rightarrow> Inr (b, \<lparr>s_closed = False, scheduled = [], queued = [], channel_closed = False,
          loop_alive = True, callbacks = {Pre_add, Post_add, Remove}, threads = (\<lambda>_. Elsewhere),
          readers = (\<lambda>_. Outside), handed = [], taken = []\<rparr>))"

section \<open>Operations\<close>

definition set_thread :: "nat \<Rightarrow> stream_thread \<Rightarrow> stream \<Rightarrow> stream" where
  "set_thread t x s = s\<lparr>threads := (threads s)(t := x)\<rparr>"

definition set_reader :: "nat \<Rightarrow> reader \<Rightarrow> stream \<Rightarrow> stream" where
  "set_reader i x s = s\<lparr>readers := (readers s)(i := x)\<rparr>"

text \<open>\<open>_put_event\<close>: the check, and the call into the loop, which raises when the loop is closed.\<close>

definition put_event :: "nat \<Rightarrow> nat \<Rightarrow> stream \<Rightarrow> stream" where
  "put_event t e s = (if s_closed s then s else set_thread t (Putting e) s)"

definition hand_over :: "nat \<Rightarrow> nat \<Rightarrow> stream \<Rightarrow> stream" where
  "hand_over t e s =
     (let s' = set_thread t Elsewhere s
      in if loop_alive s then s'\<lparr>scheduled := scheduled s @ [Event e], handed := handed s @ [e]\<rparr> else s')"

text \<open>What the loop does with a scheduled item: \<open>put_nowait\<close>, or \<open>_trio_send_nowait\<close>, which
  passes over a closed channel.\<close>

definition run_scheduled :: "stream_item \<Rightarrow> stream_item list \<Rightarrow> stream \<Rightarrow> stream" where
  "run_scheduled x xs s =
     (if channel_closed s then s\<lparr>scheduled := xs\<rparr>
      else s\<lparr>scheduled := xs, queued := queued s @ [x]\<rparr>)"

text \<open>\<open>close\<close>: the check, the mark, the three callbacks, the signal.\<close>

definition close_check :: "nat \<Rightarrow> stream \<Rightarrow> stream" where
  "close_check t s = (if s_closed s then s else set_thread t Closing_checked s)"

definition close_mark :: "nat \<Rightarrow> stream \<Rightarrow> stream" where
  "close_mark t s = set_thread t (Unregistering [Pre_add, Post_add, Remove]) (s\<lparr>s_closed := True\<rparr>)"

definition unregister_cb :: "nat \<Rightarrow> stream_cb \<Rightarrow> stream_cb list \<Rightarrow> stream \<Rightarrow> stream" where
  "unregister_cb t c cs s =
     set_thread t (if cs = [] then Signalling else Unregistering cs) (s\<lparr>callbacks := callbacks s - {c}\<rparr>)"

definition close_signal :: "backend \<Rightarrow> nat \<Rightarrow> stream \<Rightarrow> stream" where
  "close_signal b t s =
     (let s' = set_thread t Elsewhere s
      in case b of
           Asyncio \<Rightarrow> if loop_alive s then s'\<lparr>scheduled := scheduled s @ [Sentinel]\<rparr> else s'
         | Trio \<Rightarrow> s'\<lparr>channel_closed := True\<rparr>)"

text \<open>\<open>__anext__\<close>: the check, and then the wait for an item.\<close>

definition enter_anext :: "nat \<Rightarrow> stream \<Rightarrow> stream" where
  "enter_anext i s = set_reader i (if s_closed s then Ended else Entering) s"

definition take_item :: "nat \<Rightarrow> stream_item \<Rightarrow> stream_item list \<Rightarrow> stream \<Rightarrow> stream" where
  "take_item i x xs s =
     (case x of
        Event e \<Rightarrow> set_reader i Outside (s\<lparr>queued := xs, taken := taken s @ [e]\<rparr>)
      | Sentinel \<Rightarrow> set_reader i Ended (s\<lparr>queued := xs\<rparr>))"

text \<open>
  What the loop and the tasks do by themselves, and all steps. \<open>n\<close> tasks read the stream; a task
  that waits may be cancelled, and one that was stopped may ask again. The loop may be closed at any
  time, and then it runs nothing any more.
\<close>

inductive loop_step :: "stream \<Rightarrow> stream \<Rightarrow> bool" where
  ls_run: "loop_alive s \<Longrightarrow> scheduled s = x # xs \<Longrightarrow> loop_step s (run_scheduled x xs s)"
| ls_take: "loop_alive s \<Longrightarrow> readers s i = Getting \<Longrightarrow> queued s = x # xs \<Longrightarrow> loop_step s (take_item i x xs s)"
| ls_end: "loop_alive s \<Longrightarrow> readers s i = Getting \<Longrightarrow> queued s = [] \<Longrightarrow> channel_closed s \<Longrightarrow>
    loop_step s (set_reader i Ended s)"

inductive stream_step :: "backend \<Rightarrow> nat \<Rightarrow> stream \<Rightarrow> stream \<Rightarrow> bool" for b n where
  ss_loop: "loop_step s s' \<Longrightarrow> stream_step b n s s'"
| ss_put: "threads s t = Elsewhere \<Longrightarrow> stream_step b n s (put_event t e s)"
| ss_hand: "threads s t = Putting e \<Longrightarrow> stream_step b n s (hand_over t e s)"
| ss_close: "threads s t = Elsewhere \<Longrightarrow> stream_step b n s (close_check t s)"
| ss_mark: "threads s t = Closing_checked \<Longrightarrow> stream_step b n s (close_mark t s)"
| ss_unregister: "threads s t = Unregistering (c # cs) \<Longrightarrow> stream_step b n s (unregister_cb t c cs s)"
| ss_signal: "threads s t = Signalling \<Longrightarrow> stream_step b n s (close_signal b t s)"
| ss_anext: "i < n \<Longrightarrow> readers s i = Outside \<Longrightarrow> stream_step b n s (enter_anext i s)"
| ss_wait: "readers s i = Entering \<Longrightarrow> stream_step b n s (set_reader i Getting s)"
| ss_cancel: "readers s i = Getting \<Longrightarrow> stream_step b n s (set_reader i Outside s)"
| ss_again: "readers s i = Ended \<Longrightarrow> stream_step b n s (set_reader i Outside s)"
| ss_dead: "stream_step b n s (s\<lparr>loop_alive := False\<rparr>)"

definition stream_start :: "backend \<Rightarrow> stream \<Rightarrow> bool" where
  "stream_start b s \<longleftrightarrow> (\<exists>ab cur. stream_init ab cur = Inr (b, s))"

section \<open>No event is lost\<close>

fun events :: "stream_item list \<Rightarrow> nat list" where
  "events [] = []"
| "events (Event e # xs) = e # events xs"
| "events (Sentinel # xs) = events xs"

lemma events_append [simp]: "events (xs @ ys) = events xs @ events ys"
  by (induction xs rule: events.induct) auto

lemmas stream_defs = put_event_def hand_over_def run_scheduled_def close_check_def close_mark_def
  unregister_cb_def close_signal_def enter_anext_def take_item_def set_thread_def set_reader_def Let_def

fun is_closing :: "stream_thread \<Rightarrow> bool" where
  "is_closing (Unregistering cs) = True"
| "is_closing Signalling = True"
| "is_closing _ = False"

text \<open>
  Nothing is dropped before the channel is closed, and what is dropped then comes after all that is in
  the queue. A channel is closed by \<open>close\<close> only, and only trio has one.
\<close>

definition in_order :: "stream \<Rightarrow> bool" where
  "in_order s \<longleftrightarrow> (\<exists>dropped. taken s @ events (queued s) @ dropped @ events (scheduled s) = handed s
     \<and> (dropped = [] \<or> channel_closed s))"

definition marked :: "backend \<Rightarrow> stream \<Rightarrow> bool" where
  "marked b s \<longleftrightarrow> (channel_closed s \<longrightarrow> b = Trio \<and> s_closed s) \<and> (\<forall>t. is_closing (threads s t) \<longrightarrow> s_closed s)"

lemma events_cons: "events (x # xs) = events [x] @ events xs"
  by (cases x) auto

lemma in_orderI:
  "taken s @ events (queued s) @ dropped @ events (scheduled s) = handed s \<Longrightarrow> dropped = [] \<or> channel_closed s \<Longrightarrow>
   in_order s"
  by (auto simp: in_order_def)

lemma in_order_loop:
  assumes "in_order s" and "loop_step s s'"
  shows "in_order s'"
proof -
  obtain dropped where d: "taken s @ events (queued s) @ dropped @ events (scheduled s) = handed s"
    "dropped = [] \<or> channel_closed s" using assms(1) by (auto simp: in_order_def)
  from assms(2) show ?thesis
  proof cases
    case (ls_run x xs)
    with d show ?thesis
      by (intro in_orderI [where dropped = "if channel_closed s then dropped @ events [x] else []"])
        (auto simp: run_scheduled_def events_cons [of x xs])
  next
    case (ls_take i x xs)
    with d show ?thesis
      by (intro in_orderI [where dropped = dropped]) (auto simp: stream_defs split: stream_item.split)
  next
    case (ls_end i)
    with d show ?thesis by (intro in_orderI [where dropped = dropped]) (auto simp: stream_defs)
  qed
qed

lemma in_order_more:
  assumes "in_order s" and "taken t = taken s" and "queued t = queued s"
    and "events (scheduled t) = events (scheduled s) @ es" and "handed t = handed s @ es"
    and "channel_closed s \<Longrightarrow> channel_closed t"
  shows "in_order t"
proof -
  obtain dropped where "taken s @ events (queued s) @ dropped @ events (scheduled s) = handed s"
    "dropped = [] \<or> channel_closed s" using assms(1) by (auto simp: in_order_def)
  with assms(2-) show ?thesis by (intro in_orderI [where dropped = dropped]) auto
qed

lemmas in_order_same = in_order_more [where es = "[]", simplified]

lemma in_order_step: "stream_step b n s t \<Longrightarrow> in_order s \<Longrightarrow> in_order t"
proof (cases rule: stream_step.cases, assumption)
  assume "loop_step s t" "in_order s"
  then show "in_order t" by (rule in_order_loop [rotated])
next
  fix i e
  assume "in_order s" and t: "t = hand_over i e s"
  from this(1) show "in_order t"
    by (rule in_order_more [where es = "if loop_alive s then [e] else []"]) (auto simp: t stream_defs)
qed (erule in_order_same; simp add: stream_defs split: backend.split)+

lemma loop_step_same:
  "loop_step s t \<Longrightarrow> s_closed t = s_closed s \<and> channel_closed t = channel_closed s \<and> threads t = threads s
     \<and> callbacks t = callbacks s \<and> loop_alive t"
  by (cases rule: loop_step.cases, assumption) (auto simp: stream_defs split: stream_item.split)

lemma marked_step:
  assumes "stream_step b n s t" and "marked b s"
  shows "marked b t"
proof -
  have c: "is_closing (threads s i) \<Longrightarrow> s_closed s" for i using assms(2) by (auto simp: marked_def)
  from assms(1) show ?thesis
  proof cases
    case ss_loop
    with loop_step_same assms(2) show ?thesis by (simp add: marked_def)
  next
    case (ss_unregister i k ks)
    with assms(2) c [of i] show ?thesis by (auto simp: marked_def stream_defs)
  next
    case (ss_signal i)
    with assms(2) c [of i] show ?thesis by (auto simp: marked_def stream_defs split: backend.split)
  qed (use assms(2) in \<open>auto simp: marked_def stream_defs\<close>)
qed

section \<open>The end of the stream\<close>

text \<open>
  Once the stream is closed, and nobody is inside \<open>close\<close> any more, its callbacks are gone and the
  signal is given: it is still on its way, or the only task was stopped by it. Several tasks can be
  stopped by a channel that is closed, but not by one sentinel.
\<close>

definition signal_there :: "backend \<Rightarrow> stream \<Rightarrow> bool" where
  "signal_there b s \<longleftrightarrow> (case b of Trio \<Rightarrow> channel_closed s
     | Asyncio \<Rightarrow> Sentinel \<in> set (queued s @ scheduled s) \<or> readers s 0 \<notin> {Entering, Getting})"

fun left_to_remove :: "stream_thread \<Rightarrow> stream_cb set" where
  "left_to_remove (Unregistering cs) = set cs"
| "left_to_remove _ = {}"

definition few_readers :: "nat \<Rightarrow> stream \<Rightarrow> bool" where
  "few_readers n s \<longleftrightarrow> (\<forall>i\<ge>n. readers s i = Outside)"

definition removing :: "stream \<Rightarrow> bool" where
  "removing s \<longleftrightarrow> (\<forall>t. threads s t \<noteq> Unregistering [] \<and>
     (is_closing (threads s t) \<longrightarrow> callbacks s \<subseteq> left_to_remove (threads s t)))"

definition ends_well :: "backend \<Rightarrow> stream \<Rightarrow> bool" where
  "ends_well b s \<longleftrightarrow> (s_closed s \<longrightarrow>
     (\<exists>t. is_closing (threads s t)) \<or> callbacks s = {} \<and> (loop_alive s \<longrightarrow> signal_there b s))"

lemma few_readers_step: "stream_step b n s t \<Longrightarrow> few_readers n s \<Longrightarrow> few_readers n t"
proof (cases rule: stream_step.cases, assumption)
  assume "loop_step s t" "few_readers n s"
  then show "few_readers n t"
    by cases (auto simp: few_readers_def stream_defs split: stream_item.split)
qed (auto simp: few_readers_def stream_defs split: backend.split)

lemma removing_step: "stream_step b n s t \<Longrightarrow> removing s \<Longrightarrow> removing t"
proof (cases rule: stream_step.cases, assumption)
  assume "loop_step s t" "removing s"
  then show "removing t" by (simp add: removing_def loop_step_same)
next
  fix i k ks
  assume t: "t = unregister_cb i k ks s" "threads s i = Unregistering (k # ks)" and s: "removing s"
  then have "callbacks s \<subseteq> insert k (set ks)" by (auto simp: removing_def dest!: spec [of _ i])
  with t(1) s show "removing t" by (auto simp: removing_def stream_defs)
next
  fix i
  assume t: "t = close_mark i s" and s: "removing s"
  have "callbacks s \<subseteq> {Pre_add, Post_add, Remove}" using stream_cb.exhaust by auto
  with t s show "removing t" by (auto simp: removing_def stream_defs)
next
  fix i
  assume t: "t = close_signal b i s" "threads s i = Signalling" and s: "removing s"
  then show "removing t" by (cases b) (auto simp: removing_def stream_defs)
qed (auto simp: removing_def stream_defs)

lemma ends_well_same:
  assumes "ends_well b s" and "s_closed t = s_closed s" and "callbacks t = callbacks s"
    and "\<And>i. is_closing (threads t i) = is_closing (threads s i)" and "loop_alive t \<Longrightarrow> loop_alive s"
    and "s_closed s \<Longrightarrow> signal_there b s \<Longrightarrow> signal_there b t"
  shows "ends_well b t"
  using assms by (simp add: ends_well_def) blast

lemma signal_there_loop:
  assumes "n = 1 \<or> b = Trio" and "loop_step s t" and "few_readers n s" and "marked b s" and "signal_there b s"
  shows "signal_there b t"
proof (cases b)
  case Trio
  with assms(2,5) show ?thesis by (simp add: signal_there_def loop_step_same)
next
  case Asyncio
  then have one: "readers s i = Getting \<Longrightarrow> i = 0" for i
    using assms(1,3) by (cases i) (auto simp: few_readers_def)
  from assms(2) show ?thesis
  proof cases
    case (ls_run x xs)
    with Asyncio assms(4,5) show ?thesis
      by (auto simp: signal_there_def run_scheduled_def marked_def)
  next
    case (ls_take i x xs)
    with one [of i] Asyncio assms(5) show ?thesis
      by (cases x) (auto simp: signal_there_def stream_defs)
  next
    case (ls_end i)
    with one [of i] Asyncio assms(5) show ?thesis by (auto simp: signal_there_def stream_defs)
  qed
qed

lemma ends_well_step:
  assumes "n = 1 \<or> b = Trio" and "stream_step b n s t" and "few_readers n s" and "marked b s" and "removing s" and "ends_well b s"
  shows "ends_well b t"
  using assms(2)
proof cases
  case ss_loop
  then have "loop_alive s" by cases auto
  with ss_loop loop_step_same signal_there_loop [OF assms(1) ss_loop assms(3,4)] assms(6)
  show ?thesis by (auto simp: ends_well_def)
next
  case (ss_mark i)
  then show ?thesis by (auto simp: ends_well_def stream_defs intro!: exI [of _ i])
next
  case (ss_unregister i k ks)
  then show ?thesis by (auto simp: ends_well_def stream_defs intro!: exI [of _ i])
next
  case (ss_signal i)
  with assms(5) have "callbacks s = {}" by (auto simp: removing_def dest!: spec [of _ i])
  with ss_signal show ?thesis
    by (auto simp: ends_well_def signal_there_def stream_defs split: backend.split)
next
  case (ss_put i e)
  show ?thesis by (rule ends_well_same [OF assms(6)]) (auto simp: ss_put signal_there_def stream_defs split: if_splits)
next
  case (ss_hand i e)
  show ?thesis
    by (rule ends_well_same [OF assms(6)]) (auto simp: ss_hand signal_there_def stream_defs split: backend.splits if_splits)
next
  case (ss_close i)
  show ?thesis by (rule ends_well_same [OF assms(6)]) (auto simp: ss_close signal_there_def stream_defs split: if_splits)
next
  case (ss_anext i)
  show ?thesis
    by (rule ends_well_same [OF assms(6)]) (auto simp: ss_anext signal_there_def stream_defs split: backend.splits)
next
  case (ss_wait i)
  show ?thesis
    by (rule ends_well_same [OF assms(6)])
      (use ss_wait in \<open>auto simp: signal_there_def stream_defs split: backend.splits\<close>)
next
  case (ss_cancel i)
  show ?thesis
    by (rule ends_well_same [OF assms(6)]) (auto simp: ss_cancel signal_there_def stream_defs split: backend.splits)
next
  case (ss_again i)
  show ?thesis
    by (rule ends_well_same [OF assms(6)]) (auto simp: ss_again signal_there_def stream_defs split: backend.splits)
next
  case ss_dead
  show ?thesis by (rule ends_well_same [OF assms(6)]) (auto simp: ss_dead signal_there_def split: backend.splits)
qed

definition stream_inv :: "backend \<Rightarrow> nat \<Rightarrow> stream \<Rightarrow> bool" where
  "stream_inv b n s \<longleftrightarrow> in_order s \<and> marked b s \<and> few_readers n s \<and> removing s
     \<and> (n = 1 \<or> b = Trio \<longrightarrow> ends_well b s)"

lemma stream_inv_start: "stream_start b s \<Longrightarrow> stream_inv b n s"
  by (auto simp: stream_start_def stream_init_def stream_inv_def in_order_def marked_def few_readers_def removing_def
      ends_well_def split: option.splits)

lemma stream_inv_step: "stream_inv b n s \<Longrightarrow> stream_step b n s t \<Longrightarrow> stream_inv b n t"
  unfolding stream_inv_def
  using in_order_step marked_step few_readers_step removing_step ends_well_step by blast

interpretation pipe_stream: step_invariant "stream_start b" "stream_step b n" "stream_inv b n" for b n
  by unfold_locales (fact stream_inv_start, fact stream_inv_step)

text \<open>C17. A pipe event stream loses nothing. Whatever threads hand events over and close the stream and
  however many tasks read it, the events that tasks got, then those in the queue, then those that the
  event loop has still to put there are all events handed to the loop, in that order and each once; only
  trio drops some, when the stream is closed, and these all come after what is in the queue.\<close>

theorem stream_in_order:
  assumes "reach (stream_start b) (stream_step b n) s"
  shows "\<exists>dropped. taken s @ events (queued s) @ dropped @ events (scheduled s) = handed s
    \<and> (dropped = [] \<or> b = Trio \<and> s_closed s)"
  using pipe_stream.reach_inv [OF assms] by (auto simp: stream_inv_def in_order_def marked_def)

text \<open>What the loop and the tasks do by themselves stops a task that waits.\<close>

lemma take_one:
  assumes "loop_alive s" and "readers s i = Getting" and "queued s \<noteq> []"
  shows "\<exists>t. loop_step s t \<and> readers t i \<noteq> Getting"
proof -
  obtain x xs where "queued s = x # xs" using assms(3) by (cases "queued s") auto
  then have "loop_step s (take_item i x xs s)" using assms(1,2) by (intro ls_take)
  moreover have "readers (take_item i x xs s) i \<noteq> Getting" by (cases x) (simp_all add: stream_defs)
  ultimately show ?thesis by blast
qed

lemma stopped_by_signal:
  assumes "marked b s" and "signal_there b s" and "loop_alive s" and "readers s i = Getting" and "b = Asyncio \<longrightarrow> i = 0"
  shows "\<exists>t. loop_step\<^sup>*\<^sup>* s t \<and> readers t i \<noteq> Getting"
proof (cases "queued s = []")
  case False
  with take_one [OF assms(3,4)] show ?thesis by blast
next
  case True
  show ?thesis
  proof (cases b)
    case Trio
    with assms True have "loop_step s (set_reader i Ended s)" by (intro ls_end) (auto simp: signal_there_def)
    moreover have "readers (set_reader i Ended s) i \<noteq> Getting" by (simp add: set_reader_def)
    ultimately show ?thesis by blast
  next
    case Asyncio
    with assms True have "Sentinel \<in> set (scheduled s)" by (auto simp: signal_there_def)
    then obtain x xs where x: "scheduled s = x # xs" by (cases "scheduled s") auto
    then have step: "loop_step s (run_scheduled x xs s)" using assms(3) by (intro ls_run)
    have "\<exists>t. loop_step (run_scheduled x xs s) t \<and> readers t i \<noteq> Getting"
      by (rule take_one) (use assms Asyncio in \<open>auto simp: run_scheduled_def marked_def\<close>)
    with step show ?thesis by (meson converse_rtranclp_into_rtranclp r_into_rtranclp)
  qed
qed


section \<open>Runs\<close>

definition stream0 :: stream where
  "stream0 = \<lparr>s_closed = False, scheduled = [], queued = [], channel_closed = False, loop_alive = True,
     callbacks = {Pre_add, Post_add, Remove}, threads = (\<lambda>_. Elsewhere), readers = (\<lambda>_. Outside),
     handed = [], taken = []\<rparr>"

lemma stream0_start: "stream_start b stream0"
proof -
  have "stream_init (Some (case b of Asyncio \<Rightarrow> ''asyncio'' | Trio \<Rightarrow> ''trio'')) [] = Inr (b, stream0)"
    by (cases b) (simp_all add: stream_init_def backend_of_def stream0_def)
  then show ?thesis by (auto simp: stream_start_def)
qed

lemma reach_stream0: "reach (stream_start b) (stream_step b n) stream0"
  by (rule reach_init) (rule stream0_start)

lemma reach_next:
  "reach (stream_start b) (stream_step b n) s \<Longrightarrow> stream_step b n s t \<Longrightarrow> reach (stream_start b) (stream_step b n) t"
  by (rule reach_step)

text \<open>Task \<open>i\<close> waits for an event of the new stream.\<close>

lemma reach_getting:
  assumes "reach (stream_start b) (stream_step b n) s" and "i < n" and "readers s i = Outside" and "\<not> s_closed s"
  shows "reach (stream_start b) (stream_step b n) (set_reader i Getting s)"
proof -
  have "stream_step b n s (set_reader i Entering s)"
    using ss_anext [OF assms(2,3), of b] assms(4) by (simp add: enter_anext_def)
  moreover have "stream_step b n (set_reader i Entering s) (set_reader i Getting (set_reader i Entering s))"
    by (rule ss_wait) (simp add: set_reader_def)
  moreover have "set_reader i Getting (set_reader i Entering s) = set_reader i Getting s" by (simp add: set_reader_def)
  ultimately show ?thesis using assms(1) by (metis reach_step)
qed

text \<open>Thread 0 closes the stream.\<close>

definition after_close :: "backend \<Rightarrow> stream \<Rightarrow> stream" where
  "after_close b s = close_signal b 0 (unregister_cb 0 Remove [] (unregister_cb 0 Post_add [Remove]
     (unregister_cb 0 Pre_add [Post_add, Remove] (close_mark 0 (close_check 0 s)))))"

lemma reach_after_close:
  assumes "reach (stream_start b) (stream_step b n) s" and "threads s 0 = Elsewhere" and "\<not> s_closed s"
  shows "reach (stream_start b) (stream_step b n) (after_close b s)"
proof -
  define s1 where "s1 = close_check 0 s"
  define s2 where "s2 = close_mark 0 s1"
  define s3 where "s3 = unregister_cb 0 Pre_add [Post_add, Remove] s2"
  define s4 where "s4 = unregister_cb 0 Post_add [Remove] s3"
  define s5 where "s5 = unregister_cb 0 Remove [] s4"
  have "stream_step b n s s1" unfolding s1_def using assms(2) by (rule ss_close)
  moreover have t1: "threads s1 0 = Closing_checked" using assms(3) by (simp add: s1_def stream_defs)
  have "stream_step b n s1 s2" unfolding s2_def using t1 by (rule ss_mark)
  moreover have t2: "threads s2 0 = Unregistering [Pre_add, Post_add, Remove]" by (simp add: s2_def stream_defs)
  have "stream_step b n s2 s3" unfolding s3_def using t2 by (rule ss_unregister)
  moreover have t3: "threads s3 0 = Unregistering [Post_add, Remove]" by (simp add: s3_def stream_defs)
  have "stream_step b n s3 s4" unfolding s4_def using t3 by (rule ss_unregister)
  moreover have t4: "threads s4 0 = Unregistering [Remove]" by (simp add: s4_def stream_defs)
  have "stream_step b n s4 s5" unfolding s5_def using t4 by (rule ss_unregister)
  moreover have t5: "threads s5 0 = Signalling" by (simp add: s5_def stream_defs)
  have "stream_step b n s5 (close_signal b 0 s5)" using t5 by (rule ss_signal)
  ultimately show ?thesis
    using reach_next assms(1) unfolding after_close_def s5_def s4_def s3_def s2_def s1_def by metis
qed

lemma after_close_simps:
  assumes "threads s = (\<lambda>_. Elsewhere)" and "loop_alive s"
  shows "s_closed (after_close b s)" "\<not> is_closing (threads (after_close b s) t)" "loop_alive (after_close b s)"
    "readers (after_close b s) = readers s" "queued (after_close b s) = queued s"
    "scheduled (after_close b s) = scheduled s @ (if b = Asyncio then [Sentinel] else [])"
    "channel_closed (after_close b s) = (b = Trio \<or> channel_closed s)"
  using assms by (cases b; auto simp: after_close_def stream_defs)+

definition one_event :: stream where
  "one_event = hand_over 0 7 (put_event 0 7 stream0)"

theorem stream_in_order_witness:
  "handed one_event = [7] \<and> (\<exists>dropped.
    taken one_event @ events (queued one_event) @ dropped @ events (scheduled one_event) = handed one_event
    \<and> (dropped = [] \<or> Trio = Trio \<and> s_closed one_event))"
proof -
  have "stream_step Trio 1 stream0 (put_event 0 7 stream0)" by (rule ss_put) (simp add: stream0_def)
  moreover have "stream_step Trio 1 (put_event 0 7 stream0) one_event"
    unfolding one_event_def by (rule ss_hand) (simp add: stream_defs stream0_def)
  ultimately have "reach (stream_start Trio) (stream_step Trio 1) one_event"
    by (meson reach_next reach_stream0)
  from stream_in_order [OF this] show ?thesis
    by (simp add: one_event_def stream_defs stream0_def)
qed

definition one_waits :: stream where
  "one_waits = after_close Asyncio (set_reader 0 Getting stream0)"


text \<open>Two tasks read a stream under asyncio, and it is closed: one of them waits for ever, because nothing
  is left that the loop or a task could do.\<close>

lemma second_reader_waits:
  "\<exists>s. reach (stream_start Asyncio) (stream_step Asyncio 2) s \<and> s_closed s \<and> (\<forall>t. \<not> is_closing (threads s t))
    \<and> loop_alive s \<and> readers s 1 = Getting \<and> \<not> (\<exists>t. loop_step s t)"
proof -
  define s0 where "s0 = set_reader 1 Getting (set_reader 0 Getting stream0)"
  define s1 where "s1 = after_close Asyncio s0"
  define s2 where "s2 = run_scheduled Sentinel [] s1"
  define s3 where "s3 = take_item 0 Sentinel [] s2"
  have s: "threads s0 = (\<lambda>_. Elsewhere)" "loop_alive s0" "\<not> s_closed s0" "readers s0 0 = Getting" "readers s0 1 = Getting"
    "queued s0 = []" "scheduled s0 = []" "\<not> channel_closed s0"
    by (simp_all add: s0_def set_reader_def stream0_def)
  note a = after_close_simps [OF s(1,2), of Asyncio, folded s1_def, simplified s, simplified]
  have "reach (stream_start Asyncio) (stream_step Asyncio 2) s0"
    unfolding s0_def
    by (intro reach_getting reach_stream0) (simp_all add: set_reader_def stream0_def)
  then have r1: "reach (stream_start Asyncio) (stream_step Asyncio 2) s1"
    unfolding s1_def by (rule reach_after_close) (simp_all add: s)
  have "loop_step s1 s2" unfolding s2_def by (rule ls_run) (simp_all add: a)
  then have r2: "reach (stream_start Asyncio) (stream_step Asyncio 2) s2" by (rule reach_step [OF r1 ss_loop])
  have "loop_step s2 s3" unfolding s3_def by (rule ls_take) (simp_all add: s2_def run_scheduled_def a s)
  then have r3: "reach (stream_start Asyncio) (stream_step Asyncio 2) s3" by (rule reach_step [OF r2 ss_loop])
  have "s_closed s3" "\<not> is_closing (threads s3 t)" "loop_alive s3" "readers s3 1 = Getting" "queued s3 = []"
    "scheduled s3 = []" "\<not> channel_closed s3" for t
    using s by (simp_all add: s3_def s2_def take_item_def run_scheduled_def set_reader_def a)
  with r3 show ?thesis by (intro exI [of _ s3]) (auto elim: loop_step.cases)
qed

end
