(* ===== verification/AsyncApi.thy ===== *)
theory AsyncApi
  imports AsyncIO Sockets
begin

text \<open>
  The asynchronous methods of sockets, contexts and pipes in \<^verbatim>\<open>pynng/_base.py\<close> and the
  two \<^verbatim>\<open>nng.py\<close>: each takes a helper out of a pool, lets it run the operation of theory
  \<open>AsyncIO\<close> and gives it back. The object is used from one event loop, and one operation ends
  before the next begins.
\<close>

section \<open>State\<close>

text \<open>
  The world of the helper at work, the two pools, last helper first, and whether they take helpers
  back: \<open>not _socket_closed\<close> for a socket, \<open>_context is not None\<close> for a context.
\<close>

record api_world =
  inner :: aworld
  recv_idle :: "aio_helper list"
  send_idle :: "aio_helper list"
  takes_back :: bool

definition inside :: "(aworld, pyexc, 'b) prog \<Rightarrow> (api_world, pyexc, 'b) prog" where
  "inside m w = (case m (inner w) of (r, t) \<Rightarrow> (r, w\<lparr>inner := t\<rparr>))"

lemma wp_inside [wp_simps]:
  "wp (inside m) Q E w = wp m (\<lambda>x t. Q x (w\<lparr>inner := t\<rparr>)) (\<lambda>e t. E e (w\<lparr>inner := t\<rparr>)) (inner w)"
  by (simp add: wp_def inside_def split: prod.split sum.split)

text \<open>
  What a call depends on: the handle and the functions of the object, its \<open>_async_backend\<close>, the
  library that runs, whether \<open>get_for_loop\<close> gives an engine, and whether the helper's loop is the running one.
\<close>

record caller =
  c_obj :: int
  c_recv :: recv_fn
  c_send :: send_fn
  c_backend :: "string option"
  c_current :: string
  c_engine :: bool
  c_here :: bool

text \<open>The functions of the objects: \<open>_aio_recv_fn\<close> and \<open>_aio_send_fn\<close> of v2, and v1's.\<close>

definition v1_caller :: "caller \<Rightarrow> caller" where
  "v1_caller c = c\<lparr>c_recv := Nng_recv_aio, c_send := Nng_send_aio\<rparr>"

definition v2_caller :: "caller \<Rightarrow> caller" where
  "v2_caller c = c\<lparr>c_recv := Nng_socket_recv, c_send := Nng_socket_send\<rparr>"

definition ctx_caller :: "caller \<Rightarrow> caller" where
  "ctx_caller c = c\<lparr>c_recv := Nng_ctx_recv, c_send := Nng_ctx_send\<rparr>"

section \<open>The pools\<close>

definition pool_of :: "bool \<Rightarrow> api_world \<Rightarrow> aio_helper list" where
  "pool_of r w = (if r then recv_idle w else send_idle w)"

definition set_pool :: "bool \<Rightarrow> aio_helper list \<Rightarrow> (api_world, pyexc, unit) prog" where
  "set_pool r hs = modf (\<lambda>w. if r then w\<lparr>recv_idle := hs\<rparr> else w\<lparr>send_idle := hs\<rparr>)"

text \<open>\<open>_acquire_recv_helper\<close> and \<open>_acquire_send_helper\<close>: helpers that are not valid any more are freed,
  and without a valid one there is a new one.\<close>

fun take_valid :: "nng_lib \<Rightarrow> bool \<Rightarrow> bool \<Rightarrow> aio_helper list \<Rightarrow> (api_world, pyexc, bool) prog" where
  "take_valid L r here [] = ret False"
| "take_valid L r here (h # hs) =
     andthen (set_pool r hs) (
     andthen (inside (upd_helper (\<lambda>_. h))) (
     bnd (inside (is_valid_for_current_loop L here)) (\<lambda>ok.
     if ok then ret True
     else andthen (inside (helper_free L)) (take_valid L r here hs))))"

definition acquire :: "nng_lib \<Rightarrow> caller \<Rightarrow> bool \<Rightarrow> (api_world, pyexc, unit) prog" where
  "acquire L c r =
     bnd (getf (pool_of r)) (\<lambda>hs.
     bnd (take_valid L r (c_here c) hs) (\<lambda>found.
     whenp (\<not> found)
       (inside (helper_init L (c_obj c) (c_recv c) (c_send c) (c_backend c) (c_current c) (c_engine c)))))"

definition give_back :: "nng_lib \<Rightarrow> caller \<Rightarrow> bool \<Rightarrow> (api_world, pyexc, unit) prog" where
  "give_back L c r =
     bnd (getf (\<lambda>w. takes_back w \<and> length (pool_of r w) < MAX_POOL_SIZE)) (\<lambda>room.
     bnd (if room then inside (is_valid_for_current_loop L (c_here c)) else ret False) (\<lambda>ok.
     if ok then bnd (getf (\<lambda>w. helper (inner w) # pool_of r w)) (set_pool r)
     else inside (helper_free L)))"

text \<open>\<open>helper = acquire(); try: return await ...; finally: release(helper)\<close>.\<close>

definition pooled ::
  "nng_lib \<Rightarrow> caller \<Rightarrow> bool \<Rightarrow> (aworld, pyexc, 'b option) prog \<Rightarrow> (api_world, pyexc, 'b option) prog" where
  "pooled L c r m = andthen (acquire L c r) (finally_some (inside m) (give_back L c r))"

section \<open>The methods\<close>

text \<open>\<open>asend\<close>, \<open>asend_msg\<close>, \<open>arecv_msg\<close>, \<open>arecv\<close> and \<open>arecv_into\<close>. Sockets and contexts
  have the same code, with functions and pools of their own; \<open>ep\<close> are the pipes of the socket.\<close>

definition api_asend :: "nng_lib \<Rightarrow> caller \<Rightarrow> nat \<Rightarrow> py_data \<Rightarrow> (api_world, pyexc, unit option) prog" where
  "api_asend L c n d = andthen (inside (ensure_can_send_data d)) (pooled L c False (asend L n d))"

definition api_asend_msg :: "nng_lib \<Rightarrow> caller \<Rightarrow> nat \<Rightarrow> nat \<Rightarrow> (api_world, pyexc, unit option) prog" where
  "api_asend_msg L c n i = andthen (inside (ensure_can_send i)) (pooled L c False (asend_msg L n i))"

definition receive_one :: "nng_lib \<Rightarrow> endpoint \<Rightarrow> nat \<Rightarrow> (aworld, pyexc, nat option) prog" where
  "receive_one L ep n =
     bnd_some (arecv_msg L n) (\<lambda>i. andthen (try_associate_msg_with_pipe L ep i) (ret (Some i)))"

definition api_arecv_msg ::
  "nng_lib \<Rightarrow> caller \<Rightarrow> endpoint \<Rightarrow> nat \<Rightarrow> (api_world, pyexc, nat option) prog" where
  "api_arecv_msg L c ep n = andthen (inside check_fork) (pooled L c True (receive_one L ep n))"

definition api_arecv ::
  "nng_lib \<Rightarrow> caller \<Rightarrow> endpoint \<Rightarrow> nat \<Rightarrow> (api_world, pyexc, byte list option) prog" where
  "api_arecv L c ep n =
     bnd_some (api_arecv_msg L c ep n) (\<lambda>i. bnd (inside (msg_bytes L i)) (\<lambda>b. ret (Some b)))"

definition api_arecv_into ::
  "nng_lib \<Rightarrow> caller \<Rightarrow> endpoint \<Rightarrow> nat \<Rightarrow> bool \<Rightarrow> buffer
     \<Rightarrow> (api_world, pyexc, (nat \<times> byte list) option) prog" where
  "api_arecv_into L c ep n readonly buf =
     (if readonly then raise_exc BufferError
      else bnd_some (api_arecv_msg L c ep n) (\<lambda>i. inside (recv_into L (ret (Some i)) False buf)))"

definition socket_asend where "socket_asend L c = api_asend L (v1_caller c)"
definition socket_asend_msg where "socket_asend_msg L c = api_asend_msg L c"
definition socket_arecv_msg where "socket_arecv_msg L c = api_arecv_msg L c"
definition socket_arecv where "socket_arecv L c = api_arecv L (v1_caller c)"
definition socket_arecv_into where "socket_arecv_into L c = api_arecv_into L c"
definition v2_socket_asend where "v2_socket_asend L c = api_asend L (v2_caller c)"
definition v2_socket_arecv where "v2_socket_arecv L c = api_arecv L (v2_caller c)"
definition context_asend where "context_asend L c = api_asend L (ctx_caller c)"
definition context_asend_msg where "context_asend_msg L c = api_asend_msg L (ctx_caller c)"
definition context_arecv_msg where "context_arecv_msg L c = api_arecv_msg L (ctx_caller c)"
definition context_arecv where "context_arecv L c = api_arecv L (ctx_caller c)"
definition context_arecv_into where "context_arecv_into L c = api_arecv_into L (ctx_caller c)"

text \<open>One step of \<open>async for\<close> over a context.\<close>

definition context_anext where "context_anext L c ep n = anext (context_arecv L c ep n)"

text \<open>\<open>Pipe.asend\<close> and \<open>Pipe.asend_msg\<close> send on the socket of the pipe.\<close>

definition pipe_asend ::
  "nng_lib \<Rightarrow> caller \<Rightarrow> nat \<Rightarrow> int \<Rightarrow> py_data \<Rightarrow> (api_world, pyexc, unit option) prog" where
  "pipe_asend L c n pipe d =
     andthen (inside (ensure_can_send_data d)) (
     bnd (inside (mk_message L (FromData d) (APipe pipe))) (\<lambda>i. socket_asend_msg L c n i))"

definition pipe_asend_msg ::
  "nng_lib \<Rightarrow> caller \<Rightarrow> nat \<Rightarrow> int \<Rightarrow> nat \<Rightarrow> (api_world, pyexc, unit option) prog" where
  "pipe_asend_msg L c n pipe i = andthen (inside (msg_set_pipe L i (APipe pipe))) (socket_asend_msg L c n i)"

text \<open>Closing: no helper is taken back, and those in the pools are freed.\<close>

fun free_helpers :: "nng_lib \<Rightarrow> bool \<Rightarrow> aio_helper list \<Rightarrow> (api_world, pyexc, unit) prog" where
  "free_helpers L r [] = ret ()"
| "free_helpers L r (h # hs) =
     andthen (set_pool r hs) (
     andthen (inside (upd_helper (\<lambda>_. h))) (
     andthen (inside (helper_free L)) (free_helpers L r hs)))"

definition api_free_pools :: "nng_lib \<Rightarrow> (api_world, pyexc, unit) prog" where
  "api_free_pools L =
     andthen (modf (\<lambda>w. w\<lparr>takes_back := False\<rparr>)) (
     andthen (bnd (getf (pool_of True)) (free_helpers L True))
       (bnd (getf (pool_of False)) (free_helpers L False)))"

section \<open>Helpers are lent and come back\<close>

text \<open>A pool holds at most 32 helpers, all of them at rest and with an engine, so they can be used again.\<close>

definition pool_ok :: "aio_helper list \<Rightarrow> bool" where
  "pool_ok hs \<longleftrightarrow> length hs \<le> MAX_POOL_SIZE
     \<and> (\<forall>h\<in>set hs. h_engine h \<and> at_rest False (h_aio h, h_engine h, h_awaitable h) h)"

definition api_inv :: "api_world \<Rightarrow> bool" where
  "api_inv w \<longleftrightarrow> msgs_inv (inner w) \<and> pool_ok (recv_idle w) \<and> pool_ok (send_idle w)"

definition rest_inside :: "api_world \<Rightarrow> bool" where
  "rest_inside w \<longleftrightarrow> hlp (at_rest False (core (inner w))) (inner w)"

lemma pool_ok_simps [simp]: "pool_ok []"
  "pool_ok (h # hs) \<longleftrightarrow> Suc (length hs) \<le> MAX_POOL_SIZE \<and> h_engine h
     \<and> at_rest False (h_aio h, h_engine h, h_awaitable h) h \<and> pool_ok hs"
  by (auto simp: pool_ok_def)

lemma rest_inside_iff:
  "rest_inside w \<longleftrightarrow> at_rest False (h_aio (helper (inner w)), h_engine (helper (inner w)), h_awaitable (helper (inner w)))
     (helper (inner w))"
  by (simp add: rest_inside_def hlp_def core_def)

lemma api_inv_inner: "api_inv w \<Longrightarrow> msgs_inv t \<Longrightarrow> api_inv (w\<lparr>inner := t\<rparr>)"
  by (simp add: api_inv_def)

lemma api_inv_pool: "api_inv w \<Longrightarrow> pool_ok (pool_of r w)"
  by (simp add: api_inv_def pool_of_def)

lemma api_inv_set: "api_inv w \<Longrightarrow> pool_ok hs \<Longrightarrow>
  wp (set_pool r hs) (\<lambda>_. api_inv) E w"
  by (auto simp: set_pool_def wp_modf api_inv_def pool_of_def)

text \<open>Asking a helper whether it is valid changes neither it nor the messages.\<close>

lemma wp_is_valid:
  assumes "async_lib L" and "msgs_inv w"
  shows "wp (is_valid_for_current_loop L here)
    (\<lambda>ok t. msgs_inv t \<and> msgs t = msgs w \<and> helper t = helper w \<and> (ok \<longrightarrow> h_engine (helper w))) E w"
  using assms(2)
  by (auto simp: is_valid_for_current_loop_def get_helper_def wp_bnd wp_getf wp_if wp_ret wp_async_call [OF assms(1)]
      msgs_inv_mute mute_def)

lemma helper_free_msgs: "wp (helper_free L) (\<lambda>_ t. msgs t = msgs w) (\<lambda>_ t. msgs t = msgs w) w"
  by (auto simp: helper_free_def pop_callback_def close_dead_engine_def free_aio_def free_leftover_def drop_slot_def
      get_helper_def upd_helper_def wp_simps split: option.split)

lemma free_inside:
  assumes "async_lib L" and "api_inv w" and "\<not> h_sending (helper (inner w))"
  shows "wp (inside (helper_free L))
    (\<lambda>_ t. api_inv t \<and> msgs (inner t) = msgs (inner w) \<and> (\<forall>r. pool_of r t = pool_of r w)) (\<lambda>_. api_inv) w"
proof -
  have "msgs_inv (inner w)" using assms(2) by (simp add: api_inv_def)
  from wp_conj [OF wp_helper_free [OF assms(1) this assms(3)] helper_free_msgs] show ?thesis
    unfolding wp_inside by (rule wp_mono) (use assms(2) in \<open>auto simp: api_inv_def pool_of_def\<close>)
qed

lemma put_inside:
  "api_inv w \<Longrightarrow> wp (inside (upd_helper (\<lambda>_. h))) (\<lambda>_ t. api_inv t \<and> helper (inner t) = h) E w"
  by (simp add: wp_inside upd_helper_def wp_modf api_inv_def)

lemma wp_take_valid:
  assumes "async_lib L"
  shows "api_inv w \<Longrightarrow> pool_ok hs \<Longrightarrow>
    wp (take_valid L r here hs) (\<lambda>found t. api_inv t \<and> (found \<longrightarrow> rest_inside t \<and> h_engine (helper (inner t))))
      (\<lambda>_. api_inv) w"
proof (induction hs arbitrary: w)
  case (Cons h hs)
  have set: "wp (set_pool r hs) (\<lambda>_. api_inv) E w" for E
    by (rule api_inv_set) (use Cons.prems in auto)
  have valid: "wp (inside (is_valid_for_current_loop L here))
      (\<lambda>ok t. api_inv t \<and> rest_inside t \<and> (ok \<longrightarrow> h_engine (helper (inner t)))) E u"
    if "api_inv u" "helper (inner u) = h" for E u
    unfolding wp_inside
    by (rule wp_mono [OF wp_is_valid [OF assms]])
      (use that Cons.prems in \<open>auto simp: api_inv_def rest_inside_iff\<close>)
  have rest: "wp (if ok then ret True else andthen (inside (helper_free L)) (take_valid L r here hs))
      (\<lambda>found t. api_inv t \<and> (found \<longrightarrow> rest_inside t \<and> h_engine (helper (inner t)))) (\<lambda>_. api_inv) u"
    if "api_inv u" "rest_inside u" "ok \<longrightarrow> h_engine (helper (inner u))" for ok u
  proof (cases ok)
    case True
    with that show ?thesis by (simp add: wp_ret)
  next
    case False
    have "\<not> h_sending (helper (inner u))" using that(2) by (simp add: rest_inside_iff at_rest_def held_def)
    with False Cons.prems(2) show ?thesis
      by (auto simp: wp_andthen intro!: wp_mono [OF free_inside [OF assms that(1)]] Cons.IH)
  qed
  show ?case
    unfolding take_valid.simps wp_andthen wp_bnd
    using Cons.prems(1)
    by (auto simp del: if_split intro!: wp_mono [OF set] wp_mono [OF put_inside] wp_mono [OF valid] rest)
qed (simp add: wp_ret)

lemma helper_init_trio:
  "wp (helper_init L ob rf sf b cur e)
     (\<lambda>_ t. h_awaitable (helper t) = Some Trio \<longrightarrow> backend_of (case b of None \<Rightarrow> cur | Some x \<Rightarrow> x) = Some Trio)
     (\<lambda>_ _. True) w"
  by (auto simp: helper_init_def init_engine_aio_def init_callback_aio_def fresh_helper_def upd_helper_def wp_simps
      split: option.split)

text \<open>A call under trio needs nng to finish its operations by itself (\<open>never_cancels\<close>), see \<open>async_memory_safe\<close>.\<close>

definition trio_ok :: "nng_lib \<Rightarrow> caller \<Rightarrow> bool" where
  "trio_ok L c \<longleftrightarrow>
     (backend_of (case c_backend c of None \<Rightarrow> c_current c | Some b \<Rightarrow> b) = Some Trio \<longrightarrow> never_cancels L)"

definition lent :: "nng_lib \<Rightarrow> api_world \<Rightarrow> bool" where
  "lent L w \<longleftrightarrow> api_inv w \<and> rest_inside w \<and> usable L (core (inner w))"

lemma lent_engine: "api_inv w \<Longrightarrow> rest_inside w \<Longrightarrow> h_engine (helper (inner w)) \<Longrightarrow> lent L w"
  by (simp add: lent_def usable_def core_def)

lemma wp_acquire:
  assumes "async_lib L" and "api_inv w" and "trio_ok L c"
  shows "wp (acquire L c r) (\<lambda>_. lent L) (\<lambda>_. api_inv) w"
proof -
  have new: "wp (inside (helper_init L (c_obj c) (c_recv c) (c_send c) (c_backend c) (c_current c) (c_engine c)))
      (\<lambda>_. lent L) (\<lambda>_. api_inv) t" if "api_inv t" for t
  proof -
    have "msgs_inv (inner t)" using that by (simp add: api_inv_def)
    note init = wp_helper_init [OF assms(1) this] helper_init_trio
    show ?thesis
      unfolding wp_inside
      by (rule wp_mono [OF wp_conj [OF init]])
        (use that assms(3) in \<open>auto simp: lent_def api_inv_def rest_inside_def usable_def core_def trio_ok_def\<close>)
  qed
  have "wp (take_valid L r (c_here c) (pool_of r w))
      (\<lambda>found. wp (whenp (\<not> found)
         (inside (helper_init L (c_obj c) (c_recv c) (c_send c) (c_backend c) (c_current c) (c_engine c))))
           (\<lambda>_. lent L) (\<lambda>_. api_inv)) (\<lambda>_. api_inv) w"
    by (rule wp_mono [OF wp_take_valid [OF assms(1,2) api_inv_pool [OF assms(2)]]])
      (auto simp: wp_whenp intro: new lent_engine)
  then show ?thesis
    by (simp add: acquire_def wp_bnd wp_getf)
qed

text \<open>Giving a helper back: it joins its pool or is freed, and the messages stay as they are.\<close>

lemma wp_release:
  assumes "async_lib L" and "api_inv w" and "rest_inside w"
  shows "wp (give_back L c r) (\<lambda>_ t. api_inv t \<and> msgs (inner t) = msgs (inner w)) (\<lambda>_. api_inv) w"
proof -
  let ?P = "\<lambda>t. api_inv t \<and> rest_inside t \<and> msgs (inner t) = msgs (inner w) \<and> pool_of r t = pool_of r w"
  have valid: "wp (inside (is_valid_for_current_loop L (c_here c)))
      (\<lambda>ok t. ?P t \<and> (ok \<longrightarrow> h_engine (helper (inner t)))) E w" for E
    unfolding wp_inside
    by (rule wp_mono [OF wp_is_valid [OF assms(1)]])
      (use assms(2,3) in \<open>auto simp: api_inv_def rest_inside_iff pool_of_def\<close>)
  have free: "wp (inside (helper_free L)) (\<lambda>_ t. api_inv t \<and> msgs (inner t) = msgs (inner w)) (\<lambda>_. api_inv) t"
    if "?P t" for t
  proof -
    have "\<not> h_sending (helper (inner t))" using that by (simp add: rest_inside_iff at_rest_def held_def)
    then show ?thesis using that by (intro wp_mono [OF free_inside [OF assms(1)]]) auto
  qed
  have give: "wp (bnd (getf (\<lambda>w. helper (inner w) # pool_of r w)) (set_pool r))
      (\<lambda>_ t. api_inv t \<and> msgs (inner t) = msgs (inner w)) E t"
    if "?P t" "h_engine (helper (inner t))" "length (pool_of r w) < MAX_POOL_SIZE" for E t
    using that
    by (auto simp: wp_bnd wp_getf set_pool_def wp_modf api_inv_def rest_inside_iff pool_of_def)
  show ?thesis
    unfolding give_back_def wp_bnd [of "getf f" for f] wp_getf wp_bnd [of "if b then x else y" for b x y]
    using assms(2,3)
    by (auto simp: wp_ret simp del: if_split split: if_split intro!: wp_mono [OF valid] free give)
qed

text \<open>No step of this touches the message objects.\<close>

lemma is_valid_msgs: "wp (is_valid_for_current_loop L here) (\<lambda>_ t. msgs t = msgs w) (\<lambda>_ _. True) w"
  by (auto simp: is_valid_for_current_loop_def get_helper_def wp_simps)

lemma helper_init_msgs: "wp (helper_init L ob rf sf b cur e) (\<lambda>_ t. msgs t = msgs w) (\<lambda>_ _. True) w"
  by (auto simp: helper_init_def init_engine_aio_def init_callback_aio_def upd_helper_def wp_simps split: option.split)

lemma take_valid_msgs: "wp (take_valid L r here hs) (\<lambda>_ t. msgs (inner t) = msgs (inner w)) (\<lambda>_ _. True) w"
proof (induction hs arbitrary: w)
  case (Cons h hs)
  have next': "wp (if ok then ret True else andthen (inside (helper_free L)) (take_valid L r here hs))
      (\<lambda>_ t. msgs (inner t) = m) (\<lambda>_ _. True) u" if "msgs (inner u) = m" for ok u m
    using that
    by (auto simp: wp_ret wp_andthen wp_inside intro!: wp_mono [OF helper_free_msgs] wp_mono [OF Cons.IH])
  show ?case
    by (auto simp: wp_andthen wp_bnd wp_inside set_pool_def upd_helper_def wp_modf simp del: if_split
        intro!: wp_mono [OF is_valid_msgs] next')
qed (simp add: wp_ret)

lemma acquire_msgs: "wp (acquire L c r) (\<lambda>_ t. msgs (inner t) = msgs (inner w)) (\<lambda>_ _. True) w"
  by (auto simp: acquire_def wp_bnd wp_getf wp_whenp wp_inside
      intro!: wp_mono [OF take_valid_msgs] wp_mono [OF helper_init_msgs])

section \<open>One operation\<close>

text \<open>What an operation owes to the pools; \<open>G\<close> is what its result says of the message objects.\<close>

definition owes :: "('b \<Rightarrow> (nat \<Rightarrow> message) \<Rightarrow> bool) \<Rightarrow> (aworld, pyexc, 'b option) prog \<Rightarrow> aworld \<Rightarrow> bool" where
  "owes G m w \<longleftrightarrow> wp m
     (\<lambda>x u. at msgs_inv (core w) u \<and> sent_rest (core w) x u \<and> (\<forall>y. x = Some y \<longrightarrow> G y (msgs u)))
     (\<lambda>_ u. at msgs_inv (core w) u \<and> hlp (at_rest False (core w)) u) w"

lemma wp_pooled:
  assumes "async_lib L" and "api_inv w" and "trio_ok L c"
    and m: "\<And>t. lent L t \<Longrightarrow> msgs (inner t) = msgs (inner w) \<Longrightarrow> owes G m (inner t)"
  shows "wp (pooled L c r m) (\<lambda>x t. api_inv t \<and> (\<forall>y. x = Some y \<longrightarrow> G y (msgs (inner t)))) (\<lambda>_. api_inv) w"
proof -
  let ?Q = "\<lambda>x t. api_inv t \<and> (\<forall>y. x = Some y \<longrightarrow> G y (msgs (inner t)))"
  have back_ok: "wp (give_back L c r) (\<lambda>_ v. api_inv v \<and> G y (msgs (inner v))) (\<lambda>_. api_inv) (t\<lparr>inner := u\<rparr>)"
    if "lent L t" "at msgs_inv (core (inner t)) u" "hlp (at_rest False (core (inner t))) u" "G y (msgs u)" for t u y
    by (rule wp_mono [OF wp_release [OF assms(1)]])
      (use that in \<open>auto simp: lent_def api_inv_def rest_inside_def at_def\<close>)
  have back_exn: "wp (give_back L c r) (\<lambda>_. api_inv) (\<lambda>_. api_inv) (t\<lparr>inner := u\<rparr>)"
    if "lent L t" "at msgs_inv (core (inner t)) u" "hlp (at_rest False (core (inner t))) u" for t u
    by (rule wp_mono [OF wp_release [OF assms(1)]])
      (use that in \<open>auto simp: lent_def api_inv_def rest_inside_def at_def\<close>)
  have op: "wp (finally_some (inside m) (give_back L c r)) ?Q (\<lambda>_. api_inv) t"
    if "lent L t" "msgs (inner t) = msgs (inner w)" for t
    unfolding wp_finally_some wp_inside
    by (rule wp_mono [OF m [OF that, unfolded owes_def]])
      (use that in \<open>auto simp: sent_rest_def split: option.split intro!: back_exn back_ok intro: api_inv_inner
        simp: lent_def at_def\<close>)
  show ?thesis
    unfolding pooled_def wp_andthen
    by (rule wp_mono [OF wp_conj [OF wp_acquire [OF assms(1-3)] acquire_msgs]]) (auto intro: op)
qed

definition api_lib :: "nng_lib \<Rightarrow> bool" where
  "api_lib L \<longleftrightarrow> async_lib L \<and> fresh_lib L \<and> recv_lib L \<and> returns_unsent L"

lemma lent_ready:
  assumes "lent L t"
  obtains a where "fst (core (inner t)) = Some a" "usable L (core (inner t))" "at msgs_inv (core (inner t)) (inner t)"
    "hlp (at_rest False (core (inner t))) (inner t)" "msgs_inv (inner t)"
  using assms by (auto simp: lent_def api_inv_def rest_inside_def at_def core_def hlp_def at_rest_def held_def)

lemma owesI:
  assumes "wp m (\<lambda>_. at msgs_inv (core w)) (\<lambda>_. at msgs_inv (core w)) w"
    and "wp m (sent_rest (core w)) (\<lambda>_. hlp (at_rest False (core w))) w"
  shows "owes (\<lambda>_ _. True) m w"
  unfolding owes_def by (rule wp_mono [OF wp_conj [OF assms]]) auto

lemma owes_asend:
  assumes "api_lib L" and "lent L t"
  shows "owes (\<lambda>_ _. True) (asend L n d) (inner t)"
  using assms(2) by (rule lent_ready)
    (use assms(1) in \<open>auto simp: api_lib_def intro!: owesI asend_safe hlp_asend\<close>)

lemma owes_asend_msg:
  assumes "api_lib L" and "lent L t" and "\<not> gone (msgs (inner t) i)" and "nng_msg (msgs (inner t) i) \<noteq> None"
  shows "owes (\<lambda>_ _. True) (asend_msg L n i) (inner t)"
  using assms(2) by (rule lent_ready)
    (use assms(1,3,4) in \<open>auto simp: api_lib_def intro!: owesI asend_msg_safe hlp_asend_msg\<close>)

text \<open>A message that was received is new.\<close>

definition is_new :: "nat \<Rightarrow> (nat \<Rightarrow> message) \<Rightarrow> bool" where
  "is_new i ms \<longleftrightarrow> \<not> gone (ms i) \<and> \<not> mem_freed (ms i)"

lemma arecv_msg_new: "wp (arecv_msg L n) (\<lambda>x t. \<forall>i. x = Some i \<longrightarrow> is_new i (msgs t)) (\<lambda>_ _. True) w"
proof -
  have triv: "wp m (\<lambda>_ _. True) (\<lambda>_ _. True) t" for m :: "('s, pyexc, 'b) prog" and t
    by (simp add: wp_def split: prod.split sum.split)
  have mk: "wp (bnd (mk_message L (FromPtr p) NoPipe) (\<lambda>i. ret (Some i)))
      (\<lambda>x t. \<forall>i. x = Some i \<longrightarrow> is_new i (msgs t)) (\<lambda>_ _. True) u" for p and u :: "'a aworld_scheme"
    by (auto simp: is_new_def mk_message_def new_message_def message_init_def fresh_message_def wp_simps)
  have take: "wp (take_received L) (\<lambda>x t. \<forall>i. x = Some i \<longrightarrow> is_new i (msgs t)) (\<lambda>_ _. True) u"
    for u :: "'a aworld_scheme"
    unfolding take_received_def wp_bnd [of helper_aio] wp_bnd [of "ccall L c" for c] wp_andthen
    by (auto intro!: mk wp_mono [OF triv] simp del: wp_ccall wp_check_err)
  show ?thesis
    unfolding arecv_msg_def wp_andthen wp_bnd_some
    by (auto intro!: wp_mono [OF triv] take split: option.split)
qed

lemma wp_try_associate:
  fixes t :: aworld
  assumes "msgs_inv t" and "is_new i (msgs t)"
  shows "wp (try_associate_msg_with_pipe L ep i)
    (\<lambda>_ u. msgs_inv u \<and> is_new i (msgs u) \<and> helper u = helper t) (\<lambda>_ u. msgs_inv u \<and> helper u = helper t) t"
proof -
  have keep: "wp (try_associate_msg_with_pipe L ep i) (\<lambda>_ u. is_new i (msgs u) \<and> helper u = helper t)
      (\<lambda>_ u. helper u = helper t) t"
    using assms(2)
    by (auto simp: try_associate_msg_with_pipe_def msg_set_pipe_def is_new_def wp_simps split: option.split)
  have set: "wp (msg_set_pipe L i (APipe h)) (\<lambda>_. msgs_inv) (\<lambda>_. msgs_inv) v" if "quiet t v" for h v
    by (rule msg_set_pipe_inv) (use that assms(2) in \<open>auto simp: quiet_def is_new_def\<close>)
  have inv: "wp (try_associate_msg_with_pipe L ep i) (\<lambda>_. msgs_inv) (\<lambda>_. msgs_inv) t"
    unfolding try_associate_msg_with_pipe_def
    using quiet_refl [OF assms(1)] assms
    by (auto simp: wp_simps is_new_def live_def simp del: wp_ccall
        intro!: wp_quiet_call [where ?w0.0 = t] set dest: quiet_inv split: option.split)
  show ?thesis by (rule wp_mono [OF wp_conj [OF keep inv]]) auto
qed

lemma sent_rest_None: "sent_rest k None u"
  by (simp add: sent_rest_def)

lemma owes_receive:
  assumes "api_lib L" and "lent L t"
  shows "owes is_new (receive_one L ep n) (inner t)"
  using assms(2)
proof (rule lent_ready)
  fix a
  let ?k = "core (inner t)"
  assume a: "fst ?k = Some a" "usable L ?k" "at msgs_inv ?k (inner t)" "hlp (at_rest False ?k) (inner t)"
  note L = assms(1) [unfolded api_lib_def]
  have "wp (arecv_msg L n) (\<lambda>_. at msgs_inv ?k) (\<lambda>_. at msgs_inv ?k) (inner t)"
    by (rule arecv_msg_safe) (use L a in auto)
  moreover have "wp (arecv_msg L n) (rested False ?k) (\<lambda>_. hlp (at_rest False ?k)) (inner t)"
    by (rule hlp_arecv_msg) (use L a in auto)
  ultimately have recv: "wp (arecv_msg L n)
      (\<lambda>x u. at msgs_inv ?k u \<and> rested False ?k x u \<and> (\<forall>i. x = Some i \<longrightarrow> is_new i (msgs u)))
      (\<lambda>_ u. at msgs_inv ?k u \<and> hlp (at_rest False ?k) u) (inner t)"
    by (rule wp_mono [OF wp_conj [OF _ wp_conj [OF _ arecv_msg_new]]]) auto
  have assoc: "wp (andthen (try_associate_msg_with_pipe L ep i) (ret (Some i)))
      (\<lambda>x u. at msgs_inv ?k u \<and> sent_rest ?k x u \<and> (\<forall>y. x = Some y \<longrightarrow> is_new y (msgs u)))
      (\<lambda>_ u. at msgs_inv ?k u \<and> hlp (at_rest False ?k) u) u"
    if "at msgs_inv ?k u" "hlp (at_rest False ?k) u" "is_new i (msgs u)" for i and u :: aworld
    unfolding wp_andthen wp_ret
    by (rule wp_mono [OF wp_try_associate]) (use that in \<open>auto simp: at_def core_def hlp_def sent_rest_def\<close>)
  show ?thesis
    unfolding owes_def receive_one_def wp_bnd_some
    by (rule wp_mono [OF recv]) (auto split: option.split intro: assoc sent_rest_None)
qed

section \<open>The methods keep the pools\<close>

lemma wp_inside_keeps:
  assumes "api_inv w" and "wp m (\<lambda>_. msgs_inv) (\<lambda>_. msgs_inv) (inner w)"
  shows "wp (inside m) (\<lambda>_. api_inv) (\<lambda>_. api_inv) w"
  unfolding wp_inside by (rule wp_mono [OF assms(2)]) (use assms(1) in \<open>auto intro: api_inv_inner\<close>)

lemma wp_api_asend:
  assumes "api_lib L" and "api_inv w" and "trio_ok L c"
  shows "wp (api_asend L c n d) (\<lambda>_. api_inv) (\<lambda>_. api_inv) w"
proof -
  have op: "wp (pooled L c False (asend L n d)) (\<lambda>_. api_inv) (\<lambda>_. api_inv) w"
    by (rule wp_mono [OF wp_pooled [where G = "\<lambda>_ _. True"]])
      (use assms in \<open>auto simp: api_lib_def intro: owes_asend [unfolded api_lib_def]\<close>)
  show ?thesis
    using op assms(2)
    by (auto simp: api_asend_def ensure_can_send_data_def wp_andthen wp_inside wp_check_fork wp_ret wp_raise
        split: py_data.split)
qed

lemma wp_api_asend_msg:
  assumes "api_lib L" and "api_inv w" and "trio_ok L c"
    and "\<not> gone (msgs (inner w) i)" and "nng_msg (msgs (inner w) i) \<noteq> None"
  shows "wp (api_asend_msg L c n i) (\<lambda>_. api_inv) (\<lambda>_. api_inv) w"
proof -
  have op: "wp (pooled L c False (asend_msg L n i)) (\<lambda>_. api_inv) (\<lambda>_. api_inv) w"
    by (rule wp_mono [OF wp_pooled [where G = "\<lambda>_ _. True"]])
      (use assms in \<open>auto simp: api_lib_def intro: owes_asend_msg [unfolded api_lib_def]\<close>)
  show ?thesis
    using op assms(2)
    by (auto simp: api_asend_msg_def wp_andthen wp_inside wp_ensure_can_send wp_check_not_sent)
qed

lemma wp_api_arecv_msg:
  assumes "api_lib L" and "api_inv w" and "trio_ok L c"
  shows "wp (api_arecv_msg L c ep n) (\<lambda>x t. api_inv t \<and> (\<forall>i. x = Some i \<longrightarrow> is_new i (msgs (inner t)))) (\<lambda>_. api_inv) w"
proof -
  have op: "wp (pooled L c True (receive_one L ep n))
      (\<lambda>x t. api_inv t \<and> (\<forall>i. x = Some i \<longrightarrow> is_new i (msgs (inner t)))) (\<lambda>_. api_inv) w"
    by (rule wp_pooled) (use assms in \<open>auto simp: api_lib_def intro: owes_receive [unfolded api_lib_def]\<close>)
  then show ?thesis
    using assms(2) by (auto simp: api_arecv_msg_def wp_andthen wp_inside wp_check_fork)
qed

text \<open>Reading the message that was received.\<close>

lemma wp_with_received:
  assumes "api_lib L" and "api_inv w" and "trio_ok L c"
    and read: "\<And>i t. api_inv t \<Longrightarrow> is_new i (msgs (inner t)) \<Longrightarrow> wp (f i) (\<lambda>_. api_inv) (\<lambda>_. api_inv) t"
  shows "wp (bnd_some (api_arecv_msg L c ep n) f) (\<lambda>_. api_inv) (\<lambda>_. api_inv) w"
  unfolding wp_bnd_some
  by (rule wp_mono [OF wp_api_arecv_msg [OF assms(1-3)]]) (auto split: option.split intro: read)

lemma wp_api_arecv:
  assumes "api_lib L" and "api_inv w" and "trio_ok L c"
  shows "wp (api_arecv L c ep n) (\<lambda>_. api_inv) (\<lambda>_. api_inv) w"
  unfolding api_arecv_def
proof (rule wp_with_received [OF assms])
  fix i and t :: api_world
  assume t: "api_inv t" "is_new i (msgs (inner t))"
  then have "wp (msg_bytes L i) (\<lambda>_. msgs_inv) (\<lambda>_. msgs_inv) (inner t)"
    by (intro wp_mono [OF msg_bytes_inv]) (auto simp: api_inv_def is_new_def intro: quiet_inv)
  then show "wp (bnd (inside (msg_bytes L i)) (\<lambda>b. ret (Some b))) (\<lambda>_. api_inv) (\<lambda>_. api_inv) t"
    unfolding wp_bnd wp_ret by (rule wp_inside_keeps [OF t(1)])
qed

lemma wp_api_arecv_into:
  assumes "api_lib L" and "api_inv w" and "trio_ok L c"
  shows "wp (api_arecv_into L c ep n readonly buf) (\<lambda>_. api_inv) (\<lambda>_. api_inv) w"
proof (cases readonly)
  case True
  with assms(2) show ?thesis by (simp add: api_arecv_into_def wp_raise)
next
  case False
  have "wp (bnd_some (api_arecv_msg L c ep n) (\<lambda>i. inside (recv_into L (ret (Some i)) False buf)))
      (\<lambda>_. api_inv) (\<lambda>_. api_inv) w"
  proof (rule wp_with_received [OF assms])
    fix i and t :: api_world
    assume t: "api_inv t" "is_new i (msgs (inner t))"
    have "wp (recv_into L (ret (Some i)) False buf) (\<lambda>_. msgs_inv) (\<lambda>_. msgs_inv) (inner t)"
      by (rule recv_into_inv) (use t in \<open>auto simp: wp_ret api_inv_def is_new_def live_def\<close>)
    then show "wp (inside (recv_into L (ret (Some i)) False buf)) (\<lambda>_. api_inv) (\<lambda>_. api_inv) t"
      by (rule wp_inside_keeps [OF t(1)])
  qed
  with False show ?thesis by (simp add: api_arecv_into_def)
qed

lemma wp_free_helpers:
  assumes "async_lib L"
  shows "api_inv w \<Longrightarrow> pool_ok hs \<Longrightarrow> wp (free_helpers L r hs) (\<lambda>_. api_inv) (\<lambda>_. api_inv) w"
proof (induction hs arbitrary: w)
  case (Cons h hs)
  have set: "wp (set_pool r hs) (\<lambda>_. api_inv) E w" for E
    by (rule api_inv_set) (use Cons.prems in auto)
  have free: "wp (inside (helper_free L)) (\<lambda>_. wp (free_helpers L r hs) (\<lambda>_. api_inv) (\<lambda>_. api_inv)) (\<lambda>_. api_inv) t"
    if "api_inv t" "helper (inner t) = h" for t
    using that Cons.prems
    by (intro wp_mono [OF free_inside [OF assms]] Cons.IH) (auto simp: at_rest_def held_def)
  show ?case
    unfolding free_helpers.simps wp_andthen
    by (auto intro!: wp_mono [OF set] wp_mono [OF put_inside] free)
qed (simp add: wp_ret)

lemma wp_api_free_pools:
  assumes "async_lib L" and "api_inv w"
  shows "wp (api_free_pools L) (\<lambda>_. api_inv) (\<lambda>_. api_inv) w"
proof -
  have "wp (bnd (getf (pool_of r)) (free_helpers L r)) (\<lambda>_. api_inv) (\<lambda>_. api_inv) t" if "api_inv t" for r t
    using wp_free_helpers [OF assms(1) that api_inv_pool [OF that]] by (simp add: wp_bnd wp_getf)
  moreover have "api_inv (w\<lparr>takes_back := False\<rparr>)" using assms(2) by (simp add: api_inv_def)
  ultimately show ?thesis by (auto simp: api_free_pools_def wp_andthen wp_modf intro: wp_mono)
qed

lemma mk_message_ptr:
  "wp (mk_message L (FromData d) p) (\<lambda>i t. nng_msg (msgs t i) \<noteq> None) (\<lambda>_ _. True) w"
  by (cases d; cases p) (auto simp: mk_message_def new_message_def message_init_def alloc_msg_def
      msg_set_pipe_def ensure_can_send_data_def as_memoryview_def fresh_message_def wp_simps split: py_data.split)

lemma wp_pipe_asend:
  assumes "api_lib L" and "api_inv w" and "trio_ok L c"
  shows "wp (pipe_asend L c n p d) (\<lambda>_. api_inv) (\<lambda>_. api_inv) w"
proof -
  have f: "fresh_lib L" "msgs_inv (inner w)" using assms(1,2) by (simp_all add: api_lib_def api_inv_def)
  have mk: "wp (inside (mk_message L (FromData d) (APipe p)))
      (\<lambda>i. wp (socket_asend_msg L c n i) (\<lambda>_. api_inv) (\<lambda>_. api_inv)) (\<lambda>_. api_inv) w"
    unfolding wp_inside socket_asend_msg_def
    by (rule wp_mono [OF wp_conj [OF mk_message_data_inv [OF f] mk_message_ptr]])
      (use assms in \<open>auto intro!: wp_api_asend_msg api_inv_inner\<close>)
  show ?thesis
    using mk assms(2)
    by (auto simp: pipe_asend_def ensure_can_send_data_def wp_andthen wp_bnd [of "inside m" for m]
        wp_inside [of "andthen check_fork m" for m] wp_check_fork wp_ret wp_raise split: py_data.split)
qed

lemma wp_pipe_asend_msg:
  assumes "api_lib L" and "api_inv w" and "trio_ok L c"
    and "\<not> gone (msgs (inner w) i)" and "\<not> mem_freed (msgs (inner w) i)" and "nng_msg (msgs (inner w) i) \<noteq> None"
  shows "wp (pipe_asend_msg L c n p i) (\<lambda>_. api_inv) (\<lambda>_. api_inv) w"
proof -
  have m: "msgs_inv (inner w)" using assms(2) by (simp add: api_inv_def)
  have keep: "wp (msg_set_pipe L i (APipe p))
      (\<lambda>_ u. \<not> gone (msgs u i) \<and> nng_msg (msgs u i) \<noteq> None) (\<lambda>_ _. True) (inner w)"
    using assms(4,6) by (auto simp: msg_set_pipe_def wp_simps)
  show ?thesis
    unfolding pipe_asend_msg_def wp_andthen wp_inside socket_asend_msg_def
    by (rule wp_mono [OF wp_conj [OF msg_set_pipe_inv [OF m assms(4,5)] keep]])
      (use assms in \<open>auto intro!: wp_api_asend_msg api_inv_inner\<close>)
qed

section \<open>A life of an object\<close>

text \<open>
  Any calls of the methods, with what each call depends on, on messages that are not gone; making
  and dropping messages, closing, and whatever the event loop does with the engine in between. An
  operation may also wait for ever.
\<close>

inductive api_step :: "nng_lib \<times> api_world \<Rightarrow> nng_lib \<times> api_world \<Rightarrow> bool" where
  ap_send: "trio_ok L c \<Longrightarrow> api_step (L, w) (L, snd (api_asend L c n d w))"
| ap_send_msg: "trio_ok L c \<Longrightarrow> \<not> gone (msgs (inner w) i) \<Longrightarrow> nng_msg (msgs (inner w) i) \<noteq> None \<Longrightarrow>
    api_step (L, w) (L, snd (api_asend_msg L c n i w))"
| ap_recv_msg: "trio_ok L c \<Longrightarrow> api_step (L, w) (L, snd (api_arecv_msg L c ep n w))"
| ap_recv: "trio_ok L c \<Longrightarrow> api_step (L, w) (L, snd (api_arecv L c ep n w))"
| ap_recv_into: "trio_ok L c \<Longrightarrow> api_step (L, w) (L, snd (api_arecv_into L c ep n readonly buf w))"
| ap_pipe_send: "trio_ok L c \<Longrightarrow> api_step (L, w) (L, snd (pipe_asend L c n p d w))"
| ap_pipe_send_msg: "trio_ok L c \<Longrightarrow> \<not> gone (msgs (inner w) i) \<Longrightarrow> \<not> mem_freed (msgs (inner w) i) \<Longrightarrow>
    nng_msg (msgs (inner w) i) \<noteq> None \<Longrightarrow> api_step (L, w) (L, snd (pipe_asend_msg L c n p i w))"
| ap_close: "api_step (L, w) (L, snd (api_free_pools L w))"
| ap_new: "api_step (L, w) (L, snd (inside (mk_message L (FromData d) q) w))"
| ap_del: "\<not> gone (msgs (inner w) i) \<Longrightarrow> api_step (L, w) (L, snd (inside (msg_del L i) w))"
| ap_loop: "api_step (L, w) (L, w\<lparr>inner := (inner w)\<lparr>esys := es, loop_open := o'\<rparr>\<rparr>)"

definition api_start :: "nng_lib \<times> api_world \<Rightarrow> bool" where
  "api_start s = (case s of (L, w) \<Rightarrow> api_lib L \<and> calls (inner w) = [] \<and> (\<forall>i. nng_msg (msgs (inner w) i) = None)
     \<and> recv_idle w = [] \<and> send_idle w = [])"

definition api_sound :: "nng_lib \<times> api_world \<Rightarrow> bool" where
  "api_sound s = (case s of (L, w) \<Rightarrow> api_lib L \<and> api_inv w)"

lemma api_sound_step: "api_sound s \<Longrightarrow> api_step s t \<Longrightarrow> api_sound t"
proof (erule api_step.cases, goal_cases)
  case (8 L w)
  then show ?case
    by (auto simp: api_sound_def api_lib_def intro: wp_stateI [OF wp_api_free_pools])
next
  case (9 L w d q)
  then have "wp (inside (mk_message L (FromData d) q)) (\<lambda>_. api_inv) (\<lambda>_. api_inv) w"
    by (intro wp_inside_keeps mk_message_inv) (auto simp: api_sound_def api_lib_def api_inv_def)
  with 9 show ?case by (auto simp: api_sound_def intro: wp_stateI)
next
  case (10 w i L)
  then have "wp (inside (msg_del L i)) (\<lambda>_. api_inv) (\<lambda>_. api_inv) w"
    by (intro wp_inside_keeps msg_del_inv) (auto simp: api_sound_def api_inv_def)
  with 10 show ?case by (auto simp: api_sound_def intro: wp_stateI)
next
  case 11
  have "msgs_inv (u\<lparr>esys := x, loop_open := y\<rparr>) = msgs_inv u" for u :: aworld and x y
    unfolding msgs_inv_def by (simp add: live_def)
  with 11 show ?case by (auto simp: api_sound_def api_inv_def)
qed (auto simp: api_sound_def intro: wp_stateI wp_api_asend wp_api_asend_msg wp_api_arecv wp_api_arecv_into
    wp_pipe_asend wp_pipe_asend_msg wp_stateI [OF wp_mono [OF wp_api_arecv_msg]])

lemma api_sound_start: "api_start s \<Longrightarrow> api_sound s"
  by (auto simp: api_start_def api_sound_def api_inv_def msgs_inv_def live_def)

interpretation api_run: step_invariant api_start api_step api_sound
  by unfold_locales (fact api_sound_start, fact api_sound_step)


text \<open>A library whose entries are idle after each operation.\<close>

definition idle_lib :: "nng_lib \<Rightarrow> nng_lib" where
  "idle_lib L = L\<lparr>fn := \<lambda>tr c. case c of Fn f xs \<Rightarrow> (fn L tr c)\<lparr>r_val := 1\<rparr> | _ \<Rightarrow> fn L tr c\<rparr>"

lemma idle_lib_call:
  "fn (idle_lib L) tr (M m) = fn L tr (M m)" "fn (idle_lib L) tr (A a) = fn L tr (A a)"
  "fn (idle_lib L) tr (Fn f xs) = (fn L tr (Fn f xs))\<lparr>r_val := 1\<rparr>"
  "r_exn (fn (idle_lib L) tr c) = r_exn (fn L tr c)"
  "r_out (fn (idle_lib L) tr c) = r_out (fn L tr c)"
  "hands_out g c (fn (idle_lib L) tr c) = hands_out g c (fn L tr c)"
  by (simp_all add: idle_lib_def hands_out_def split: ncall.split)

lemma idle_lib_ok: "api_lib L \<Longrightarrow> api_lib (idle_lib L)"
  by (simp add: api_lib_def async_lib_def fresh_lib_def recv_lib_def returns_unsent_def idle_lib_call)

lemma idle_lib_has [simp]: "has_attr (idle_lib L) = has_attr L" "err (idle_lib L) = err L"
  by (simp_all add: idle_lib_def)

definition api_world0 :: api_world where
  "api_world0 = \<lparr>inner = aworld0\<lparr>esys := \<lparr>eng = wrapped_engine\<lparr>slot_tab := [], slot_counter := 0\<rparr>,
       futs = (\<lambda>_. Waiting), fds = {}\<rparr>\<rparr>, recv_idle = [], send_idle = [], takes_back = True\<rparr>"

definition asyncio_caller :: caller where
  "asyncio_caller = \<lparr>c_obj = 5, c_recv = Nng_recv_aio, c_send = Nng_send_aio, c_backend = None,
     c_current = ''asyncio'', c_engine = True, c_here = True\<rparr>"


end
