(* ===== verification/DeviceLock.thy ===== *)
theory DeviceLock
  imports Prelude
begin

text \<open>
  \<open>_device_section\<close> of \<^verbatim>\<open>pynng/_base.py\<close> and the finalizer \<open>DeviceAIO.__del__\<close> of
  \<^verbatim>\<open>_aio.py\<close>: the lock of the devices cannot be entered twice by one thread, and the garbage collector may
  run the finalizer, which takes the lock, on any thread at any moment.
\<close>

section \<open>Sections\<close>

text \<open>
  A thread inside the context manager: it read the depth, it raised it, it has the lock, it released
  the lock. The number is the depth it read. A thread has a stack of these, since a finalizer runs on
  top of what the thread was doing.
\<close>

datatype frame = Read nat | Raised nat | Locked nat | Unlocked nat

record lock_sys =
  lock_owner :: "nat option"
  depth :: "nat \<Rightarrow> nat"
  frames :: "nat \<Rightarrow> frame list"

definition in_device_section :: "nat \<Rightarrow> lock_sys \<Rightarrow> bool" where
  "in_device_section t s \<longleftrightarrow> 0 < depth s t"

definition set_frames :: "nat \<Rightarrow> frame list \<Rightarrow> lock_sys \<Rightarrow> lock_sys" where
  "set_frames t fs s = s\<lparr>frames := (frames s)(t := fs)\<rparr>"

definition set_depth :: "nat \<Rightarrow> nat \<Rightarrow> lock_sys \<Rightarrow> lock_sys" where
  "set_depth t d s = s\<lparr>depth := (depth s)(t := d)\<rparr>"

text \<open>
  \<open>__del__\<close>: the section is entered on this thread only outside of one; otherwise on a thread of its
  own, which then is like any other thread.
\<close>

definition finalize :: "nat \<Rightarrow> nat \<Rightarrow> lock_sys \<Rightarrow> lock_sys" where
  "finalize t fresh s =
     (if in_device_section t s then set_frames fresh [Read 0] s
      else set_frames t (Read (depth s t) # frames s t) s)"

inductive lock_step :: "lock_sys \<Rightarrow> lock_sys \<Rightarrow> bool" where
  lk_enter: "frames s t = [] \<Longrightarrow> lock_step s (set_frames t [Read (depth s t)] s)"
| lk_finalize: "frames s fresh = [] \<Longrightarrow> depth s fresh = 0 \<Longrightarrow> fresh \<noteq> t \<Longrightarrow> lock_step s (finalize t fresh s)"
| lk_raise: "frames s t = Read d # fs \<Longrightarrow> lock_step s (set_frames t (Raised d # fs) (set_depth t (d + 1) s))"
| lk_lock: "frames s t = Raised d # fs \<Longrightarrow> lock_owner s = None \<Longrightarrow>
    lock_step s (set_frames t (Locked d # fs) (s\<lparr>lock_owner := Some t\<rparr>))"
| lk_unlock: "frames s t = Locked d # fs \<Longrightarrow>
    lock_step s (set_frames t (Unlocked d # fs) (s\<lparr>lock_owner := None\<rparr>))"
| lk_restore: "frames s t = Unlocked d # fs \<Longrightarrow> lock_step s (set_frames t fs (set_depth t d s))"
| lk_interrupt: "frames s t = Read d # fs \<Longrightarrow> lock_step s (set_frames t fs s)"
| lk_interrupt_raised: "frames s t = Raised d # fs \<Longrightarrow> lock_step s (set_frames t fs s)"

definition lock_start :: "lock_sys \<Rightarrow> bool" where
  "lock_start s \<longleftrightarrow> lock_owner s = None \<and> depth s = (\<lambda>_. 0) \<and> frames s = (\<lambda>_. [])"

section \<open>No thread waits for itself\<close>

fun stack_ok :: "nat \<Rightarrow> frame list \<Rightarrow> bool" where
  "stack_ok d [] \<longleftrightarrow> True"
| "stack_ok d (f # fs) \<longleftrightarrow> (case f of Read k \<Rightarrow> True | Raised k \<Rightarrow> d = k + 1 | Locked k \<Rightarrow> d = k + 1 | Unlocked k \<Rightarrow> d = k + 1)
     \<and> (\<forall>g\<in>set fs. \<exists>k. g = Read k)"

definition owner_ok :: "nat \<Rightarrow> frame list \<Rightarrow> nat option \<Rightarrow> bool" where
  "owner_ok t fs own \<longleftrightarrow> (own = Some t \<longleftrightarrow> (\<exists>d gs. fs = Locked d # gs))"

definition lock_inv :: "lock_sys \<Rightarrow> bool" where
  "lock_inv s \<longleftrightarrow> (\<forall>t. stack_ok (depth s t) (frames s t) \<and> owner_ok t (frames s t) (lock_owner s))"

lemmas lock_defs = set_frames_def set_depth_def finalize_def in_device_section_def owner_ok_def

lemma stack_ok_reads: "\<forall>g\<in>set fs. \<exists>k. g = Read k \<Longrightarrow> stack_ok d fs"
  by (cases fs) auto

lemma lock_inv_step:
  assumes "lock_inv s" and "lock_step s s'"
  shows "lock_inv s'"
proof -
  have st: "stack_ok (depth s t) (frames s t)" and ow: "owner_ok t (frames s t) (lock_owner s)" for t
    using assms(1) by (auto simp: lock_inv_def)
  have reads: "\<forall>g\<in>set (frames s t). \<exists>k. g = Read k" if "depth s t = 0" for t
    using st [of t] that by (cases "frames s t") (auto split: frame.splits)
  have below: "stack_ok k fs" if "frames s t = f # fs" for t f fs k
    using st [of t] that by (auto intro: stack_ok_reads)
  have unlocked: "fs \<noteq> Locked d # gs" if "frames s t = f # fs" for t f fs d gs
    using st [of t] that by auto
  from assms(2) show ?thesis
  proof cases
    case (lk_enter t)
    with st ow [of t] ow show ?thesis by (auto simp: lock_inv_def lock_defs)
  next
    case (lk_finalize fresh t)
    with reads [of t] st ow show ?thesis by (auto simp: lock_inv_def lock_defs)
  next
    case (lk_raise t d fs)
    with st [of t] st ow show ?thesis by (auto simp: lock_inv_def lock_defs)
  next
    case (lk_lock t d fs)
    with st [of t] st ow show ?thesis by (auto simp: lock_inv_def lock_defs)
  next
    case (lk_unlock t d fs)
    with ow [of t] have "lock_owner s = Some t" by (simp add: owner_ok_def)
    then have "frames s v \<noteq> Locked k # gs" if "v \<noteq> t" for v k gs using ow [of v] that by (simp add: owner_ok_def)
    with lk_unlock st [of t] st show ?thesis by (auto simp: lock_inv_def lock_defs)
  next
    case (lk_restore t d fs)
    with below [OF lk_restore(2)] unlocked [OF lk_restore(2)] st ow show ?thesis
      by (auto simp: lock_inv_def lock_defs)
  next
    case (lk_interrupt t d fs)
    with below [OF lk_interrupt(2)] unlocked [OF lk_interrupt(2)] st ow show ?thesis
      by (auto simp: lock_inv_def lock_defs)
  next
    case (lk_interrupt_raised t d fs)
    with below [OF lk_interrupt_raised(2)] unlocked [OF lk_interrupt_raised(2)] st ow show ?thesis
      by (auto simp: lock_inv_def lock_defs)
  qed
qed

lemma lock_inv_start: "lock_start s \<Longrightarrow> lock_inv s"
  by (simp add: lock_start_def lock_inv_def owner_ok_def)

interpretation device_lock: step_invariant lock_start lock_step lock_inv
  by unfold_locales (fact lock_inv_start, fact lock_inv_step)

text \<open>C24. A finalizer never waits for its own thread. Whatever threads enter device sections, wherever the
  garbage collector runs finalizers and wherever interrupts strike, a thread that waits for the device
  lock does not hold it itself, and the thread that holds it is at work inside its section, from where
  it can go on to release the lock.\<close>

theorem device_lock_not_reentered:
  assumes "reach lock_start lock_step s" and "frames s t = Raised d # fs" and "lock_owner s = Some u"
  shows "u \<noteq> t \<and> (\<exists>k gs. frames s u = Locked k # gs
    \<and> lock_step s (set_frames u (Unlocked k # gs) (s\<lparr>lock_owner := None\<rparr>)))"
proof -
  have "lock_inv s" by (rule device_lock.reach_inv [OF assms(1)])
  then have ow: "owner_ok v (frames s v) (lock_owner s)" for v by (simp add: lock_inv_def)
  from ow [of u] assms(3) obtain k gs where k: "frames s u = Locked k # gs" by (auto simp: owner_ok_def)
  moreover have "u \<noteq> t" using k assms(2) by auto
  ultimately show ?thesis using lk_unlock by blast
qed

text \<open>Thread 0 has the lock, and a finalizer that runs there leaves the work to thread 1.\<close>

definition lock0 :: lock_sys where
  "lock0 = \<lparr>lock_owner = None, depth = (\<lambda>_. 0), frames = (\<lambda>_. [])\<rparr>"

definition handed_over :: lock_sys where
  "handed_over = \<lparr>lock_owner = Some 0, depth = (\<lambda>_. 0)(0 := 1, 1 := 1), frames = (\<lambda>_. [])(0 := [Locked 0], 1 := [Raised 0])\<rparr>"

lemma reach_handed_over: "reach lock_start lock_step handed_over"
proof -
  define s1 where "s1 = set_frames 0 [Read 0] lock0"
  define s2 where "s2 = set_frames 0 [Raised 0] (set_depth 0 1 s1)"
  define s3 where "s3 = set_frames 0 [Locked 0] (s2\<lparr>lock_owner := Some 0\<rparr>)"
  define s4 where "s4 = finalize 0 1 s3"
  define s5 where "s5 = set_frames 1 [Raised 0] (set_depth 1 1 s4)"
  note defs = s5_def s4_def s3_def s2_def s1_def lock0_def lock_defs
  have "reach lock_start lock_step lock0" by (rule reach_init) (simp add: lock_start_def lock0_def)
  moreover have "lock_step lock0 s1" using lk_enter [of lock0 0] by (simp add: defs)
  moreover have "lock_step s1 s2" using lk_raise [of s1 0 0 "[]"] by (simp add: defs)
  moreover have "lock_step s2 s3" using lk_lock [of s2 0 0 "[]"] by (simp add: defs)
  moreover have "lock_step s3 s4" unfolding s4_def by (rule lk_finalize) (simp_all add: defs)
  moreover have "lock_step s4 s5" using lk_raise [of s4 1 0 "[]"] by (simp add: defs)
  moreover have "s5 = handed_over" by (simp add: defs handed_over_def fun_eq_iff)
  ultimately show ?thesis by (metis reach_step)
qed

theorem device_lock_not_reentered_witness:
  "(0::nat) \<noteq> 1 \<and> (\<exists>k gs. frames handed_over 0 = Locked k # gs
    \<and> lock_step handed_over (set_frames 0 (Unlocked k # gs) (handed_over\<lparr>lock_owner := None\<rparr>)))"
  by (rule device_lock_not_reentered [OF reach_handed_over]) (simp_all add: handed_over_def)

end
