(* ===== verification/Objects.thy ===== *)
theory Objects
  imports V2 Pipes AsyncIO
begin

text \<open>
  The small methods around the objects of \<^verbatim>\<open>pynng/_base.py\<close>, and the C callbacks of
  \<^verbatim>\<open>pynng/nng.py\<close> and \<^verbatim>\<open>pynng/v2/_callbacks.py\<close>, which find the Python object and hand over
  to the dispatchers of theories \<open>Pipes\<close> and \<open>AsyncIO\<close>.
\<close>

section \<open>Callbacks\<close>

text \<open>
  \<open>_nng_pipe_cb\<close>: \<open>from_handle\<close> is what cffi makes of the argument, \<open>None\<close> for one of the three
  exceptions that are caught. Each socket has a dispatcher.
\<close>

definition nng_pipe_cb ::
  "nng_lib \<Rightarrow> (int \<Rightarrow> nat option) \<Rightarrow> tid \<Rightarrow> int \<Rightarrow> int \<Rightarrow> int \<Rightarrow> (nat \<Rightarrow> dispatcher) \<Rightarrow> nat \<Rightarrow> dispatcher" where
  "nng_pipe_cb L from_handle t pid event arg socks =
     (case from_handle arg of
        None \<Rightarrow> socks
      | Some k \<Rightarrow> socks(k := deliver t (pipe_event_of L event) pid (socks k)))"

definition v2_nng_pipe_cb ::
  "nng_lib \<Rightarrow> (int \<Rightarrow> nat option) \<Rightarrow> tid \<Rightarrow> int \<Rightarrow> int \<Rightarrow> int \<Rightarrow> (nat \<Rightarrow> dispatcher) \<Rightarrow> nat \<Rightarrow> dispatcher" where
  "v2_nng_pipe_cb = nng_pipe_cb"

definition v2_async_complete :: "nat \<Rightarrow> nat list \<Rightarrow> bool \<times> nat list" where
  "v2_async_complete k m = (if k \<in> set m then (True, filter (\<lambda>j. j \<noteq> k) m) else (False, m))"

lemma v2_async_complete_same: "v2_async_complete = async_complete"
  by (auto simp: fun_eq_iff v2_async_complete_def async_complete_def intro!: filter_True [symmetric])

text \<open>An event reaches no socket but the one of its handle.\<close>

lemma nng_pipe_cb_other: "from_handle arg \<noteq> Some j \<Longrightarrow> nng_pipe_cb L from_handle t pid event arg socks j = socks j"
  by (auto simp: nng_pipe_cb_def split: option.split)

section \<open>Context managers\<close>

text \<open>
  \<open>with\<close> and \<open>async with\<close>: \<open>__exit__\<close> and \<open>__aexit__\<close> close the object, and \<open>aclose\<close> is \<open>close\<close>.
\<close>

definition using_socket ::
  "nng_lib \<Rightarrow> ('a sworld_scheme, pyexc, 'b) prog \<Rightarrow> ('a sworld_scheme, pyexc, 'b) prog" where
  "using_socket L body = try_finally body (do_close L)"

definition using_context ::
  "nng_lib \<Rightarrow> nng_lib \<Rightarrow> ('a cworld_scheme, pyexc, 'b) prog \<Rightarrow> ('a cworld_scheme, pyexc, 'b) prog" where
  "using_context L1 L body = try_finally body (context_close L1 L)"

definition using_dialer ::
  "nng_lib \<Rightarrow> int \<Rightarrow> ('a sworld_scheme, pyexc, 'b) prog \<Rightarrow> ('a sworld_scheme, pyexc, 'b) prog" where
  "using_dialer L d body = try_finally body (dialer_close L d)"

definition using_listener ::
  "nng_lib \<Rightarrow> int \<Rightarrow> ('a sworld_scheme, pyexc, 'b) prog \<Rightarrow> ('a sworld_scheme, pyexc, 'b) prog" where
  "using_listener L l body = try_finally body (listener_close L l)"

definition socket_aclose :: "nng_lib \<Rightarrow> ('a sworld_scheme, pyexc, unit) prog" where
  "socket_aclose = do_close"

definition context_aclose :: "nng_lib \<Rightarrow> nng_lib \<Rightarrow> ('a cworld_scheme, pyexc, unit) prog" where
  "context_aclose = context_close"

text \<open>However the body ends, the socket is marked closed after it.\<close>

lemma finish_close_keeps_mark: "wp (finish_close L) (\<lambda>_. sclosed) (\<lambda>_. sclosed) s" if "sclosed s" for s :: "'a sworld_scheme"
proof -
  have each: "wp (for_each (\<lambda>a. bnd (ccall L (c a)) (\<lambda>_. ret ())) as) (\<lambda>_. sclosed) (\<lambda>_. sclosed) t"
    if "sclosed t" for c as and t :: "'a sworld_scheme"
    using that by (intro wp_for_each) (auto simp: wp_simps split: option.split)
  show ?thesis
    using that
    by (auto simp: finish_close_def end_devices_def free_pools_def drop_handle_def wp_simps wp_sock_id
        intro!: wp_mono [OF each] split: option.split)
qed

lemma do_close_marks: "wp (do_close L) (\<lambda>_ t. s_sock t \<noteq> None \<longrightarrow> sclosed t) (\<lambda>_. sclosed) (s :: 'a sworld_scheme)"
  by (auto simp: do_close_def wp_simps intro!: wp_mono [OF finish_close_keeps_mark])

lemma using_socket_closes:
  "wp (using_socket L body) (\<lambda>_ t. s_sock t \<noteq> None \<longrightarrow> sclosed t) (\<lambda>_ t. s_sock t \<noteq> None \<longrightarrow> sclosed t) s"
proof -
  have triv: "wp m (\<lambda>_ _. True) (\<lambda>_ _. True) t" for m :: "('s, pyexc, 'b) prog" and t
    by (simp add: wp_def split: prod.split sum.split)
  show ?thesis
    unfolding using_socket_def wp_finally
    by (rule wp_mono [OF triv]) (auto intro!: wp_mono [OF do_close_marks])
qed

section \<open>Endpoints and pipes\<close>

definition socket_dialers :: "('a sworld_scheme, pyexc, int list) prog" where
  "socket_dialers = getf (\<lambda>w. map snd (dialers w))"

definition socket_listeners :: "('a sworld_scheme, pyexc, int list) prog" where
  "socket_listeners = getf (\<lambda>w. map snd (listeners w))"

definition new_context :: "nng_lib \<Rightarrow> nng_lib \<Rightarrow> int \<Rightarrow> ('a cworld_scheme, pyexc, unit) prog" where
  "new_context = context_init"

definition dialer_id :: "nng_lib \<Rightarrow> int \<Rightarrow> ('a world_scheme, pyexc, int) prog" where
  "dialer_id L d = bnd (ccall L (S (Dialer_id d))) (\<lambda>r. ret (r_val r))"

definition listener_id :: "nng_lib \<Rightarrow> int \<Rightarrow> ('a world_scheme, pyexc, int) prog" where
  "listener_id L l = bnd (ccall L (S (Listener_id l))) (\<lambda>r. ret (r_val r))"

record py_pipe =
  lib_pipe :: int
  pipe_socket :: nat
  pipe_closed :: bool

definition pipe_init :: "int \<Rightarrow> nat \<Rightarrow> py_pipe" where
  "pipe_init p sock = \<lparr>lib_pipe = p, pipe_socket = sock, pipe_closed = False\<rparr>"

definition pipe_id :: "nng_lib \<Rightarrow> py_pipe \<Rightarrow> ('a world_scheme, pyexc, int) prog" where
  "pipe_id L p = bnd (ccall L (S (Pipe_id (lib_pipe p)))) (\<lambda>r. ret (r_val r))"

section \<open>Receiving and sending bytes\<close>

definition context_recv ::
  "nng_lib \<Rightarrow> nng_lib \<Rightarrow> nat \<Rightarrow> endpoint \<Rightarrow> bool \<Rightarrow> ('a mworld_scheme, pyexc, byte list option) prog" where
  "context_recv L1 L n ep block = recv_with L (context_recv_msg L1 L n ep block)"

definition context_recv_into ::
  "nng_lib \<Rightarrow> nng_lib \<Rightarrow> nat \<Rightarrow> endpoint \<Rightarrow> bool \<Rightarrow> bool \<Rightarrow> buffer
     \<Rightarrow> ('a mworld_scheme, pyexc, (nat \<times> byte list) option) prog" where
  "context_recv_into L1 L n ep block readonly buf = recv_into L (context_recv_msg L1 L n ep block) readonly buf"

definition v2_recv ::
  "nng_lib \<Rightarrow> nng_lib \<Rightarrow> nat \<Rightarrow> endpoint \<Rightarrow> bool \<Rightarrow> ('a mworld_scheme, pyexc, byte list option) prog" where
  "v2_recv L1 L n ep block = recv_with L (socket_recv_msg L1 L n ep block)"

definition v2_send :: "nng_lib \<Rightarrow> int \<Rightarrow> py_data \<Rightarrow> bool \<Rightarrow> ('a world_scheme, pyexc, unit) prog" where
  "v2_send = socket_send"

definition msg_pipe :: "nat \<Rightarrow> ('a mworld_scheme, pyexc, int option) prog" where
  "msg_pipe i = getf (\<lambda>w. mpipe (msgs w i))"

end
