(* ===== verification/BenchCompare.thy ===== *)
theory BenchCompare
  imports Complex_Main SockAddr
begin

text \<open>
  \<^verbatim>\<open>benchmarks/compare.py\<close>: the comparison of two benchmark runs, its Markdown report and the
  regression gate of the continuous integration. A run is what \<^verbatim>\<open>bench.py\<close> writes. The
  arithmetic, the comparisons and the formatting of Python's floats are the argument \<open>F\<close>, of which
  nothing is assumed, so the lemmas hold for rounded arithmetic, infinities and NaN as well.
\<close>

section \<open>Data\<close>

record 'f floats =
  fsub :: "'f \<Rightarrow> 'f \<Rightarrow> 'f"
  fmul :: "'f \<Rightarrow> 'f \<Rightarrow> 'f"
  fdiv :: "'f \<Rightarrow> 'f \<Rightarrow> 'f"
  fabs :: "'f \<Rightarrow> 'f"
  fless :: "'f \<Rightarrow> 'f \<Rightarrow> bool"
  fle :: "'f \<Rightarrow> 'f \<Rightarrow> bool"
  fnum :: "int \<Rightarrow> 'f"
  ftrue :: "'f \<Rightarrow> bool"
  fmt_1f :: "'f \<Rightarrow> pystr"
  fmt_comma :: "'f \<Rightarrow> pystr"
  fmt_sign :: "'f \<Rightarrow> pystr"

text \<open>The texts are \<open>:.1f\<close>, \<open>:,.1f\<close> and \<open>:+.1f\<close>; \<open>ftrue\<close> is the truth value.\<close>

record 'f benchmark =
  bname :: pystr
  transport :: "pystr option"
  protocol :: "pystr option"
  msgs_per_sec :: "'f option"
  p50_latency :: "'f option"
  p99_latency :: "'f option"

record 'f bench_run =
  git_branch :: "pystr option"
  git_commit :: "pystr option"
  rounds :: "int option"
  benchmarks :: "'f benchmark list"

definition get_or :: "'b \<Rightarrow> 'b option \<Rightarrow> 'b" where
  "get_or d x = (case x of None \<Rightarrow> d | Some y \<Rightarrow> y)"

lemma get_or_simps [simp]: "get_or d None = d" "get_or d (Some y) = y"
  by (simp_all add: get_or_def)

definition bench_key :: "'f benchmark \<Rightarrow> pystr" where
  "bench_key b = bname b @ codes ''|'' @ get_or [] (transport b) @ codes ''|'' @ get_or [] (protocol b)"

definition bench_map :: "'f benchmark list \<Rightarrow> (pystr \<times> 'f benchmark) list" where
  "bench_map bs = fold (\<lambda>b. AList.update (bench_key b) b) bs []"

section \<open>The report\<close>

text \<open>The texts outside ASCII: a circle, a rocket, a warning sign, a cross, a check mark, a
  high voltage sign, and the unit.\<close>

definition CIRCLE :: pystr where "CIRCLE = [9898]"
definition ROCKET :: pystr where "ROCKET = [128640]"
definition WARNING :: pystr where "WARNING = [9888, 65039]"
definition CROSS :: pystr where "CROSS = [10060]"
definition CHECK :: pystr where "CHECK = [9989]"
definition VOLTAGE :: pystr where "VOLTAGE = [9889]"
definition US :: pystr where "US = [32, 181, 115]"

definition bold :: "pystr \<Rightarrow> pystr" where
  "bold s = codes ''**'' @ s @ codes ''**''"

definition format_delta :: "'f floats \<Rightarrow> 'f \<Rightarrow> bool \<Rightarrow> pystr \<times> pystr" where
  "format_delta F delta higher_is_better =
     (if fless F (fabs F delta) (fnum F 5)
      then (fmt_sign F delta @ codes ''%'', CIRCLE @ codes '' Neutral'')
      else if (if higher_is_better then fless F (fnum F 0) delta else fless F delta (fnum F 0))
      then (bold (fmt_sign F delta @ codes ''%''),
            ROCKET @ codes '' '' @ bold (codes (if higher_is_better then ''Speedup'' else ''Faster'')))
      else (bold (fmt_sign F delta @ codes ''%''), WARNING @ codes '' '' @ bold (codes ''Regression'')))"

text \<open>One row of a table: the cells between bars.\<close>

definition row :: "pystr list \<Rightarrow> pystr" where
  "row cells = codes ''|'' @ concat (map (\<lambda>c. codes '' '' @ c @ codes '' |'') cells)"

definition ticks :: "pystr \<Rightarrow> pystr" where
  "ticks s = codes ''`'' @ s @ codes ''`''"

text \<open>The loops carry the lines of the report, \<open>has_hard_regression\<close> and \<open>max_regression\<close>.\<close>

type_synonym 'f report = "pystr list \<times> bool \<times> 'f"

definition relative :: "'f floats \<Rightarrow> 'f \<Rightarrow> 'f \<Rightarrow> 'f" where
  "relative F pr base =
     (if fless F (fnum F 0) base then fmul F (fdiv F (fsub F pr base) base) (fnum F 100) else fnum F 0)"

definition py_max :: "'f floats \<Rightarrow> 'f \<Rightarrow> 'f \<Rightarrow> 'f" where
  "py_max F a b = (if fless F a b then b else a)"

definition over :: "'f floats \<Rightarrow> 'f option \<Rightarrow> 'f \<Rightarrow> bool" where
  "over F threshold x =
     (case threshold of None \<Rightarrow> False | Some t \<Rightarrow> ftrue F t \<and> fle F t x)"

definition throughput_step ::
  "'f floats \<Rightarrow> 'f option \<Rightarrow> (pystr \<times> 'f benchmark) list \<Rightarrow> pystr \<times> 'f benchmark \<Rightarrow> 'f report \<Rightarrow> 'f report" where
  "throughput_step F threshold base_map = (\<lambda>(key, b) (lines, failed, worst).
     case msgs_per_sec b of
       None \<Rightarrow> (lines, failed, worst)
     | Some v \<Rightarrow>
         let head = [bold (bname b), ticks (get_or (codes ''-'') (transport b))]
         in (case Option.bind (map_of base_map key) msgs_per_sec of
               Some base \<Rightarrow>
                 let delta = relative F v base;
                     drops = fless F delta (fnum F (- 5));
                     (text, status) = format_delta F delta True
                 in (lines @ [row (head @ [fmt_comma F base, fmt_comma F v, text, status])],
                     failed \<or> drops \<and> over F threshold (fabs F delta),
                     if drops then py_max F worst (fabs F delta) else worst)
             | None \<Rightarrow>
                 (lines @ [row (head @ [codes ''*N/A*'', fmt_comma F v, codes ''*new*'', CIRCLE])],
                  failed, worst)))"

definition latency_step ::
  "'f floats \<Rightarrow> 'f option \<Rightarrow> (pystr \<times> 'f benchmark) list \<Rightarrow> pystr \<times> 'f benchmark \<Rightarrow> 'f report \<Rightarrow> 'f report" where
  "latency_step F threshold base_map = (\<lambda>(key, b) (lines, failed, worst).
     case p50_latency b of
       None \<Rightarrow> (lines, failed, worst)
     | Some v \<Rightarrow>
         let head = [bold (bname b), ticks (get_or (codes ''-'') (transport b))];
             us = (\<lambda>x. fmt_1f F x @ US);
             p99 = (\<lambda>b. get_or (fnum F 0) (p99_latency b))
         in (case map_of base_map key of
               None \<Rightarrow> (lines @ [row (head @ [codes ''*N/A*'', us v, codes ''*N/A*'', us (p99 b), codes ''*new*'', CIRCLE])],
                  failed, worst)
             | Some c \<Rightarrow> (case p50_latency c of
                 None \<Rightarrow> (lines @ [row (head @ [codes ''*N/A*'', us v, codes ''*N/A*'', us (p99 b), codes ''*new*'', CIRCLE])],
                   failed, worst)
               | Some base \<Rightarrow>
                   let delta = relative F v base;
                       grows = fless F (fnum F 5) delta;
                       (text, status) = format_delta F delta False
                   in (lines @ [row (head @ [us base, us v, us (p99 c), us (p99 b), text, status])],
                       failed \<or> grows \<and> over F threshold delta,
                       if grows then py_max F worst delta else worst))))"

definition NL :: pystr where "NL = [10]"

definition bench_commit :: "string \<Rightarrow> 'f bench_run \<Rightarrow> pystr" where
  "bench_commit name r = ticks (get_or (codes name) (git_branch r) @ codes ''@'' @ get_or [] (git_commit r))"

definition report_head :: "'f bench_run \<Rightarrow> 'f bench_run \<Rightarrow> pystr list" where
  "report_head base pr =
     [codes ''## '' @ VOLTAGE @ codes '' pynng Performance Benchmark Report'' @ NL,
      codes ''**Base:** '' @ bench_commit ''base'' base @ codes '' | **PR:** '' @ bench_commit ''pr'' pr
        @ (case rounds pr of None \<Rightarrow> [] | Some n \<Rightarrow> codes '' | **Rounds (best-of):** '' @ ticks (int_str n)) @ NL,
      codes ''### 1. Throughput Benchmarks (Higher is better)'',
      codes ''| Benchmark | Transport | Base msgs/s | PR msgs/s | Delta | Status |'',
      codes ''| :--- | :---: | :---: | :---: | :---: | :---: |'']"

definition latency_head :: "pystr list" where
  "latency_head =
     [NL @ codes ''### 2. Round-Trip Latency Benchmarks (Lower is better)'',
      codes ''| Benchmark | Transport | Base p50 | PR p50 | Base p99 | PR p99 | Delta (p50) | Status |'',
      codes ''| :--- | :---: | :---: | :---: | :---: | :---: | :---: | :---: |'']"

definition verdict :: "'f floats \<Rightarrow> 'f option \<Rightarrow> bool \<Rightarrow> 'f \<Rightarrow> pystr" where
  "verdict F threshold failed worst =
     NL @ codes ''> '' @
     (if failed
      then CROSS @ codes '' **Regression Gate Failed**: A performance drop of '' @ fmt_1f F worst
        @ codes ''% exceeded the allowed threshold of ''
        @ (case threshold of None \<Rightarrow> [] | Some t \<Rightarrow> fmt_1f F t) @ codes ''%.'' @ NL
      else if fle F (fnum F 5) worst
      then WARNING @ codes '' **Notice**: Minor performance variance detected (max regression: ''
        @ fmt_1f F worst @ codes ''%).'' @ NL
      else CHECK @ codes '' **Regression Gate Passed**: No performance regressions detected.'' @ NL)"

definition compare_benchmarks ::
  "'f floats \<Rightarrow> 'f bench_run \<Rightarrow> 'f bench_run \<Rightarrow> 'f option \<Rightarrow> pystr \<times> bool" where
  "compare_benchmarks F base pr threshold =
     (let base_map = bench_map (benchmarks base);
          pr_map = bench_map (benchmarks pr);
          (lines1, failed1, worst1) =
            fold (throughput_step F threshold base_map) pr_map (report_head base pr, False, fnum F 0);
          (lines2, failed, worst) =
            fold (latency_step F threshold base_map) pr_map (lines1 @ latency_head, failed1, worst1)
      in (intersperse 10 (lines2 @ [NL @ codes ''---'', verdict F threshold failed worst]), failed))"

text \<open>\<open>main\<close>: the exit status.\<close>

definition bench_exit :: "'f floats \<Rightarrow> 'f bench_run \<Rightarrow> 'f bench_run \<Rightarrow> 'f option \<Rightarrow> int" where
  "bench_exit F base pr threshold = (if snd (compare_benchmarks F base pr threshold) then 1 else 0)"


section \<open>The gate\<close>

text \<open>Of several benchmarks with the same key the last one counts.\<close>

definition latest :: "'f benchmark list \<Rightarrow> pystr \<Rightarrow> 'f benchmark option" where
  "latest bs k = find (\<lambda>b. bench_key b = k) (rev bs)"

lemma bench_map_ok: "dict_ok (bench_map bs)"
proof -
  have "dict_ok d \<Longrightarrow> dict_ok (fold (\<lambda>b. AList.update (bench_key b) b) bs d)" for d
    by (induction bs arbitrary: d) simp_all
  then show ?thesis by (simp add: bench_map_def)
qed

lemma bench_map_latest: "map_of (bench_map bs) k = latest bs k"
  by (induction bs rule: rev_induct) (simp_all add: bench_map_def latest_def dict_simps)

lemma bench_map_set: "(k, b) \<in> set (bench_map bs) \<longleftrightarrow> latest bs k = Some b"
  using bench_map_ok [of bs] by (simp add: dict_ok_def bench_map_latest [symmetric])

definition slower :: "'f floats \<Rightarrow> 'f option \<Rightarrow> 'f benchmark \<Rightarrow> 'f benchmark \<Rightarrow> bool" where
  "slower F threshold c b =
     (case (msgs_per_sec c, msgs_per_sec b) of
        (Some w, Some v) \<Rightarrow> fless F (relative F v w) (fnum F (- 5)) \<and> over F threshold (fabs F (relative F v w))
      | _ \<Rightarrow> False)"

definition later :: "'f floats \<Rightarrow> 'f option \<Rightarrow> 'f benchmark \<Rightarrow> 'f benchmark \<Rightarrow> bool" where
  "later F threshold c b =
     (case (p50_latency c, p50_latency b) of
        (Some w, Some v) \<Rightarrow> fless F (fnum F 5) (relative F v w) \<and> over F threshold (relative F v w)
      | _ \<Rightarrow> False)"

definition vs_base ::
  "('f benchmark \<Rightarrow> 'f benchmark \<Rightarrow> bool) \<Rightarrow> (pystr \<times> 'f benchmark) list \<Rightarrow> pystr \<times> 'f benchmark \<Rightarrow> bool" where
  "vs_base P m = (\<lambda>(k, b). case map_of m k of None \<Rightarrow> False | Some c \<Rightarrow> P c b)"

lemma throughput_step_failed:
  "fst (snd (throughput_step F t m x r)) \<longleftrightarrow> fst (snd r) \<or> vs_base (slower F t) m x"
  by (cases x; cases r)
    (auto simp: throughput_step_def vs_base_def slower_def Let_def split: option.split prod.split)

lemma latency_step_failed:
  "fst (snd (latency_step F t m x r)) \<longleftrightarrow> fst (snd r) \<or> vs_base (later F t) m x"
  by (cases x; cases r)
    (auto simp: latency_step_def vs_base_def later_def Let_def split: option.split prod.split)

lemma fold_failed:
  assumes "\<And>x r. fst (snd (f x r)) \<longleftrightarrow> fst (snd r) \<or> P x"
  shows "fst (snd (fold f xs r)) \<longleftrightarrow> fst (snd r) \<or> (\<exists>x\<in>set xs. P x)"
  by (induction xs arbitrary: r) (auto simp: assms)

text \<open>
  The gate fails exactly when some benchmark of both runs, the last of its name, transport and protocol in
  each, lost more than five percent and at least the threshold.
\<close>

theorem gate_exact:
  "snd (compare_benchmarks F base pr t) \<longleftrightarrow>
   (\<exists>k b c. latest (benchmarks pr) k = Some b \<and> latest (benchmarks base) k = Some c \<and>
      (slower F t c b \<or> later F t c b))"
proof -
  let ?m = "bench_map (benchmarks base)" and ?p = "bench_map (benchmarks pr)"
  have "snd (compare_benchmarks F base pr t) \<longleftrightarrow>
      (\<exists>x\<in>set ?p. vs_base (slower F t) ?m x) \<or> (\<exists>x\<in>set ?p. vs_base (later F t) ?m x)"
    using fold_failed [of "throughput_step F t ?m" "vs_base (slower F t) ?m" ?p, OF throughput_step_failed]
      fold_failed [of "latency_step F t ?m" "vs_base (later F t) ?m" ?p, OF latency_step_failed]
    by (simp add: compare_benchmarks_def Let_def split_beta)
  also have "\<dots> \<longleftrightarrow> (\<exists>k b c. latest (benchmarks pr) k = Some b \<and> latest (benchmarks base) k = Some c \<and>
      (slower F t c b \<or> later F t c b))"
    by (auto simp: vs_base_def bench_map_set bench_map_latest Bex_def split: option.splits)
  finally show ?thesis .
qed

text \<open>Without a threshold, or with a threshold of zero, the gate never fails.\<close>

lemma gate_open: "(\<And>x. t = Some x \<Longrightarrow> \<not> ftrue F x) \<Longrightarrow> \<not> snd (compare_benchmarks F base pr t)"
  by (auto simp: gate_exact slower_def later_def over_def split: option.splits)

text \<open>
  A threshold below five percent counts as five: with rational arithmetic, a loss of four percent
  passes a gate of three.
\<close>

definition rat_floats :: "rat floats" where
  "rat_floats = \<lparr>fsub = (-), fmul = (*), fdiv = (/), fabs = abs, fless = (<), fle = (\<le>), fnum = of_int,
     ftrue = (\<lambda>x. x \<noteq> 0), fmt_1f = (\<lambda>_. []), fmt_comma = (\<lambda>_. []), fmt_sign = (\<lambda>_. [])\<rparr>"

definition one_bench :: "rat \<Rightarrow> rat bench_run" where
  "one_bench v = \<lparr>git_branch = None, git_commit = None, rounds = None, benchmarks =
     [\<lparr>bname = [], transport = None, protocol = None, msgs_per_sec = Some v, p50_latency = None,
       p99_latency = None\<rparr>]\<rparr>"

lemma gate_below_five:
  "\<not> snd (compare_benchmarks rat_floats (one_bench 100) (one_bench 96) (Some 3))"
  "snd (compare_benchmarks rat_floats (one_bench 100) (one_bench 94) (Some 3))"
  by (auto simp: gate_exact latest_def bench_key_def one_bench_def slower_def later_def over_def relative_def rat_floats_def)

end
