(* ===== verification/Spec2Isabelle.thy ===== *)
theory Spec2Isabelle
  imports Prelude Errors Nng Runtime Message Text SockAddr Options Tls SyncIO Pipes Engine LoopEngine AsyncIO Sockets Devices PyStr Updates Build Service Stats Protocols V2 Streams AsyncApi DeviceLock Objects BenchCompare
begin

text \<open>
  A verification development for pynng, the Python bindings of the nng messaging library.

  \<^bold>\<open>The program.\<close> A \<open>Socket\<close> of a protocol class opens an nng socket, sets its options, registers
  its pipe callbacks and dials or listens. \<open>Message\<close> objects own nng messages until they are sent.
  Synchronous receives are asynchronous nng receives, waited for in slices so that Python's signals get
  through. Asynchronous methods lend an \<open>AIOHelper\<close> from a pool of the socket or context; its
  coroutine waits for a future that the event loop's \<open>MPSCAIOEngine\<close> resolves, after worker threads of nng
  pushed the completed operation into a native queue and woke the loop through a pipe. Events of
  pipes arrive on threads of nng and run the callbacks of the user, or feed a \<open>PipeEventStream\<close>. Contexts,
  devices, TLS configurations, statistics and a request service are built on top. \<^verbatim>\<open>pynng.v2\<close> has the
  same classes over a second copy of nng. Beside the package stand the script that builds the CFFI
  bindings, the script that looks for new nng releases, and the comparison of benchmark runs.

  \<^bold>\<open>How the code is modelled.\<close> A method is a program (theory \<open>Prelude\<close>): a function of
  the state that returns an exception or a result and the new state, with \<open>bnd\<close>, \<open>try_except\<close> and
  \<open>try_finally\<close> for the statements of Python, and \<open>wp\<close>, the weakest precondition that its lemmas are
  stated with. States are records that extend \<open>world\<close>; exceptions are the type \<open>pyexc\<close>. A call of nng goes
  through \<open>ccall\<close> to the argument \<open>L\<close>, an arbitrary function from the calls made so far to a result, and is
  recorded in the field \<open>calls\<close>, so \<open>safe\<close>, which says that no call works on a message its caller does not
  own, is a predicate of the calls alone. Code that other threads, coroutines or callbacks interleave with is an
  inductive step relation, a step being what runs under one lock or between two awaits; \<open>reach\<close> are its
  reachable states. Every loop that may run for ever has fuel, and \<open>None\<close> is a program still in it.

  \<^bold>\<open>The theories\<close>, with the code they model.

  \<^item> \<open>Prelude\<close>: programs, \<open>wp\<close>, step systems, dictionaries, bounded buffers.
  \<^item> \<open>Errors\<close>: \<^verbatim>\<open>pynng/exceptions.py\<close>. \<open>Nng\<close>: the calls of nng, \<open>check_err\<close>,
    the ledger of message owners. \<open>Runtime\<close>: the fork guard, finalisation
    (\<^verbatim>\<open>_base.py\<close>, \<^verbatim>\<open>_finalized.py\<close>, \<^verbatim>\<open>nng.py\<close>).
  \<^item> \<open>Message\<close>: class \<open>Message\<close> of \<^verbatim>\<open>pynng/_base.py\<close>. \<open>Text\<close>: UTF-8, percent
    encoding and numerals. \<open>SockAddr\<close>: \<^verbatim>\<open>pynng/sockaddr.py\<close>.
  \<^item> \<open>Options\<close>: \<^verbatim>\<open>pynng/options.py\<close> and the option descriptors. \<open>Tls\<close>:
    \<^verbatim>\<open>pynng/tls.py\<close>.
  \<^item> \<open>SyncIO\<close>: \<open>_sliced_aio_recv\<close> and the synchronous methods of sockets, contexts and pipes.
  \<^item> \<open>Pipes\<close>: \<open>_handle_pipe_event\<close>, \<open>_do_callbacks\<close> and the callback lists. \<open>Streams\<close>:
    \<open>PipeEventStream\<close>.
  \<^item> \<open>Engine\<close>: \<^verbatim>\<open>src/aio_engine.h\<close>. \<open>LoopEngine\<close>: \<open>MPSCAIOEngine\<close>.
    \<open>AsyncIO\<close>: \<open>AIOHelper\<close>. \<open>AsyncApi\<close>: the pools of helpers and the asynchronous methods.
  \<^item> \<open>Sockets\<close>: creation, dialing, closing and the registry of sockets, contexts and endpoints.
    \<open>Devices\<close>, \<open>DeviceLock\<close>: devices, \<open>DeviceAIO\<close> and their lock. \<open>Objects\<close>: context managers, ids,
    C callbacks.
  \<^item> \<open>Protocols\<close>: the protocol classes, subscriptions and surveys. \<open>V2\<close>:
    \<^verbatim>\<open>pynng/v2/nng.py\<close>. \<open>Service\<close>: \<^verbatim>\<open>pynng/service.py\<close>. \<open>Stats\<close>:
    \<^verbatim>\<open>pynng/stats.py\<close>.
  \<^item> \<open>PyStr\<close>: Python's string methods and regular expressions. \<open>Build\<close>:
    \<^verbatim>\<open>build_pynng.py\<close>. \<open>Updates\<close>: \<^verbatim>\<open>scripts/check_nng_updates.py\<close>.
    \<open>BenchCompare\<close>: \<^verbatim>\<open>benchmarks/compare.py\<close>.

  \<^bold>\<open>What is shown.\<close>

  \<^item> Memory: no run of the synchronous or asynchronous message methods works on a message that was sent or
    freed, whatever nng answers and wherever an exception is raised. The native queue never touches freed
    memory, and a close only asks nng for what still exists. Two lemmas show the exceptions:
    a pipe set on a message that was sent, and a coroutine that is dropped while it sends.
  \<^item> Delivery: the ring buffer refines a list, a notification resolves exactly the futures of completed
    operations, no wake-up is lost, events reach their callbacks and streams in order and once, replies reach the
    peer that asked, surveys return what arrived in time.
  \<^item> Life cycles: callbacks are registered before the first connection, endpoints are secured before they
    start, the registry and the pipe table are exact, closing ends everything once, helpers in a pool are
    at rest, the timeouts of a socket and snapshots are given back, the device lock is not entered twice.
  \<^item> Ends: \<open>register\<close> finds a slot, the native loops terminate, an asynchronous operation and a copied
    snapshot end, waiting readers of a closed stream are released.
  \<^item> Texts and data: round trips of messages and addresses, well-typed statistics, and the scripts compared
    with references: the release chosen, the announcement made once, the directory found, the caches that
    do not show, the gate of the benchmarks.

  \<^bold>\<open>Interfaces.\<close> \<open>step_invariant\<close> is the contract of a step relation with its invariant,
  interpreted for the step systems of the message methods, the dispatcher, the streams, the wake-ups, the
  engines of a process, the helpers and their pools, the registry, devices and their lock, and services. \<open>fifo\<close> is the queue that
  the operations of the engine use, interpreted by its ring buffer. \<open>chunk_codec\<close> and \<open>strict_codec\<close> are
  interpreted by UTF-8 and percent encoding. \<open>stable\<close> and \<open>aio_op\<close> say which facts survive a wait, and are
  interpreted by the receive and the send of a helper.

  \<^bold>\<open>Fuel and bounds.\<close> A receive gets the number of its slices, a wait under asyncio the number of
  times its coroutine is woken, a survey the number of its responses: nng decides them, so nothing is claimed when the
  fuel runs out except what holds of every prefix, and one wait more than the cancellations is proved to be
  enough. The search for a slot needs one try more than there are waiting futures (fewer than \<open>2^31 - 1\<close>),
  a notification one turn more than there are queued entries, the copy of a snapshot its depth and width
  (\<open>fuel_for\<close>). Slot ids are 31 bits, ring sizes and reference counts as in the C code; a pool holds 32 helpers,
  a socket remembers 1024 removed pipes.

  \<^bold>\<open>What is assumed of nng.\<close> Where a property needs it, and named there: messages it hands out
  are new (\<open>fresh_lib\<close>), a receive that succeeded has a message (\<open>recv_lib\<close>), a failed send gives back
  the message it was given or none (\<open>returns_unsent\<close>), the event loop interrupts a wait with a cancellation only
  (\<open>async_lib\<close>) and a wait in a trio thread not at all (\<open>never_cancels\<close>), and operations finish (\<open>settles_by\<close>).
  Each has a library that satisfies it.

  \<^bold>\<open>Not modelled.\<close> nng and mbedtls, the event loops, \<open>headerkit\<close> and \<open>packaging\<close>, which are
  not in the repository: they are parameters. The CFFI modules and their declarations, which are generated. Printing,
  logging, warnings and argument parsers. The import code of \<^verbatim>\<open>pynng/__init__.py\<close> and
  \<^verbatim>\<open>pynng/v2/__init__.py\<close>; the suite \<^verbatim>\<open>benchmarks/bench.py\<close>, which times the methods
  modelled here with the clock; \<^verbatim>\<open>docs/conf.py\<close>, examples and tests; the CMake files. In \<open>AsyncApi\<close>
  an object is used from one event loop and one operation ends before the next begins; its parallel use of the
  pools is in \<open>Sockets\<close>. Python's garbage collector is modelled where it runs finalizers (\<open>msg_del\<close>, the
  finalizer of \<open>DeviceAIO\<close>), not as an algorithm.
\<close>

end
